(* ===== verification/Prelude.thy ===== *)
theory Prelude imports Main "HOL-Library.Word" "HOL-Library.Signed_Division" "HOL-Library.Code_Target_Nat" begin

text \<open>
  Shared vocabulary of the development: names for machine integers and byte strings, the
  little-endian memory image of an integer (the code writes integers to streams and hashes
  with a raw copy of their memory, on a little-endian machine), results that are an error
  or a value, readers that consume a byte stream, and the generic lemmas on lists and words
  the component theories rewrite with.
\<close>

unbundle bit_operations_syntax

type_synonym byte = "8 word"
type_synonym u16 = "16 word"
type_synonym u32 = "32 word"
type_synonym u64 = "64 word"
type_synonym bytes = "8 word list"
type_synonym u256 = "256 word"

named_theorems bytes_simps \<open>lengths and inverses of byte encodings\<close>
named_theorems reader_simps \<open>evaluation of stream readers\<close>

section \<open>Little-endian images\<close>

lemma unat_lt2p: "unat (w :: 'a::len word) < 2 ^ LENGTH('a)"
  by (rule unsigned_less)

lemma bit_word_of_nat_iff:
  "bit (of_nat m :: 'a::len word) n \<longleftrightarrow> n < LENGTH('a) \<and> bit m n"
proof -
  have "bit (unat (of_nat m :: 'a word)) n \<longleftrightarrow> n < LENGTH('a) \<and> bit m n"
    by (simp add: unsigned_of_nat bit_take_bit_iff)
  then show ?thesis by (simp add: bit_unsigned_iff)
qed

lemma or_shift_nat: "m < 2 ^ k \<Longrightarrow> m OR push_bit k s = m + 2 ^ k * (s :: nat)"
proof -
  assume m: "m < 2 ^ k"
  have "m AND push_bit k s = 0"
  proof (rule bit_eqI)
    fix i
    have "\<not> (bit m i \<and> i \<ge> k)"
      using m by (metis bit_take_bit_iff linorder_not_less take_bit_nat_eq_self)
    then show "bit (m AND push_bit k s) i = bit (0 :: nat) i"
      by (auto simp: bit_and_iff bit_push_bit_iff)
  qed
  then show ?thesis by (simp add: disjunctive_add_eq_or [symmetric] push_bit_eq_mult mult.commute)
qed

lemma uint_eq_sint: "0 \<le> sint (w :: 'a::len word) \<Longrightarrow> uint w = sint w"
proof -
  assume "0 \<le> sint w"
  moreover have "(2 :: int) ^ (LENGTH('a) - 1) \<le> 2 ^ LENGTH('a)" by (intro power_increasing) auto
  then have "sint w < 2 ^ LENGTH('a)" using sint_lt [of w] by linarith
  ultimately show ?thesis by (simp add: uint_sint take_bit_int_eq_self)
qed

lemma sint_eq_uint: "uint (w :: 'a::len word) < 2 ^ (LENGTH('a) - 1) \<Longrightarrow> sint w = uint w"
  using order_trans [of "- (2 ^ (LENGTH('a) - 1))" 0 "uint w"]
  by (simp add: sint_uint signed_take_bit_int_eq_self)

fun nat_le :: "nat \<Rightarrow> nat \<Rightarrow> bytes" where
  "nat_le 0 x = []"
| "nat_le (Suc n) x = of_nat x # nat_le n (x div 256)"

fun le_nat :: "bytes \<Rightarrow> nat" where
  "le_nat [] = 0"
| "le_nat (b # bs) = unat b + 256 * le_nat bs"

definition le_bytes :: "'a::len word \<Rightarrow> bytes" where
  "le_bytes w = nat_le (LENGTH('a) div 8) (unat w)"

definition le_word :: "bytes \<Rightarrow> 'a::len word" where
  "le_word bs = of_nat (le_nat bs)"

lemma length_nat_le [simp, bytes_simps]: "length (nat_le n x) = n"
  by (induction n arbitrary: x) auto

lemma length_le_bytes [simp, bytes_simps]: "length (le_bytes (w :: 'a::len word)) = LENGTH('a) div 8"
  by (simp add: le_bytes_def)

lemma unat_byte_of_nat: "unat (of_nat x :: byte) = x mod 256"
  by (simp add: unat_of_nat)

lemma le_nat_nat_le: "le_nat (nat_le n x) = x mod 256 ^ n"
proof (induction n arbitrary: x)
  case 0
  show ?case by simp
next
  case (Suc n)
  have "x mod 256 + 256 * (x div 256 mod 256 ^ n) = x mod (256 * 256 ^ n)"
    by (simp add: mod_mult2_eq)
  then show ?case by (simp add: Suc unat_byte_of_nat)
qed

lemma le_nat_bound: "le_nat bs < 256 ^ length bs"
proof (induction bs)
  case Nil
  show ?case by simp
next
  case (Cons b bs)
  have "unat b < 256" using unat_lt2p [of b] by simp
  with Cons show ?case by simp
qed

lemma nat_le_le_nat: "nat_le (length bs) (le_nat bs) = bs"
proof (induction bs)
  case Nil
  show ?case by simp
next
  case (Cons b bs)
  have b: "unat b < 256" using unat_lt2p [of b] by simp
  have hd: "of_nat (unat b + 256 * le_nat bs) = b"
    unfolding word_unat_eq_iff unat_byte_of_nat using b by simp
  have tl: "(unat b + 256 * le_nat bs) div 256 = le_nat bs"
    using b by simp
  show ?case using Cons hd tl by simp
qed

lemma le_nat_append: "le_nat (xs @ ys) = le_nat xs + 256 ^ length xs * le_nat ys"
  by (induction xs) (auto simp: algebra_simps)

lemma nat_le_append: "nat_le (m + n) x = nat_le m x @ nat_le n (x div 256 ^ m)"
  by (induction m arbitrary: x) (auto simp: div_mult2_eq)

lemma pow256_width:
  assumes "8 dvd LENGTH('a::len)"
  shows "(256 :: nat) ^ (LENGTH('a) div 8) = 2 ^ LENGTH('a)"
proof -
  obtain k where k: "LENGTH('a) = 8 * k" using assms by (auto elim: dvdE)
  have "(256 :: nat) = 2 ^ 8" by simp
  then show ?thesis by (simp only: k power_mult [symmetric]) simp
qed

lemma le_word_le_bytes:
  assumes "8 dvd LENGTH('a::len)"
  shows "le_word (le_bytes (w :: 'a word)) = w"
  by (simp add: le_word_def le_bytes_def le_nat_nat_le pow256_width [OF assms] unat_lt2p)

lemma le_word_le_bytes_inst [simp, bytes_simps]:
  "le_word (le_bytes (a :: 8 word)) = a" "le_word (le_bytes (b :: 16 word)) = b"
  "le_word (le_bytes (c :: 32 word)) = c" "le_word (le_bytes (d :: 64 word)) = d"
  "le_word (le_bytes (e :: 160 word)) = e" "le_word (le_bytes (f :: 256 word)) = f"
  by (simp_all add: le_word_le_bytes)

lemma le_bytes_le_word:
  assumes "8 dvd LENGTH('a::len)" "length bs = LENGTH('a) div 8"
  shows "le_bytes (le_word bs :: 'a word) = bs"
proof -
  have "le_nat bs < 2 ^ LENGTH('a)"
    using le_nat_bound [of bs] assms pow256_width [OF assms(1)] by simp
  then have "unat (of_nat (le_nat bs) :: 'a word) = le_nat bs"
    by (simp add: unat_of_nat)
  then show ?thesis
    using nat_le_le_nat [of bs] assms(2) by (simp add: le_bytes_def le_word_def)
qed

lemma le_bytes_inj: "8 dvd LENGTH('a::len) \<Longrightarrow> le_bytes (a :: 'a word) = le_bytes b \<Longrightarrow> a = b"
  by (metis le_word_le_bytes)

text \<open>Code equations over \<open>int\<close>: the defining ones count down a unary \<open>nat\<close>.\<close>

fun int_le :: "nat \<Rightarrow> int \<Rightarrow> bytes" where
  "int_le 0 k = []"
| "int_le (Suc n) k = word_of_int (take_bit 8 k) # int_le n (drop_bit 8 k)"

lemma byte_of_take_bit: "(of_nat x :: byte) = word_of_int (take_bit 8 (int x))"
  by (rule word_uint_eqI) (simp add: uint_word_of_int take_bit_eq_mod zmod_int unsigned_of_nat)

lemma nat_le_int_le: "nat_le n x = int_le n (int x)"
  by (induction n arbitrary: x) (simp_all add: byte_of_take_bit drop_bit_eq_div zdiv_int)

lemma le_bytes_code [code]: "le_bytes (w :: 'a::len word) = int_le (LENGTH('a) div 8) (uint w)"
  unfolding le_bytes_def nat_le_int_le by simp

lemma le_word_code [code]:
  "le_word bs = (word_of_int (foldr (\<lambda>b k. uint b + 256 * k) bs 0) :: 'a::len word)"
proof (induction bs)
  case (Cons b bs)
  have "le_word (b # bs) = (word_of_int (uint b) + 256 * le_word bs :: 'a word)"
    by (simp add: le_word_def unsigned_ucast_eq flip: ucast_eq)
  with Cons show ?case by simp
qed (simp add: le_word_def)

lemma take_bit_int_code [code]:
  "take_bit n (0 :: int) = 0"
  "take_bit n (Int.Pos m) = (case take_bit_num n m of None \<Rightarrow> 0 | Some q \<Rightarrow> Int.Pos q)"
  "take_bit n (Int.Neg m) = (- numeral m) mod 2 ^ n"
  by (simp_all add: take_bit_eq_mod [symmetric] take_bit_num_eq_None_imp take_bit_num_eq_Some_imp split: option.split)

section \<open>C's division\<close>

lemma smod_nonneg: "0 \<le> (k :: int) \<Longrightarrow> 0 < m \<Longrightarrow> k smod m = k mod m"
  by (cases "k = 0") (simp_all add: signed_modulo_int_def)

lemma sdiv_nonneg: "0 \<le> (k :: int) \<Longrightarrow> 0 < m \<Longrightarrow> k sdiv m = k div m"
  by (cases "k = 0") (simp_all add: signed_divide_int_def)

section \<open>Results and readers\<close>

text \<open>A C++ exception thrown while reading a stream, by its message. \<open>NoProgress\<close> is the
  value of a read loop whose step is zero: the code would never return from it.\<close>

datatype ser_error =
    EndOfData
  | NonCanonicalSize
  | SizeTooLarge
  | StringLimit
  | PastBufferLimit
  | LargerThanBuffer
  | NoProgress

type_synonym 'a reader = "bytes \<Rightarrow> ser_error + ('a \<times> bytes)"

definition rd_return :: "'a \<Rightarrow> 'a reader" where
  "rd_return x s = Inr (x, s)"

definition rd_fail :: "ser_error \<Rightarrow> 'a reader" where
  "rd_fail e s = Inl e"

definition rd_bind :: "'a reader \<Rightarrow> ('a \<Rightarrow> 'b reader) \<Rightarrow> 'b reader" where
  "rd_bind m f s = (case m s of Inl e \<Rightarrow> Inl e | Inr (x, s') \<Rightarrow> f x s')"

lemma rd_return_simp [simp, reader_simps]: "rd_return x s = Inr (x, s)"
  by (simp add: rd_return_def)

lemma rd_fail_simp [simp, reader_simps]: "rd_fail e s = Inl e"
  by (simp add: rd_fail_def)

lemma rd_bind_Inr [reader_simps]: "m s = Inr (x, s') \<Longrightarrow> rd_bind m f s = f x s'"
  by (simp add: rd_bind_def)

lemma rd_bind_Inl [reader_simps]: "m s = Inl e \<Longrightarrow> rd_bind m f s = Inl e"
  by (simp add: rd_bind_def)

lemma rd_bind_eq_Inr: "rd_bind m f s = Inr r \<longleftrightarrow> (\<exists>x s'. m s = Inr (x, s') \<and> f x s' = Inr r)"
  by (auto simp: rd_bind_def split: sum.splits prod.splits)

lemma rd_bind_cong: "(\<And>x t. f x t = g x t) \<Longrightarrow> rd_bind m f = rd_bind m g"
  by (rule ext) (simp add: rd_bind_def split: sum.split prod.split)

lemma rd_bind_return [simp]: "rd_bind (rd_return x) f = f x"
  by (rule ext) (simp add: rd_bind_def)

lemma rd_bind_if: "rd_bind (if c then m else m') f = (if c then rd_bind m f else rd_bind m' f)"
  by simp

section \<open>Lists\<close>

lemma nth_zip_split: "i < length xs \<Longrightarrow> i < length ys \<Longrightarrow> zip xs ys ! i = (xs ! i, ys ! i)"
  by simp

lemma list_all_zip_eq: "length xs = length ys \<Longrightarrow> list_all (\<lambda>(x, y). x = y) (zip xs ys) \<longleftrightarrow> xs = ys"
  by (induction xs ys rule: list_induct2) auto

lemma take_append_exact: "length xs = n \<Longrightarrow> take n (xs @ ys) = xs"
  by simp

lemma drop_append_exact: "length xs = n \<Longrightarrow> drop n (xs @ ys) = ys"
  by simp

end
