(* ===== verification/Uint256.thy ===== *)
theory Uint256 imports Main Prelude begin

text \<open>
  The fixed-width integers of \<open>src/src/uint256.h\<close>: \<open>base_uint<BITS>\<close> is an array \<open>pn\<close> of
  \<open>WIDTH = BITS/32\<close> limbs, least significant first, modelled as the list of its limbs; the
  width is the length of the list. Every operation is the code's loop over the limbs. The
  abstraction \<open>bu_val\<close> reads the limbs as one natural number, and each operation is shown to
  refine the arithmetic modulo \<open>2 ^ BITS\<close> it stands for. Other theories use 256-bit words
  for \<open>uint256\<close> values; \<open>bu_val\<close> is the link between the two.
\<close>

unbundle bit_operations_syntax

type_synonym base_uint = "u32 list"

fun bu_val :: "base_uint \<Rightarrow> nat" where
  "bu_val [] = 0"
| "bu_val (p # ps) = unat p + 2 ^ 32 * bu_val ps"

section \<open>Operations\<close>

text \<open>\<open>operator!\<close>, \<open>operator~\<close>, \<open>SetNull\<close>, assignment from \<open>uint64\<close>, the bitwise updates.\<close>

definition bu_not :: "base_uint \<Rightarrow> bool" where
  "bu_not pn = list_all (\<lambda>p. p = 0) pn"

definition bu_compl :: "base_uint \<Rightarrow> base_uint" where
  "bu_compl pn = map (\<lambda>p. NOT p) pn"

definition bu_SetNull :: "base_uint \<Rightarrow> base_uint" where
  "bu_SetNull pn = map (\<lambda>_. 0) pn"

definition bu_of_u64 :: "nat \<Rightarrow> u64 \<Rightarrow> base_uint" where
  "bu_of_u64 WIDTH b = ucast b # ucast (drop_bit 32 b) # replicate (WIDTH - 2) 0"

definition bu_xor :: "base_uint \<Rightarrow> base_uint \<Rightarrow> base_uint" where
  "bu_xor pn b = map2 (XOR) pn b"

definition bu_and :: "base_uint \<Rightarrow> base_uint \<Rightarrow> base_uint" where
  "bu_and pn b = map2 (AND) pn b"

definition bu_or :: "base_uint \<Rightarrow> base_uint \<Rightarrow> base_uint" where
  "bu_or pn b = map2 (OR) pn b"

definition bu_xor_u64 :: "base_uint \<Rightarrow> u64 \<Rightarrow> base_uint" where
  "bu_xor_u64 pn b = pn[0 := pn ! 0 XOR ucast b, 1 := pn ! 1 XOR ucast (drop_bit 32 b)]"

definition bu_or_u64 :: "base_uint \<Rightarrow> u64 \<Rightarrow> base_uint" where
  "bu_or_u64 pn b = pn[0 := pn ! 0 OR ucast b, 1 := pn ! 1 OR ucast (drop_bit 32 b)]"

text \<open>\<open>operator<<=\<close> and \<open>operator>>=\<close>: one step of the loop for limb \<open>i\<close>, then the loop.\<close>

definition shl_step :: "base_uint \<Rightarrow> nat \<Rightarrow> nat \<Rightarrow> nat \<Rightarrow> base_uint \<Rightarrow> base_uint" where
  "shl_step a k s i pn =
     (let pn = (if i + k + 1 < length a \<and> s \<noteq> 0
                then pn[i + k + 1 := pn ! (i + k + 1) OR drop_bit (32 - s) (a ! i)] else pn)
      in if i + k < length a then pn[i + k := pn ! (i + k) OR push_bit s (a ! i)] else pn)"

definition bu_shl :: "base_uint \<Rightarrow> nat \<Rightarrow> base_uint" where
  "bu_shl a shift =
     fold (shl_step a (shift div 32) (shift mod 32)) [0..<length a] (replicate (length a) 0)"

definition shr_step :: "base_uint \<Rightarrow> nat \<Rightarrow> nat \<Rightarrow> nat \<Rightarrow> base_uint \<Rightarrow> base_uint" where
  "shr_step a k s i pn =
     (let pn = (if k + 1 \<le> i \<and> s \<noteq> 0
                then pn[i - k - 1 := pn ! (i - k - 1) OR push_bit (32 - s) (a ! i)] else pn)
      in if k \<le> i then pn[i - k := pn ! (i - k) OR drop_bit s (a ! i)] else pn)"

definition bu_shr :: "base_uint \<Rightarrow> nat \<Rightarrow> base_uint" where
  "bu_shr a shift =
     fold (shr_step a (shift div 32) (shift mod 32)) [0..<length a] (replicate (length a) 0)"

text \<open>\<open>operator+=\<close> with its 64-bit carry, \<open>++\<close> and \<open>--\<close>, unary and binary minus.\<close>

fun add_loop :: "u64 \<Rightarrow> base_uint \<Rightarrow> base_uint \<Rightarrow> base_uint" where
  "add_loop carry (p # ps) (q # qs) =
     (let n = carry + ucast p + ucast q
      in ucast (n AND 0xffffffff) # add_loop (drop_bit 32 n) ps qs)"
| "add_loop carry _ _ = []"

definition bu_add :: "base_uint \<Rightarrow> base_uint \<Rightarrow> base_uint" where
  "bu_add pn b = add_loop 0 pn b"

fun bu_inc :: "base_uint \<Rightarrow> base_uint" where
  "bu_inc [] = []"
| "bu_inc [p] = [p + 1]"
| "bu_inc (p # q # ps) = (if p + 1 = 0 then (p + 1) # bu_inc (q # ps) else (p + 1) # q # ps)"

fun bu_dec :: "base_uint \<Rightarrow> base_uint" where
  "bu_dec [] = []"
| "bu_dec [p] = [p - 1]"
| "bu_dec (p # q # ps) = (if p - 1 = 0xffffffff then (p - 1) # bu_dec (q # ps) else (p - 1) # q # ps)"

definition bu_neg :: "base_uint \<Rightarrow> base_uint" where
  "bu_neg pn = bu_inc (map (\<lambda>p. NOT p) pn)"

definition bu_sub :: "base_uint \<Rightarrow> base_uint \<Rightarrow> base_uint" where
  "bu_sub pn b = bu_add pn (bu_neg b)"

definition bu_add_u64 :: "base_uint \<Rightarrow> u64 \<Rightarrow> base_uint" where
  "bu_add_u64 pn b64 = bu_add pn (bu_of_u64 (length pn) b64)"

definition bu_sub_u64 :: "base_uint \<Rightarrow> u64 \<Rightarrow> base_uint" where
  "bu_sub_u64 pn b64 = bu_add pn (bu_neg (bu_of_u64 (length pn) b64))"

text \<open>The comparisons scan from the most significant limb, as the code does.\<close>

fun lt_scan :: "(u32 \<times> u32) list \<Rightarrow> bool" where
  "lt_scan [] = False"
| "lt_scan ((a, b) # r) = (if a < b then True else if a > b then False else lt_scan r)"

fun le_scan :: "(u32 \<times> u32) list \<Rightarrow> bool" where
  "le_scan [] = True"
| "le_scan ((a, b) # r) = (if a < b then True else if a > b then False else le_scan r)"

fun gt_scan :: "(u32 \<times> u32) list \<Rightarrow> bool" where
  "gt_scan [] = False"
| "gt_scan ((a, b) # r) = (if a > b then True else if a < b then False else gt_scan r)"

fun ge_scan :: "(u32 \<times> u32) list \<Rightarrow> bool" where
  "ge_scan [] = True"
| "ge_scan ((a, b) # r) = (if a > b then True else if a < b then False else ge_scan r)"

definition bu_less :: "base_uint \<Rightarrow> base_uint \<Rightarrow> bool" where
  "bu_less a b = lt_scan (rev (zip a b))"

definition bu_le :: "base_uint \<Rightarrow> base_uint \<Rightarrow> bool" where
  "bu_le a b = le_scan (rev (zip a b))"

definition bu_gt :: "base_uint \<Rightarrow> base_uint \<Rightarrow> bool" where
  "bu_gt a b = gt_scan (rev (zip a b))"

definition bu_ge :: "base_uint \<Rightarrow> base_uint \<Rightarrow> bool" where
  "bu_ge a b = ge_scan (rev (zip a b))"

definition bu_eq :: "base_uint \<Rightarrow> base_uint \<Rightarrow> bool" where
  "bu_eq a b = list_all (\<lambda>(x, y). \<not> (x \<noteq> y)) (zip a b)"

definition bu_eq_u64 :: "base_uint \<Rightarrow> u64 \<Rightarrow> bool" where
  "bu_eq_u64 a b =
     (if a ! 0 \<noteq> ucast b then False
      else if a ! 1 \<noteq> ucast (drop_bit 32 b) then False
      else list_all (\<lambda>p. \<not> (p \<noteq> 0)) (drop 2 a))"

text \<open>The bytes of the array in memory, which \<open>Serialize\<close>, \<open>begin\<close> and \<open>GetHex\<close> read.\<close>

definition bu_bytes :: "base_uint \<Rightarrow> bytes" where
  "bu_bytes pn = concat (map le_bytes pn)"

definition bu_Get64 :: "base_uint \<Rightarrow> nat \<Rightarrow> u64" where
  "bu_Get64 pn n = ucast (pn ! (2 * n)) OR push_bit 32 (ucast (pn ! (2 * n + 1)))"

section \<open>Value and bits\<close>

lemma bu_val_bound: "bu_val pn < 2 ^ (32 * length pn)"
proof (induction pn)
  case Nil
  show ?case by simp
next
  case (Cons p ps)
  have "unat p < 2 ^ 32" using unat_lt2p [of p] by simp
  moreover have "bu_val ps + 1 \<le> 2 ^ (32 * length ps)" using Cons by simp
  then have "2 ^ 32 * (bu_val ps + 1) \<le> 2 ^ 32 * 2 ^ (32 * length ps)" by (rule mult_le_mono2)
  ultimately show ?case by (simp add: power_add)
qed

lemma bit_low_high:
  assumes "a < (2 :: nat) ^ k"
  shows "bit (a + 2 ^ k * b) n \<longleftrightarrow> (if n < k then bit a n else bit b (n - k))"
proof -
  have lo: "take_bit k (a + 2 ^ k * b) = a" using assms by (simp add: take_bit_eq_mod)
  have hi: "drop_bit k (a + 2 ^ k * b) = b" using assms by (simp add: drop_bit_eq_div)
  show ?thesis
  proof (cases "n < k")
    case True
    then have "bit (a + 2 ^ k * b) n = bit (take_bit k (a + 2 ^ k * b)) n"
      by (simp only: bit_take_bit_iff simp_thms)
    then show ?thesis using True lo by simp
  next
    case False
    then have "bit (a + 2 ^ k * b) n = bit (drop_bit k (a + 2 ^ k * b)) (n - k)"
      by (simp only: bit_drop_bit_eq comp_apply) simp
    then show ?thesis using False hi by simp
  qed
qed

lemma bit_bu_val: "bit (bu_val pn) n \<longleftrightarrow> n div 32 < length pn \<and> bit (pn ! (n div 32)) (n mod 32)"
proof (induction pn arbitrary: n)
  case Nil
  show ?case by simp
next
  case (Cons p ps)
  have "unat p < 2 ^ 32" using unat_lt2p [of p] by simp
  then have *: "bit (bu_val (p # ps)) n = (if n < 32 then bit (unat p) n else bit (bu_val ps) (n - 32))"
    using bit_low_high [of "unat p" 32 "bu_val ps" n] by simp
  show ?case
  proof (cases "n < 32")
    case True
    then show ?thesis using * by (simp add: bit_unsigned_iff)
  next
    case False
    then obtain m where "n = m + 32" by (metis le_add_diff_inverse2 not_less)
    moreover have "(m + 32) div 32 = Suc (m div 32)" by simp
    ultimately show ?thesis using * Cons.IH [of m] by simp
  qed
qed

lemma bu_val_eq_bits:
  "length a = length b \<Longrightarrow> bu_val a = bu_val b \<Longrightarrow> a = b"
proof (induction a b rule: list_induct2)
  case Nil
  show ?case by simp
next
  case (Cons p ps q qs)
  have p: "unat p < 2 ^ 32" and q: "unat q < 2 ^ 32"
    using unat_lt2p [of p] unat_lt2p [of q] by simp_all
  from Cons.prems have e: "unat p + 2 ^ 32 * bu_val ps = unat q + 2 ^ 32 * bu_val qs" by simp
  have "unat p = (unat p + 2 ^ 32 * bu_val ps) mod 2 ^ 32" using p by simp
  also have "\<dots> = unat q" unfolding e using q by simp
  finally have "unat p = unat q" .
  then have "p = q" and "bu_val ps = bu_val qs" using e by (simp_all add: word_unat_eq_iff)
  then show ?case using Cons.IH by simp
qed

section \<open>Addition, complement, negation, subtraction\<close>

lemma add_limb:
  fixes p q :: u32 and carry :: u64
  assumes "unat carry \<le> 1"
  defines "n \<equiv> carry + ucast p + ucast q"
  shows "unat n = unat carry + unat p + unat q"
    and "unat (ucast (n AND 0xffffffff) :: u32) = unat n mod 2 ^ 32"
    and "unat (drop_bit 32 n) = unat n div 2 ^ 32"
    and "unat (drop_bit 32 n) \<le> 1"
proof -
  have p: "unat p < 2 ^ 32" and q: "unat q < 2 ^ 32"
    using unat_lt2p [of p] unat_lt2p [of q] by simp_all
  have up: "unat (ucast p :: u64) = unat p" and uq: "unat (ucast q :: u64) = unat q"
    using p q by (simp_all add: unsigned_ucast_eq take_bit_eq_mod)
  show n: "unat n = unat carry + unat p + unat q"
    unfolding n_def unat_word_ariths up uq using assms(1) p q by simp
  have "n AND 0xffffffff = take_bit 32 n"
    by (simp add: take_bit_eq_mask mask_eq_exp_minus_1)
  then have "unat (ucast (n AND 0xffffffff) :: u32) = take_bit 32 (take_bit 32 (unat n))"
    by (simp add: unsigned_ucast_eq unsigned_take_bit_eq)
  then show "unat (ucast (n AND 0xffffffff) :: u32) = unat n mod 2 ^ 32"
    by (simp add: take_bit_eq_mod)
  show d: "unat (drop_bit 32 n) = unat n div 2 ^ 32"
    unfolding unat_drop_bit_eq by (rule drop_bit_eq_div)
  show "unat (drop_bit 32 n) \<le> 1"
    unfolding d n using assms(1) p q by simp
qed

lemma length_add_loop [simp]: "length (add_loop c a b) = min (length a) (length b)"
  by (induction c a b rule: add_loop.induct) (auto simp: Let_def)

lemma add_loop_val:
  "length a = length b \<Longrightarrow> unat c \<le> 1 \<Longrightarrow>
   bu_val (add_loop c a b) = (unat c + bu_val a + bu_val b) mod 2 ^ (32 * length a)"
proof (induction a b arbitrary: c rule: list_induct2)
  case Nil
  then show ?case by simp
next
  case (Cons p ps q qs)
  define n where "n = c + ucast p + ucast q"
  note limb = add_limb [OF Cons.prems, of p q, folded n_def]
  have IH: "bu_val (add_loop (drop_bit 32 n) ps qs)
      = (unat n div 2 ^ 32 + bu_val ps + bu_val qs) mod 2 ^ (32 * length ps)"
    using Cons.IH [OF limb(4)] limb(3) by simp
  have sum: "unat c + bu_val (p # ps) + bu_val (q # qs)
      = unat n mod 2 ^ 32 + 2 ^ 32 * (unat n div 2 ^ 32 + bu_val ps + bu_val qs)"
    using limb(1) mod_mult_div_eq [of "unat n" "2 ^ 32"] unfolding bu_val.simps
    by (simp add: algebra_simps)
  have carry: "(unat n mod 2 ^ 32 + 2 ^ 32 * k) mod 2 ^ (32 * length (p # ps))
      = unat n mod 2 ^ 32 + 2 ^ 32 * (k mod 2 ^ (32 * length ps))" for k
  proof -
    have e: "(2 :: nat) ^ (32 * length (p # ps)) = 2 ^ 32 * 2 ^ (32 * length ps)"
      by (simp add: power_add)
    show ?thesis unfolding e mod_mult2_eq by simp
  qed
  have "bu_val (add_loop c (p # ps) (q # qs))
      = unat n mod 2 ^ 32 + 2 ^ 32 * bu_val (add_loop (drop_bit 32 n) ps qs)"
    using limb(2) by (simp add: Let_def n_def [symmetric])
  then show ?case unfolding IH sum carry .
qed

lemma bu_add_val:
  "length a = length b \<Longrightarrow> bu_val (bu_add a b) = (bu_val a + bu_val b) mod 2 ^ (32 * length a)"
  by (simp add: bu_add_def add_loop_val)

lemma length_bu_add [simp]: "length (bu_add a b) = min (length a) (length b)"
  by (simp add: bu_add_def)

lemma unat_not_u32: "unat (NOT (p :: u32)) = 2 ^ 32 - 1 - unat p"
proof -
  have "NOT p = - 1 - p" by (simp add: not_eq_complement)
  moreover have "unat (- 1 - p) = unat (- 1 :: u32) - unat p"
    by (rule unat_sub) (simp add: word_le_nat_alt [symmetric])
  ultimately show ?thesis by (simp add: unsigned_minus_1_eq_mask mask_eq_exp_minus_1)
qed

lemma bu_compl_val: "bu_val (bu_compl pn) = 2 ^ (32 * length pn) - 1 - bu_val pn"
proof (induction pn)
  case Nil
  show ?case by (simp add: bu_compl_def)
next
  case (Cons p ps)
  have p: "unat p < 2 ^ 32" using unat_lt2p [of p] by simp
  have b: "bu_val ps < 2 ^ (32 * length ps)" by (rule bu_val_bound)
  let ?m = "2 ^ (32 * length ps) :: nat"
  have "bu_val (bu_compl (p # ps)) = 2 ^ 32 - 1 - unat p + 2 ^ 32 * (?m - 1 - bu_val ps)"
    using Cons by (simp add: bu_compl_def unat_not_u32)
  also have "\<dots> = 2 ^ 32 * ?m - 1 - (unat p + 2 ^ 32 * bu_val ps)"
    using p b by (simp add: diff_mult_distrib2)
  finally show ?case by (simp add: power_add)
qed

lemma unat_Suc_u32: "unat (p + 1 :: u32) = (unat p + 1) mod 2 ^ 32"
  by (simp add: unat_word_ariths)

lemma length_bu_inc [simp]: "length (bu_inc pn) = length pn"
  by (induction pn rule: bu_inc.induct) auto

lemma bu_inc_val:
  "pn \<noteq> [] \<Longrightarrow> bu_val (bu_inc pn) = (bu_val pn + 1) mod 2 ^ (32 * length pn)"
proof (induction pn rule: bu_inc.induct)
  case 1
  then show ?case by simp
next
  case (2 p)
  show ?case by (simp add: unat_Suc_u32)
next
  case (3 p q ps)
  let ?m = "2 ^ (32 * length (q # ps)) :: nat"
  have e: "(2 :: nat) ^ (32 * length (p # q # ps)) = 2 ^ 32 * ?m"
    by (simp add: power_add)
  have p: "unat p < 2 ^ 32" using unat_lt2p [of p] by simp
  have b: "bu_val (q # ps) < ?m" by (rule bu_val_bound)
  show ?case
  proof (cases "p + 1 = 0")
    case True
    then have "unat (p + 1) = 0" by simp
    then have "(unat p + 1) mod 2 ^ 32 = 0" by (simp only: unat_Suc_u32)
    then have u: "unat p + 1 = 2 ^ 32" using p by (cases "unat p + 1 = 2 ^ 32") auto
    have "bu_val (p # q # ps) + 1 = 0 + 2 ^ 32 * (bu_val (q # ps) + 1)"
      unfolding bu_val.simps(2) [of p] using u by simp
    then have "(bu_val (p # q # ps) + 1) mod (2 ^ 32 * ?m) = 2 ^ 32 * ((bu_val (q # ps) + 1) mod ?m)"
      by (simp only: mult_mod_right add_0)
    then show ?thesis using 3 True unfolding e by simp
  next
    case False
    have "unat p + 1 \<noteq> 2 ^ 32"
    proof
      assume "unat p + 1 = 2 ^ 32"
      then have "unat (p + 1) = 0" by (simp only: unat_Suc_u32 mod_self)
      then show False using False by (simp only: unat_0_iff)
    qed
    then have "unat p + 1 < 2 ^ 32" using p by linarith
    then have u: "unat (p + 1) = unat p + 1" by (simp add: unat_Suc_u32)
    have "bu_val ((p + 1) # q # ps) < 2 ^ 32 * ?m"
      using bu_val_bound [of "(p + 1) # q # ps"] by (simp only: e list.size) (simp add: power_add)
    then show ?thesis using False u unfolding e by simp
  qed
qed


lemma length_bu_neg [simp]: "length (bu_neg pn) = length pn"
  by (simp add: bu_neg_def)

lemma bu_neg_val:
  assumes "pn \<noteq> []"
  shows "bu_val (bu_neg pn) = (2 ^ (32 * length pn) - bu_val pn) mod 2 ^ (32 * length pn)"
proof -
  have "bu_val pn < 2 ^ (32 * length pn)" by (rule bu_val_bound)
  then have "2 ^ (32 * length pn) - 1 - bu_val pn + 1 = 2 ^ (32 * length pn) - bu_val pn" by simp
  then show ?thesis
    using bu_inc_val [of "bu_compl pn"] bu_compl_val [of pn] assms
    by (simp add: bu_neg_def bu_compl_def)
qed

lemma int_diff_mod: "b \<le> m \<Longrightarrow> int ((a + (m - b) mod m) mod m) = (int a - int b) mod int m"
  by (simp add: zmod_int of_nat_diff mod_simps) (simp add: mod_add_self2 [of "int a - int b" "int m", symmetric] algebra_simps del: mod_add_self2)

lemma bu_sub_val:
  assumes "length a = length b" "a \<noteq> []"
  shows "int (bu_val (bu_sub a b)) = (int (bu_val a) - int (bu_val b)) mod 2 ^ (32 * length a)"
proof -
  let ?m = "2 ^ (32 * length a) :: nat"
  have "bu_val b \<le> ?m" using bu_val_bound [of b] assms(1) by simp
  moreover have "b \<noteq> []" using assms by auto
  ultimately show ?thesis
    using int_diff_mod [of "bu_val b" ?m "bu_val a"] bu_neg_val [of b] assms(1)
    by (simp add: bu_sub_def bu_add_val)
qed

lemma dec_limb: "unat (p - 1 :: u32) = (if p = 0 then 2 ^ 32 - 1 else unat p - 1)"
  by (simp add: unat_minus_one unsigned_minus_1_eq_mask mask_eq_exp_minus_1)

lemma length_bu_dec [simp]: "length (bu_dec pn) = length pn"
  by (induction pn rule: bu_dec.induct) auto

lemma bu_dec_val:
  "pn \<noteq> [] \<Longrightarrow> bu_val (bu_dec pn)
     = (if bu_val pn = 0 then 2 ^ (32 * length pn) - 1 else bu_val pn - 1)"
proof (induction pn rule: bu_dec.induct)
  case 1
  then show ?case by simp
next
  case (2 p)
  show ?case by (simp add: dec_limb unat_0_iff)
next
  case (3 p q ps)
  let ?m = "2 ^ (32 * length (q # ps)) :: nat"
  have e: "(2 :: nat) ^ (32 * length (p # q # ps)) = 2 ^ 32 * ?m"
    by (simp add: power_add)
  have m: "0 < ?m" by simp
  have z: "p - 1 = 0xffffffff \<longleftrightarrow> p = 0"
  proof -
    have "(0xffffffff :: u32) = - 1" by simp
    then show ?thesis by (simp only: diff_eq_eq) simp
  qed
  show ?case
  proof (cases "p = 0")
    case True
    then show ?thesis
      using 3 z dec_limb [of p] m unfolding e
      by (auto simp: diff_mult_distrib2)
  next
    case False
    then have "0 < unat p" by (simp add: unat_gt_0)
    then show ?thesis
      using z dec_limb [of p] False by simp
  qed
qed

section \<open>Comparisons\<close>

lemma bu_val_snoc: "bu_val (a @ [p]) = bu_val a + 2 ^ (32 * length a) * unat p"
  by (induction a) (auto simp: power_add algebra_simps)

lemma top_limb_less:
  fixes x y m p q :: nat
  assumes "x < m" "y < m"
  shows "x + m * p < y + m * q \<longleftrightarrow> p < q \<or> p = q \<and> x < y"
proof (cases p q rule: linorder_cases)
  case less
  then have "m * (p + 1) \<le> m * q" by (intro mult_le_mono2) simp
  then show ?thesis using less assms by simp
next
  case equal
  then show ?thesis by simp
next
  case greater
  then have "m * (q + 1) \<le> m * p" by (intro mult_le_mono2) simp
  then show ?thesis using greater assms by simp
qed

lemma scan_vals:
  "length a = length b \<Longrightarrow> (lt_scan (rev (zip a b)) \<longleftrightarrow> bu_val a < bu_val b)
     \<and> (gt_scan (rev (zip a b)) \<longleftrightarrow> bu_val b < bu_val a)
     \<and> (le_scan (rev (zip a b)) \<longleftrightarrow> \<not> bu_val b < bu_val a)
     \<and> (ge_scan (rev (zip a b)) \<longleftrightarrow> \<not> bu_val a < bu_val b)"
proof (induction a arbitrary: b rule: rev_induct)
  case Nil
  then show ?case by simp
next
  case (snoc p a)
  then obtain q b' where b: "b = b' @ [q]" and len: "length a = length b'"
    by (cases b rule: rev_cases) auto
  note bounds = bu_val_bound [of a] bu_val_bound [of b', folded len]
  show ?case
    using snoc.IH [OF len] unfolding b
    by (auto simp: len [symmetric] bu_val_snoc top_limb_less [OF bounds] top_limb_less [OF bounds(2,1)]
        word_less_nat_alt word_unat_eq_iff)
qed

lemma bu_compare_vals:
  assumes "length a = length b"
  shows "bu_less a b \<longleftrightarrow> bu_val a < bu_val b" "bu_gt a b \<longleftrightarrow> bu_val a > bu_val b"
    "bu_le a b \<longleftrightarrow> bu_val a \<le> bu_val b" "bu_ge a b \<longleftrightarrow> bu_val a \<ge> bu_val b"
    "bu_eq a b \<longleftrightarrow> bu_val a = bu_val b"
proof -
  show "bu_eq a b \<longleftrightarrow> bu_val a = bu_val b"
    using list_all_zip_eq [OF assms] bu_val_eq_bits [OF assms] by (auto simp: bu_eq_def)
qed (use scan_vals [OF assms] in \<open>auto simp: bu_less_def bu_gt_def bu_le_def bu_ge_def\<close>)

section \<open>Shifts\<close>

lemma length_shl_step [simp]: "length (shl_step a k s i pn) = length pn"
  by (simp add: shl_step_def Let_def)

lemma length_shr_step [simp]: "length (shr_step a k s i pn) = length pn"
  by (simp add: shr_step_def Let_def)

text \<open>What limb \<open>j\<close> holds after the first \<open>n\<close> steps of the loop.\<close>

definition shl_limb :: "base_uint \<Rightarrow> nat \<Rightarrow> nat \<Rightarrow> nat \<Rightarrow> nat \<Rightarrow> u32" where
  "shl_limb a k s n j =
     (if k + 1 \<le> j \<and> j - k - 1 < n \<and> s \<noteq> 0 then drop_bit (32 - s) (a ! (j - k - 1)) else 0)
     OR (if k \<le> j \<and> j - k < n then push_bit s (a ! (j - k)) else 0)"

lemma shl_loop:
  "n \<le> length a \<Longrightarrow>
   length (fold (shl_step a k s) [0..<n] (replicate (length a) 0)) = length a \<and>
   (\<forall>j < length a. fold (shl_step a k s) [0..<n] (replicate (length a) 0) ! j = shl_limb a k s n j)"
proof (induction n)
  case 0
  show ?case by (simp add: shl_limb_def)
next
  case (Suc n)
  define r where "r = fold (shl_step a k s) [0..<n] (replicate (length a) 0)"
  have len: "length r = length a" and IH: "\<And>j. j < length a \<Longrightarrow> r ! j = shl_limb a k s n j"
    using Suc by (auto simp: r_def)
  have "shl_step a k s n r ! j = shl_limb a k s (Suc n) j" if j: "j < length a" for j
  proof -
    consider "j = n + k" | "j = n + k + 1" | "j \<noteq> n + k" "j \<noteq> n + k + 1" by blast
    then show ?thesis
    proof cases
      case 1
      then show ?thesis using j by (simp add: shl_step_def Let_def nth_list_update len IH shl_limb_def)
    next
      case 2
      then show ?thesis using j
        by (auto simp add: shl_step_def Let_def nth_list_update len IH shl_limb_def or.commute)
    next
      case 3
      then have e1: "(k \<le> j \<and> j - k < Suc n) = (k \<le> j \<and> j - k < n)"
        and e2: "(k + 1 \<le> j \<and> j - k - 1 < Suc n \<and> s \<noteq> 0) = (k + 1 \<le> j \<and> j - k - 1 < n \<and> s \<noteq> 0)"
        by auto
      have e: "shl_limb a k s (Suc n) j = shl_limb a k s n j" by (simp only: shl_limb_def e1 e2)
      show ?thesis unfolding e using 3 j by (simp add: shl_step_def Let_def nth_list_update len IH)
    qed
  qed
  then show ?case by (simp add: len r_def [symmetric])
qed

lemma bu_shl_nth:
  "j < length a \<Longrightarrow> bu_shl a sh ! j = shl_limb a (sh div 32) (sh mod 32) (length a) j"
  and length_bu_shl [simp]: "length (bu_shl a sh) = length a"
  using shl_loop [of "length a" a] by (auto simp: bu_shl_def)

lemma div_mod_32: "x = 32 * q + c \<Longrightarrow> c < 32 \<Longrightarrow> x div 32 = q \<and> x mod 32 = (c :: nat)"
  by simp

lemma bu_shl_val: "bu_val (bu_shl a sh) = take_bit (32 * length a) (push_bit sh (bu_val a))"
proof (rule bit_eqI)
  fix n :: nat
  define k s j m where defs: "k = sh div 32" "s = sh mod 32" "j = n div 32" "m = n mod 32"
  have sh: "sh = 32 * k + s" and n: "n = 32 * j + m" and s: "s < 32" and m: "m < 32"
    by (simp_all add: defs)
  show "bit (bu_val (bu_shl a sh)) n = bit (take_bit (32 * length a) (push_bit sh (bu_val a))) n"
  proof (cases "j < length a")
    case False
    then have "\<not> n < 32 * length a" using n m by linarith
    then show ?thesis using False by (simp add: bit_bu_val bit_take_bit_iff defs)
  next
    case True
    then have lt: "n < 32 * length a" using n m by linarith
    have "bit (bu_val (bu_shl a sh)) n = bit (shl_limb a k s (length a) j) m"
      using True by (simp add: bit_bu_val bu_shl_nth defs)
    also have "\<dots> = (sh \<le> n \<and> bit (bu_val a) (n - sh))"
    proof (cases "s \<le> m")
      case True
      have le: "sh \<le> n \<longleftrightarrow> k \<le> j" using sh n s m True by linarith
      have "n - sh = 32 * (j - k) + (m - s)" if "k \<le> j"
        using that True sh n by (simp add: diff_mult_distrib2)
      then have dm: "(n - sh) div 32 = j - k \<and> (n - sh) mod 32 = m - s" if "k \<le> j"
        using that m less_imp_diff_less by (intro div_mod_32) blast+
      have hi: "\<not> bit (drop_bit (32 - s) (a ! i)) m" if "s \<noteq> 0" for i
        using that True s m bit_imp_le_length [of "a ! i" "32 - s + m"] by (auto simp: bit_drop_bit_eq)
      show ?thesis
      proof (cases "k \<le> j")
        case True
        have "bit (push_bit s (a ! (j - k))) m = bit (a ! (j - k)) (m - s)"
          using \<open>s \<le> m\<close> m by (simp add: bit_push_bit_iff)
        moreover have jk: "j - k < length a" "j - k - 1 < length a" using \<open>j < length a\<close> by simp_all
        moreover have "\<not> bit (if k + 1 \<le> j \<and> j - k - 1 < length a \<and> s \<noteq> 0
            then drop_bit (32 - s) (a ! (j - k - 1)) else 0) m"
          using hi by simp
        ultimately have "bit (shl_limb a k s (length a) j) m = bit (a ! (j - k)) (m - s)"
          unfolding shl_limb_def bit_or_iff using True by (simp only: if_True simp_thms)
        moreover have "bit (bu_val a) (n - sh) = bit (a ! (j - k)) (m - s)"
          unfolding bit_bu_val using dm [OF True] jk(1) by simp
        ultimately show ?thesis using le True by simp
      next
        case False
        then show ?thesis using le by (simp add: shl_limb_def)
      qed
    next
      case False
      have le: "sh \<le> n \<longleftrightarrow> k + 1 \<le> j"
      proof
        assume "sh \<le> n"
        then show "k + 1 \<le> j" using sh n False by linarith
      next
        assume "k + 1 \<le> j"
        then have "32 * (k + 1) \<le> 32 * j" by (rule mult_le_mono2)
        then show "sh \<le> n" using sh n s by simp
      qed
      have "n - sh = 32 * (j - k - 1) + (32 - s + m)" if "k + 1 \<le> j"
      proof -
        from le_Suc_ex [OF that] obtain d where "j = k + 1 + d" ..
        then show ?thesis using sh n s m by simp
      qed
      then have dm: "(n - sh) div 32 = j - k - 1 \<and> (n - sh) mod 32 = 32 - s + m" if "k + 1 \<le> j"
        using that False s by (intro div_mod_32) auto
      have lo: "\<not> bit (push_bit s w) m" for w :: u32
        using False by (simp add: bit_push_bit_iff)
      have s0: "s \<noteq> 0" using False by simp
      show ?thesis
      proof (cases "k + 1 \<le> j")
        case True
        moreover have "j - k < length a" and "j - k - 1 < length a" using \<open>j < length a\<close> by simp_all
        ultimately show ?thesis
          using le dm lo s0 bit_bu_val [of a "n - sh"] \<open>j < length a\<close>
          by (simp add: shl_limb_def bit_or_iff bit_drop_bit_eq)
      next
        case False
        then show ?thesis using le lo by (simp add: shl_limb_def bit_or_iff)
      qed
    qed
    finally show ?thesis using lt by (simp add: bit_take_bit_iff bit_push_bit_iff)
  qed
qed


text \<open>What limb \<open>j\<close> holds after the first \<open>n\<close> steps of the right shift.\<close>

definition shr_limb :: "base_uint \<Rightarrow> nat \<Rightarrow> nat \<Rightarrow> nat \<Rightarrow> nat \<Rightarrow> u32" where
  "shr_limb a k s n j =
     (if j + k < n then drop_bit s (a ! (j + k)) else 0)
     OR (if j + k + 1 < n \<and> s \<noteq> 0 then push_bit (32 - s) (a ! (j + k + 1)) else 0)"

lemma shr_loop:
  "n \<le> length a \<Longrightarrow>
   length (fold (shr_step a k s) [0..<n] (replicate (length a) 0)) = length a \<and>
   (\<forall>j < length a. fold (shr_step a k s) [0..<n] (replicate (length a) 0) ! j = shr_limb a k s n j)"
proof (induction n)
  case 0
  show ?case by (simp add: shr_limb_def)
next
  case (Suc n)
  define r where "r = fold (shr_step a k s) [0..<n] (replicate (length a) 0)"
  have len: "length r = length a" and IH: "\<And>j. j < length a \<Longrightarrow> r ! j = shr_limb a k s n j"
    using Suc by (auto simp: r_def)
  have "shr_step a k s n r ! j = shr_limb a k s (Suc n) j" if j: "j < length a" for j
  proof -
    consider "n = j + k" | "n = j + k + 1" | "n \<noteq> j + k" "n \<noteq> j + k + 1" by blast
    then show ?thesis
    proof cases
      case 1
      then show ?thesis using j Suc.prems
        by (auto simp add: shr_step_def Let_def nth_list_update len IH shr_limb_def)
    next
      case 2
      then show ?thesis using j Suc.prems
        by (auto simp add: shr_step_def Let_def nth_list_update len IH shr_limb_def)
    next
      case 3
      then have e1: "(j + k < Suc n) = (j + k < n)"
        and e2: "(j + k + 1 < Suc n \<and> s \<noteq> 0) = (j + k + 1 < n \<and> s \<noteq> 0)" by auto
      have e: "shr_limb a k s (Suc n) j = shr_limb a k s n j" by (simp only: shr_limb_def e1 e2)
      show ?thesis unfolding e using 3 j Suc.prems
        by (auto simp: shr_step_def Let_def nth_list_update len IH)
    qed
  qed
  then show ?case by (simp add: len r_def [symmetric])
qed

lemma bu_shr_nth:
  "j < length a \<Longrightarrow> bu_shr a sh ! j = shr_limb a (sh div 32) (sh mod 32) (length a) j"
  and length_bu_shr [simp]: "length (bu_shr a sh) = length a"
  using shr_loop [of "length a" a] by (auto simp: bu_shr_def)

lemma bu_shr_val: "bu_val (bu_shr a sh) = drop_bit sh (bu_val a)"
proof (rule bit_eqI)
  fix n :: nat
  define k s j m where defs: "k = sh div 32" "s = sh mod 32" "j = n div 32" "m = n mod 32"
  have sh: "sh = 32 * k + s" and n: "n = 32 * j + m" and s: "s < 32" and m: "m < 32"
    by (simp_all add: defs)
  show "bit (bu_val (bu_shr a sh)) n = bit (drop_bit sh (bu_val a)) n"
  proof (cases "j < length a")
    case False
    then have "\<not> (sh + n) div 32 < length a" using div_le_mono [of n "sh + n" 32] by (simp add: defs)
    then show ?thesis using False by (simp add: bit_bu_val bit_drop_bit_eq defs)
  next
    case True
    have "bit (bu_val (bu_shr a sh)) n = bit (shr_limb a k s (length a) j) m"
      using True by (simp add: bit_bu_val bu_shr_nth defs)
    also have "\<dots> = bit (bu_val a) (sh + n)"
    proof (cases "s + m < 32")
      case True
      then have dm: "(sh + n) div 32 = j + k \<and> (sh + n) mod 32 = s + m"
        using sh n by (intro div_mod_32) simp_all
      have lo: "s \<noteq> 0 \<Longrightarrow> \<not> bit (push_bit (32 - s) w) m" for w :: u32
        using True s by (auto simp: bit_push_bit_iff)
      show ?thesis using dm lo bit_bu_val [of a "sh + n"]
        by (simp add: shr_limb_def bit_or_iff bit_drop_bit_eq)
    next
      case False
      then have dm: "(sh + n) div 32 = j + k + 1 \<and> (sh + n) mod 32 = s + m - 32"
        using sh n s m by (intro div_mod_32) simp_all
      have hi: "\<not> bit (drop_bit s (a ! i)) m" for i
        using False bit_imp_le_length [of "a ! i" "s + m"] by (auto simp: bit_drop_bit_eq)
      have e: "m - (32 - s) = s + m - 32" "32 - s \<le> m" using False s m by linarith+
      have up: "bit (push_bit (32 - s) w) m = bit w (s + m - 32)" for w :: u32
        using e m by (simp add: bit_push_bit_iff)
      have s0: "s \<noteq> 0" using False m by simp
      show ?thesis using dm hi up s0 bit_bu_val [of a "sh + n"]
        by (simp add: shr_limb_def bit_or_iff)
    qed
    finally show ?thesis by (simp add: bit_drop_bit_eq)
  qed
qed

section \<open>Conversions\<close>

lemma bu_of_u64_val:
  assumes "2 \<le> WIDTH"
  shows "bu_val (bu_of_u64 WIDTH b) = unat b" "length (bu_of_u64 WIDTH b) = WIDTH"
proof -
  have z: "bu_val (replicate n 0) = 0" for n by (induction n) auto
  have lo: "unat (ucast b :: u32) = unat b mod 2 ^ 32"
    by (simp add: unsigned_ucast_eq take_bit_eq_mod)
  have hi: "unat (ucast (drop_bit 32 b) :: u32) = unat b div 2 ^ 32"
  proof -
    have "unat b div 2 ^ 32 < 2 ^ 32" using unat_lt2p [of b] by simp
    moreover have "unat (ucast (drop_bit 32 b) :: u32) = unat b div 2 ^ 32 mod 2 ^ 32"
      unfolding unsigned_ucast_eq unat_drop_bit_eq take_bit_eq_mod drop_bit_eq_div [of 32 "unat b"] by simp
    ultimately show ?thesis by simp
  qed
  show "bu_val (bu_of_u64 WIDTH b) = unat b"
    unfolding bu_of_u64_def bu_val.simps z lo hi by simp
  show "length (bu_of_u64 WIDTH b) = WIDTH" using assms by (simp add: bu_of_u64_def)
qed

lemma length_bu_bytes [simp]: "length (bu_bytes pn) = 4 * length pn"
  by (induction pn) (auto simp: bu_bytes_def)

lemma le_nat_bu_bytes: "le_nat (bu_bytes pn) = bu_val pn"
proof (induction pn)
  case Nil
  show ?case by (simp add: bu_bytes_def)
next
  case (Cons p ps)
  have "le_nat (le_bytes p) = unat p"
    using unat_lt2p [of p] by (simp add: le_bytes_def le_nat_nat_le)
  then show ?case using Cons by (simp add: bu_bytes_def le_nat_append)
qed


section \<open>Bytes and hexadecimal text\<close>

text \<open>\<open>Unserialize\<close> and the constructor from a byte vector copy the bytes back into the array.\<close>

definition bu_of_bytes :: "nat \<Rightarrow> bytes \<Rightarrow> base_uint" where
  "bu_of_bytes WIDTH bs = map (\<lambda>i. le_word (take 4 (drop (4 * i) bs))) [0..<WIDTH]"

definition uint_of_vch :: "nat \<Rightarrow> bytes \<Rightarrow> base_uint" where
  "uint_of_vch WIDTH vch = (if length vch = 4 * WIDTH then bu_of_bytes WIDTH vch else bu_of_u64 WIDTH 0)"

definition hex_char :: "nat \<Rightarrow> char" where
  "hex_char n = (if n < 10 then char_of (48 + n) else char_of (87 + n))"

definition hex_byte :: "byte \<Rightarrow> string" where
  "hex_byte b = [hex_char (unat b div 16), hex_char (unat b mod 16)]"

definition bu_GetHex :: "base_uint \<Rightarrow> string" where
  "bu_GetHex pn = concat (map hex_byte (rev (bu_bytes pn)))"

definition phexdigit :: "char \<Rightarrow> nat" where
  "phexdigit c = (let n = (of_char c :: nat) in
     if 48 \<le> n \<and> n \<le> 57 then n - 48
     else if 65 \<le> n \<and> n \<le> 70 then n - 55
     else if 97 \<le> n \<and> n \<le> 102 then n - 87 else 0)"

definition c_isspace :: "char \<Rightarrow> bool" where
  "c_isspace c = (let n = (of_char c :: nat) in n = 32 \<or> (9 \<le> n \<and> n \<le> 13))"

text \<open>The loop that walks the digits backwards and fills the bytes nibble by nibble.\<close>

fun fill_nibbles :: "nat \<Rightarrow> nat list \<Rightarrow> bytes" where
  "fill_nibbles 0 ds = []"
| "fill_nibbles (Suc n) [] = 0 # fill_nibbles n []"
| "fill_nibbles (Suc n) [d] = of_nat d # fill_nibbles n []"
| "fill_nibbles (Suc n) (d # e # ds) = (of_nat d OR push_bit 4 (of_nat e)) # fill_nibbles n ds"

lemma fill_nibbles_code [code]:
  "fill_nibbles n ds =
     (if n = 0 then []
      else case ds of [] \<Rightarrow> 0 # fill_nibbles (n - 1) []
      | [d] \<Rightarrow> of_nat d # fill_nibbles (n - 1) []
      | d # e # ds \<Rightarrow> (of_nat d OR push_bit 4 (of_nat e)) # fill_nibbles (n - 1) ds)"
  by (cases "(n, ds)" rule: fill_nibbles.cases) simp_all

definition bu_SetHex :: "nat \<Rightarrow> string \<Rightarrow> base_uint" where
  "bu_SetHex WIDTH psz =
     (let s = dropWhile c_isspace psz;
          s = (case s of c0 # c1 # r \<Rightarrow> if c0 = CHR ''0'' \<and> (c1 = CHR ''x'' \<or> c1 = CHR ''X'') then r else s
               | _ \<Rightarrow> s);
          ds = takeWhile (\<lambda>c. phexdigit c \<noteq> 0 \<or> c = CHR ''0'') s
      in bu_of_bytes WIDTH (fill_nibbles (4 * WIDTH) (rev (map phexdigit ds))))"

lemma length_bu_of_bytes [simp]: "length (bu_of_bytes W bs) = W"
  by (simp add: bu_of_bytes_def)

lemma bu_bytes_nth_chunk:
  "i < length pn \<Longrightarrow> take 4 (drop (4 * i) (bu_bytes pn)) = le_bytes (pn ! i)"
proof (induction pn arbitrary: i)
  case Nil
  then show ?case by simp
next
  case (Cons p ps)
  have e: "bu_bytes (p # ps) = le_bytes p @ bu_bytes ps" by (simp add: bu_bytes_def)
  show ?case
  proof (cases i)
    case 0
    then show ?thesis by (simp add: e)
  next
    case (Suc k)
    then show ?thesis using Cons by (simp add: e)
  qed
qed

lemma bu_of_bytes_bu_bytes: "bu_of_bytes (length pn) (bu_bytes pn) = pn"
  by (rule nth_equalityI) (simp_all add: bu_of_bytes_def bu_bytes_nth_chunk)

lemma hex_char_props:
  assumes "n < 16"
  shows "phexdigit (hex_char n) = n" "phexdigit (hex_char n) \<noteq> 0 \<or> hex_char n = CHR ''0''"
    "\<not> c_isspace (hex_char n)" "hex_char n \<noteq> CHR ''x''" "hex_char n \<noteq> CHR ''X''"
proof -
  have "n \<in> {0, 1, 2, 3, 4, 5, 6, 7, 8, 9, 10, 11, 12, 13, 14, 15}" using assms by simp presburger
  then have "phexdigit (hex_char n) = n \<and> (phexdigit (hex_char n) \<noteq> 0 \<or> hex_char n = CHR ''0'') \<and>
     \<not> c_isspace (hex_char n) \<and> hex_char n \<noteq> CHR ''x'' \<and> hex_char n \<noteq> CHR ''X''"
    by (elim insertE emptyE; hypsubst; code_simp)
  then show "phexdigit (hex_char n) = n" "phexdigit (hex_char n) \<noteq> 0 \<or> hex_char n = CHR ''0''"
    "\<not> c_isspace (hex_char n)" "hex_char n \<noteq> CHR ''x''" "hex_char n \<noteq> CHR ''X''" by blast+
qed

lemma nibble_bounds: "unat (b :: byte) div 16 < 16" "unat b mod 16 < 16"
  using unat_lt2p [of b] by simp_all

lemma hex_char_ok:
  "c \<in> set (hex_byte b) \<Longrightarrow> phexdigit c \<noteq> 0 \<or> c = CHR ''0''"
  "c \<in> set (hex_byte b) \<Longrightarrow> \<not> c_isspace c \<and> c \<noteq> CHR ''x'' \<and> c \<noteq> CHR ''X''"
  using hex_char_props [OF nibble_bounds(1) [of b]] hex_char_props [OF nibble_bounds(2) [of b]]
  by (auto simp: hex_byte_def)

lemma nibbles_byte:
  "(of_nat (unat b mod 16) OR push_bit 4 (of_nat (unat b div 16)) :: byte) = b"
proof (rule bit_word_eqI)
  fix n
  assume "n < LENGTH(8)"
  have lo: "bit (of_nat (unat b mod 16) :: byte) n = (n < 4 \<and> bit b n)"
    using \<open>n < LENGTH(8)\<close> bit_take_bit_iff [of 4 "unat b" n]
    by (simp add: bit_word_of_nat_iff take_bit_eq_mod bit_unsigned_iff)
  have hi: "bit (of_nat (unat b div 16) :: byte) m = (m < 8 \<and> bit b (4 + m))" for m
    using bit_drop_bit_eq [of 4 "unat b"] bit_imp_le_length [of b "4 + m"]
    by (auto simp: bit_word_of_nat_iff drop_bit_eq_div bit_unsigned_iff fun_eq_iff)
  show "bit (of_nat (unat b mod 16) OR push_bit 4 (of_nat (unat b div 16)) :: byte) n = bit b n"
    using \<open>n < LENGTH(8)\<close> by (auto simp: bit_or_iff bit_push_bit_iff lo hi)
qed

lemma fill_nibbles_bytes:
  "fill_nibbles (length bs) (concat (map (\<lambda>b. [unat b mod 16, unat b div 16]) bs)) = bs"
  by (induction bs) (simp_all add: nibbles_byte)

lemma rev_hex_digits:
  "rev (map phexdigit (concat (map hex_byte (rev bs)))) = concat (map (\<lambda>b. [unat b mod 16, unat b div 16]) bs)"
proof (induction bs)
  case Nil
  show ?case by simp
next
  case (Cons b bs)
  then show ?case
    using hex_char_props(1) [OF nibble_bounds(1) [of b]] hex_char_props(1) [OF nibble_bounds(2) [of b]]
    by (simp add: hex_byte_def)
qed

lemma bu_SetHex_GetHex: "bu_SetHex (length a) (bu_GetHex a) = a"
proof -
  let ?s = "bu_GetHex a"
  have all: "\<And>c. c \<in> set ?s \<Longrightarrow> phexdigit c \<noteq> 0 \<or> c = CHR ''0''"
    and nosp: "\<And>c. c \<in> set ?s \<Longrightarrow> \<not> c_isspace c \<and> c \<noteq> CHR ''x'' \<and> c \<noteq> CHR ''X''"
    using hex_char_ok by (fastforce simp: bu_GetHex_def)+
  have "dropWhile c_isspace ?s = ?s"
    using nosp by (cases ?s) auto
  moreover have "(case ?s of c0 # c1 # r \<Rightarrow> if c0 = CHR ''0'' \<and> (c1 = CHR ''x'' \<or> c1 = CHR ''X'') then r else ?s
      | _ \<Rightarrow> ?s) = ?s"
    using nosp by (auto split: list.split)
  moreover have "takeWhile (\<lambda>c. phexdigit c \<noteq> 0 \<or> c = CHR ''0'') ?s = ?s"
    using all by (simp add: takeWhile_eq_all_conv)
  ultimately have "bu_SetHex (length a) ?s
      = bu_of_bytes (length a) (fill_nibbles (4 * length a) (rev (map phexdigit ?s)))"
    by (simp only: bu_SetHex_def Let_def)
  also have "\<dots> = bu_of_bytes (length a) (bu_bytes a)"
    using fill_nibbles_bytes [of "bu_bytes a"] by (simp only: bu_GetHex_def rev_hex_digits length_bu_bytes)
  finally show ?thesis by (simp add: bu_of_bytes_bu_bytes)
qed


section \<open>Refinement of machine words\<close>

lemma bu_bitwise_vals:
  assumes "length a = length b"
  shows "bu_val (bu_and a b) = bu_val a AND bu_val b" "bu_val (bu_or a b) = bu_val a OR bu_val b"
    "bu_val (bu_xor a b) = bu_val a XOR bu_val b"
  using assms
  by (auto intro!: bit_eqI simp: bu_and_def bu_or_def bu_xor_def bit_bu_val bit_and_iff bit_or_iff
      bit_xor_iff)

text \<open>The 256-bit word an array of eight limbs stands for.\<close>

definition word_of_bu :: "base_uint \<Rightarrow> u256" where
  "word_of_bu pn = of_nat (bu_val pn)"

lemma unat_word_of_bu: "length pn = 8 \<Longrightarrow> unat (word_of_bu pn) = bu_val pn"
  using bu_val_bound [of pn] by (simp add: word_of_bu_def unat_of_nat)

lemma word_of_bu_eqI: "bu_val pn = n mod 2 ^ 256 \<Longrightarrow> word_of_bu pn = of_nat n"
  by (simp only: word_of_bu_def word_unat_eq_iff unat_of_nat) simp

lemma word_of_bu_add:
  assumes "length x = 8" "length y = 8"
  shows "word_of_bu (bu_add x y) = word_of_bu x + word_of_bu y"
  using bu_add_val [of x y] assms
  by (subst word_of_bu_eqI [where n = "bu_val x + bu_val y"]) (simp_all add: word_of_bu_def)

lemma word_of_bu_neg:
  assumes "length y = 8"
  shows "word_of_bu (bu_neg y) = - word_of_bu y"
proof -
  have le: "bu_val y \<le> 2 ^ 256" using bu_val_bound [of y] assms by simp
  have "word_of_bu (bu_neg y) = of_nat (2 ^ 256 - bu_val y)"
  proof (rule word_of_bu_eqI)
    have "y \<noteq> []" using assms by auto
    then show "bu_val (bu_neg y) = (2 ^ 256 - bu_val y) mod 2 ^ 256"
      using bu_neg_val [of y] assms by simp
  qed
  also have "\<dots> = of_nat (2 ^ 256) - of_nat (bu_val y)" by (rule of_nat_diff [OF le])
  also have "of_nat (2 ^ 256) = (0 :: u256)" by simp
  finally show ?thesis by (simp add: word_of_bu_def)
qed

lemma word_of_bu_inc_dec:
  assumes "length a = 8"
  shows "word_of_bu (bu_inc a) = word_of_bu a + 1" "word_of_bu (bu_dec a) = word_of_bu a - 1"
proof -
  have ne: "a \<noteq> []" using assms by auto
  show "word_of_bu (bu_inc a) = word_of_bu a + 1"
    using bu_inc_val [OF ne] assms
    by (subst word_of_bu_eqI [where n = "bu_val a + 1"]) (simp_all add: word_of_bu_def)
  show "word_of_bu (bu_dec a) = word_of_bu a - 1"
  proof (cases "bu_val a = 0")
    case True
    have "word_of_bu (bu_dec a) = - 1"
      using bu_dec_val [OF ne] assms True
      by (subst word_of_bu_eqI [where n = "2 ^ 256 - 1"]) simp_all
    then show ?thesis using True by (simp add: word_of_bu_def)
  next
    case False
    then show ?thesis using bu_dec_val [OF ne] by (simp add: word_of_bu_def of_nat_diff Suc_leI)
  qed
qed

lemma word_of_bu_compl:
  assumes "length a = 8" shows "word_of_bu (bu_compl a) = NOT (word_of_bu a)"
proof -
  have "word_of_bu (bu_compl a) = of_nat (2 ^ 256 - 1) - of_nat (bu_val a)"
    using bu_compl_val [of a] bu_val_bound [of a] assms
    by (simp only: word_of_bu_def) (simp add: of_nat_diff)
  then show ?thesis by (simp add: word_of_bu_def not_eq_complement)
qed

lemma word_of_bu_shifts:
  assumes "length a = 8"
  shows "word_of_bu (bu_shl a sh) = push_bit sh (word_of_bu a)"
    "word_of_bu (bu_shr a sh) = drop_bit sh (word_of_bu a)"
proof -
  show "word_of_bu (bu_shl a sh) = push_bit sh (word_of_bu a)"
    by (rule bit_word_eqI)
      (auto simp: word_of_bu_def bu_shl_val assms bit_word_of_nat_iff bit_push_bit_iff bit_take_bit_iff)
  show "word_of_bu (bu_shr a sh) = drop_bit sh (word_of_bu a)"
  proof (rule bit_word_eqI)
    fix n assume "n < LENGTH(256)"
    moreover have "m < 256" if "bit (bu_val a) m" for m
    proof -
      have "m div 32 < length a" using that unfolding bit_bu_val by blast
      then show ?thesis using assms by linarith
    qed
    ultimately show "bit (word_of_bu (bu_shr a sh)) n = bit (drop_bit sh (word_of_bu a)) n"
      by (auto simp: word_of_bu_def bu_shr_val bit_word_of_nat_iff bit_drop_bit_eq not_less)
  qed
qed

lemma word_of_bu_bitwise:
  assumes "length a = length b"
  shows "word_of_bu (bu_and a b) = word_of_bu a AND word_of_bu b"
    "word_of_bu (bu_or a b) = word_of_bu a OR word_of_bu b"
    "word_of_bu (bu_xor a b) = word_of_bu a XOR word_of_bu b"
  using assms
  by (auto intro!: bit_word_eqI
      simp: word_of_bu_def bu_bitwise_vals bit_word_of_nat_iff bit_and_iff bit_or_iff bit_xor_iff)

text \<open>C40: The limb loops of \<open>uint256\<close> compute the arithmetic of 256-bit words: addition with
  its carry chain, subtraction through the two's complement, increment, decrement, complement,
  both shifts by any distance (also beyond the width) and the three bitwise operations. Every
  other theory may therefore use words for \<open>uint256\<close> values.\<close>

theorem uint256_refines_words:
  assumes "length a = 8" "length b = 8"
  shows "word_of_bu (bu_add a b) = word_of_bu a + word_of_bu b
    \<and> word_of_bu (bu_sub a b) = word_of_bu a - word_of_bu b
    \<and> word_of_bu (bu_neg a) = - word_of_bu a
    \<and> word_of_bu (bu_inc a) = word_of_bu a + 1
    \<and> word_of_bu (bu_dec a) = word_of_bu a - 1
    \<and> word_of_bu (bu_compl a) = NOT (word_of_bu a)
    \<and> word_of_bu (bu_shl a sh) = push_bit sh (word_of_bu a)
    \<and> word_of_bu (bu_shr a sh) = drop_bit sh (word_of_bu a)
    \<and> word_of_bu (bu_and a b) = word_of_bu a AND word_of_bu b
    \<and> word_of_bu (bu_or a b) = word_of_bu a OR word_of_bu b
    \<and> word_of_bu (bu_xor a b) = word_of_bu a XOR word_of_bu b"
proof -
  have "length (bu_neg b) = 8" using assms by simp
  then have "word_of_bu (bu_sub a b) = word_of_bu a - word_of_bu b"
    using assms by (simp add: bu_sub_def word_of_bu_add word_of_bu_neg)
  then show ?thesis
    using assms
    by (simp add: word_of_bu_add word_of_bu_neg word_of_bu_inc_dec word_of_bu_compl
        word_of_bu_shifts word_of_bu_bitwise del: push_bit_and drop_bit_and)
qed

theorem uint256_refines_words_witness:
  "word_of_bu (bu_sub [0, 0, 1, 0, 0, 0, 0, 0] [1, 0, 0, 0, 0, 0, 0, 0])
     = word_of_bu [0, 0, 1, 0, 0, 0, 0, 0] - word_of_bu [1, 0, 0, 0, 0, 0, 0, 0]"
  using uint256_refines_words [of "[0, 0, 1, 0, 0, 0, 0, 0]" "[1, 0, 0, 0, 0, 0, 0, 0]" 7] by simp

text \<open>The four order comparisons and equality of two integers of the same width decide the
  order of their values: they scan from the most significant limb and stop at the first
  difference. The proof-of-work test compares a hash with its target this way.\<close>

theorem base_uint_order:
  assumes "length a = length b"
  shows "(bu_less a b \<longleftrightarrow> bu_val a < bu_val b) \<and> (bu_gt a b \<longleftrightarrow> bu_val b < bu_val a)
    \<and> (bu_le a b \<longleftrightarrow> bu_val a \<le> bu_val b) \<and> (bu_ge a b \<longleftrightarrow> bu_val b \<le> bu_val a)
    \<and> (bu_eq a b \<longleftrightarrow> bu_val a = bu_val b)"
  using bu_compare_vals [OF assms] by simp

theorem base_uint_order_witness:
  "bu_less [7, 1] [3, 2] \<longleftrightarrow> bu_val [7, 1] < bu_val [3, 2]"
  using base_uint_order [of "[7, 1]" "[3, 2]"] by simp

text \<open>Printing an integer of any width in hexadecimal and parsing the text back gives the
  same limbs, whatever leading zeros the value has.\<close>

theorem uint_hex_roundtrip: "bu_SetHex (length a) (bu_GetHex a) = a"
  by (rule bu_SetHex_GetHex)

end
