(* ===== verification/Compact.thy ===== *)
theory Compact imports Main Prelude begin

text \<open>
  The compact encoding of difficulty targets: \<open>CBigNum::SetCompact\<close>, \<open>GetCompact\<close> and
  \<open>getuint256\<close> of \<open>src/src/bignum.h\<close> and \<open>BoostBigNumFromCompact\<close> of \<open>src/src/core.cpp\<close>.
  A \<open>BIGNUM\<close> (OpenSSL) and a \<open>BoostBigNum\<close> (Boost's \<open>cpp_int\<close>) are read as the integer
  they hold, and their shifts, word conversions and sign operations as the operations on
  integers they are documented to be. The byte format of \<open>BN_bn2mpi\<close> is a parameter of
  \<open>getuint256\<close>, with its documentation as the hypothesis \<open>mpi_format\<close>.
\<close>

unbundle bit_operations_syntax

type_synonym bignum = int

section \<open>The conversions\<close>

definition BN_set_negative :: "bignum \<Rightarrow> bool \<Rightarrow> bignum" where
  "BN_set_negative a neg = (if neg \<and> a \<noteq> 0 then - \<bar>a\<bar> else \<bar>a\<bar>)"

fun num_bytes :: "nat \<Rightarrow> nat" where
  "num_bytes n = (if n = 0 then 0 else Suc (num_bytes (n div 256)))"

declare num_bytes.simps [simp del]

text \<open>\<open>BN_get_word\<close> is the magnitude when it fits a 64-bit word, and all ones otherwise.\<close>

definition BN_get_word :: "bignum \<Rightarrow> u64" where
  "BN_get_word a = (if nat \<bar>a\<bar> < 2 ^ 64 then of_nat (nat \<bar>a\<bar>) else - 1)"

definition SetCompact :: "u32 \<Rightarrow> bignum" where
  "SetCompact nCompact =
     (let nSize = unat (drop_bit 24 nCompact);
          fNegative = (nCompact AND 0x00800000 \<noteq> 0);
          nWord = nCompact AND 0x007fffff;
          bn = (if nSize \<le> 3 then uint (drop_bit (8 * (3 - nSize)) nWord)
                else uint nWord * 2 ^ (8 * (nSize - 3)))
      in BN_set_negative bn fNegative)"

definition GetCompact :: "bignum \<Rightarrow> u32" where
  "GetCompact bn =
     (let nSize = num_bytes (nat \<bar>bn\<bar>);
          nCompact = (if nSize \<le> 3 then ucast (push_bit (8 * (3 - nSize)) (BN_get_word bn))
                      else ucast (BN_get_word (sgn bn * (\<bar>bn\<bar> div 2 ^ (8 * (nSize - 3)))))) :: u32;
          (nCompact, nSize) = (if nCompact AND 0x00800000 \<noteq> 0 then (drop_bit 8 nCompact, nSize + 1)
                               else (nCompact, nSize));
          nCompact = nCompact OR push_bit 24 (of_nat nSize);
          nCompact = nCompact OR (if bn < 0 then 0x00800000 else 0)
      in nCompact)"

definition BoostBigNumFromCompact :: "u32 \<Rightarrow> bignum" where
  "BoostBigNumFromCompact nCompact =
     (let nSize = unat (drop_bit 24 nCompact);
          fNegative = (nCompact AND 0x00800000 \<noteq> 0);
          nWord = nCompact AND 0x007fffff;
          out = (if nSize \<le> 3 then uint (drop_bit (8 * (3 - nSize)) nWord)
                 else uint nWord * 2 ^ (8 * (nSize - 3)))
      in if fNegative \<and> out > 0 \<or> \<not> fNegative \<and> out < 0 then - out else out)"

text \<open>
  \<open>getuint256\<close>: the big-endian bytes of the MPI image after its four length bytes, the sign
  bit of the first one cleared, copied from the end into the 32 bytes of the result.
\<close>

definition getuint256 :: "(bignum \<Rightarrow> bytes) \<Rightarrow> bignum \<Rightarrow> u256" where
  "getuint256 bn2mpi bn =
     (let vch = bn2mpi bn in
      if length vch < 4 then 0
      else let vch = (if length vch > 4 then vch[4 := vch ! 4 AND 0x7f] else vch)
           in le_word (take 32 (rev (drop 4 vch))))"

text \<open>What OpenSSL documents of \<open>BN_bn2mpi\<close>: four length bytes, then the number big endian
  with the most significant bit of the first byte as its sign.\<close>

definition mpi_format :: "(bignum \<Rightarrow> bytes) \<Rightarrow> bool" where
  "mpi_format bn2mpi \<longleftrightarrow>
     (\<forall>n. 4 \<le> length (bn2mpi n) \<and>
        (let body = drop 4 (bn2mpi n) in
           take 4 (bn2mpi n) = rev (nat_le 4 (length body)) \<and>
           (body \<noteq> [] \<longrightarrow> bit (hd body) 7 = (n < 0)) \<and>
           le_nat (rev (if body = [] then [] else (hd body AND 0x7f) # tl body)) = nat \<bar>n\<bar>))"

section \<open>Bytes of a magnitude\<close>

lemma num_bytes_0 [simp]: "num_bytes 0 = 0"
  by (simp add: num_bytes.simps)

lemma num_bytes_Suc: "n \<noteq> 0 \<Longrightarrow> num_bytes n = Suc (num_bytes (n div 256))"
  by (simp add: num_bytes.simps)

lemma num_bytes_bounds: "n \<noteq> 0 \<Longrightarrow> 256 ^ (num_bytes n - 1) \<le> n \<and> n < 256 ^ num_bytes n"
proof (induction n rule: num_bytes.induct)
  case (1 n)
  show ?case
  proof (cases "n div 256 = 0")
    case True
    then have "num_bytes n = 1" using "1.prems" by (simp add: num_bytes_Suc)
    then show ?thesis using "1.prems" True by (simp add: div_eq_0_iff)
  next
    case False
    define k where "k = num_bytes (n div 256)"
    have k: "256 ^ (k - 1) \<le> n div 256" "n div 256 < 256 ^ k"
      using "1.IH" "1.prems" False by (simp_all add: k_def)
    have "k \<noteq> 0" using False by (simp add: k_def num_bytes_Suc)
    have "256 ^ k = 256 * 256 ^ (k - 1)" using \<open>k \<noteq> 0\<close> by (cases k) auto
    also have "\<dots> \<le> 256 * (n div 256)" using k(1) by (rule mult_le_mono2)
    also have "\<dots> \<le> n" by simp
    finally have lo: "256 ^ k \<le> n" .
    have "n < 256 * (n div 256 + 1)" by simp
    also have "\<dots> \<le> 256 * 256 ^ k" using k(2) by (intro mult_le_mono2) simp
    finally have hi: "n < 256 ^ Suc k" by simp
    have "num_bytes n = Suc k" using "1.prems" by (simp add: num_bytes_Suc k_def)
    then show ?thesis using lo hi by simp
  qed
qed

lemma num_bytes_eqI:
  assumes "256 ^ k \<le> n" "n < 256 ^ Suc k"
  shows "num_bytes n = Suc k"
proof -
  have "0 < (256 :: nat) ^ k" by simp
  then have "n \<noteq> 0" using assms(1) by linarith
  then have b: "256 ^ (num_bytes n - 1) \<le> n" "n < 256 ^ num_bytes n"
    using num_bytes_bounds by blast+
  have "k < num_bytes n"
    using le_less_trans [OF assms(1) b(2)] by (simp add: power_strict_increasing_iff)
  moreover have "num_bytes n - 1 < Suc k"
    using le_less_trans [OF b(1) assms(2)] by (simp only: power_strict_increasing_iff)
  ultimately show ?thesis by simp
qed

lemma ucast_of_nat_u32: "ucast (of_nat n :: u64) = (of_nat n :: u32)"
  by (rule bit_word_eqI) (simp add: bit_unsigned_iff bit_word_of_nat_iff)

section \<open>The fields of a compact word\<close>

text \<open>A compact word with no sign is its mantissa \<open>m\<close> below its exponent \<open>s\<close>.\<close>

definition compact_word :: "nat \<Rightarrow> nat \<Rightarrow> u32" where
  "compact_word m s = of_nat m OR push_bit 24 (of_nat s)"

lemma unat_compact_word: "m < 2 ^ 24 \<Longrightarrow> s < 256 \<Longrightarrow> unat (compact_word m s) = m + 2 ^ 24 * s"
proof -
  assume m: "m < 2 ^ 24" and s: "s < 256"
  have "unat (compact_word m s) = m OR take_bit 32 (push_bit 24 s)"
    using m s by (simp add: compact_word_def unsigned_or_eq unsigned_push_bit_eq unat_of_nat
        take_bit_nat_eq_self_iff take_bit_push_bit)
  also have "take_bit 32 (push_bit 24 s) = push_bit 24 s"
    using s by (simp add: take_bit_nat_eq_self_iff push_bit_eq_mult)
  finally show ?thesis using or_shift_nat [OF m] by simp
qed

lemma compact_word_fields:
  assumes "m < 2 ^ 23" "s < 256"
  shows "drop_bit 24 (compact_word m s) = of_nat s"
    and "compact_word m s AND 0x00800000 = 0"
    and "compact_word m s AND 0x007fffff = of_nat m"
proof -
  have u: "unat (compact_word m s) = m + 2 ^ 24 * s" using assms unat_compact_word by simp
  show "drop_bit 24 (compact_word m s) = of_nat s"
    unfolding word_unat_eq_iff unat_drop_bit_eq u using assms
    by (simp add: unat_of_nat drop_bit_eq_div)
  have "bit (unat (compact_word m s)) 23 = bit (m + 2 ^ 23 * (2 * s)) 23" by (simp add: u)
  also have "\<dots> = odd ((m + 2 ^ 23 * (2 * s)) div 2 ^ 23)" by (simp only: bit_iff_odd)
  also have "(m + 2 ^ 23 * (2 * s)) div 2 ^ 23 = 2 * s" using assms by simp
  finally have "\<not> bit (compact_word m s) 23" by (simp add: bit_unsigned_iff)
  moreover have "(0x00800000 :: u32) = push_bit 23 1" by simp
  ultimately show "compact_word m s AND 0x00800000 = 0"
    by (simp only: and_exp_eq_0_iff_not_bit push_bit_eq_mult mult_1_left mult_1) simp
  have "compact_word m s AND 0x007fffff = take_bit 23 (compact_word m s)"
    by (simp add: take_bit_eq_mask mask_eq_exp_minus_1)
  moreover have "unat (take_bit 23 (compact_word m s)) = (m + 2 ^ 23 * (2 * s)) mod 2 ^ 23"
    unfolding unsigned_take_bit_eq u by (simp add: take_bit_eq_mod)
  moreover have "(m + 2 ^ 23 * (2 * s)) mod 2 ^ 23 = m"
    by (simp only: mod_mult_self2 mod_less [OF assms(1)])
  ultimately show "compact_word m s AND 0x007fffff = of_nat m"
    using assms by (simp add: word_unat_eq_iff unat_of_nat)
qed


section \<open>The conversions on numbers\<close>

lemma SetCompact_word:
  assumes "m < 2 ^ 23" "s < 256"
  shows "SetCompact (compact_word m s) = int (if s \<le> 3 then m div 256 ^ (3 - s) else m * 256 ^ (s - 3))"
proof -
  have s: "unat (of_nat s :: u32) = s" and m: "unat (of_nat m :: u32) = m"
    using assms by (simp_all add: unat_of_nat)
  have d: "uint (drop_bit (8 * (3 - s)) (of_nat m :: u32)) = int (m div 256 ^ (3 - s))"
  proof -
    have "unat (drop_bit (8 * (3 - s)) (of_nat m :: u32)) = m div 2 ^ (8 * (3 - s))"
      unfolding unat_drop_bit_eq m by (simp only: drop_bit_eq_div)
    also have "(2 :: nat) ^ (8 * (3 - s)) = 256 ^ (3 - s)" by (simp add: power_mult)
    finally show ?thesis by (simp only: uint_nat)
  qed
  have u: "uint (of_nat m :: u32) = int m" by (simp only: uint_nat m)
  have p: "(2 :: int) ^ (8 * (s - 3)) = 256 ^ (s - 3)" by (simp add: power_mult)
  show ?thesis
    by (simp add: SetCompact_def Let_def compact_word_fields [OF assms] s d u p BN_set_negative_def)
qed

text \<open>The leading three bytes of a magnitude: what \<open>GetCompact\<close> takes as its mantissa.\<close>

definition lead3 :: "nat \<Rightarrow> nat" where
  "lead3 n = (if num_bytes n \<le> 3 then n * 256 ^ (3 - num_bytes n) else n div 256 ^ (num_bytes n - 3))"

lemma lead3_bounds:
  assumes "n \<noteq> 0"
  shows "2 ^ 16 \<le> lead3 n" "lead3 n < 2 ^ 24"
proof -
  define k where "k = num_bytes n"
  have b: "256 ^ (k - 1) \<le> n" "n < 256 ^ k" using num_bytes_bounds [OF assms] by (simp_all add: k_def)
  have k: "0 < k" using assms by (simp add: k_def num_bytes_Suc)
  have "2 ^ 16 \<le> lead3 n \<and> lead3 n < 2 ^ 24"
  proof (cases "k \<le> 3")
    case True
    then have "k = 1 \<or> k = 2 \<or> k = 3" using k by linarith
    then show ?thesis using b by (auto simp: lead3_def k_def [symmetric])
  next
    case False
    define j where "j = k - 3"
    have kj: "k = j + 3" using False by (simp add: j_def)
    have "(256 :: nat) ^ (k - 1) = 2 ^ 16 * 256 ^ j" "(256 :: nat) ^ k = 2 ^ 24 * 256 ^ j"
      by (simp_all add: kj power_add)
    then show ?thesis using b False
      by (simp add: lead3_def k_def [symmetric] j_def [symmetric] less_mult_imp_div_less
          less_eq_div_iff_mult_less_eq)
  qed
  then show "2 ^ 16 \<le> lead3 n" "lead3 n < 2 ^ 24" by auto
qed

lemma GetCompact_nat:
  assumes "n \<noteq> 0" "num_bytes n < 255"
  shows "GetCompact (int n) =
    (if lead3 n < 2 ^ 23 then compact_word (lead3 n) (num_bytes n)
     else compact_word (lead3 n div 256) (num_bytes n + 1))"
proof -
  define k where "k = num_bytes n"
  have b: "n < 256 ^ k" using num_bytes_bounds [OF assms(1)] by (simp add: k_def)
  have l: "lead3 n < 2 ^ 24" by (rule lead3_bounds [OF assms(1)])
  have c: "(if k \<le> 3 then ucast (push_bit (8 * (3 - k)) (BN_get_word (int n)))
             else ucast (BN_get_word (sgn (int n) * (\<bar>int n\<bar> div 2 ^ (8 * (k - 3)))))) = (of_nat (lead3 n) :: u32)"
  proof (cases "k \<le> 3")
    case True
    have "(256 :: nat) ^ k \<le> 256 ^ 3" using True by (intro power_increasing) auto
    then have "n < 2 ^ 64" using b by simp
    then have "BN_get_word (int n) = of_nat n" by (simp add: BN_get_word_def)
    moreover have "push_bit (8 * (3 - k)) (of_nat n :: u64) = of_nat (n * 2 ^ (8 * (3 - k)))"
      by (simp add: push_bit_eq_mult)
    ultimately have "ucast (push_bit (8 * (3 - k)) (BN_get_word (int n))) = (of_nat (n * 2 ^ (8 * (3 - k))) :: u32)"
      by (simp only: ucast_of_nat_u32)
    then show ?thesis using True by (simp add: lead3_def k_def [symmetric] power_mult)
  next
    case False
    have "\<bar>int n\<bar> div 2 ^ (8 * (k - 3)) = int (lead3 n)"
      using False by (simp add: lead3_def k_def [symmetric] power_mult zdiv_int)
    moreover have "sgn (int n) = 1" using assms by simp
    moreover have "BN_get_word (int (lead3 n)) = of_nat (lead3 n)"
      using l by (simp add: BN_get_word_def)
    ultimately show ?thesis using False l by (simp add: ucast_of_nat_u32)
  qed
  have bit: "of_nat (lead3 n) AND 0x00800000 \<noteq> (0 :: u32) \<longleftrightarrow> \<not> lead3 n < 2 ^ 23"
  proof -
    have "of_nat (lead3 n) AND 0x00800000 \<noteq> (0 :: u32) \<longleftrightarrow> bit (of_nat (lead3 n) :: u32) 23"
      using and_exp_eq_0_iff_not_bit [of "of_nat (lead3 n) :: u32" 23] by simp
    also have "\<dots> \<longleftrightarrow> bit (lead3 n) 23" by (simp add: bit_word_of_nat_iff)
    also have "\<dots> \<longleftrightarrow> odd (lead3 n div 2 ^ 23)" by (simp only: bit_iff_odd)
    also have "\<dots> \<longleftrightarrow> \<not> lead3 n < 2 ^ 23"
    proof (cases "lead3 n < 2 ^ 23")
      case False
      then have "lead3 n div 2 ^ 23 = 1" using l by (intro div_nat_eqI) auto
      then show ?thesis using False by simp
    qed simp
    finally show ?thesis .
  qed
  have d: "drop_bit 8 (of_nat (lead3 n) :: u32) = of_nat (lead3 n div 256)"
    unfolding word_unat_eq_iff unat_drop_bit_eq using l by (simp add: unat_of_nat drop_bit_eq_div)
  show ?thesis
    using assms(1) bit d
    by (simp add: GetCompact_def Let_def k_def [symmetric] c compact_word_def del: of_nat_Suc)
qed


text \<open>What a magnitude keeps of itself through the two conversions: its leading bytes.\<close>

definition compact_trunc :: "nat \<Rightarrow> nat" where
  "compact_trunc n =
     (if lead3 n < 2 ^ 23 then (if num_bytes n \<le> 3 then n else n - n mod 256 ^ (num_bytes n - 3))
      else (if num_bytes n \<le> 2 then n else n - n mod 256 ^ (num_bytes n - 2)))"

lemma lead3_div:
  assumes "2 < num_bytes n"
  shows "lead3 n div 256 = n div 256 ^ (num_bytes n - 2)"
proof (cases "num_bytes n = 3")
  case False
  then have "num_bytes n - 2 = Suc (num_bytes n - 3)" "\<not> num_bytes n \<le> 3" using assms by auto
  then show ?thesis
    by (simp add: lead3_def div_mult2_eq [symmetric] mult.commute)
qed (simp add: lead3_def)

lemma SetCompact_GetCompact_nat:
  assumes "n \<noteq> 0" "num_bytes n < 255"
  shows "SetCompact (GetCompact (int n)) = int (compact_trunc n)"
proof (cases "lead3 n < 2 ^ 23")
  case True
  then have "SetCompact (GetCompact (int n)) =
      int (if num_bytes n \<le> 3 then lead3 n div 256 ^ (3 - num_bytes n) else lead3 n * 256 ^ (num_bytes n - 3))"
    using assms by (simp only: GetCompact_nat [OF assms] if_True SetCompact_word)
  then show ?thesis
    using True by (simp add: compact_trunc_def) (simp add: lead3_def minus_mod_eq_div_mult)
next
  case False
  define k where "k = num_bytes n"
  have l: "lead3 n div 256 < 2 ^ 23" using lead3_bounds(2) [OF assms(1)] by simp
  have g: "SetCompact (GetCompact (int n)) =
      int (if k + 1 \<le> 3 then lead3 n div 256 div 256 ^ (3 - (k + 1)) else lead3 n div 256 * 256 ^ (k + 1 - 3))"
    using assms l False by (simp only: GetCompact_nat [OF assms] if_False SetCompact_word k_def)
  show ?thesis
  proof (cases "k \<le> 2")
    case True
    have e: "3 - k = Suc (2 - k)" "3 - (k + 1) = 2 - k" using True by auto
    have "n * 256 ^ Suc (2 - k) div 256 div 256 ^ (2 - k) = n"
      by (simp only: div_mult2_eq [symmetric] power_Suc [symmetric]) simp
    then have "lead3 n div 256 div 256 ^ (3 - (k + 1)) = n"
      using True by (simp only: lead3_def k_def [symmetric] e) (simp del: power_Suc)
    then show ?thesis using g True False by (simp add: compact_trunc_def k_def [symmetric])
  next
    case K: False
    then have "lead3 n div 256 = n div 256 ^ (k - 2)" using lead3_div by (simp add: k_def)
    then show ?thesis using g K False
      by (simp add: compact_trunc_def k_def [symmetric] minus_mod_eq_div_mult)
  qed
qed

lemma compact_trunc_bounds:
  assumes "n \<noteq> 0"
  shows "compact_trunc n \<le> n" "(n - compact_trunc n) * 2 ^ 15 < n"
proof -
  show "compact_trunc n \<le> n" by (simp add: compact_trunc_def)
  show "(n - compact_trunc n) * 2 ^ 15 < n"
  proof -
    have *: "(n mod 256 ^ j) * 2 ^ 15 < n" if "2 ^ 15 \<le> n div 256 ^ j" for j
    proof -
      have "n mod 256 ^ j < 256 ^ j" by simp
      then have "(n mod 256 ^ j) * 2 ^ 15 < 256 ^ j * 2 ^ 15" by simp
      also have "\<dots> \<le> 256 ^ j * (n div 256 ^ j)" using that by (rule mult_le_mono2)
      also have "\<dots> \<le> n" by simp
      finally show ?thesis .
    qed
    have l: "2 ^ 16 \<le> lead3 n" by (rule lead3_bounds(1) [OF assms])
    show ?thesis
    proof (cases "lead3 n < 2 ^ 23")
      case True
      have "2 ^ 15 \<le> n div 256 ^ (num_bytes n - 3)" if "\<not> num_bytes n \<le> 3"
        using that l by (simp add: lead3_def)
      then show ?thesis using True * [of "num_bytes n - 3"] assms
        by (simp add: compact_trunc_def)
    next
      case False
      have "2 ^ 15 \<le> n div 256 ^ (num_bytes n - 2)" if "\<not> num_bytes n \<le> 2"
        using that False lead3_div [of n] by simp
      then show ?thesis using False * [of "num_bytes n - 2"] assms
        by (simp add: compact_trunc_def)
    qed
  qed
qed


section \<open>Properties\<close>

text \<open>Compressing a difficulty target with \<open>GetCompact\<close> and expanding it with
  \<open>SetCompact\<close> never increases it (a block's work is never overstated by rounding up its
  target) and loses less than one part in \<open>2^15\<close> of it. Covers every positive number of
  fewer than 255 bytes, so every 256-bit target.\<close>

theorem compact_truncates:
  assumes "0 < n" "n < 256 ^ 254"
  shows "SetCompact (GetCompact (int n)) \<le> int n
    \<and> (int n - SetCompact (GetCompact (int n))) * 2 ^ 15 < int n"
proof -
  have "num_bytes n < 255"
  proof (rule ccontr)
    assume "\<not> num_bytes n < 255"
    then have "256 ^ 254 \<le> (256 :: nat) ^ (num_bytes n - 1)" by (intro power_increasing) auto
    also have "\<dots> \<le> n" using num_bytes_bounds assms(1) by simp
    finally show False using assms(2) by simp
  qed
  then have eq: "SetCompact (GetCompact (int n)) = int (compact_trunc n)"
    using SetCompact_GetCompact_nat assms(1) by simp
  have b: "compact_trunc n \<le> n" "(n - compact_trunc n) * 2 ^ 15 < n"
    using compact_trunc_bounds assms(1) by auto
  have "int ((n - compact_trunc n) * 2 ^ 15) < int n" using b(2) by (simp only: of_nat_less_iff)
  then have "(int n - int (compact_trunc n)) * 2 ^ 15 < int n" using b(1) by (simp add: of_nat_diff)
  then show ?thesis using b(1) eq by simp
qed

theorem compact_truncates_witness:
  "SetCompact (GetCompact (int 0x1234567890)) \<le> int 0x1234567890
    \<and> (int 0x1234567890 - SetCompact (GetCompact (int 0x1234567890))) * 2 ^ 15 < int 0x1234567890"
  using compact_truncates [of "0x1234567890"] by simp

text \<open>C32: A compact word in the normal form the consensus code writes (a mantissa between
  \<open>0x8000\<close> and \<open>0x7fffff\<close>, no sign bit, an exponent of at least three bytes) is the
  \<open>GetCompact\<close> of its own expansion: \<open>nBits\<close> of a block survives every round through
  a big number unchanged.\<close>

theorem GetCompact_SetCompact:
  assumes "0x8000 \<le> nWord" "nWord < 0x800000" "3 \<le> nSize" "nSize < 255"
  shows "GetCompact (SetCompact (of_nat nWord OR push_bit 24 (of_nat nSize)))
    = of_nat nWord OR push_bit 24 (of_nat nSize)"
proof -
  define j where "j = nSize - 3"
  define n where "n = nWord * 256 ^ j"
  have m: "nWord < 2 ^ 23" "nSize < 256" using assms by simp_all
  have s: "SetCompact (compact_word nWord nSize) = int n"
    unfolding SetCompact_word [OF m] n_def j_def using assms(3) by auto
  have kj: "nSize = Suc (Suc (Suc j))" using assms(3) by (simp add: j_def)
  have n0: "n \<noteq> 0" using assms(1) by (simp add: n_def)
  show ?thesis
  proof (cases "nWord < 2 ^ 16")
    case True
    have "256 ^ (j + 1) \<le> n" "n < 256 ^ Suc (j + 1)"
      using True assms(1) by (simp_all add: n_def)
    then have k: "num_bytes n = j + 2" by (simp add: num_bytes_eqI)
    have l: "lead3 n = nWord * 256"
      unfolding lead3_def k by (cases j) (auto simp: n_def)
    have "GetCompact (int n) = compact_word nWord nSize"
      using GetCompact_nat [OF n0] k l assms kj by simp
    then show ?thesis using s by (simp add: compact_word_def)
  next
    case False
    have "256 ^ (j + 2) \<le> n" "n < 256 ^ Suc (j + 2)"
      using False assms(2) by (simp_all add: n_def)
    then have "num_bytes n = Suc (j + 2)" by (rule num_bytes_eqI)
    then have k: "num_bytes n = Suc (Suc (Suc j))" by simp
    have l: "lead3 n = nWord"
      unfolding lead3_def k by (cases j) (auto simp: n_def)
    have "GetCompact (int n) = compact_word nWord nSize"
      using GetCompact_nat [OF n0] k l assms kj by simp
    then show ?thesis using s by (simp add: compact_word_def)
  qed
qed

theorem GetCompact_SetCompact_witness:
  "GetCompact (SetCompact (of_nat 0x0fffff OR push_bit 24 (of_nat 0x1e)))
    = of_nat 0x0fffff OR push_bit 24 (of_nat 0x1e)"
  using GetCompact_SetCompact [of "0x0fffff" "0x1e"] by simp


text \<open>The chain's Boost-based decoder of \<open>nBits\<close> agrees with the OpenSSL-based one on
  every 32-bit word, sign bit included, so that the work summed for chain selection and the
  target checked against a block's hash are read from the same number.\<close>

theorem Boost_SetCompact: "BoostBigNumFromCompact nCompact = SetCompact nCompact"
proof -
  define out where "out = (if unat (drop_bit 24 nCompact) \<le> 3
    then uint (drop_bit (8 * (3 - unat (drop_bit 24 nCompact))) (nCompact AND 0x007fffff))
    else uint (nCompact AND 0x007fffff) * 2 ^ (8 * (unat (drop_bit 24 nCompact) - 3)))"
  have "0 \<le> out" by (simp add: out_def)
  then show ?thesis
    by (simp add: BoostBigNumFromCompact_def SetCompact_def Let_def BN_set_negative_def
        del: drop_bit_and flip: out_def)
qed

lemma le_word_take32: "le_word (take 32 bs) = (of_nat (le_nat bs) :: u256)"
proof -
  have eq: "le_nat bs = le_nat (take 32 bs) + 256 ^ length (take 32 bs) * le_nat (drop 32 bs)"
    by (metis append_take_drop_id le_nat_append)
  show ?thesis
  proof (cases "length bs \<le> 32")
    case False
    then have "le_nat bs = le_nat (take 32 bs) + 2 ^ 256 * le_nat (drop 32 bs)"
      using eq by (simp add: min_def)
    then have "le_nat bs mod 2 ^ 256 = le_nat (take 32 bs) mod 2 ^ 256"
      by (simp only: mod_mult_self2)
    then show ?thesis by (simp add: le_word_def word_unat_eq_iff unat_of_nat)
  qed (simp add: le_word_def)
qed

lemma le_nat_clear_sign:
  assumes "\<not> bit b 7" shows "b AND 0x7f = (b :: byte)"
proof (rule bit_word_eqI)
  fix n assume "n < LENGTH(8)"
  then have "n < 7 \<or> n = 7" by auto
  then show "bit (b AND 0x7f) n = bit b n"
    using assms mask_eq_exp_minus_1 [of 7, where 'a = byte] bit_mask_iff [of 7 n, where 'a = byte]
    by (auto simp: bit_and_iff)
qed

text \<open>\<open>getuint256\<close> is the magnitude modulo \<open>2^256\<close>: for a big number that fits, the
  conversion to the 256-bit target type loses nothing, the sign is dropped and no other bit
  is.\<close>

theorem getuint256_value:
  assumes "mpi_format bn2mpi"
  shows "unat (getuint256 bn2mpi n) = nat \<bar>n\<bar> mod 2 ^ 256"
proof -
  define vch where "vch = bn2mpi n"
  define body where "body = drop 4 vch"
  have len: "4 \<le> length vch"
    and val: "le_nat (rev (if body = [] then [] else (hd body AND 0x7f) # tl body)) = nat \<bar>n\<bar>"
    using spec [OF assms [unfolded mpi_format_def], of n]
    unfolding Let_def vch_def body_def by blast+
  have d: "drop 4 (if length vch > 4 then vch[4 := vch ! 4 AND 0x7f] else vch)
      = (if body = [] then [] else (hd body AND 0x7f) # tl body)"
  proof (cases body)
    case Nil
    then show ?thesis by (simp add: body_def)
  next
    case (Cons b bs)
    then have l: "4 < length vch" by (simp add: body_def) (metis drop_eq_Nil leI list.distinct(1))
    have "vch ! 4 = b" using Cons hd_drop_conv_nth [OF l] by (simp add: body_def [symmetric])
    then show ?thesis using Cons l by (simp add: drop_update_swap body_def [symmetric])
  qed
  have "getuint256 bn2mpi n = of_nat (nat \<bar>n\<bar>)"
    using len by (simp add: getuint256_def Let_def vch_def [symmetric] d le_word_take32 val del: of_nat_nat_take_bit_eq of_nat_nat)
  then show ?thesis by (simp only: unat_of_nat) simp
qed


text \<open>The format as OpenSSL writes it, padded when the top bit of the magnitude is taken.\<close>

definition bn2mpi_doc :: "bignum \<Rightarrow> bytes" where
  "bn2mpi_doc n =
     (let m = nat \<bar>n\<bar>; ds = rev (nat_le (num_bytes m) m);
          ds = (if ds \<noteq> [] \<and> bit (hd ds) 7 then 0 # ds else ds);
          ds = (if n < 0 \<and> ds \<noteq> [] then (hd ds OR 0x80) # tl ds else ds)
      in rev (nat_le 4 (length ds)) @ ds)"

lemma bit7_or: "bit (b OR 0x80 :: byte) 7"
proof -
  have "(0x80 :: byte) = push_bit 7 1" by simp
  then show ?thesis by (simp only: bit_or_iff bit_push_bit_iff) simp
qed

lemma clear_set_sign: "\<not> bit b 7 \<Longrightarrow> (b OR 0x80) AND 0x7f = (b :: byte)"
proof -
  assume b: "\<not> bit b 7"
  have "(0x80 :: byte) AND 0x7f = 0" by simp
  then have "(b OR 0x80) AND 0x7f = b AND 0x7f" by (simp add: bit.conj_disj_distrib2)
  then show ?thesis using le_nat_clear_sign [OF b] by simp
qed

lemma mpi_format_doc: "mpi_format bn2mpi_doc"
proof -
  have "4 \<le> length (bn2mpi_doc n) \<and>
        (let body = drop 4 (bn2mpi_doc n) in
           take 4 (bn2mpi_doc n) = rev (nat_le 4 (length body)) \<and>
           (body \<noteq> [] \<longrightarrow> bit (hd body) 7 = (n < 0)) \<and>
           le_nat (rev (if body = [] then [] else (hd body AND 0x7f) # tl body)) = nat \<bar>n\<bar>)" for n
  proof -
    define m where "m = nat \<bar>n\<bar>"
    define ds where "ds = rev (nat_le (num_bytes m) m)"
    define es where "es = (if ds \<noteq> [] \<and> bit (hd ds) 7 then 0 # ds else ds)"
    define fs where "fs = (if n < 0 \<and> es \<noteq> [] then (hd es OR 0x80) # tl es else es)"
    have mod: "m mod 256 ^ num_bytes m = m"
      using num_bytes_bounds [of m] by (cases "m = 0") auto
    have v: "le_nat (rev es) = m"
      by (simp add: es_def ds_def le_nat_append le_nat_nat_le mod)
    have h: "es \<noteq> [] \<Longrightarrow> \<not> bit (hd es) 7" by (auto simp: es_def)
    have ne: "n < 0 \<Longrightarrow> es \<noteq> []"
      using v by (auto simp: m_def)
    have b: "fs \<noteq> [] \<Longrightarrow> bit (hd fs) 7 = (n < 0)" using h ne by (auto simp: fs_def bit7_or)
    have w: "(if fs = [] then [] else (hd fs AND 0x7f) # tl fs) = es"
      using h by (cases es) (auto simp: fs_def clear_set_sign le_nat_clear_sign)
    have "bn2mpi_doc n = rev (nat_le 4 (length fs)) @ fs"
      unfolding bn2mpi_doc_def Let_def m_def [symmetric] ds_def [symmetric] es_def [symmetric]
        fs_def [symmetric] ..
    then show ?thesis using b v by (simp add: Let_def w m_def del: nat_le.simps)
  qed
  then show ?thesis by (simp add: mpi_format_def)
qed

theorem getuint256_value_witness:
  "unat (getuint256 bn2mpi_doc (-0x80ff)) = nat \<bar>-0x80ff\<bar> mod 2 ^ 256"
  by (rule getuint256_value [OF mpi_format_doc])

end
