(* ===== verification/Serialize.thy ===== *)
theory Serialize imports Main Prelude begin

text \<open>
  The wire format of \<open>src/src/serialize.h\<close>: raw integers, compact sizes, variable-length
  integers, strings, vectors, pairs, tuples, maps and sets. Writing gives a byte string,
  reading is a function of the bytes not yet read that returns the value and the rest, or
  the exception thrown. The locale \<open>codec\<close> is the contract between a type's \<open>Serialize\<close> and
  \<open>Unserialize\<close>; \<open>canonical_codec\<close> adds that a value has one encoding only. The
  container encodings are proved once inside them, for every element type.
\<close>

unbundle bit_operations_syntax

section \<open>Raw integers\<close>

definition rd_bytes :: "nat \<Rightarrow> bytes reader" where
  "rd_bytes n s = (if length s < n then Inl EndOfData else Inr (take n s, drop n s))"

definition WRITEDATA :: "'a::len word \<Rightarrow> bytes" where
  "WRITEDATA obj = le_bytes obj"

definition READDATA :: "'a::len word reader" where
  "READDATA = rd_bind (rd_bytes (LENGTH('a) div 8)) (\<lambda>bs. rd_return (le_word bs))"

definition WriteBool :: "bool \<Rightarrow> bytes" where
  "WriteBool a = WRITEDATA (if a then 1 else 0 :: byte)"

definition ReadBool :: "bool reader" where
  "ReadBool = rd_bind READDATA (\<lambda>f :: byte. rd_return (f \<noteq> 0))"

section \<open>Compact sizes\<close>

definition MAX_SIZE :: u64 where
  "MAX_SIZE = 0x02000000"

definition GetSizeOfCompactSize :: "u64 \<Rightarrow> nat" where
  "GetSizeOfCompactSize nSize =
     (if nSize < 253 then 1
      else if nSize \<le> 0xffff then 1 + 2
      else if nSize \<le> 0xffffffff then 1 + 4
      else 1 + 8)"

definition WriteCompactSize :: "u64 \<Rightarrow> bytes" where
  "WriteCompactSize nSize =
     (if nSize < 253 then WRITEDATA (ucast nSize :: byte)
      else if nSize \<le> 0xffff then WRITEDATA (253 :: byte) @ WRITEDATA (ucast nSize :: u16)
      else if nSize \<le> 0xffffffff then WRITEDATA (254 :: byte) @ WRITEDATA (ucast nSize :: u32)
      else WRITEDATA (255 :: byte) @ WRITEDATA nSize)"

text \<open>What follows the first byte, and the whole: the width must be the shortest one.\<close>

definition read_size_field :: "byte \<Rightarrow> u64 reader" where
  "read_size_field chSize =
     (if chSize < 253 then rd_return (ucast chSize)
      else if chSize = 253 then
        rd_bind READDATA (\<lambda>xSize :: u16. let nSizeRet = ucast xSize in
          if nSizeRet < (253 :: u64) then rd_fail NonCanonicalSize else rd_return nSizeRet)
      else if chSize = 254 then
        rd_bind READDATA (\<lambda>xSize :: u32. let nSizeRet = ucast xSize in
          if nSizeRet < (0x10000 :: u64) then rd_fail NonCanonicalSize else rd_return nSizeRet)
      else
        rd_bind READDATA (\<lambda>xSize :: u64. let nSizeRet = xSize in
          if nSizeRet < 0x100000000 then rd_fail NonCanonicalSize else rd_return nSizeRet))"

definition ReadCompactSize :: "u64 reader" where
  "ReadCompactSize =
     rd_bind READDATA (\<lambda>chSize :: byte.
     rd_bind (read_size_field chSize) (\<lambda>nSizeRet.
     if nSizeRet > MAX_SIZE then rd_fail SizeTooLarge else rd_return nSizeRet))"

section \<open>Variable-length integers\<close>

text \<open>The loop fills \<open>tmp\<close> from the least significant digit; the bytes go out in the reverse
  order. The template is used at unsigned types of 32 and 64 bits.\<close>

lemma varint_shrinks:
  assumes "\<not> n \<le> (0x7F :: 'a::len word)" shows "unat (drop_bit 7 n - 1) < unat n"
proof -
  have lt: "(0x7F :: 'a word) < n" using assms by simp
  have len: "7 < LENGTH('a)"
  proof (rule ccontr)
    assume "\<not> 7 < LENGTH('a)"
    then have "mask 7 = (- 1 :: 'a word)"
      by (auto intro!: bit_word_eqI simp: bit_mask_iff)
    moreover have "(0x7F :: 'a word) = mask 7" by (simp add: mask_eq_exp_minus_1)
    ultimately show False using lt by (metis word_order.extremum_strict)
  qed
  then have "(2 :: nat) ^ 8 \<le> 2 ^ LENGTH('a)" by (intro power_increasing) auto
  then have "unat (0x7F :: 'a word) = 0x7F"
    by (simp add: unat_numeral take_bit_nat_eq_self_iff)
  then have n: "127 < unat n" using lt by (simp add: word_less_nat_alt)
  have u: "unat (drop_bit 7 n) = unat n div 128" unfolding unat_drop_bit_eq by (simp add: drop_bit_eq_div)
  have "drop_bit 7 n \<noteq> 0"
  proof
    assume "drop_bit 7 n = 0"
    then have "unat n div 128 = 0" using u by simp
    then show False using n by simp
  qed
  then have "unat (drop_bit 7 n - 1) = unat n div 128 - 1" using u by (simp add: unat_minus_one)
  then show ?thesis using n by simp
qed

function GetSizeOfVarInt :: "'a::len word \<Rightarrow> nat" where
  "GetSizeOfVarInt n = (if n \<le> 0x7F then 1 else 1 + GetSizeOfVarInt (drop_bit 7 n - 1))"
  by auto
termination by (relation "measure unat") (auto simp: varint_shrinks)

function varint_tmp :: "nat \<Rightarrow> 'a::len word \<Rightarrow> bytes" where
  "varint_tmp len n =
     (let t = (ucast n AND 0x7F) OR (if len \<noteq> 0 then 0x80 else 0)
      in if n \<le> 0x7F then [t] else t # varint_tmp (len + 1) (drop_bit 7 n - 1))"
  by auto
termination by (relation "measure (unat \<circ> snd)") (auto simp: varint_shrinks)

declare GetSizeOfVarInt.simps [simp del] varint_tmp.simps [simp del]

definition WriteVarInt :: "'a::len word \<Rightarrow> bytes" where
  "WriteVarInt n = rev (varint_tmp 0 n)"

fun ReadVarInt_loop :: "'a::len word \<Rightarrow> 'a word reader" where
  "ReadVarInt_loop n [] = Inl EndOfData"
| "ReadVarInt_loop n (chData # s) =
     (let n = push_bit 7 n OR ucast (chData AND 0x7F)
      in if chData AND 0x80 \<noteq> 0 then ReadVarInt_loop (n + 1) s else Inr (n, s))"

definition ReadVarInt :: "'a::len word reader" where
  "ReadVarInt = ReadVarInt_loop 0"

text \<open>At the signed type \<open>int\<close> the comparison is signed: a negative number leaves the loop at
  once, with its seven low bits; a nonnegative one goes on as the unsigned one does.\<close>

definition WriteVarInt_int :: "u32 \<Rightarrow> bytes" where
  "WriteVarInt_int n = (if sint n \<le> 0x7F then [ucast n AND 0x7F] else WriteVarInt n)"


section \<open>Strings and containers\<close>

definition ser_string :: "bytes \<Rightarrow> bytes" where
  "ser_string str = WriteCompactSize (of_nat (length str)) @ (if str \<noteq> [] then str else [])"

definition unser_string :: "bytes reader" where
  "unser_string = rd_bind ReadCompactSize (\<lambda>nSize.
     if nSize \<noteq> 0 then rd_bytes (unat nSize) else rd_return [])"

definition unser_limited_string :: "nat \<Rightarrow> bytes reader" where
  "unser_limited_string Limit = rd_bind ReadCompactSize (\<lambda>size.
     if Limit < unat size then rd_fail StringLimit
     else if size \<noteq> 0 then rd_bytes (unat size) else rd_return [])"

definition size_string :: "bytes \<Rightarrow> nat" where
  "size_string str = GetSizeOfCompactSize (of_nat (length str)) + length str"

text \<open>Vectors of bytes are read in blocks, so that a bogus size does not allocate at once.\<close>

definition ser_bytes :: "bytes \<Rightarrow> bytes" where
  "ser_bytes v = WriteCompactSize (of_nat (length v)) @ (if v \<noteq> [] then v else [])"

function unser_byte_blocks :: "nat \<Rightarrow> nat \<Rightarrow> bytes reader" where
  "unser_byte_blocks nSize i =
     (if i < nSize then
        let blk = min (nSize - i) (1 + 4999999 div 1) in
        rd_bind (rd_bytes blk) (\<lambda>xs.
        rd_bind (unser_byte_blocks nSize (i + blk)) (\<lambda>ys. rd_return (xs @ ys)))
      else rd_return [])"
  by auto
termination by (relation "measure (\<lambda>(n, i). n - i)") auto

declare unser_byte_blocks.simps [simp del]

definition unser_bytes :: "bytes reader" where
  "unser_bytes = rd_bind ReadCompactSize (\<lambda>nSize. unser_byte_blocks (unat nSize) 0)"

text \<open>Vectors of other types: \<open>sizeofT\<close> is the \<open>sizeof(T)\<close> of the element, of which a block
  holds about five million bytes.\<close>

definition ser_vec :: "('a \<Rightarrow> bytes) \<Rightarrow> 'a list \<Rightarrow> bytes" where
  "ser_vec ser v = WriteCompactSize (of_nat (length v)) @ concat (map ser v)"

definition size_vec :: "('a \<Rightarrow> nat) \<Rightarrow> 'a list \<Rightarrow> nat" where
  "size_vec sz v = foldl (\<lambda>n x. n + sz x) (GetSizeOfCompactSize (of_nat (length v))) v"

fun unser_n :: "'a reader \<Rightarrow> nat \<Rightarrow> 'a list reader" where
  "unser_n unser 0 = rd_return []"
| "unser_n unser (Suc n) = rd_bind unser (\<lambda>x. rd_bind (unser_n unser n) (\<lambda>xs. rd_return (x # xs)))"

function unser_blocks :: "'a reader \<Rightarrow> nat \<Rightarrow> nat \<Rightarrow> nat \<Rightarrow> 'a list reader" where
  "unser_blocks unser step nSize nMid =
     (if nMid < nSize then
        if step = 0 then rd_fail NoProgress
        else let nMid' = (if nMid + step > nSize then nSize else nMid + step) in
          rd_bind (unser_n unser (nMid' - nMid)) (\<lambda>xs.
          rd_bind (unser_blocks unser step nSize nMid') (\<lambda>ys. rd_return (xs @ ys)))
      else rd_return [])"
  by auto
termination by (relation "measure (\<lambda>(_, _, n, i). n - i)") auto

declare unser_blocks.simps [simp del]

definition unser_vec :: "nat \<Rightarrow> 'a reader \<Rightarrow> 'a list reader" where
  "unser_vec sizeofT unser =
     rd_bind ReadCompactSize (\<lambda>nSize. unser_blocks unser (5000000 div sizeofT) (unat nSize) 0)"

text \<open>Pairs and tuples, member after member.\<close>

definition ser_pair :: "('a \<Rightarrow> bytes) \<Rightarrow> ('b \<Rightarrow> bytes) \<Rightarrow> 'a \<times> 'b \<Rightarrow> bytes" where
  "ser_pair ser1 ser2 item = ser1 (fst item) @ ser2 (snd item)"

definition unser_pair :: "'a reader \<Rightarrow> 'b reader \<Rightarrow> ('a \<times> 'b) reader" where
  "unser_pair unser1 unser2 = rd_bind unser1 (\<lambda>a. rd_bind unser2 (\<lambda>b. rd_return (a, b)))"

definition ser_tuple3 :: "('a \<Rightarrow> bytes) \<Rightarrow> ('b \<Rightarrow> bytes) \<Rightarrow> ('c \<Rightarrow> bytes) \<Rightarrow> 'a \<times> 'b \<times> 'c \<Rightarrow> bytes" where
  "ser_tuple3 ser1 ser2 ser3 = (\<lambda>(a, b, c). ser1 a @ ser2 b @ ser3 c)"

definition unser_tuple3 :: "'a reader \<Rightarrow> 'b reader \<Rightarrow> 'c reader \<Rightarrow> ('a \<times> 'b \<times> 'c) reader" where
  "unser_tuple3 unser1 unser2 unser3 =
     rd_bind unser1 (\<lambda>a. rd_bind unser2 (\<lambda>b. rd_bind unser3 (\<lambda>c. rd_return (a, b, c))))"

text \<open>A \<open>std::map\<close> is the list of its items in key order; \<open>insert\<close> keeps an item already
  there. A \<open>std::set\<close> is the list of its keys in order.\<close>

fun map_insert :: "'k::linorder \<times> 't \<Rightarrow> ('k \<times> 't) list \<Rightarrow> ('k \<times> 't) list" where
  "map_insert item [] = [item]"
| "map_insert item (p # ps) =
     (if fst item < fst p then item # p # ps
      else if fst item = fst p then p # ps
      else p # map_insert item ps)"

definition ser_map :: "('k::linorder \<Rightarrow> bytes) \<Rightarrow> ('t \<Rightarrow> bytes) \<Rightarrow> ('k \<times> 't) list \<Rightarrow> bytes" where
  "ser_map serK serT m = WriteCompactSize (of_nat (length m)) @ concat (map (ser_pair serK serT) m)"

definition unser_map :: "'k::linorder reader \<Rightarrow> 't reader \<Rightarrow> ('k \<times> 't) list reader" where
  "unser_map unserK unserT =
     rd_bind ReadCompactSize (\<lambda>nSize.
     rd_bind (unser_n (unser_pair unserK unserT) (unat nSize)) (\<lambda>items.
     rd_return (foldl (\<lambda>m item. map_insert item m) [] items)))"

definition ser_set :: "('k::linorder \<Rightarrow> bytes) \<Rightarrow> 'k list \<Rightarrow> bytes" where
  "ser_set serK m = WriteCompactSize (of_nat (length m)) @ concat (map serK m)"

definition unser_set :: "'k::linorder reader \<Rightarrow> 'k list reader" where
  "unser_set unserK =
     rd_bind ReadCompactSize (\<lambda>nSize.
     rd_bind (unser_n unserK (unat nSize)) (\<lambda>keys.
     rd_return (foldl (\<lambda>m k. if k \<in> set m then m else insort k m) [] keys)))"

section \<open>The contract of a type's serialization\<close>

locale codec =
  fixes ser :: "'a \<Rightarrow> bytes" and unser :: "'a reader" and ok :: "'a \<Rightarrow> bool"
  assumes unser_ser: "ok x \<Longrightarrow> unser (ser x @ s) = Inr (x, s)"
begin

lemma unser_bind: "ok x \<Longrightarrow> rd_bind unser f (ser x @ s) = f x s"
  using unser_ser by (simp add: rd_bind_def)

lemma ser_prefix_free:
  assumes "ok x" "ok y" "ser x @ s = ser y @ t" shows "x = y \<and> s = t"
proof -
  have "Inr (x, s) = (Inr (y, t) :: ser_error + _)"
    by (simp only: unser_ser [OF assms(1), symmetric] unser_ser [OF assms(2), symmetric] assms(3))
  then show ?thesis by simp
qed

lemma ser_inj:
  assumes "ok x" "ok y" "ser x = ser y" shows "x = y"
  by (rule conjunct1 [OF ser_prefix_free [of x y "[]" "[]"]]) (use assms in simp_all)

end

locale canonical_codec = codec +
  assumes unser_canonical: "unser s = Inr (x, r) \<Longrightarrow> ok x \<and> s = ser x @ r"
begin

lemma unser_iff: "unser s = Inr (x, r) \<longleftrightarrow> ok x \<and> s = ser x @ r"
proof
  assume "unser s = Inr (x, r)"
  then show "ok x \<and> s = ser x @ r" by (rule unser_canonical)
next
  assume "ok x \<and> s = ser x @ r"
  then show "unser s = Inr (x, r)" using unser_ser by simp
qed

lemma unser_bind_iff:
  "rd_bind unser f s = Inr q \<longleftrightarrow> (\<exists>x r. ok x \<and> s = ser x @ r \<and> f x r = Inr q)"
  by (auto simp: rd_bind_eq_Inr unser_iff)

end

subsection \<open>Raw integers\<close>

lemma rd_bytes_append [reader_simps]: "length bs = n \<Longrightarrow> rd_bytes n (bs @ s) = Inr (bs, s)"
  by (simp add: rd_bytes_def)

lemma rd_bytes_iff: "rd_bytes n s = Inr (bs, r) \<longleftrightarrow> length bs = n \<and> s = bs @ r"
  by (auto simp: rd_bytes_def)

lemma length_WRITEDATA [simp]: "length (WRITEDATA (w :: 'a::len word)) = LENGTH('a) div 8"
  by (simp add: WRITEDATA_def)

lemma READDATA_canonical:
  assumes "8 dvd LENGTH('a::len)"
  shows "canonical_codec WRITEDATA (READDATA :: 'a word reader) (\<lambda>_. True)"
proof
  fix x :: "'a word" and s r
  show "READDATA (WRITEDATA x @ s) = Inr (x, s)"
    using assms by (simp add: READDATA_def WRITEDATA_def rd_bind_def rd_bytes_append le_word_le_bytes)
  show "READDATA s = Inr (x, r) \<Longrightarrow> True \<and> s = WRITEDATA x @ r"
    using assms
    by (auto simp: READDATA_def WRITEDATA_def rd_bind_eq_Inr rd_bytes_iff le_bytes_le_word)
qed

interpretation byte: canonical_codec "WRITEDATA :: byte \<Rightarrow> bytes" READDATA "\<lambda>_. True"
  by (rule READDATA_canonical) simp
interpretation u16: canonical_codec "WRITEDATA :: u16 \<Rightarrow> bytes" READDATA "\<lambda>_. True"
  by (rule READDATA_canonical) simp
interpretation u32: canonical_codec "WRITEDATA :: u32 \<Rightarrow> bytes" READDATA "\<lambda>_. True"
  by (rule READDATA_canonical) simp
interpretation u64: canonical_codec "WRITEDATA :: u64 \<Rightarrow> bytes" READDATA "\<lambda>_. True"
  by (rule READDATA_canonical) simp
interpretation u256: canonical_codec "WRITEDATA :: u256 \<Rightarrow> bytes" READDATA "\<lambda>_. True"
  by (rule READDATA_canonical) simp

interpretation bool: codec WriteBool ReadBool "\<lambda>_. True"
  by unfold_locales (simp add: WriteBool_def ReadBool_def rd_bind_def byte.unser_ser)

subsection \<open>Compact sizes\<close>

lemma ucast_down_up:
  "ucast (ucast (b :: byte) :: u64) = b" "ucast (ucast (c :: u16) :: u64) = c"
  "ucast (ucast (d :: u32) :: u64) = d"
  by (auto intro!: bit_word_eqI simp: bit_unsigned_iff dest: bit_imp_le_length)

lemma unat_ucast_up:
  "unat (ucast (b :: byte) :: u64) = unat b" "unat (ucast (c :: u16) :: u64) = unat c"
  "unat (ucast (d :: u32) :: u64) = unat d"
  using unat_lt2p [of b] unat_lt2p [of c] unat_lt2p [of d]
  by (simp_all add: unsigned_ucast_eq take_bit_nat_eq_self_iff)

lemma unat_ucast_down:
  "unat (ucast (n :: u64) :: byte) = unat n mod 2 ^ 8" "unat (ucast n :: u16) = unat n mod 2 ^ 16"
  "unat (ucast n :: u32) = unat n mod 2 ^ 32"
  by (simp_all add: unsigned_ucast_eq take_bit_eq_mod)

lemma ucast_up_down:
  "unat (n :: u64) < 2 ^ 8 \<Longrightarrow> ucast (ucast n :: byte) = n"
  "unat n < 2 ^ 16 \<Longrightarrow> ucast (ucast n :: u16) = n" "unat n < 2 ^ 32 \<Longrightarrow> ucast (ucast n :: u32) = n"
  by (simp_all add: word_unat_eq_iff unat_ucast_up unat_ucast_down)

lemma byte_255: "\<not> c < 253 \<Longrightarrow> c \<noteq> 253 \<Longrightarrow> c \<noteq> 254 \<Longrightarrow> c = (255 :: byte)"
  using unat_lt2p [of c] by (simp add: word_less_nat_alt word_unat_eq_iff)

lemma read_size_field_canonical:
  assumes "read_size_field c t = Inr (n, r)"
  shows "WRITEDATA c @ t = WriteCompactSize n @ r"
proof -
  consider "c < 253" | "c = 253" | "c = 254" | "\<not> c < 253" "c \<noteq> 253" "c \<noteq> 254" "c = 255"
    using byte_255 by blast
  then show ?thesis
  proof cases
    case 1
    then show ?thesis using assms
      by (auto simp: read_size_field_def WriteCompactSize_def word_less_nat_alt unat_ucast_up ucast_down_up)
  next
    case 2
    then obtain x :: u16 where "t = WRITEDATA x @ r" "n = ucast x" "\<not> ucast x < (253 :: u64)"
      using assms by (auto simp: read_size_field_def u16.unser_bind_iff Let_def split: if_split_asm)
    then show ?thesis using 2 unat_lt2p [of x]
      by (simp add: WriteCompactSize_def word_less_nat_alt word_le_nat_alt unat_ucast_up ucast_down_up)
  next
    case 3
    then obtain x :: u32 where "t = WRITEDATA x @ r" "n = ucast x" "\<not> ucast x < (0x10000 :: u64)"
      using assms by (auto simp: read_size_field_def u32.unser_bind_iff Let_def split: if_split_asm)
    then show ?thesis using 3 unat_lt2p [of x]
      by (simp add: WriteCompactSize_def word_less_nat_alt word_le_nat_alt unat_ucast_up ucast_down_up)
  next
    case 4
    then have "t = WRITEDATA n @ r" "\<not> n < 0x100000000"
      using assms by (auto simp: read_size_field_def u64.unser_bind_iff Let_def split: if_split_asm)
    then show ?thesis using 4
      by (simp add: WriteCompactSize_def word_less_nat_alt word_le_nat_alt)
  qed
qed

lemma ReadCompactSize_canonical:
  assumes "ReadCompactSize s = Inr (n, r)"
  shows "n \<le> MAX_SIZE \<and> s = WriteCompactSize n @ r"
proof -
  obtain c t m u where "s = WRITEDATA (c :: byte) @ t" "read_size_field c t = Inr (m, u)"
    and "(if m > MAX_SIZE then rd_fail SizeTooLarge else rd_return m) u = Inr (n, r)"
    using assms by (auto simp only: ReadCompactSize_def byte.unser_bind_iff rd_bind_eq_Inr [of "read_size_field _"])
  then show ?thesis using read_size_field_canonical by (auto split: if_split_asm)
qed

lemma ReadCompactSize_Write:
  assumes "n \<le> MAX_SIZE"
  shows "ReadCompactSize (WriteCompactSize n @ s) = Inr (n, s)"
  using assms
  by (auto simp: ReadCompactSize_def read_size_field_def WriteCompactSize_def rd_bind_def byte.unser_ser u16.unser_ser
      u32.unser_ser u64.unser_ser Let_def word_less_nat_alt word_le_nat_alt unat_ucast_up
      unat_ucast_down ucast_up_down)

interpretation csize: canonical_codec WriteCompactSize ReadCompactSize "\<lambda>n. n \<le> MAX_SIZE"
  by unfold_locales (simp_all add: ReadCompactSize_Write ReadCompactSize_canonical)

lemma length_WriteCompactSize: "length (WriteCompactSize n) = GetSizeOfCompactSize n"
  by (simp add: WriteCompactSize_def GetSizeOfCompactSize_def)


subsection \<open>Variable-length integers\<close>

lemma unat_0x7F: "unat (0x7F :: 'a::len word) \<le> 127"
  by (simp add: unat_numeral take_bit_nat_less_eq_self)

lemma varint_last: "n \<le> (0x7F :: 'a::len word) \<Longrightarrow> drop_bit 7 n = 0"
proof -
  assume "n \<le> 0x7F"
  then have "unat n \<le> 127"
    by (intro order_trans [OF _ unat_0x7F [where 'a = 'a]]) (simp only: word_le_nat_alt)
  then have "unat n div 128 = 0" by simp
  then have "unat (drop_bit 7 n) = 0" unfolding unat_drop_bit_eq by (simp add: drop_bit_eq_div)
  then show ?thesis by (simp only: unat_eq_0)
qed

lemma bit_127: "bit (127 :: int) i \<longleftrightarrow> i < 7"
  using bit_mask_iff [of 7 i, where 'a = int] by (auto simp: mask_eq_exp_minus_1)

lemma bit_128: "bit (128 :: int) i \<longleftrightarrow> i = 7"
proof -
  have "(128 :: int) = push_bit 7 1" by simp
  then show ?thesis by (simp only: bit_push_bit_iff bit_1_iff) auto
qed

lemma cont_flag: "((x AND 0x7F) OR 0x80) AND 0x80 \<noteq> (0 :: byte)" "(x AND 0x7F) AND 0x80 = (0 :: byte)"
    "((x AND 0x7F) OR 0x80) AND 0x7F = x AND (0x7F :: byte)"
proof -
  have "bit (((x AND 0x7F) OR 0x80) AND 0x80) 7"
    by (simp add: bit_and_iff bit_or_iff bit_128)
  then show "((x AND 0x7F) OR 0x80) AND 0x80 \<noteq> (0 :: byte)" by (metis bit_0_eq bot_apply bot_bool_def)
qed (auto intro!: bit_word_eqI simp: bit_and_iff bit_or_iff bit_127 bit_128)

lemma digit_join: "push_bit 7 (drop_bit 7 n) OR ucast (ucast n AND 0x7F :: byte) = (n :: 'a::len word)"
proof (rule bit_word_eqI)
  fix i assume "i < LENGTH('a)"
  then show "bit (push_bit 7 (drop_bit 7 n) OR ucast (ucast n AND 0x7F :: byte)) i = bit n i"
    by (cases "7 \<le> i")
      (simp_all add: bit_or_iff bit_push_bit_iff bit_drop_bit_eq bit_unsigned_iff bit_and_iff bit_127
        del: unsigned_and_eq)
qed

lemma ReadVarInt_tmp:
  "len \<noteq> 0 \<Longrightarrow> ReadVarInt_loop 0 (rev (varint_tmp len n) @ s) = ReadVarInt_loop (n + 1) s"
proof (induction len n arbitrary: s rule: varint_tmp.induct)
  case (1 len n)
  have join: "push_bit 7 (drop_bit 7 n) OR ucast (ucast n AND 0x7F :: byte) = n" by (rule digit_join)
  show ?case
  proof (cases "n \<le> 0x7F")
    case True
    then have "ucast (ucast n AND 0x7F :: byte) = n" using join
      by (simp only: varint_last [OF True] push_bit_of_0 or.left_neutral)
    then show ?thesis using True "1.prems"
      by (simp add: varint_tmp.simps [of len n] Let_def cont_flag)
  next
    case False
    have "ReadVarInt_loop 0 (rev (varint_tmp (len + 1) (drop_bit 7 n - 1)) @ t)
        = ReadVarInt_loop (drop_bit 7 n) t" for t
      using "1.IH" [OF refl False] by simp
    then show ?thesis using False "1.prems" join
      by (simp add: varint_tmp.simps [of len n] Let_def cont_flag)
  qed
qed

lemma ReadVarInt_Write: "ReadVarInt (WriteVarInt n @ s) = Inr (n, s)"
proof -
  have join: "push_bit 7 (drop_bit 7 n) OR ucast (ucast n AND 0x7F :: byte) = n" by (rule digit_join)
  show ?thesis
  proof (cases "n \<le> 0x7F")
    case True
    then have "ucast (ucast n AND 0x7F :: byte) = n" using join
      by (simp only: varint_last [OF True] push_bit_of_0 or.left_neutral)
    then show ?thesis using True
      by (simp add: ReadVarInt_def WriteVarInt_def varint_tmp.simps [of 0 n] Let_def cont_flag)
  next
    case False
    then show ?thesis using join
      by (simp add: ReadVarInt_def WriteVarInt_def varint_tmp.simps [of 0 n] Let_def cont_flag ReadVarInt_tmp)
  qed
qed

interpretation varint32: codec "WriteVarInt :: u32 \<Rightarrow> bytes" ReadVarInt "\<lambda>_. True"
  by unfold_locales (rule ReadVarInt_Write)
interpretation varint64: codec "WriteVarInt :: u64 \<Rightarrow> bytes" ReadVarInt "\<lambda>_. True"
  by unfold_locales (rule ReadVarInt_Write)

interpretation varint_int: codec WriteVarInt_int ReadVarInt "\<lambda>n. 0 \<le> sint n"
proof
  fix n :: u32 and s assume n: "0 \<le> sint n"
  show "ReadVarInt (WriteVarInt_int n @ s) = Inr (n, s)"
  proof (cases "sint n \<le> 0x7F")
    case True
    then have "n \<le> 0x7F" using n using True uint_eq_sint [OF n] by (simp add: word_le_def)
    then have "WriteVarInt_int n = WriteVarInt n"
      using True by (simp add: WriteVarInt_int_def WriteVarInt_def varint_tmp.simps [of 0 n])
    then show ?thesis by (simp add: ReadVarInt_Write)
  qed (simp add: WriteVarInt_int_def ReadVarInt_Write)
qed

lemma varint_int_negative:
  assumes "\<not> 0 \<le> sint (n :: u32)"
  shows "ReadVarInt (WriteVarInt_int n @ s) = Inr (n AND 0x7F, s)"
proof -
  have "ucast (ucast n AND 0x7F :: byte) = n AND 0x7F"
    by (rule bit_word_eqI) (auto simp: bit_unsigned_iff bit_and_iff bit_127 simp del: unsigned_and_eq)
  then show ?thesis
    using assms by (simp add: WriteVarInt_int_def ReadVarInt_def Let_def cont_flag del: unsigned_and_eq)
qed

lemma length_varint_tmp: "length (varint_tmp len n) = GetSizeOfVarInt n"
  by (induction len n rule: varint_tmp.induct)
    (simp add: varint_tmp.simps GetSizeOfVarInt.simps Let_def)


lemma length_WriteVarInt: "length (WriteVarInt n) = GetSizeOfVarInt n"
  by (simp add: WriteVarInt_def length_varint_tmp)

subsection \<open>Strings and byte vectors\<close>

lemma MAX_SIZE_nat: "unat MAX_SIZE = 2 ^ 25"
  by (simp add: MAX_SIZE_def)

lemma size_word:
  assumes "n \<le> 2 ^ 25"
  shows "unat (of_nat n :: u64) = n" "(of_nat n :: u64) \<le> MAX_SIZE" "(of_nat n :: u64) = 0 \<longleftrightarrow> n = 0"
proof -
  show u: "unat (of_nat n :: u64) = n" using assms by (simp add: unat_of_nat)
  show "(of_nat n :: u64) \<le> MAX_SIZE" using assms by (simp add: word_le_nat_alt u MAX_SIZE_nat)
  show "(of_nat n :: u64) = 0 \<longleftrightarrow> n = 0" using u by (metis unat_0 word_unat_eq_iff)
qed

lemma size_word_unat:
  assumes "n \<le> MAX_SIZE" shows "unat n \<le> 2 ^ 25" "of_nat (unat n) = (n :: u64)"
  using assms by (simp_all add: word_le_nat_alt MAX_SIZE_nat)

lemma unser_byte_blocks_eq:
  "i \<le> nSize \<Longrightarrow> unser_byte_blocks nSize i s = rd_bytes (nSize - i) s"
proof (induction nSize i arbitrary: s rule: unser_byte_blocks.induct)
  case (1 nSize i)
  show ?case
  proof (cases "i < nSize")
    case True
    define blk where "blk = min (nSize - i) (1 + 4999999 div 1)"
    have b: "blk \<le> nSize - i" "i + blk \<le> nSize" using True by (auto simp: blk_def)
    have IH: "unser_byte_blocks nSize (i + blk) t = rd_bytes (nSize - (i + blk)) t" for t
      using "1.IH" [OF True blk_def] b(2) by simp
    have "unser_byte_blocks nSize i s = rd_bind (rd_bytes blk) (\<lambda>xs.
        rd_bind (unser_byte_blocks nSize (i + blk)) (\<lambda>ys. rd_return (xs @ ys))) s"
      using True by (subst unser_byte_blocks.simps) (simp add: Let_def blk_def del: One_nat_def)
    also have "\<dots> = rd_bytes (nSize - i) s"
    proof (cases "length s < nSize - i")
      case True
      then show ?thesis using b by (auto simp: rd_bind_def IH rd_bytes_def)
    next
      case False
      define d where "d = nSize - i - blk"
      have d: "nSize - i = blk + d" "nSize - (i + blk) = d" using b by (simp_all add: d_def)
      show ?thesis using False
        by (simp add: rd_bind_def IH [unfolded d] rd_bytes_def d take_add)
          (simp add: add.commute)
    qed
    finally show ?thesis .
  next
    case False
    then show ?thesis using "1.prems" by (simp add: unser_byte_blocks.simps rd_bytes_def)
  qed
qed

lemma unser_bytes_eq: "unser_bytes = rd_bind ReadCompactSize (\<lambda>n. rd_bytes (unat n))"
  unfolding unser_bytes_def by (rule rd_bind_cong) (simp add: unser_byte_blocks_eq)

lemma unser_string_eq: "unser_string = rd_bind ReadCompactSize (\<lambda>n. rd_bytes (unat n))"
  unfolding unser_string_def
  by (auto simp: fun_eq_iff rd_bind_def rd_bytes_def split: sum.split)

interpretation vbytes: canonical_codec ser_bytes unser_bytes "\<lambda>v. length v \<le> 2 ^ 25"
proof
  fix v s r
  show "length v \<le> 2 ^ 25 \<Longrightarrow> unser_bytes (ser_bytes v @ s) = Inr (v, s)"
    by (simp add: unser_bytes_eq ser_bytes_def rd_bind_def csize.unser_ser size_word rd_bytes_append)
  show "unser_bytes s = Inr (v, r) \<Longrightarrow> length v \<le> 2 ^ 25 \<and> s = ser_bytes v @ r"
    by (auto simp: unser_bytes_eq ser_bytes_def csize.unser_bind_iff rd_bytes_iff
        dest: size_word_unat)
qed

lemma ser_string_bytes: "ser_string = ser_bytes" "unser_string = unser_bytes"
  by (simp_all add: fun_eq_iff ser_string_def ser_bytes_def unser_string_eq unser_bytes_eq)

interpretation limited_string:
  canonical_codec ser_string "unser_limited_string Limit" "\<lambda>v. length v \<le> min Limit (2 ^ 25)"
proof
  fix v s r
  show "length v \<le> min Limit (2 ^ 25) \<Longrightarrow> unser_limited_string Limit (ser_string v @ s) = Inr (v, s)"
    by (auto simp: unser_limited_string_def ser_string_def rd_bind_def csize.unser_ser size_word
        rd_bytes_append)
  show "unser_limited_string Limit s = Inr (v, r) \<Longrightarrow> length v \<le> min Limit (2 ^ 25) \<and> s = ser_string v @ r"
    by (auto simp: unser_limited_string_def ser_string_def csize.unser_bind_iff rd_bytes_iff
        dest: size_word_unat split: if_split_asm)
qed

subsection \<open>Vectors\<close>

lemma unser_n_add:
  "unser_n unser (m + n) s
   = rd_bind (unser_n unser m) (\<lambda>xs. rd_bind (unser_n unser n) (\<lambda>ys. rd_return (xs @ ys))) s"
  by (induction m arbitrary: s) (auto simp: rd_bind_def split: sum.split prod.split)

lemma unser_blocks_step:
  assumes "i < nSize" "0 < step" "j = (if i + step > nSize then nSize else i + step)"
  shows "unser_blocks unser step nSize i
    = rd_bind (unser_n unser (j - i)) (\<lambda>xs.
      rd_bind (unser_blocks unser step nSize j) (\<lambda>ys. rd_return (xs @ ys)))"
  using assms(1,2) by (subst unser_blocks.simps) (simp only: assms(3) Let_def if_True if_False neq0_conv [symmetric])

lemma unser_blocks_eq:
  "0 < step \<Longrightarrow> i \<le> nSize \<Longrightarrow> unser_blocks unser step nSize i = unser_n unser (nSize - i)"
proof (induction "nSize - i" arbitrary: i rule: less_induct)
  case less
  show ?case
  proof (cases "i < nSize")
    case True
    define j where j: "j = (if i + step > nSize then nSize else i + step)"
    have jb: "i < j" "j \<le> nSize" using True less.prems by (auto simp: j)
    then have "nSize - j < nSize - i" by simp
    then have IH: "unser_blocks unser step nSize j = unser_n unser (nSize - j)"
      using less.hyps less.prems jb by blast
    have n: "nSize - i = (j - i) + (nSize - j)" using jb by simp
    show ?thesis
      unfolding unser_blocks_step [OF True less.prems(1) j] IH n by (rule ext) (simp only: unser_n_add)
  next
    case False
    then show ?thesis using less.prems by (subst unser_blocks.simps) simp
  qed
qed

lemma unser_vec_eq:
  assumes "0 < sizeofT" "sizeofT \<le> 5000000"
  shows "unser_vec sizeofT unser = rd_bind ReadCompactSize (\<lambda>n. unser_n unser (unat n))"
proof -
  have "0 < 5000000 div sizeofT" using assms by (simp add: div_greater_zero_iff)
  then show ?thesis unfolding unser_vec_def by (intro rd_bind_cong) (simp add: unser_blocks_eq)
qed

context codec
begin

lemma unser_n_ser:
  "list_all ok v \<Longrightarrow> unser_n unser (length v) (concat (map ser v) @ s) = Inr (v, s)"
  by (induction v) (simp_all add: rd_bind_def unser_ser)

lemma vec_codec:
  assumes "0 < sizeofT" "sizeofT \<le> 5000000"
  shows "codec (ser_vec ser) (unser_vec sizeofT unser) (\<lambda>v. length v \<le> 2 ^ 25 \<and> list_all ok v)"
  by unfold_locales
    (simp add: unser_vec_eq [OF assms] ser_vec_def rd_bind_def csize.unser_ser size_word unser_n_ser)

end

context canonical_codec
begin

lemma unser_n_canonical:
  "unser_n unser n s = Inr (v, r) \<Longrightarrow> length v = n \<and> list_all ok v \<and> s = concat (map ser v) @ r"
proof (induction n arbitrary: s v)
  case (Suc n)
  then obtain x s1 xs where "ok x" "s = ser x @ s1" "unser_n unser n s1 = Inr (xs, r)" "v = x # xs"
    by (auto simp: rd_bind_eq_Inr unser_iff)
  then show ?case using Suc.IH by simp
qed simp

lemma vec_canonical:
  assumes "0 < sizeofT" "sizeofT \<le> 5000000"
  shows "canonical_codec (ser_vec ser) (unser_vec sizeofT unser) (\<lambda>v. length v \<le> 2 ^ 25 \<and> list_all ok v)"
  by (rule canonical_codec.intro [OF vec_codec [OF assms]], rule canonical_codec_axioms.intro)
    (auto simp: unser_vec_eq [OF assms] ser_vec_def csize.unser_bind_iff
      dest!: unser_n_canonical dest: size_word_unat)

end


lemma length_ser_bytes: "length (ser_bytes v) = size_string v"
  by (simp add: ser_bytes_def size_string_def length_WriteCompactSize)

lemma foldl_add: "foldl (\<lambda>n x. n + f x) a xs = a + sum_list (map f xs)" for a :: nat
  by (induction xs arbitrary: a) auto

lemma length_ser_vec:
  "(\<And>x. x \<in> set v \<Longrightarrow> length (ser x) = sz x) \<Longrightarrow> length (ser_vec ser v) = size_vec sz v"
  by (simp add: ser_vec_def size_vec_def length_WriteCompactSize foldl_add length_concat o_def
      cong: map_cong)

subsection \<open>Pairs, tuples, maps and sets\<close>

lemma pair_codec:
  assumes "codec ser1 unser1 ok1" "codec ser2 unser2 ok2"
  shows "codec (ser_pair ser1 ser2) (unser_pair unser1 unser2) (\<lambda>p. ok1 (fst p) \<and> ok2 (snd p))"
  by unfold_locales
    (simp add: ser_pair_def unser_pair_def rd_bind_def codec.unser_ser [OF assms(1)]
      codec.unser_ser [OF assms(2)])

lemma pair_canonical:
  assumes "canonical_codec ser1 unser1 ok1" "canonical_codec ser2 unser2 ok2"
  shows "canonical_codec (ser_pair ser1 ser2) (unser_pair unser1 unser2) (\<lambda>p. ok1 (fst p) \<and> ok2 (snd p))"
  by (rule canonical_codec.intro [OF pair_codec], rule canonical_codec.axioms(1) [OF assms(1)],
      rule canonical_codec.axioms(1) [OF assms(2)], rule canonical_codec_axioms.intro)
    (auto simp: ser_pair_def unser_pair_def canonical_codec.unser_bind_iff [OF assms(1)]
      canonical_codec.unser_bind_iff [OF assms(2)])

lemma tuple3_codec:
  assumes "codec ser1 unser1 ok1" "codec ser2 unser2 ok2" "codec ser3 unser3 ok3"
  shows "codec (ser_tuple3 ser1 ser2 ser3) (unser_tuple3 unser1 unser2 unser3)
    (\<lambda>(a, b, c). ok1 a \<and> ok2 b \<and> ok3 c)"
  by unfold_locales
    (auto simp: ser_tuple3_def unser_tuple3_def rd_bind_def codec.unser_ser [OF assms(1)]
      codec.unser_ser [OF assms(2)] codec.unser_ser [OF assms(3)])

lemma map_insert_last: "(\<And>p. p \<in> set m \<Longrightarrow> fst p < fst item) \<Longrightarrow> map_insert item m = m @ [item]"
  by (induction m) force+

lemma foldl_map_insert:
  "sorted_wrt (<) (map fst (m @ items)) \<Longrightarrow> foldl (\<lambda>m item. map_insert item m) m items = m @ items"
proof (induction items arbitrary: m)
  case (Cons p ps)
  then have "map_insert p m = m @ [p]"
    by (intro map_insert_last) (auto simp: sorted_wrt_append)
  then show ?case using Cons by simp
qed simp

lemma foldl_set_insert:
  "sorted_wrt (<) (m @ keys) \<Longrightarrow> foldl (\<lambda>m k. if k \<in> set m then m else insort k m) m keys = m @ keys"
proof (induction keys arbitrary: m)
  case (Cons k ks)
  then have lt: "\<forall>x \<in> set m. x < k" by (auto simp: sorted_wrt_append)
  then have "insort k m = m @ [k]" by (induction m) auto
  moreover have "k \<notin> set m" using lt by auto
  ultimately show ?case using Cons by simp
qed simp

lemma map_codec:
  assumes "codec serK unserK okK" "codec serT unserT okT"
  shows "codec (ser_map serK serT) (unser_map unserK unserT)
    (\<lambda>m. length m \<le> 2 ^ 25 \<and> sorted_wrt (<) (map fst m) \<and> list_all (\<lambda>p. okK (fst p) \<and> okT (snd p)) m)"
  by unfold_locales
    (simp add: ser_map_def unser_map_def rd_bind_def csize.unser_ser size_word
      codec.unser_n_ser [OF pair_codec [OF assms]] foldl_map_insert [of "[]", simplified])

lemma set_codec:
  assumes "codec serK unserK okK"
  shows "codec (ser_set serK) (unser_set unserK)
    (\<lambda>m. length m \<le> 2 ^ 25 \<and> sorted_wrt (<) m \<and> list_all okK m)"
  by unfold_locales
    (simp add: ser_set_def unser_set_def rd_bind_def csize.unser_ser size_word
      codec.unser_n_ser [OF assms] foldl_set_insert [of "[]", simplified])

section \<open>Properties\<close>

text \<open>A compact size is read exactly when the bytes are the shortest encoding of a number of
  at most \<open>MAX_SIZE\<close>; every other input is refused. So a length prefix can be written in one
  way only, and a prefix cannot announce more than 32 MB.\<close>

theorem CompactSize_unique:
  "ReadCompactSize s = Inr (n, r) \<longleftrightarrow> n \<le> MAX_SIZE \<and> s = WriteCompactSize n @ r"
  by (rule csize.unser_iff)

text \<open>A variable-length integer is read back from what was written for every 32-bit and
  64-bit unsigned value, the reader stops at the end of it, and the bytes written are as many
  as \<open>GetSizeOfVarInt\<close> announces; an \<open>int\<close> is read back when it is not negative, and only
  its seven low bits survive when it is.\<close>

theorem VarInt_roundtrip:
  "ReadVarInt (WriteVarInt (n :: u32) @ s) = Inr (n, s)
    \<and> ReadVarInt (WriteVarInt (m :: u64) @ s) = Inr (m, s)
    \<and> length (WriteVarInt n) = GetSizeOfVarInt n \<and> length (WriteVarInt m) = GetSizeOfVarInt m
    \<and> ReadVarInt (WriteVarInt_int i @ s) = Inr (if 0 \<le> sint i then i else i AND 0x7F, s)"
  by (simp add: varint32.unser_ser varint64.unser_ser length_WriteVarInt varint_int.unser_ser
      varint_int_negative)

text \<open>Reading a vector in blocks of five million bytes gives back the vector that was
  written, and it succeeds on no other bytes than the encoding of the vector it returns, for
  every element type whose own encoding is canonical and whose size allows a block to make
  progress.\<close>

theorem vector_codec:
  assumes "canonical_codec ser unser ok" "0 < sizeofT" "sizeofT \<le> 5000000"
  shows "unser_vec sizeofT unser s = Inr (v, r)
    \<longleftrightarrow> length v \<le> 2 ^ 25 \<and> list_all ok v \<and> s = ser_vec ser v @ r"
  using canonical_codec.unser_iff [OF canonical_codec.vec_canonical [OF assms]] by auto

theorem vector_codec_witness:
  "unser_vec 24 unser_bytes (ser_vec ser_bytes [[1, 2], []] @ [7]) = Inr ([[1, 2], []], [7])"
  using vector_codec [OF vbytes.canonical_codec_axioms, of 24 _ "[[1, 2], []]" "[7]"] by simp

text \<open>A map is read back from its encoding: its items go out in key order and each is
  inserted after the ones before it.\<close>

theorem map_roundtrip:
  assumes "codec serK unserK okK" "codec serT unserT okT" "length m \<le> 2 ^ 25"
    "sorted_wrt (<) (map fst m)" "list_all (\<lambda>p. okK (fst p) \<and> okT (snd p)) m"
  shows "unser_map unserK unserT (ser_map serK serT m @ s) = Inr (m, s)"
  using codec.unser_ser [OF map_codec [OF assms(1,2)]] assms(3-5) by blast

theorem map_roundtrip_witness:
  "unser_map READDATA unser_bytes (ser_map WRITEDATA ser_bytes [(3 :: u32, [1]), (5, [])] @ [9])
    = Inr ([(3 :: u32, [1]), (5, [])], [9])"
  using map_roundtrip [OF u32.codec_axioms vbytes.codec_axioms, of "[(3, [1]), (5, [])]" "[9]"] by simp

end
