(* ===== verification/Stream.thy ===== *)
theory Stream imports Main Prelude Serialize begin

text \<open>
  The byte streams of \<open>src/src/serialize.h\<close> under the serialization code: \<open>CDataStream\<close>, a
  vector with a read position, and \<open>CBufferedFile\<close>, a ring buffer over a file that can
  rewind. The locale \<open>byte_source\<close> is what the deserialization code relies on: a read
  returns the next unread bytes and removes them. Both classes are shown to provide it.
\<close>

section \<open>CDataStream\<close>

record CDataStream =
  ds_vch :: bytes
  ds_nReadPos :: nat
  ds_state :: nat
  ds_exceptmask :: nat

definition badbit :: nat where "badbit = 1"
definition failbit :: nat where "failbit = 4"

unbundle bit_operations_syntax

definition ds_Init :: "bytes \<Rightarrow> CDataStream" where
  "ds_Init bs = \<lparr> ds_vch = bs, ds_nReadPos = 0, ds_state = 0, ds_exceptmask = badbit OR failbit \<rparr>"

definition ds_append :: "CDataStream \<Rightarrow> bytes \<Rightarrow> CDataStream" where
  "ds_append s b = s\<lparr>ds_vch := ds_vch s @ b\<rparr>"

definition ds_bytes :: "CDataStream \<Rightarrow> bytes" where
  "ds_bytes s = drop (ds_nReadPos s) (ds_vch s)"

definition ds_size :: "CDataStream \<Rightarrow> nat" where
  "ds_size s = length (ds_vch s) - ds_nReadPos s"

definition ds_empty :: "CDataStream \<Rightarrow> bool" where
  "ds_empty s = (length (ds_vch s) = ds_nReadPos s)"

definition ds_resize :: "CDataStream \<Rightarrow> nat \<Rightarrow> byte \<Rightarrow> CDataStream" where
  "ds_resize s n c =
     (let m = n + ds_nReadPos s
      in s\<lparr>ds_vch := take m (ds_vch s) @ replicate (m - length (ds_vch s)) c\<rparr>)"

definition ds_clear :: "CDataStream \<Rightarrow> CDataStream" where
  "ds_clear s = s\<lparr>ds_vch := [], ds_nReadPos := 0\<rparr>"

text \<open>Inserting before position \<open>it\<close> of the vector; at the front the bytes already read make
  room when there are enough of them.\<close>

definition ds_insert :: "CDataStream \<Rightarrow> nat \<Rightarrow> bytes \<Rightarrow> CDataStream" where
  "ds_insert s it bs =
     (if it = ds_nReadPos s \<and> length bs \<le> ds_nReadPos s then
        let p = ds_nReadPos s - length bs
        in s\<lparr>ds_nReadPos := p,
             ds_vch := take p (ds_vch s) @ bs @ drop (p + length bs) (ds_vch s)\<rparr>
      else s\<lparr>ds_vch := take it (ds_vch s) @ bs @ drop it (ds_vch s)\<rparr>)"

definition ds_erase1 :: "CDataStream \<Rightarrow> nat \<Rightarrow> CDataStream" where
  "ds_erase1 s it =
     (if it = ds_nReadPos s then
        let p = ds_nReadPos s + 1 in
        if p \<ge> length (ds_vch s) then s\<lparr>ds_nReadPos := 0, ds_vch := []\<rparr>
        else s\<lparr>ds_nReadPos := p\<rparr>
      else s\<lparr>ds_vch := take it (ds_vch s) @ drop (it + 1) (ds_vch s)\<rparr>)"

definition ds_erase :: "CDataStream \<Rightarrow> nat \<Rightarrow> nat \<Rightarrow> CDataStream" where
  "ds_erase s i j =
     (if i = ds_nReadPos s then
        if j = length (ds_vch s) then s\<lparr>ds_nReadPos := 0, ds_vch := []\<rparr>
        else s\<lparr>ds_nReadPos := j\<rparr>
      else s\<lparr>ds_vch := take i (ds_vch s) @ drop j (ds_vch s)\<rparr>)"

definition ds_Compact :: "CDataStream \<Rightarrow> CDataStream" where
  "ds_Compact s = s\<lparr>ds_vch := drop (ds_nReadPos s) (ds_vch s), ds_nReadPos := 0\<rparr>"

definition ds_Rewind :: "CDataStream \<Rightarrow> nat \<Rightarrow> bool \<times> CDataStream" where
  "ds_Rewind s n =
     (if n > ds_nReadPos s then (False, s) else (True, s\<lparr>ds_nReadPos := ds_nReadPos s - n\<rparr>))"

text \<open>\<open>setstate\<close> throws when a bit of the mask is set; the first component says so.\<close>

definition ds_setstate :: "CDataStream \<Rightarrow> nat \<Rightarrow> bool \<times> CDataStream" where
  "ds_setstate s bits =
     (let s' = s\<lparr>ds_state := ds_state s OR bits\<rparr>
      in (ds_state s' AND ds_exceptmask s' \<noteq> 0, s'))"

text \<open>The position is an \<open>unsigned int\<close>: the sum wraps at \<open>2^32\<close>.\<close>

definition ds_read :: "CDataStream \<Rightarrow> nat \<Rightarrow> (ser_error + bytes) \<times> CDataStream" where
  "ds_read s nSize =
     (let nReadPosNext = (ds_nReadPos s + nSize) mod 2 ^ 32 in
      if nReadPosNext \<ge> length (ds_vch s) then
        if nReadPosNext > length (ds_vch s) then
          case ds_setstate s failbit of (threw, s') \<Rightarrow>
            if threw then (Inl EndOfData, s')
            else
              let n = length (ds_vch s) - ds_nReadPos s
              in (Inr (take n (drop (ds_nReadPos s) (ds_vch s)) @ replicate (nSize - n) 0),
                  s'\<lparr>ds_nReadPos := 0, ds_vch := []\<rparr>)
        else (Inr (take nSize (drop (ds_nReadPos s) (ds_vch s))), s\<lparr>ds_nReadPos := 0, ds_vch := []\<rparr>)
      else (Inr (take nSize (drop (ds_nReadPos s) (ds_vch s))), s\<lparr>ds_nReadPos := nReadPosNext\<rparr>))"

definition ds_ignore :: "CDataStream \<Rightarrow> nat \<Rightarrow> (ser_error + unit) \<times> CDataStream" where
  "ds_ignore s nSize =
     (let nReadPosNext = (ds_nReadPos s + nSize) mod 2 ^ 32 in
      if nReadPosNext \<ge> length (ds_vch s) then
        if nReadPosNext > length (ds_vch s) then
          case ds_setstate s failbit of (threw, s') \<Rightarrow>
            if threw then (Inl EndOfData, s') else (Inr (), s'\<lparr>ds_nReadPos := 0, ds_vch := []\<rparr>)
        else (Inr (), s\<lparr>ds_nReadPos := 0, ds_vch := []\<rparr>)
      else (Inr (), s\<lparr>ds_nReadPos := nReadPosNext\<rparr>))"

definition ds_write :: "CDataStream \<Rightarrow> bytes \<Rightarrow> CDataStream" where
  "ds_write s bs = s\<lparr>ds_vch := ds_vch s @ bs\<rparr>"

definition ds_GetAndClear :: "CDataStream \<Rightarrow> bytes \<Rightarrow> bytes \<times> CDataStream" where
  "ds_GetAndClear s data = (data @ ds_bytes s, ds_clear s)"

section \<open>CBufferedFile\<close>

text \<open>\<open>bf_src\<close> is the content of the file; the position of the \<open>FILE\<close> is always \<open>nSrcPos\<close>.
  \<open>fread\<close> returns fewer bytes than asked for only at the end of the file.\<close>

record CBufferedFile =
  bf_src :: bytes
  bf_nSrcPos :: nat
  bf_nReadPos :: nat
  bf_nReadLimit :: nat
  bf_nRewind :: nat
  bf_vchBuf :: bytes

definition bf_Init :: "bytes \<Rightarrow> nat \<Rightarrow> nat \<Rightarrow> CBufferedFile" where
  "bf_Init file nBufSize nRewindIn =
     \<lparr> bf_src = file, bf_nSrcPos = 0, bf_nReadPos = 0, bf_nReadLimit = 2 ^ 64 - 1,
       bf_nRewind = nRewindIn, bf_vchBuf = replicate nBufSize 0 \<rparr>"

text \<open>\<open>Fill\<close>: None is the exception at the end of the file. The subtraction that computes
  \<open>nAvail\<close> is unsigned; it is called with everything read, where it cannot wrap.\<close>

definition bf_Fill :: "CBufferedFile \<Rightarrow> (bool \<times> CBufferedFile) option" where
  "bf_Fill f =
     (let size = length (bf_vchBuf f);
          pos = bf_nSrcPos f mod size;
          readNow = size - pos;
          nAvail = nat ((int size - (int (bf_nSrcPos f) - int (bf_nReadPos f)) - int (bf_nRewind f)) mod 2 ^ 32);
          readNow = (if nAvail < readNow then nAvail else readNow)
      in if readNow = 0 then Some (False, f)
         else
           let data = take readNow (drop (bf_nSrcPos f) (bf_src f)) in
           if data = [] then None
           else Some (True, f\<lparr>bf_vchBuf := take pos (bf_vchBuf f) @ data @ drop (pos + length data) (bf_vchBuf f),
                              bf_nSrcPos := bf_nSrcPos f + length data\<rparr>))"

text \<open>The loop of \<open>read\<close>, with fuel: the outer None is a loop still running when the fuel is
  spent.\<close>

fun bf_read_loop :: "nat \<Rightarrow> CBufferedFile \<Rightarrow> nat \<Rightarrow> bytes \<Rightarrow> ((ser_error + bytes) \<times> CBufferedFile) option" where
  "bf_read_loop 0 f nSize acc = (if nSize > 0 then None else Some (Inr acc, f))"
| "bf_read_loop (Suc fuel) f nSize acc =
     (if nSize > 0 then
        case (if bf_nReadPos f = bf_nSrcPos f then bf_Fill f else Some (True, f)) of
          None \<Rightarrow> Some (Inl EndOfData, f)
        | Some (_, f) \<Rightarrow>
            let pos = bf_nReadPos f mod length (bf_vchBuf f);
                nNow = nSize;
                nNow = (if nNow + pos > length (bf_vchBuf f) then length (bf_vchBuf f) - pos else nNow);
                nNow = (if nNow + bf_nReadPos f > bf_nSrcPos f then bf_nSrcPos f - bf_nReadPos f else nNow)
            in bf_read_loop fuel (f\<lparr>bf_nReadPos := bf_nReadPos f + nNow\<rparr>) (nSize - nNow)
                 (acc @ take nNow (drop pos (bf_vchBuf f)))
      else Some (Inr acc, f))"

definition bf_read :: "CBufferedFile \<Rightarrow> nat \<Rightarrow> ((ser_error + bytes) \<times> CBufferedFile) option" where
  "bf_read f nSize =
     (if nSize + bf_nReadPos f > bf_nReadLimit f then Some (Inl PastBufferLimit, f)
      else if nSize + bf_nRewind f > length (bf_vchBuf f) then Some (Inl LargerThanBuffer, f)
      else bf_read_loop (nSize + 1) f nSize [])"

definition bf_SetPos :: "CBufferedFile \<Rightarrow> nat \<Rightarrow> bool \<times> CBufferedFile" where
  "bf_SetPos f nPos =
     (if nPos + bf_nRewind f < bf_nSrcPos f
      then (False, f\<lparr>bf_nReadPos := bf_nSrcPos f - bf_nRewind f\<rparr>)
      else if nPos > bf_nSrcPos f then (False, f\<lparr>bf_nReadPos := bf_nSrcPos f\<rparr>)
      else (True, f\<lparr>bf_nReadPos := nPos\<rparr>))"

definition bf_Seek :: "CBufferedFile \<Rightarrow> nat \<Rightarrow> bool \<times> CBufferedFile" where
  "bf_Seek f nPos =
     (if nPos \<ge> 2 ^ 63 then (False, f) else (True, f\<lparr>bf_nSrcPos := nPos, bf_nReadPos := nPos\<rparr>))"

definition bf_SetLimit :: "CBufferedFile \<Rightarrow> nat \<Rightarrow> bool \<times> CBufferedFile" where
  "bf_SetLimit f nPos =
     (if nPos < bf_nReadPos f then (False, f) else (True, f\<lparr>bf_nReadLimit := nPos\<rparr>))"

fun bf_FindByte :: "nat \<Rightarrow> CBufferedFile \<Rightarrow> byte \<Rightarrow> ((ser_error + unit) \<times> CBufferedFile) option" where
  "bf_FindByte 0 f ch = None"
| "bf_FindByte (Suc fuel) f ch =
     (case (if bf_nReadPos f = bf_nSrcPos f then bf_Fill f else Some (True, f)) of
        None \<Rightarrow> Some (Inl EndOfData, f)
      | Some (_, f) \<Rightarrow>
          if bf_vchBuf f ! (bf_nReadPos f mod length (bf_vchBuf f)) = ch then Some (Inr (), f)
          else bf_FindByte fuel (f\<lparr>bf_nReadPos := bf_nReadPos f + 1\<rparr>) ch)"


section \<open>What deserialization relies on\<close>

text \<open>A computation that reads from a stream and may throw; None is one that does not return.\<close>

type_synonym ('s, 'a) stream_op = "'s \<Rightarrow> ((ser_error + 'a) \<times> 's) option"

definition s_return :: "'a \<Rightarrow> ('s, 'a) stream_op" where
  "s_return x s = Some (Inr x, s)"

definition s_bind :: "('s, 'a) stream_op \<Rightarrow> ('a \<Rightarrow> ('s, 'b) stream_op) \<Rightarrow> ('s, 'b) stream_op" where
  "s_bind m f s = (case m s of None \<Rightarrow> None | Some (Inl e, s') \<Rightarrow> Some (Inl e, s') | Some (Inr x, s') \<Rightarrow> f x s')"

locale byte_source =
  fixes read_op :: "'s \<Rightarrow> nat \<Rightarrow> ((ser_error + bytes) \<times> 's) option"
    and unread :: "'s \<Rightarrow> bytes" and inv :: "'s \<Rightarrow> bool" and max_read :: nat
  assumes read_enough: "inv s \<Longrightarrow> n \<le> max_read \<Longrightarrow> n \<le> length (unread s) \<Longrightarrow>
      \<exists>s'. read_op s n = Some (Inr (take n (unread s)), s') \<and> unread s' = drop n (unread s) \<and> inv s'"
    and read_short: "inv s \<Longrightarrow> n \<le> max_read \<Longrightarrow> length (unread s) < n \<Longrightarrow>
      \<exists>s'. read_op s n = Some (Inl EndOfData, s')"
begin

text \<open>A stream computation implements a reader: same value, same exception, same rest.\<close>

definition implements :: "('s, 'a) stream_op \<Rightarrow> 'a reader \<Rightarrow> bool" where
  "implements m r \<longleftrightarrow> (\<forall>s. inv s \<longrightarrow>
     (case r (unread s) of
        Inl e \<Rightarrow> \<exists>s'. m s = Some (Inl e, s')
      | Inr (x, t) \<Rightarrow> \<exists>s'. m s = Some (Inr x, s') \<and> unread s' = t \<and> inv s'))"

lemma implements_return: "implements (s_return x) (rd_return x)"
  by (simp add: implements_def s_return_def)

lemma implements_read: "n \<le> max_read \<Longrightarrow> implements (\<lambda>s. read_op s n) (rd_bytes n)"
  using read_enough read_short by (auto simp: implements_def rd_bytes_def not_less)

lemma implements_bind:
  assumes "implements m r" "\<And>x. implements (f x) (g x)"
  shows "implements (s_bind m f) (rd_bind r g)"
  unfolding implements_def
proof (intro allI impI)
  fix s assume inv: "inv s"
  show "case rd_bind r g (unread s) of Inl e \<Rightarrow> \<exists>s'. s_bind m f s = Some (Inl e, s')
      | Inr (x, t) \<Rightarrow> \<exists>s'. s_bind m f s = Some (Inr x, s') \<and> unread s' = t \<and> inv s'"
  proof (cases "r (unread s)")
    case (Inl e)
    then have "\<exists>s'. m s = Some (Inl e, s')" using assms(1) inv by (auto simp: implements_def)
    then show ?thesis using Inl by (auto simp: rd_bind_def s_bind_def)
  next
    case (Inr p)
    obtain x t where p: "p = (x, t)" by fastforce
    then obtain s' where s': "m s = Some (Inr x, s')" "unread s' = t" "inv s'"
      using assms(1) inv Inr by (fastforce simp: implements_def)
    have "case g x t of Inl e \<Rightarrow> \<exists>s''. f x s' = Some (Inl e, s'')
        | Inr (y, u) \<Rightarrow> \<exists>s''. f x s' = Some (Inr y, s'') \<and> unread s'' = u \<and> inv s''"
      using assms(2) [of x] s' by (auto simp: implements_def)
    moreover have e: "s_bind m f s = f x s'" "rd_bind r g (unread s) = g x t"
      using s' Inr p by (simp_all add: rd_bind_def s_bind_def)
    ultimately show ?thesis unfolding e by simp
  qed
qed

lemma implements_READDATA:
  "LENGTH('a::len) div 8 \<le> max_read \<Longrightarrow>
   implements (s_bind (\<lambda>s. read_op s (LENGTH('a) div 8)) (\<lambda>bs. s_return (le_word bs :: 'a word))) READDATA"
  unfolding READDATA_def by (intro implements_bind implements_read implements_return)

text \<open>A sequence of reads: the fields of a structure, one after the other.\<close>

fun read_fields :: "nat list \<Rightarrow> ('s, bytes list) stream_op" where
  "read_fields [] = s_return []"
| "read_fields (n # ns) = s_bind (\<lambda>s. read_op s n) (\<lambda>x. s_bind (read_fields ns) (\<lambda>xs. s_return (x # xs)))"

fun fields_reader :: "nat list \<Rightarrow> bytes list reader" where
  "fields_reader [] = rd_return []"
| "fields_reader (n # ns) = rd_bind (rd_bytes n) (\<lambda>x. rd_bind (fields_reader ns) (\<lambda>xs. rd_return (x # xs)))"

lemma implements_fields: "list_all (\<lambda>n. n \<le> max_read) ns \<Longrightarrow> implements (read_fields ns) (fields_reader ns)"
  by (induction ns) (auto intro!: implements_bind implements_read implements_return)

end


section \<open>The vector stream\<close>

definition ds_inv :: "CDataStream \<Rightarrow> bool" where
  "ds_inv s \<longleftrightarrow> ds_nReadPos s \<le> length (ds_vch s) \<and> length (ds_vch s) < 2 ^ 31
     \<and> ds_exceptmask s = badbit OR failbit"

lemma failbit_throws: "(st OR failbit) AND (badbit OR failbit) \<noteq> 0"
proof
  have "bit (4 :: nat) 2" by (simp add: bit_iff_odd)
  then have "bit ((st OR failbit) AND (badbit OR failbit)) 2"
    by (simp add: bit_and_iff bit_or_iff failbit_def)
  moreover assume "(st OR failbit) AND (badbit OR failbit) = 0"
  ultimately show False by simp
qed

interpretation ds: byte_source "\<lambda>s n. Some (ds_read s n)" ds_bytes ds_inv "2 ^ 31 - 1"
proof
  fix s and n :: nat
  assume inv: "ds_inv s" and n: "n \<le> 2 ^ 31 - 1"
  have m: "(ds_nReadPos s + n) mod 2 ^ 32 = ds_nReadPos s + n"
    using inv n by (simp add: ds_inv_def)
  show "\<exists>s'. Some (ds_read s n) = Some (Inr (take n (ds_bytes s)), s') \<and> ds_bytes s' = drop n (ds_bytes s) \<and> ds_inv s'"
    if "n \<le> length (ds_bytes s)"
    using that inv by (auto simp: ds_read_def Let_def m ds_bytes_def ds_inv_def add.commute)
  show "\<exists>s'. Some (ds_read s n) = Some (Inl EndOfData, s')" if "length (ds_bytes s) < n"
    using that inv n failbit_throws [of "ds_state s"]
    by (auto simp: ds_read_def Let_def ds_bytes_def ds_inv_def ds_setstate_def)
qed

section \<open>The ring buffer\<close>

text \<open>The buffer holds every byte of the file from position \<open>b\<close> on that is at most a buffer
  length behind the end of what was read from the file.\<close>

definition bf_window :: "nat \<Rightarrow> nat \<Rightarrow> nat \<Rightarrow> CBufferedFile \<Rightarrow> bool" where
  "bf_window N R b f \<longleftrightarrow>
     length (bf_vchBuf f) = N \<and> bf_nRewind f = R \<and> R < N \<and> N < 2 ^ 32 \<and>
     bf_nReadPos f \<le> bf_nSrcPos f \<and> bf_nSrcPos f \<le> length (bf_src f) \<and>
     bf_nSrcPos f \<le> bf_nReadPos f + N \<and> length (bf_src f) + N \<le> bf_nReadLimit f \<and>
     (\<forall>p. b \<le> p \<and> p < bf_nSrcPos f \<and> bf_nSrcPos f \<le> p + N \<longrightarrow> bf_vchBuf f ! (p mod N) = bf_src f ! p)"

definition bf_inv :: "nat \<Rightarrow> nat \<Rightarrow> CBufferedFile \<Rightarrow> bool" where
  "bf_inv N R f \<longleftrightarrow> (\<exists>b \<le> bf_nReadPos f. bf_window N R b f)"

definition bf_unread :: "CBufferedFile \<Rightarrow> bytes" where
  "bf_unread f = drop (bf_nReadPos f) (bf_src f)"

lemma ring_slots_distinct:
  assumes "p < (q :: nat)" "q < p + N" shows "p mod N \<noteq> q mod N"
proof
  assume "p mod N = q mod N"
  then have "(q - p) mod N = 0" using assms(1) by (metis less_imp_le mod_eq_dvd_iff_nat dvd_eq_mod_eq_0)
  moreover have "0 < q - p" "q - p < N" using assms by auto
  ultimately show False by simp
qed

lemma ring_write:
  assumes "length buf = N" "pos = q mod N" "length data \<le> N - pos" "0 < N"
    and old: "\<And>p. b \<le> p \<Longrightarrow> p < q \<Longrightarrow> q \<le> p + N \<Longrightarrow> buf ! (p mod N) = src ! p"
    and new: "\<And>i. i < length data \<Longrightarrow> data ! i = src ! (q + i)"
    and p: "b \<le> p" "p < q + length data" "q + length data \<le> p + N"
  shows "(take pos buf @ data @ drop (pos + length data) buf) ! (p mod N) = src ! p"
proof -
  have pos: "pos < N" using assms(2,4) by simp
  show ?thesis
  proof (cases "p < q")
    case True
    have "p mod N \<noteq> pos + i" if "i < length data" for i
    proof -
      have "(q + i) mod N = pos + i"
        using assms(2,3) that pos by (metis less_diff_conv mod_add_left_eq mod_less order_less_le_trans add.commute)
      moreover have "p mod N \<noteq> (q + i) mod N"
        using True p that by (intro ring_slots_distinct) auto
      ultimately show ?thesis by simp
    qed
    then have "p mod N < pos \<or> pos + length data \<le> p mod N"
      by (metis le_add_diff_inverse less_diff_conv2 linorder_not_less nat_add_left_cancel_less)
    moreover have "p mod N < N" using assms(4) by simp
    ultimately have "(take pos buf @ data @ drop (pos + length data) buf) ! (p mod N) = buf ! (p mod N)"
      using assms(1,3) pos by (auto simp: nth_append min_def)
    then show ?thesis using old True p by simp
  next
    case False
    define i where "i = p - q"
    have i: "p = q + i" "i < length data" using False p by (auto simp: i_def)
    have "p mod N = pos + i"
      using assms(2,3) i pos by (metis less_diff_conv mod_add_left_eq mod_less order_less_le_trans add.commute)
    then show ?thesis using i new assms(1) pos by (simp add: nth_append min_def)
  qed
qed


lemma avail:
  assumes "R < N" "N < 2 ^ 32"
  shows "nat ((int N - (int q - int q) - int R) mod 2 ^ 32) = N - R"
proof -
  have "int N - (int q - int q) - int R = int (N - R)" using assms(1) by (simp add: of_nat_diff)
  moreover have "int (N - R) mod 2 ^ 32 = int (N - R)"
    using assms(2) by (intro mod_pos_pos_trivial) auto
  ultimately show ?thesis by (simp only: nat_int)
qed

lemma Fill_end:
  assumes "bf_window N R b f" "bf_nReadPos f = bf_nSrcPos f" "bf_nSrcPos f = length (bf_src f)"
  shows "bf_Fill f = None"
proof -
  have N: "length (bf_vchBuf f) = N" "bf_nRewind f = R" "R < N" "N < 2 ^ 32"
    using assms(1) by (simp_all add: bf_window_def)
  have "nat ((int N - (int (bf_nSrcPos f) - int (bf_nReadPos f)) - int R) mod 2 ^ 32) = N - R"
    unfolding assms(2) using N by (intro avail)
  then show ?thesis
    using N assms(3) mod_less_divisor [of N "length (bf_src f)"] by (simp add: bf_Fill_def Let_def)
qed

lemma Fill_more:
  assumes "bf_window N R b f" "bf_nReadPos f = bf_nSrcPos f" "bf_nSrcPos f < length (bf_src f)"
  shows "\<exists>f'. bf_Fill f = Some (True, f') \<and> bf_window N R b f' \<and> bf_nReadPos f' = bf_nReadPos f
    \<and> bf_nReadPos f' < bf_nSrcPos f' \<and> bf_src f' = bf_src f"
proof -
  have N: "length (bf_vchBuf f) = N" "bf_nRewind f = R" "R < N" "N < 2 ^ 32" "0 < N"
    using assms(1) by (simp_all add: bf_window_def)
  define q pos where "q = bf_nSrcPos f" and "pos = q mod N"
  have pos: "pos < N" using N by (simp add: pos_def)
  define now where "now = (if N - R < N - pos then N - R else N - pos)"
  define data where "data = take now (drop q (bf_src f))"
  have now: "0 < now" "now \<le> N - pos" using N pos by (auto simp: now_def)
  have dl: "length data \<le> now" "0 < length data" "q + length data \<le> length (bf_src f)"
    using now(1) assms(3) by (auto simp: data_def q_def)
  have av: "nat ((int N - (int q - int (bf_nReadPos f)) - int R) mod 2 ^ 32) = N - R"
    unfolding assms(2) q_def using N by (intro avail)
  define f' where "f' = f\<lparr>bf_vchBuf := take pos (bf_vchBuf f) @ data @ drop (pos + length data) (bf_vchBuf f),
    bf_nSrcPos := q + length data\<rparr>"
  have "bf_Fill f = Some (True, f')"
    unfolding bf_Fill_def Let_def N q_def [symmetric] pos_def [symmetric] av now_def [symmetric]
      data_def [symmetric]
    using now(1) dl(2) by (auto simp: f'_def)
  moreover have "bf_window N R b f'"
    unfolding bf_window_def
  proof (intro conjI allI impI)
    fix p assume p: "b \<le> p \<and> p < bf_nSrcPos f' \<and> bf_nSrcPos f' \<le> p + N"
    have old: "\<And>p. b \<le> p \<Longrightarrow> p < q \<Longrightarrow> q \<le> p + N \<Longrightarrow> bf_vchBuf f ! (p mod N) = bf_src f ! p"
      using assms(1) by (simp add: bf_window_def q_def)
    have new: "\<And>i. i < length data \<Longrightarrow> data ! i = bf_src f ! (q + i)"
      using assms(3) by (simp add: data_def q_def)
    have "(take pos (bf_vchBuf f) @ data @ drop (pos + length data) (bf_vchBuf f)) ! (p mod N) = bf_src f ! p"
      by (rule ring_write [OF N(1) pos_def _ N(5) old new])
        (use now dl p in \<open>auto simp: f'_def\<close>)
    then show "bf_vchBuf f' ! (p mod N) = bf_src f' ! p" by (simp add: f'_def)
  qed (use assms N pos now dl in \<open>auto simp: f'_def bf_window_def q_def\<close>)
  ultimately show ?thesis using dl(2) assms(2) by (auto simp: f'_def q_def)
qed

lemma window_take:
  assumes w: "bf_window N R b f" and "b \<le> bf_nReadPos f" "bf_nReadPos f mod N + k \<le> N"
    "bf_nReadPos f + k \<le> bf_nSrcPos f"
  shows "take k (drop (bf_nReadPos f mod N) (bf_vchBuf f)) = take k (bf_unread f)"
proof (rule nth_equalityI)
  have N: "length (bf_vchBuf f) = N" "0 < N" "bf_nSrcPos f \<le> length (bf_src f)"
    "bf_nSrcPos f \<le> bf_nReadPos f + N"
    using w by (auto simp: bf_window_def)
  show "length (take k (drop (bf_nReadPos f mod N) (bf_vchBuf f))) = length (take k (bf_unread f))"
    using assms N by (simp add: bf_unread_def)
  fix i assume i: "i < length (take k (drop (bf_nReadPos f mod N) (bf_vchBuf f)))"
  then have ik: "i < k" by simp
  have "(bf_nReadPos f + i) mod N = bf_nReadPos f mod N + i"
    using assms(3) ik N(2) by (metis add.commute add_less_cancel_left mod_add_left_eq mod_less order_less_le_trans)
  moreover have "bf_vchBuf f ! ((bf_nReadPos f + i) mod N) = bf_src f ! (bf_nReadPos f + i)"
    using w assms ik N by (simp add: bf_window_def)
  ultimately show "take k (drop (bf_nReadPos f mod N) (bf_vchBuf f)) ! i = take k (bf_unread f) ! i"
    using i ik assms N by (simp add: bf_unread_def)
qed

lemma window_advance:
  assumes "bf_window N R b f" "bf_nReadPos f + k \<le> bf_nSrcPos f"
  shows "bf_window N R b (f\<lparr>bf_nReadPos := bf_nReadPos f + k\<rparr>)"
  using assms by (auto simp: bf_window_def)

lemma read_loop:
  assumes "bf_window N R b f" "b \<le> bf_nReadPos f" "n < fuel"
  shows "if n \<le> length (bf_unread f)
    then \<exists>f'. bf_read_loop fuel f n acc = Some (Inr (acc @ take n (bf_unread f)), f')
       \<and> bf_window N R b f' \<and> bf_nReadPos f' = bf_nReadPos f + n \<and> bf_src f' = bf_src f
    else \<exists>f'. bf_read_loop fuel f n acc = Some (Inl EndOfData, f')"
  using assms
proof (induction fuel arbitrary: f n acc)
  case (Suc fuel)
  show ?case
  proof (cases "n = 0")
    case True
    then show ?thesis using Suc.prems by simp
  next
    case n: False
    have N: "length (bf_vchBuf f) = N" "0 < N" "bf_nReadPos f \<le> bf_nSrcPos f" "bf_nSrcPos f \<le> length (bf_src f)"
      using Suc.prems(1) by (auto simp: bf_window_def)
    show ?thesis
    proof (cases "bf_nReadPos f = length (bf_src f)")
      case True
      then have "bf_Fill f = None" "bf_nReadPos f = bf_nSrcPos f" using N Fill_end Suc.prems(1) by auto
      then show ?thesis using n True by (auto simp: bf_unread_def)
    next
      case False
      obtain g where g: "(if bf_nReadPos f = bf_nSrcPos f then bf_Fill f else Some (True, f)) = Some (True, g)"
        "bf_window N R b g" "bf_nReadPos g = bf_nReadPos f" "bf_nReadPos g < bf_nSrcPos g" "bf_src g = bf_src f"
        using Fill_more [OF Suc.prems(1)] False N Suc.prems(1) by (cases "bf_nReadPos f = bf_nSrcPos f") auto
      define pos where "pos = bf_nReadPos g mod N"
      define k where "k = (let m = (if n + pos > N then N - pos else n)
        in if m + bf_nReadPos g > bf_nSrcPos g then bf_nSrcPos g - bf_nReadPos g else m)"
      define h where "h = g\<lparr>bf_nReadPos := bf_nReadPos g + k\<rparr>"
      have lenN: "length (bf_vchBuf g) = N" using g(2) by (simp add: bf_window_def)
      have pos: "pos < N" using N by (simp add: pos_def)
      have k: "0 < k" "k \<le> n" "pos + k \<le> N" "bf_nReadPos g + k \<le> bf_nSrcPos g"
        using n pos g(4) by (auto simp: k_def Let_def)
      have t: "take k (drop pos (bf_vchBuf g)) = take k (bf_unread f)"
        using window_take [OF g(2), of k] Suc.prems(2) g k by (simp add: pos_def bf_unread_def)
      have w: "bf_window N R b h" "b \<le> bf_nReadPos h"
        using window_advance [OF g(2) k(4)] Suc.prems(2) g by (simp_all add: h_def)
      have step: "bf_read_loop (Suc fuel) f n acc = bf_read_loop fuel h (n - k) (acc @ take k (bf_unread f))"
        unfolding bf_read_loop.simps g(1) option.case prod.case Let_def lenN pos_def [symmetric]
          k_def [unfolded Let_def, symmetric] t h_def [symmetric] using n by simp
      have u: "bf_unread h = drop k (bf_unread f)" using g by (simp add: h_def bf_unread_def add.commute)
      have IH: "if n - k \<le> length (bf_unread h)
        then \<exists>f'. bf_read_loop fuel h (n - k) (acc @ take k (bf_unread f))
             = Some (Inr ((acc @ take k (bf_unread f)) @ take (n - k) (bf_unread h)), f')
           \<and> bf_window N R b f' \<and> bf_nReadPos f' = bf_nReadPos h + (n - k) \<and> bf_src f' = bf_src h
        else \<exists>f'. bf_read_loop fuel h (n - k) (acc @ take k (bf_unread f)) = Some (Inl EndOfData, f')"
        by (rule Suc.IH [OF w]) (use k Suc.prems(3) in simp)
      have len: "k \<le> length (bf_unread f)"
        using k(4) g(3,5) g(2) by (auto simp: bf_unread_def bf_window_def)
      have "take k (bf_unread f) @ take (n - k) (drop k (bf_unread f)) = take n (bf_unread f)"
        using k(2) by (metis le_add_diff_inverse take_add)
      moreover have "n - k \<le> length (bf_unread h) \<longleftrightarrow> n \<le> length (bf_unread f)"
        using len k(2) by (auto simp: u)
      moreover have "bf_nReadPos h + (n - k) = bf_nReadPos f + n" "bf_src h = bf_src f"
        using k(2) g(3,5) by (simp_all add: h_def)
      ultimately show ?thesis using IH unfolding step append_assoc u by presburger
    qed
  qed
qed simp


lemma bf_read_spec:
  assumes "bf_window N R b f" "b \<le> bf_nReadPos f" "n \<le> N - R"
  shows "if n \<le> length (bf_unread f)
    then \<exists>f'. bf_read f n = Some (Inr (take n (bf_unread f)), f')
       \<and> bf_window N R b f' \<and> bf_nReadPos f' = bf_nReadPos f + n \<and> bf_src f' = bf_src f
    else \<exists>f'. bf_read f n = Some (Inl EndOfData, f')"
proof -
  have eq: "bf_read f n = bf_read_loop (n + 1) f n []"
    using assms by (auto simp: bf_read_def bf_window_def simp del: bf_read_loop.simps)
  show ?thesis unfolding eq using read_loop [OF assms(1,2) less_add_one, of n "[]"] by (simp only: append_Nil)
qed

interpretation bf: byte_source bf_read bf_unread "bf_inv N R" "N - R" for N R
proof
  fix f n assume "bf_inv N R f" and n: "n \<le> N - R"
  then obtain b where b: "b \<le> bf_nReadPos f" "bf_window N R b f" by (auto simp: bf_inv_def)
  show "\<exists>s'. bf_read f n = Some (Inr (take n (bf_unread f)), s') \<and> bf_unread s' = drop n (bf_unread f) \<and> bf_inv N R s'"
    if "n \<le> length (bf_unread f)"
  proof -
    obtain f' where f': "bf_read f n = Some (Inr (take n (bf_unread f)), f')" "bf_window N R b f'"
      "bf_nReadPos f' = bf_nReadPos f + n" "bf_src f' = bf_src f"
      using bf_read_spec [OF b(2,1) n] \<open>n \<le> length (bf_unread f)\<close> by auto
    then have "bf_unread f' = drop n (bf_unread f)" by (simp add: bf_unread_def add.commute)
    moreover have "bf_inv N R f'"
      unfolding bf_inv_def by (rule exI [of _ b]) (use f' b in simp)
    ultimately show ?thesis using f'(1) by blast
  qed
  show "\<exists>s'. bf_read f n = Some (Inl EndOfData, s')" if "length (bf_unread f) < n"
    using bf_read_spec [OF b(2,1) n] that by auto
qed

section \<open>Properties\<close>

text \<open>Reading any sequence of fields from a \<open>CDataStream\<close> gives what the pure readers of
  the serialization give on its unread bytes: the same values and the same remaining bytes,
  or the end-of-data exception as soon as a field is not complete. The position arithmetic
  does not wrap, and the clearing of a fully read buffer is not observable.\<close>

theorem CDataStream_reads:
  assumes "ds_inv s" "list_all (\<lambda>n. n < 2 ^ 31) ns"
  shows "case ds.fields_reader ns (ds_bytes s) of
      Inl e \<Rightarrow> \<exists>s'. ds.read_fields ns s = Some (Inl e, s')
    | Inr (xs, t) \<Rightarrow> \<exists>s'. ds.read_fields ns s = Some (Inr xs, s') \<and> ds_bytes s' = t \<and> ds_inv s'"
proof -
  have "list_all (\<lambda>n. n \<le> 2 ^ 31 - 1) ns" using assms(2) by (auto simp: list_all_iff)
  then show ?thesis using ds.implements_fields [of ns] assms(1) by (simp add: ds.implements_def)
qed

theorem CDataStream_reads_witness:
  "\<exists>s'. ds.read_fields [2, 1] (ds_Init [1, 2, 3, 4]) = Some (Inr [[1, 2], [3]], s') \<and> ds_bytes s' = [4]"
  using CDataStream_reads [of "ds_Init [1, 2, 3, 4]" "[2, 1]"]
  by (simp add: ds_Init_def ds_inv_def ds_bytes_def rd_bind_def rd_bytes_def) blast

text \<open>A read from the ring buffer returns, and it returns the next bytes of the file, across
  any number of refills and wrap-arounds of the buffer. Afterwards any position that is at
  most \<open>nRewind\<close> bytes behind what was fetched from the file can be returned to, and the
  following read gives the file's bytes from that position again.\<close>

theorem CBufferedFile_rewind:
  assumes "bf_window N R 0 f" "n \<le> N - R" "n \<le> length (bf_unread f)" "m \<le> N - R"
  shows "\<exists>f'. bf_read f n = Some (Inr (take n (bf_unread f)), f') \<and>
    (\<forall>p. p \<le> bf_nSrcPos f' \<and> bf_nSrcPos f' \<le> p + R \<and> p + m \<le> length (bf_src f) \<longrightarrow>
      fst (bf_SetPos f' p) \<and>
      map_option fst (bf_read (snd (bf_SetPos f' p)) m) = Some (Inr (take m (drop p (bf_src f)))))"
proof -
  obtain g where g: "bf_read f n = Some (Inr (take n (bf_unread f)), g)" "bf_window N R 0 g"
      "bf_src g = bf_src f"
    using bf_read_spec [OF assms(1) _ assms(2)] assms(3) by auto
  moreover have "fst (bf_SetPos g p) \<and>
      map_option fst (bf_read (snd (bf_SetPos g p)) m) = Some (Inr (take m (drop p (bf_src f))))"
    if p: "p \<le> bf_nSrcPos g \<and> bf_nSrcPos g \<le> p + R \<and> p + m \<le> length (bf_src f)" for p
  proof -
    have w: "bf_window N R 0 (g\<lparr>bf_nReadPos := p\<rparr>)" using g(2) p by (auto simp: bf_window_def)
    have s: "bf_SetPos g p = (True, g\<lparr>bf_nReadPos := p\<rparr>)"
      using p g(2) by (auto simp: bf_SetPos_def bf_window_def)
    have "m \<le> length (bf_unread (g\<lparr>bf_nReadPos := p\<rparr>))" using p g(3) by (auto simp: bf_unread_def)
    then obtain h where "bf_read (g\<lparr>bf_nReadPos := p\<rparr>) m
        = Some (Inr (take m (bf_unread (g\<lparr>bf_nReadPos := p\<rparr>))), h)"
      using bf_read_spec [OF w _ assms(4)] by auto
    then show ?thesis using s g(3) by (simp add: bf_unread_def)
  qed
  ultimately show ?thesis by blast
qed

lemma bf_window_Init:
  assumes "R < N" "N < 2 ^ 32" "length file < 2 ^ 32"
  shows "bf_window N R 0 (bf_Init file N R)"
  using assms by (simp add: bf_window_def bf_Init_def)

theorem CBufferedFile_rewind_witness:
  "\<exists>f'. bf_read (bf_Init [1, 2, 3, 4, 5, 6] 5 3) 2 = Some (Inr [1, 2], f')"
  using CBufferedFile_rewind [OF bf_window_Init [of 3 5 "[1, 2, 3, 4, 5, 6]"], of 2 1]
  by (auto simp: bf_Init_def bf_unread_def)

text \<open>The guarantee is relative to what was fetched, not to what was read: a buffer that may
  rewind three bytes refuses to go back one byte, because its first refill fetched seven.\<close>

theorem CBufferedFile_rewind_refused:
  "\<exists>f'. bf_read (bf_Init [1, 2, 3, 4, 5, 6, 7, 8, 9, 10] 10 3) 1 = Some (Inr [1], f')
    \<and> bf_nRewind f' = 3 \<and> bf_nReadPos f' = 1
    \<and> bf_SetPos f' 0 = (False, f'\<lparr>bf_nReadPos := 4\<rparr>)"
proof -
  have two: "bf_read_loop 2 = bf_read_loop (Suc (Suc 0))" by (simp only: numeral_2_eq_2)
  have buf: "replicate 10 0 = [0, 0, 0, 0, 0, 0, 0, 0, 0, 0 :: byte]" by code_simp
  show ?thesis
    by (simp add: bf_Init_def bf_read_def bf_Fill_def bf_SetPos_def Let_def buf two)
qed


text \<open>Through its vector interface too a \<open>CDataStream\<close> is the queue of its unread bytes:
  writing appends, inserting or erasing at the front works on the queue whether or not the
  room of bytes already read is reused, skipping drops a prefix, compaction and resizing to
  the same length change nothing, and rewinding after a skip brings the bytes back.\<close>

theorem CDataStream_queue:
  assumes "ds_inv s" "k < length (ds_bytes s)"
  shows "ds_bytes (ds_write s bs) = ds_bytes s @ bs
    \<and> ds_bytes (ds_insert s (ds_nReadPos s) bs) = bs @ ds_bytes s
    \<and> ds_bytes (ds_erase s (ds_nReadPos s) (ds_nReadPos s + k)) = drop k (ds_bytes s)
    \<and> ds_bytes (ds_erase1 s (ds_nReadPos s)) = drop 1 (ds_bytes s)
    \<and> ds_bytes (ds_resize s k c) = take k (ds_bytes s)
    \<and> ds_bytes (ds_Compact s) = ds_bytes s
    \<and> ds_bytes (snd (ds_ignore s k)) = drop k (ds_bytes s)
    \<and> ds_bytes (snd (ds_Rewind (snd (ds_ignore s k)) k)) = ds_bytes s
    \<and> fst (ds_GetAndClear s bs) = bs @ ds_bytes s \<and> ds_bytes (snd (ds_GetAndClear s bs)) = []"
proof -
  have inv: "ds_nReadPos s \<le> length (ds_vch s)" "length (ds_vch s) < 2 ^ 31"
    and k: "ds_nReadPos s + k < length (ds_vch s)"
    using assms by (auto simp: ds_inv_def ds_bytes_def)
  have i: "snd (ds_ignore s k) = s\<lparr>ds_nReadPos := ds_nReadPos s + k\<rparr>"
    using inv k by (simp add: ds_ignore_def Let_def)
  show ?thesis
    unfolding i using inv k
    by (auto simp: ds_bytes_def ds_write_def ds_insert_def ds_erase_def ds_erase1_def ds_resize_def
        ds_Compact_def ds_Rewind_def ds_GetAndClear_def ds_clear_def Let_def drop_take min_def
        add.commute)
qed

theorem CDataStream_queue_witness:
  "\<exists>s. s = (ds_Init [1, 2, 3])\<lparr>ds_nReadPos := 2\<rparr> \<and>
    ds_bytes (ds_insert s (ds_nReadPos s) [9]) = [9] @ ds_bytes s"
proof -
  define s where "s = (ds_Init [1, 2, 3])\<lparr>ds_nReadPos := 2\<rparr>"
  have "ds_inv s" "0 < length (ds_bytes s)" by (simp_all add: s_def ds_Init_def ds_inv_def ds_bytes_def)
  then have "ds_bytes (ds_insert s (ds_nReadPos s) [9]) = [9] @ ds_bytes s"
    using CDataStream_queue [of s 0 "[9]"] by blast
  then show ?thesis using s_def by blast
qed

end
