(* ===== verification/Header.thy ===== *)
theory Header imports Main Prelude Serialize begin

text \<open>
  The block header without its proof of work: \<open>CPureBlockHeader\<close> of \<open>src/src/pureheader.h\<close>
  and \<open>src/src/pureheader.cpp\<close>. The version word carries the algorithm, the merge-mining
  flag, the protocol variants and the chain id; the wire format depends on the algorithm
  (Equihash headers have a 256-bit nonce and a solution) and on the context in which the
  header stands (a header that is the parent in a merge-mining proof). The hash functions
  are parameters.
\<close>

unbundle bit_operations_syntax

section \<open>The header and its version word\<close>

record CPureBlockHeader =
  h_nVersion :: u32
  h_hashPrevBlock :: u256
  h_hashMerkleRoot :: u256
  h_nTime :: u32
  h_nBits :: u32
  h_nNonce :: u32
  h_nNonce256 :: u256
  h_nSolution :: bytes
  h_hashReserved :: u256
  h_isParent :: bool
  h_algoParent :: int
  h_vector_format :: bool
  h_vector_rep :: bytes

definition ALGO_SCRYPT :: int where "ALGO_SCRYPT = 0"
definition ALGO_SHA256D :: int where "ALGO_SHA256D = 1"
definition ALGO_YESCRYPT :: int where "ALGO_YESCRYPT = 2"
definition ALGO_ARGON2 :: int where "ALGO_ARGON2 = 3"
definition ALGO_X17 :: int where "ALGO_X17 = 4"
definition ALGO_LYRA2REv2 :: int where "ALGO_LYRA2REv2 = 5"
definition ALGO_EQUIHASH :: int where "ALGO_EQUIHASH = 6"
definition ALGO_CRYPTONIGHT :: int where "ALGO_CRYPTONIGHT = 7"

definition BLOCK_VERSION_AUXPOW :: u32 where "BLOCK_VERSION_AUXPOW = 0x100"
definition BLOCK_VERSION_ALGO :: u32 where "BLOCK_VERSION_ALGO = 0xE00"
definition BLOCK_VERSION_UPDATE_SSF :: u32 where "BLOCK_VERSION_UPDATE_SSF = 0x1000"
definition BLOCK_VERSION_VARIANT :: u32 where "BLOCK_VERSION_VARIANT = 0x2000"
definition BLOCK_VERSION_VARIANT2 :: u32 where "BLOCK_VERSION_VARIANT2 = 0x4000"
definition BLOCK_VERSION_CHAIN :: u32 where "BLOCK_VERSION_CHAIN = 0x10000"

lemmas ALGO_defs = ALGO_SCRYPT_def ALGO_SHA256D_def ALGO_YESCRYPT_def ALGO_ARGON2_def ALGO_X17_def
  ALGO_LYRA2REv2_def ALGO_EQUIHASH_def ALGO_CRYPTONIGHT_def
lemmas BLOCK_VERSION_defs = BLOCK_VERSION_AUXPOW_def BLOCK_VERSION_ALGO_def
  BLOCK_VERSION_UPDATE_SSF_def BLOCK_VERSION_VARIANT_def BLOCK_VERSION_VARIANT2_def
  BLOCK_VERSION_CHAIN_def

definition header_SetNull :: CPureBlockHeader where
  "header_SetNull =
     \<lparr> h_nVersion = 4, h_hashPrevBlock = 0, h_hashMerkleRoot = 0, h_nTime = 0, h_nBits = 0,
       h_nNonce = 0, h_nNonce256 = 0, h_nSolution = [], h_hashReserved = 0, h_isParent = False,
       h_algoParent = -1, h_vector_format = False, h_vector_rep = [] \<rparr>"

text \<open>\<open>SetAlgo\<close> only sets bits: it is called on a version word whose algorithm bits are clear.\<close>

definition SetAlgo :: "int \<Rightarrow> CPureBlockHeader \<Rightarrow> CPureBlockHeader" where
  "SetAlgo algo h =
     (if algo = ALGO_SHA256D then h\<lparr>h_nVersion := h_nVersion h OR 0x200\<rparr>
      else if algo = ALGO_SCRYPT then h\<lparr>h_nVersion := h_nVersion h OR 0\<rparr>
      else if algo = ALGO_ARGON2 then h\<lparr>h_nVersion := h_nVersion h OR 0x600\<rparr>
      else if algo = ALGO_X17 then h\<lparr>h_nVersion := h_nVersion h OR 0x800\<rparr>
      else if algo = ALGO_LYRA2REv2 then h\<lparr>h_nVersion := h_nVersion h OR 0xA00\<rparr>
      else if algo = ALGO_EQUIHASH then h\<lparr>h_nVersion := h_nVersion h OR 0xC00\<rparr>
      else if algo = ALGO_CRYPTONIGHT then h\<lparr>h_nVersion := h_nVersion h OR 0xE00\<rparr>
      else if algo = ALGO_YESCRYPT then h\<lparr>h_nVersion := h_nVersion h OR 0x400\<rparr>
      else h)"

definition header_GetAlgo :: "CPureBlockHeader \<Rightarrow> int" where
  "header_GetAlgo h =
     (if h_algoParent h \<noteq> -1 then h_algoParent h
      else let v = h_nVersion h AND BLOCK_VERSION_ALGO in
        if v = 0x200 then ALGO_SHA256D
        else if v = 0 then ALGO_SCRYPT
        else if v = 0x600 then ALGO_ARGON2
        else if v = 0x800 then ALGO_X17
        else if v = 0xA00 then ALGO_LYRA2REv2
        else if v = 0xC00 then ALGO_EQUIHASH
        else if v = 0xE00 then ALGO_CRYPTONIGHT
        else if v = 0x400 then ALGO_YESCRYPT
        else ALGO_SCRYPT)"

text \<open>\<open>%=\<close> is C's remainder, which has the sign of the dividend.\<close>

definition SetChainId :: "u32 \<Rightarrow> CPureBlockHeader \<Rightarrow> CPureBlockHeader" where
  "SetChainId cid h =
     (let nVersion = of_int (sint (h_nVersion h) smod 0x10000)
      in h\<lparr>h_nVersion := nVersion OR cid * BLOCK_VERSION_CHAIN\<rparr>)"

text \<open>\<open>GetChainId\<close> of a header in vector format first overwrites \<open>nVersion\<close> with bytes of the
  vector, through a cast; the result has the header after the call. With exactly four bytes
  the code reads one past the end: None.\<close>

definition GetChainId :: "CPureBlockHeader \<Rightarrow> (CPureBlockHeader \<times> int) option" where
  "GetChainId h =
     (if h_vector_format h then
        (if length (h_vector_rep h) < 4 then Some (h, 0)
         else if length (h_vector_rep h) = 4 then None
         else let h' = h\<lparr>h_nVersion := le_word (map (\<lambda>i. h_vector_rep h ! (4 - i)) [0..<4])\<rparr>
              in Some (h', sint (signed_drop_bit 16 (h_nVersion h'))))
      else Some (h, sint (signed_drop_bit 16 (h_nVersion h))))"

definition SetUpdateSSF :: "CPureBlockHeader \<Rightarrow> CPureBlockHeader" where
  "SetUpdateSSF h = h\<lparr>h_nVersion := h_nVersion h OR BLOCK_VERSION_UPDATE_SSF\<rparr>"

definition header_IsNull :: "CPureBlockHeader \<Rightarrow> bool" where
  "header_IsNull h = (h_nBits h = 0)"

definition GetBlockTime :: "CPureBlockHeader \<Rightarrow> int" where
  "GetBlockTime h = uint (h_nTime h)"

definition SetAuxpow :: "bool \<Rightarrow> CPureBlockHeader \<Rightarrow> CPureBlockHeader" where
  "SetAuxpow auxpow h =
     (if auxpow then h\<lparr>h_nVersion := h_nVersion h OR BLOCK_VERSION_AUXPOW\<rparr>
      else h\<lparr>h_nVersion := h_nVersion h AND NOT BLOCK_VERSION_AUXPOW\<rparr>)"

definition IsAuxpow :: "CPureBlockHeader \<Rightarrow> bool" where
  "IsAuxpow h = (h_nVersion h AND BLOCK_VERSION_AUXPOW \<noteq> 0)"

definition SetVariant :: "bool \<Rightarrow> CPureBlockHeader \<Rightarrow> CPureBlockHeader" where
  "SetVariant variant h =
     (if variant then h\<lparr>h_nVersion := h_nVersion h OR BLOCK_VERSION_VARIANT\<rparr>
      else h\<lparr>h_nVersion := h_nVersion h AND NOT BLOCK_VERSION_VARIANT\<rparr>)"

definition SetVariant2 :: "bool \<Rightarrow> CPureBlockHeader \<Rightarrow> CPureBlockHeader" where
  "SetVariant2 variant h =
     (if variant then h\<lparr>h_nVersion := h_nVersion h OR BLOCK_VERSION_VARIANT2\<rparr>
      else h\<lparr>h_nVersion := h_nVersion h AND NOT BLOCK_VERSION_VARIANT2\<rparr>)"

definition IsVariant :: "CPureBlockHeader \<Rightarrow> bool" where
  "IsVariant h = (h_nVersion h AND BLOCK_VERSION_VARIANT \<noteq> 0)"

definition IsVariant2 :: "CPureBlockHeader \<Rightarrow> bool" where
  "IsVariant2 h = (h_nVersion h AND BLOCK_VERSION_VARIANT2 \<noteq> 0)"

section \<open>Wire format\<close>

definition equi_fields :: "CPureBlockHeader \<Rightarrow> bool" where
  "equi_fields h \<longleftrightarrow> \<not> h_isParent h \<and> header_GetAlgo h = ALGO_EQUIHASH
     \<or> h_isParent h \<and> h_algoParent h = ALGO_EQUIHASH"

definition ser_header :: "CPureBlockHeader \<Rightarrow> bytes" where
  "ser_header h =
     (if h_vector_format h then ser_bytes (h_vector_rep h)
      else WRITEDATA (h_nVersion h) @ WRITEDATA (h_hashPrevBlock h) @ WRITEDATA (h_hashMerkleRoot h) @
        (if equi_fields h then WRITEDATA (h_hashReserved h) else []) @
        WRITEDATA (h_nTime h) @ WRITEDATA (h_nBits h) @
        (if equi_fields h then WRITEDATA (h_nNonce256 h) @ ser_bytes (h_nSolution h)
         else WRITEDATA (h_nNonce h)))"

text \<open>Reading fills the members of an object that exists already, field by field; whether the
  Equihash members follow is decided with the version just read.\<close>

definition unser_header :: "CPureBlockHeader \<Rightarrow> CPureBlockHeader reader" where
  "unser_header h =
     (if h_vector_format h then rd_bind unser_bytes (\<lambda>v. rd_return (h\<lparr>h_vector_rep := v\<rparr>))
      else
        rd_bind READDATA (\<lambda>v. let h = h\<lparr>h_nVersion := v\<rparr> in
        rd_bind READDATA (\<lambda>v. let h = h\<lparr>h_hashPrevBlock := v\<rparr> in
        rd_bind READDATA (\<lambda>v. let h = h\<lparr>h_hashMerkleRoot := v\<rparr> in
        rd_bind (if equi_fields h then READDATA else rd_return (h_hashReserved h)) (\<lambda>v.
          let h = h\<lparr>h_hashReserved := v\<rparr> in
        rd_bind READDATA (\<lambda>v. let h = h\<lparr>h_nTime := v\<rparr> in
        rd_bind READDATA (\<lambda>v. let h = h\<lparr>h_nBits := v\<rparr> in
        if equi_fields h then
          rd_bind READDATA (\<lambda>v. let h = h\<lparr>h_nNonce256 := v\<rparr> in
          rd_bind unser_bytes (\<lambda>v. rd_return (h\<lparr>h_nSolution := v\<rparr>)))
        else rd_bind READDATA (\<lambda>v. rd_return (h\<lparr>h_nNonce := v\<rparr>)))))))))"

section \<open>Hashing\<close>

text \<open>The hash functions, as parameters: \<open>Hash\<close> is the double SHA-256 of a byte range and the
  others are the proof-of-work functions on the eighty bytes that start at \<open>nVersion\<close>, or on
  a byte vector for CryptoNight.\<close>

record hash_functions =
  hf_Hash :: "bytes \<Rightarrow> u256"
  hf_scrypt :: "bytes \<Rightarrow> u256"
  hf_argon2 :: "bytes \<Rightarrow> u256"
  hf_x17 :: "bytes \<Rightarrow> u256"
  hf_lyra2rev2 :: "bytes \<Rightarrow> u256"
  hf_cryptonight :: "bytes \<Rightarrow> u256"
  hf_yescrypt :: "bytes \<Rightarrow> u256"

text \<open>The memory from \<open>nVersion\<close> to the end of \<open>nNonce\<close>: six members without padding.\<close>

definition header_memory :: "CPureBlockHeader \<Rightarrow> bytes" where
  "header_memory h =
     le_bytes (h_nVersion h) @ le_bytes (h_hashPrevBlock h) @ le_bytes (h_hashMerkleRoot h) @
     le_bytes (h_nTime h) @ le_bytes (h_nBits h) @ le_bytes (h_nNonce h)"

definition GetHashE_input :: "CPureBlockHeader \<Rightarrow> bytes" where
  "GetHashE_input h =
     le_bytes (h_nVersion h) @ le_bytes (h_hashPrevBlock h) @ le_bytes (h_hashMerkleRoot h) @
     le_bytes (h_hashReserved h) @ le_bytes (h_nTime h) @ le_bytes (h_nBits h) @
     le_bytes (h_nNonce256 h) @
     (if length (h_nSolution h) = 1344 then [0xfd, 0x40, 0x05] @ h_nSolution h else [0x00])"

definition GetHashE :: "hash_functions \<Rightarrow> CPureBlockHeader \<Rightarrow> u256" where
  "GetHashE hf h = hf_Hash hf (GetHashE_input h)"

definition header_GetHash :: "hash_functions \<Rightarrow> CPureBlockHeader \<Rightarrow> u256" where
  "header_GetHash hf h =
     (if header_GetAlgo h = ALGO_EQUIHASH then GetHashE hf h
      else if header_GetAlgo h = ALGO_CRYPTONIGHT \<and> h_vector_format h then hf_Hash hf (h_vector_rep h)
      else hf_Hash hf (header_memory h))"

definition GetPoWHash :: "hash_functions \<Rightarrow> CPureBlockHeader \<Rightarrow> int \<Rightarrow> u256" where
  "GetPoWHash hf h algo =
     (if algo = ALGO_SHA256D then header_GetHash hf h
      else if algo = ALGO_SCRYPT then hf_scrypt hf (header_memory h)
      else if algo = ALGO_ARGON2 then hf_argon2 hf (header_memory h)
      else if algo = ALGO_X17 then hf_x17 hf (header_memory h)
      else if algo = ALGO_LYRA2REv2 then hf_lyra2rev2 hf (header_memory h)
      else if algo = ALGO_EQUIHASH then GetHashE hf h
      else if algo = ALGO_CRYPTONIGHT then
        (if h_vector_format h then hf_cryptonight hf (h_vector_rep h)
         else hf_cryptonight hf (take 80 (header_memory h)))
      else if algo = ALGO_YESCRYPT then hf_yescrypt hf (header_memory h)
      else hf_scrypt hf (header_memory h))"


section \<open>The version word\<close>

lemma or_and_disjoint: "c AND m = 0 \<Longrightarrow> (v OR c) AND m = v AND (m :: 'a::len word)"
  by (simp add: bit.conj_disj_distrib2)

lemma and_not_disjoint: "c AND m = 0 \<Longrightarrow> (v AND NOT c) AND m = v AND (m :: 'a::len word)"
  by (auto intro!: bit_word_eqI simp: bit_and_iff bit_not_iff bit_eq_iff)

lemma or_and_self: "c \<noteq> 0 \<Longrightarrow> (v OR c) AND c \<noteq> (0 :: 'a::len word)"
  by (simp add: bit.conj_disj_distrib2 or_eq_0_iff)

lemma SetAlgo_version:
  assumes "0 \<le> a" "a < 8"
  shows "SetAlgo a h = h\<lparr>h_nVersion := h_nVersion h OR push_bit 9 (of_int a)\<rparr>"
proof -
  have "a = 0 \<or> a = 1 \<or> a = 2 \<or> a = 3 \<or> a = 4 \<or> a = 5 \<or> a = 6 \<or> a = 7"
    using assms by presburger
  then show ?thesis by (elim disjE) (simp_all add: SetAlgo_def ALGO_defs)
qed

lemma algo_mask:
  assumes "0 \<le> a" "a < 8"
  shows "push_bit 9 (of_int a) AND BLOCK_VERSION_ALGO = (push_bit 9 (of_int a) :: u32)"
    "push_bit 9 (of_int a) AND BLOCK_VERSION_AUXPOW = 0"
    "push_bit 9 (of_int a) AND BLOCK_VERSION_UPDATE_SSF = 0"
    "push_bit 9 (of_int a) AND BLOCK_VERSION_VARIANT = 0"
    "push_bit 9 (of_int a) AND BLOCK_VERSION_VARIANT2 = 0"
proof -
  have "a = 0 \<or> a = 1 \<or> a = 2 \<or> a = 3 \<or> a = 4 \<or> a = 5 \<or> a = 6 \<or> a = 7"
    using assms by presburger
  then show "push_bit 9 (of_int a) AND BLOCK_VERSION_ALGO = (push_bit 9 (of_int a) :: u32)"
    "push_bit 9 (of_int a) AND BLOCK_VERSION_AUXPOW = 0"
    "push_bit 9 (of_int a) AND BLOCK_VERSION_UPDATE_SSF = 0"
    "push_bit 9 (of_int a) AND BLOCK_VERSION_VARIANT = 0"
    "push_bit 9 (of_int a) AND BLOCK_VERSION_VARIANT2 = 0"
    by (elim disjE; simp add: BLOCK_VERSION_defs)+
qed

lemma GetAlgo_of_bits:
  assumes "0 \<le> a" "a < 8" "h_algoParent h = -1"
    "h_nVersion h AND BLOCK_VERSION_ALGO = push_bit 9 (of_int a)"
  shows "header_GetAlgo h = a"
proof -
  have "a = 0 \<or> a = 1 \<or> a = 2 \<or> a = 3 \<or> a = 4 \<or> a = 5 \<or> a = 6 \<or> a = 7"
    using assms(1,2) by presburger
  then show ?thesis using assms(3,4)
    by (elim disjE) (simp_all add: header_GetAlgo_def ALGO_defs Let_def)
qed

lemma chain_id_word:
  assumes "unat (w :: u32) = m + 65536 * k" "m < 65536" "k < 32768"
  shows "sint (signed_drop_bit 16 w) = int k"
proof -
  have "uint w = int (m + 65536 * k)" using assms(1) by (simp only: uint_nat)
  moreover from this have "sint w = uint w" using assms by (intro sint_eq_uint) simp
  ultimately show ?thesis
    using assms(2) by (simp add: sint_signed_drop_bit_eq drop_bit_eq_div)
qed

lemma SetChainId_version:
  assumes "0 \<le> sint (h_nVersion h)" "unat cid < 32768"
  shows "unat (h_nVersion (SetChainId cid h)) = unat (h_nVersion h) mod 65536 + 65536 * unat cid"
proof -
  define v m where "v = h_nVersion h" and "m = unat v mod 65536"
  have "sint v smod 65536 = uint v mod 65536"
    using assms(1) uint_eq_sint [of v] by (simp add: v_def smod_nonneg)
  moreover have "uint v mod 65536 = int m" by (simp add: m_def zmod_int)
  ultimately have "(of_int (sint v smod 65536) :: u32) = of_nat m" by (simp only: of_int_of_nat_eq)
  moreover have "cid * BLOCK_VERSION_CHAIN = push_bit 16 cid"
    by (simp add: BLOCK_VERSION_CHAIN_def push_bit_eq_mult)
  ultimately have "h_nVersion (SetChainId cid h) = of_nat m OR push_bit 16 cid"
    by (simp add: SetChainId_def Let_def v_def)
  moreover have "unat (of_nat m OR push_bit 16 cid :: u32) = m OR take_bit 32 (push_bit 16 (unat cid))"
    by (simp add: unsigned_or_eq unsigned_push_bit_eq unat_of_nat take_bit_push_bit m_def)
  moreover have "take_bit 32 (push_bit 16 (unat cid)) = push_bit 16 (unat cid)"
    using assms(2) by (simp add: take_bit_nat_eq_self_iff push_bit_eq_mult)
  moreover have "m OR push_bit 16 (unat cid) = m + 65536 * unat cid"
    using or_shift_nat [of m 16 "unat cid"] by (simp add: m_def)
  ultimately show ?thesis by (simp add: m_def v_def)
qed


section \<open>Reading back what was written\<close>

text \<open>The object read into keeps its members that are not on the wire.\<close>

definition wire_fields :: "CPureBlockHeader \<Rightarrow> CPureBlockHeader \<Rightarrow> CPureBlockHeader" where
  "wire_fields h h0 =
     (if h_vector_format h then h0\<lparr>h_vector_rep := h_vector_rep h\<rparr>
      else
        let h1 = h0\<lparr>h_nVersion := h_nVersion h, h_hashPrevBlock := h_hashPrevBlock h,
            h_hashMerkleRoot := h_hashMerkleRoot h, h_nTime := h_nTime h, h_nBits := h_nBits h\<rparr>
        in if equi_fields h
           then h1\<lparr>h_hashReserved := h_hashReserved h, h_nNonce256 := h_nNonce256 h,
             h_nSolution := h_nSolution h\<rparr>
           else h1\<lparr>h_nNonce := h_nNonce h\<rparr>)"

definition wire_ok :: "CPureBlockHeader \<Rightarrow> CPureBlockHeader \<Rightarrow> bool" where
  "wire_ok h0 h \<longleftrightarrow> wire_fields h h0 = h \<and> h_vector_format h = h_vector_format h0 \<and>
     (if h_vector_format h then length (h_vector_rep h) \<le> 2 ^ 25
      else equi_fields h \<longrightarrow> length (h_nSolution h) \<le> 2 ^ 25)"

lemma equi_fields_update [simp]:
  "equi_fields (h\<lparr>h_hashPrevBlock := a\<rparr>) = equi_fields h" "equi_fields (h\<lparr>h_hashMerkleRoot := a\<rparr>) = equi_fields h"
  "equi_fields (h\<lparr>h_hashReserved := a\<rparr>) = equi_fields h" "equi_fields (h\<lparr>h_nTime := t\<rparr>) = equi_fields h"
  "equi_fields (h\<lparr>h_nBits := t\<rparr>) = equi_fields h" "equi_fields (h\<lparr>h_nNonce := t\<rparr>) = equi_fields h"
  "equi_fields (h\<lparr>h_nNonce256 := a\<rparr>) = equi_fields h" "equi_fields (h\<lparr>h_nSolution := v\<rparr>) = equi_fields h"
  by (simp_all add: equi_fields_def header_GetAlgo_def)

lemmas rd_unser = byte.unser_ser u16.unser_ser u32.unser_ser u64.unser_ser u256.unser_ser vbytes.unser_ser

lemma equi_fields_wire:
  assumes "wire_ok h0 h" "\<not> h_vector_format h"
  shows "equi_fields (h0\<lparr>h_nVersion := h_nVersion h\<rparr>) = equi_fields h"
proof -
  have "equi_fields (wire_fields h h0) = equi_fields h" using assms by (simp add: wire_ok_def)
  moreover have "equi_fields (wire_fields h h0) = equi_fields (h0\<lparr>h_nVersion := h_nVersion h\<rparr>)"
    using assms(2) by (simp add: wire_fields_def Let_def)
  ultimately show ?thesis by simp
qed

lemma unser_header_ser:
  assumes "wire_ok h0 h"
  shows "unser_header h0 (ser_header h @ s) = Inr (h, s)"
proof (cases "h_vector_format h")
  case True
  then have "h0\<lparr>h_vector_rep := h_vector_rep h\<rparr> = h" "h_vector_format h0" "length (h_vector_rep h) \<le> 2 ^ 25"
    using assms by (simp_all add: wire_ok_def wire_fields_def)
  then show ?thesis using True by (simp add: unser_header_def ser_header_def rd_bind_def rd_unser)
next
  case False
  then have v: "\<not> h_vector_format h0" and w: "wire_fields h h0 = h" using assms by (auto simp: wire_ok_def)
  show ?thesis
  proof (cases "equi_fields h")
    case True
    have "length (h_nSolution h) \<le> 2 ^ 25" using assms False True by (simp add: wire_ok_def)
    then have "unser_header h0 (ser_header h @ s) = Inr (wire_fields h h0, s)"
      using False v True equi_fields_wire [OF assms False]
      by (simp add: unser_header_def ser_header_def rd_bind_def rd_unser Let_def wire_fields_def)
    then show ?thesis using w by simp
  next
    case E: False
    have "unser_header h0 (ser_header h @ s) = Inr (wire_fields h h0, s)"
      using False v E equi_fields_wire [OF assms False]
      by (simp add: unser_header_def ser_header_def rd_bind_def rd_unser Let_def wire_fields_def)
    then show ?thesis using w by simp
  qed
qed

text \<open>The two straight sequences of reads, one for each value of the Equihash condition.\<close>

definition read_equi :: "CPureBlockHeader \<Rightarrow> CPureBlockHeader reader" where
  "read_equi h =
     rd_bind READDATA (\<lambda>a. rd_bind READDATA (\<lambda>b. rd_bind READDATA (\<lambda>c. rd_bind READDATA (\<lambda>d.
     rd_bind READDATA (\<lambda>e. rd_bind READDATA (\<lambda>f. rd_bind unser_bytes (\<lambda>g. rd_return
       (h\<lparr>h_hashPrevBlock := a, h_hashMerkleRoot := b, h_hashReserved := c, h_nTime := d, h_nBits := e,
          h_nNonce256 := f, h_nSolution := g\<rparr>))))))))"

definition read_plain :: "CPureBlockHeader \<Rightarrow> CPureBlockHeader reader" where
  "read_plain h =
     rd_bind READDATA (\<lambda>a. rd_bind READDATA (\<lambda>b. rd_bind READDATA (\<lambda>d. rd_bind READDATA (\<lambda>e.
     rd_bind READDATA (\<lambda>f. rd_return
       (h\<lparr>h_hashPrevBlock := a, h_hashMerkleRoot := b, h_nTime := d, h_nBits := e, h_nNonce := f\<rparr>))))))"

lemma unser_header_split:
  assumes "\<not> h_vector_format h"
  shows "unser_header h = rd_bind READDATA (\<lambda>v. let h = h\<lparr>h_nVersion := v\<rparr> in
    if equi_fields h then read_equi h else read_plain h)"
proof -
  have body: "rd_bind READDATA (\<lambda>v. let h = h\<lparr>h_hashPrevBlock := v\<rparr> in
        rd_bind READDATA (\<lambda>v. let h = h\<lparr>h_hashMerkleRoot := v\<rparr> in
        rd_bind (if equi_fields h then READDATA else rd_return (h_hashReserved h)) (\<lambda>v.
          let h = h\<lparr>h_hashReserved := v\<rparr> in
        rd_bind READDATA (\<lambda>v. let h = h\<lparr>h_nTime := v\<rparr> in
        rd_bind READDATA (\<lambda>v. let h = h\<lparr>h_nBits := v\<rparr> in
        if equi_fields h then
          rd_bind READDATA (\<lambda>v. let h = h\<lparr>h_nNonce256 := v\<rparr> in
          rd_bind unser_bytes (\<lambda>v. rd_return (h\<lparr>h_nSolution := v\<rparr>)))
        else rd_bind READDATA (\<lambda>v. rd_return (h\<lparr>h_nNonce := v\<rparr>)))))))
      = (if equi_fields h then read_equi h else read_plain h)" for h
    by (simp add: read_equi_def read_plain_def Let_def)
  show ?thesis using assms unfolding unser_header_def Let_def body [unfolded Let_def] by simp
qed

lemma unser_header_canonical:
  assumes "unser_header h0 s = Inr (h, r)"
  shows "wire_ok h0 h \<and> s = ser_header h @ r"
proof (cases "h_vector_format h0")
  case True
  then show ?thesis using assms
    by (auto simp: unser_header_def vbytes.unser_bind_iff wire_ok_def wire_fields_def ser_header_def)
next
  case False
  obtain v t where s: "s = WRITEDATA v @ t" and
    r: "(if equi_fields (h0\<lparr>h_nVersion := v\<rparr>) then read_equi (h0\<lparr>h_nVersion := v\<rparr>)
         else read_plain (h0\<lparr>h_nVersion := v\<rparr>)) t = Inr (h, r)"
    using assms unfolding unser_header_split [OF False] Let_def u32.unser_bind_iff by blast
  show ?thesis
  proof (cases "equi_fields (h0\<lparr>h_nVersion := v\<rparr>)")
    case True
    then show ?thesis using r False
      by (auto simp: s read_equi_def u32.unser_bind_iff u256.unser_bind_iff vbytes.unser_bind_iff
          wire_ok_def wire_fields_def ser_header_def Let_def)
  next
    case E: False
    then show ?thesis using r False
      by (auto simp: s read_plain_def u32.unser_bind_iff u256.unser_bind_iff
          wire_ok_def wire_fields_def ser_header_def Let_def)
  qed
qed

interpretation header_wire: canonical_codec ser_header "unser_header h0" "wire_ok h0" for h0
  by unfold_locales (simp_all add: unser_header_ser unser_header_canonical)


section \<open>Properties\<close>

lemma version_after:
  "h_nVersion (SetAuxpow b h) = (if b then h_nVersion h OR BLOCK_VERSION_AUXPOW
     else h_nVersion h AND NOT BLOCK_VERSION_AUXPOW)"
  "h_nVersion (SetVariant b h) = (if b then h_nVersion h OR BLOCK_VERSION_VARIANT
     else h_nVersion h AND NOT BLOCK_VERSION_VARIANT)"
  "h_nVersion (SetVariant2 b h) = (if b then h_nVersion h OR BLOCK_VERSION_VARIANT2
     else h_nVersion h AND NOT BLOCK_VERSION_VARIANT2)"
  "h_nVersion (SetUpdateSSF h) = h_nVersion h OR BLOCK_VERSION_UPDATE_SSF"
  "h_algoParent (SetAuxpow b h) = h_algoParent h" "h_algoParent (SetVariant b h) = h_algoParent h"
  "h_algoParent (SetVariant2 b h) = h_algoParent h" "h_algoParent (SetUpdateSSF h) = h_algoParent h"
  by (simp_all add: SetAuxpow_def SetVariant_def SetVariant2_def SetUpdateSSF_def)

lemma flag_masks:
  "(BLOCK_VERSION_AUXPOW AND BLOCK_VERSION_ALGO) = 0" "(BLOCK_VERSION_AUXPOW AND BLOCK_VERSION_VARIANT) = 0"
  "(BLOCK_VERSION_AUXPOW AND BLOCK_VERSION_VARIANT2) = 0" "(BLOCK_VERSION_VARIANT AND BLOCK_VERSION_ALGO) = 0"
  "(BLOCK_VERSION_VARIANT AND BLOCK_VERSION_AUXPOW) = 0" "(BLOCK_VERSION_VARIANT AND BLOCK_VERSION_VARIANT2) = 0"
  "(BLOCK_VERSION_VARIANT2 AND BLOCK_VERSION_ALGO) = 0" "(BLOCK_VERSION_VARIANT2 AND BLOCK_VERSION_AUXPOW) = 0"
  "(BLOCK_VERSION_VARIANT2 AND BLOCK_VERSION_VARIANT) = 0" "(BLOCK_VERSION_UPDATE_SSF AND BLOCK_VERSION_ALGO) = 0"
  by (simp_all add: BLOCK_VERSION_defs)

lemma flag_nonzero: "BLOCK_VERSION_AUXPOW \<noteq> 0" "BLOCK_VERSION_VARIANT \<noteq> 0" "BLOCK_VERSION_VARIANT2 \<noteq> 0"
  by (simp_all add: BLOCK_VERSION_defs)

lemma and_not_self: "(v AND NOT c) AND c = (0 :: 'a::len word)"
  by (rule bit_word_eqI) (auto simp: bit_and_iff bit_not_iff)

text \<open>The fields of the version word are independent: after the algorithm, the
  scaling-factor flag, the two variant flags and the merge-mining flag are set in this order
  on a version whose algorithm bits are clear, each reads back as it was set, for all eight
  algorithms and all flag values.\<close>

theorem header_version_fields:
  assumes "0 \<le> a" "a < 8" "h_algoParent h = -1" "h_nVersion h AND BLOCK_VERSION_ALGO = 0"
    and h': "h' = SetAuxpow x (SetVariant y (SetVariant2 z (SetUpdateSSF (SetAlgo a h))))"
  shows "header_GetAlgo h' = a \<and> IsAuxpow h' = x \<and> IsVariant h' = y \<and> IsVariant2 h' = z"
proof (intro conjI)
  note and_rules = or_and_disjoint and_not_disjoint flag_masks or_and_self and_not_self flag_nonzero
  have "h_nVersion h' AND BLOCK_VERSION_ALGO = push_bit 9 (of_int a)"
    by (simp add: h' version_after and_rules SetAlgo_version [OF assms(1,2)]
        bit.conj_disj_distrib2 [of "h_nVersion h"] assms(4) algo_mask(1) [OF assms(1,2)] del: push_bit_of_int)
  then show "header_GetAlgo h' = a"
    by (rule GetAlgo_of_bits [OF assms(1,2), rotated])
      (simp add: h' version_after SetAlgo_version [OF assms(1,2)] assms(3))
  show "IsAuxpow h' = x" "IsVariant h' = y" "IsVariant2 h' = z"
    by (simp_all add: IsAuxpow_def IsVariant_def IsVariant2_def h' version_after and_rules)
qed

theorem header_version_fields_witness:
  "header_GetAlgo (SetAuxpow True (SetVariant False (SetVariant2 True (SetUpdateSSF
     (SetAlgo ALGO_EQUIHASH header_SetNull))))) = ALGO_EQUIHASH"
  using header_version_fields [of ALGO_EQUIHASH header_SetNull _ True False True]
  by (simp add: ALGO_EQUIHASH_def header_SetNull_def BLOCK_VERSION_ALGO_def)

text \<open>The chain id of a header with a nonnegative version reads back as it was set, when it
  fits fifteen bits, and setting it keeps the sixteen low bits of the version, where the
  other fields are.\<close>

theorem header_chain_id:
  assumes "0 \<le> sint (h_nVersion h)" "unat cid < 32768" "\<not> h_vector_format h"
  shows "GetChainId (SetChainId cid h) = Some (SetChainId cid h, int (unat cid))
    \<and> unat (h_nVersion (SetChainId cid h)) mod 65536 = unat (h_nVersion h) mod 65536"
proof -
  have "\<not> h_vector_format (SetChainId cid h)" using assms(3) by (simp add: SetChainId_def Let_def)
  moreover have "sint (signed_drop_bit 16 (h_nVersion (SetChainId cid h))) = int (unat cid)"
    by (rule chain_id_word [OF SetChainId_version [OF assms(1,2)]]) (use assms(2) in simp_all)
  ultimately show ?thesis
    by (simp add: GetChainId_def SetChainId_version [OF assms(1,2)])
qed

theorem header_chain_id_witness:
  "GetChainId (SetChainId 0x5B header_SetNull) = Some (SetChainId 0x5B header_SetNull, int (unat (0x5B :: u32)))"
  using header_chain_id [of header_SetNull "0x5B"] by (simp add: header_SetNull_def)

text \<open>Deserializing a header succeeds exactly on the serialization of the header it
  returns, for every algorithm and in the three contexts a header stands in (a block's own
  header, a merge-mining parent, a header in vector format): the members that are not on the
  wire keep the values the object had.\<close>

theorem header_roundtrip:
  "unser_header h0 s = Inr (h, r) \<longleftrightarrow> wire_ok h0 h \<and> s = ser_header h @ r"
  by (rule header_wire.unser_iff)

lemma ser_solution: "length v = 1344 \<Longrightarrow> ser_bytes v = [0xfd, 0x40, 0x05] @ v"
proof -
  assume v: "length v = 1344"
  have "WriteCompactSize 1344 = [0xfd, 0x40, 0x05]" by code_simp
  then show ?thesis using v by (auto simp: ser_bytes_def)
qed

text \<open>C34: The hash that identifies a block is the hash of its serialized header, whatever the
  algorithm: the raw memory range from \<open>nVersion\<close> to \<open>nNonce\<close> and the buffer that \<open>GetHashE\<close>
  assembles are both the wire bytes. For Equihash this needs a solution of 1344 bytes; with
  any other length the solution is not hashed at all.\<close>

theorem header_hash_commits:
  assumes "\<not> h_vector_format h" "\<not> h_isParent h"
  shows "header_GetHash hf h =
    (if header_GetAlgo h = ALGO_EQUIHASH \<and> length (h_nSolution h) \<noteq> 1344
     then hf_Hash hf (GetHashE_input (h\<lparr>h_nSolution := []\<rparr>)) else hf_Hash hf (ser_header h))"
proof -
  have e: "equi_fields h = (header_GetAlgo h = ALGO_EQUIHASH)"
    using assms(2) by (simp add: equi_fields_def)
  show ?thesis
  proof (cases "header_GetAlgo h = ALGO_EQUIHASH")
    case True
    have "GetHashE_input h = ser_header h" if "length (h_nSolution h) = 1344"
      unfolding GetHashE_input_def ser_header_def
      by (simp only: e True assms if_True if_False WRITEDATA_def append_assoc ser_solution [OF that] that simp_thms if_True)
    moreover have "GetHashE_input (h\<lparr>h_nSolution := []\<rparr>) = GetHashE_input h"
      if "length (h_nSolution h) \<noteq> 1344" using that by (simp add: GetHashE_input_def)
    ultimately show ?thesis using True by (simp add: header_GetHash_def GetHashE_def)
  next
    case False
    have "header_memory h = ser_header h"
      unfolding header_memory_def ser_header_def
      by (simp only: e False assms if_False WRITEDATA_def append_Nil)
    then show ?thesis using False assms by (simp add: header_GetHash_def)
  qed
qed

theorem header_hash_commits_witness:
  "\<forall>hf. header_GetHash hf header_SetNull = hf_Hash hf (ser_header header_SetNull)"
proof
  fix hf
  have "header_GetAlgo header_SetNull \<noteq> ALGO_EQUIHASH"
    by (simp add: header_SetNull_def header_GetAlgo_def ALGO_defs Let_def BLOCK_VERSION_ALGO_def)
  then show "header_GetHash hf header_SetNull = hf_Hash hf (ser_header header_SetNull)"
    using header_hash_commits [of header_SetNull hf] by (simp add: header_SetNull_def)
qed

end
