(* ===== verification/Tx.thy ===== *)
theory Tx imports Main Prelude Serialize begin

text \<open>
  Transactions: \<open>COutPoint\<close>, \<open>CTxIn\<close>, \<open>CTxOut\<close>, \<open>CTransaction\<close> and \<open>CTxOutCompressor\<close> of
  \<open>src/src/core.h\<close> and \<open>src/src/core.cpp\<close>, and the checks of \<open>src/src/main.cpp\<close> that need no
  context (\<open>CheckTransaction\<close>, \<open>IsFinalTx\<close>). Amounts are signed 64-bit integers, kept as
  words and read with \<open>sint\<close>. The hash functions are parameters.
\<close>

section \<open>Data\<close>

definition COIN :: int where "COIN = 100000000"
definition MAX_MONEY :: int where "MAX_MONEY = 28000000 * COIN"

definition MoneyRange :: "u64 \<Rightarrow> bool" where
  "MoneyRange nValue \<longleftrightarrow> 0 \<le> sint nValue \<and> sint nValue \<le> MAX_MONEY"

record COutPoint =
  o_hash :: u256
  o_n :: u32

record CTxIn =
  i_prevout :: COutPoint
  i_scriptSig :: bytes
  i_nSequence :: u32

record CTxOut =
  t_nValue :: u64
  t_scriptPubKey :: bytes

record CTransaction =
  tx_hash :: u256
  tx_nVersion :: u32
  tx_vin :: "CTxIn list"
  tx_vout :: "CTxOut list"
  tx_nLockTime :: u32
  tx_vector_format :: bool
  tx_vector_rep :: bytes
  tx_keccak_hash :: bool

definition outpoint_SetNull :: COutPoint where
  "outpoint_SetNull = \<lparr> o_hash = 0, o_n = - 1 \<rparr>"

definition outpoint_IsNull :: "COutPoint \<Rightarrow> bool" where
  "outpoint_IsNull a \<longleftrightarrow> o_hash a = 0 \<and> o_n a = - 1"

definition outpoint_less :: "COutPoint \<Rightarrow> COutPoint \<Rightarrow> bool" where
  "outpoint_less a b \<longleftrightarrow> o_hash a < o_hash b \<or> (o_hash a = o_hash b \<and> o_n a < o_n b)"

definition txout_SetNull :: CTxOut where
  "txout_SetNull = \<lparr> t_nValue = - 1, t_scriptPubKey = [] \<rparr>"

definition txout_IsNull :: "CTxOut \<Rightarrow> bool" where
  "txout_IsNull a \<longleftrightarrow> t_nValue a = - 1"

definition txin_IsFinal :: "CTxIn \<Rightarrow> bool" where
  "txin_IsFinal a \<longleftrightarrow> i_nSequence a = - 1"

definition tx_SetNull :: CTransaction where
  "tx_SetNull = \<lparr> tx_hash = 0, tx_nVersion = 1, tx_vin = [], tx_vout = [], tx_nLockTime = 0,
     tx_vector_format = False, tx_vector_rep = [], tx_keccak_hash = False \<rparr>"

definition tx_IsNull :: "CTransaction \<Rightarrow> bool" where
  "tx_IsNull tx \<longleftrightarrow> tx_vin tx = [] \<and> tx_vout tx = []"

definition IsCoinBase :: "CTransaction \<Rightarrow> bool" where
  "IsCoinBase tx \<longleftrightarrow> length (tx_vin tx) = 1 \<and> outpoint_IsNull (i_prevout (tx_vin tx ! 0))"

section \<open>Wire format\<close>

text \<open>An outpoint is written as its memory: the hash and the index, without padding.\<close>

definition ser_outpoint :: "COutPoint \<Rightarrow> bytes" where
  "ser_outpoint a = WRITEDATA (o_hash a) @ WRITEDATA (o_n a)"

definition unser_outpoint :: "COutPoint reader" where
  "unser_outpoint = rd_bind READDATA (\<lambda>h. rd_bind READDATA (\<lambda>n. rd_return \<lparr> o_hash = h, o_n = n \<rparr>))"

definition ser_txin :: "CTxIn \<Rightarrow> bytes" where
  "ser_txin a = ser_outpoint (i_prevout a) @ ser_bytes (i_scriptSig a) @ WRITEDATA (i_nSequence a)"

definition unser_txin :: "CTxIn reader" where
  "unser_txin = rd_bind unser_outpoint (\<lambda>p. rd_bind unser_bytes (\<lambda>s. rd_bind READDATA (\<lambda>q.
     rd_return \<lparr> i_prevout = p, i_scriptSig = s, i_nSequence = q \<rparr>)))"

definition ser_txout :: "CTxOut \<Rightarrow> bytes" where
  "ser_txout a = WRITEDATA (t_nValue a) @ ser_bytes (t_scriptPubKey a)"

definition unser_txout :: "CTxOut reader" where
  "unser_txout = rd_bind READDATA (\<lambda>v. rd_bind unser_bytes (\<lambda>s.
     rd_return \<lparr> t_nValue = v, t_scriptPubKey = s \<rparr>))"

definition size_txin :: "CTxIn \<Rightarrow> nat" where
  "size_txin a = 36 + size_string (i_scriptSig a) + 4"

definition size_txout :: "CTxOut \<Rightarrow> nat" where
  "size_txout a = 8 + size_string (t_scriptPubKey a)"

text \<open>The sizes of the vector elements on a 64-bit machine; the block reader depends on them,
  its result does not.\<close>

definition sizeof_CTxIn :: nat where "sizeof_CTxIn = 72"
definition sizeof_CTxOut :: nat where "sizeof_CTxOut = 32"

definition ser_tx :: "CTransaction \<Rightarrow> bytes" where
  "ser_tx tx =
     (if tx_vector_format tx then ser_bytes (tx_vector_rep tx)
      else WRITEDATA (tx_nVersion tx) @ ser_vec ser_txin (tx_vin tx) @ ser_vec ser_txout (tx_vout tx) @
        WRITEDATA (tx_nLockTime tx))"

definition size_tx :: "CTransaction \<Rightarrow> nat" where
  "size_tx tx =
     (if tx_vector_format tx then size_string (tx_vector_rep tx)
      else 4 + size_vec size_txin (tx_vin tx) + size_vec size_txout (tx_vout tx) + 4)"

text \<open>The hash functions: \<open>Hash\<close> of a byte range and \<open>KeccakHashCBTX\<close> of a parent coinbase.\<close>

record tx_hashes =
  th_Hash :: "bytes \<Rightarrow> u256"
  th_KeccakCBTX :: "bytes \<Rightarrow> u256"

definition tx_GetHash :: "tx_hashes \<Rightarrow> CTransaction \<Rightarrow> u256" where
  "tx_GetHash hs tx = th_Hash hs (ser_tx tx)"

definition GetCachedHash :: "tx_hashes \<Rightarrow> CTransaction \<Rightarrow> u256" where
  "GetCachedHash hs tx = (if tx_hash tx \<noteq> 0 then tx_hash tx else tx_GetHash hs tx)"

definition UpdateHash :: "tx_hashes \<Rightarrow> CTransaction \<Rightarrow> CTransaction" where
  "UpdateHash hs tx = tx\<lparr>tx_hash :=
     (if tx_vector_format tx then
        if tx_keccak_hash tx then th_KeccakCBTX hs (tx_vector_rep tx) else th_Hash hs (tx_vector_rep tx)
      else tx_GetHash hs tx)\<rparr>"

definition unser_tx :: "tx_hashes \<Rightarrow> CTransaction \<Rightarrow> CTransaction reader" where
  "unser_tx hs tx =
     rd_bind
       (if tx_vector_format tx then rd_bind unser_bytes (\<lambda>v. rd_return (tx\<lparr>tx_vector_rep := v\<rparr>))
        else
          rd_bind READDATA (\<lambda>ver.
          rd_bind (unser_vec sizeof_CTxIn unser_txin) (\<lambda>vin.
          rd_bind (unser_vec sizeof_CTxOut unser_txout) (\<lambda>vout.
          rd_bind READDATA (\<lambda>lt.
          rd_return (tx\<lparr>tx_nVersion := ver, tx_vin := vin, tx_vout := vout, tx_nLockTime := lt\<rparr>))))))
       (\<lambda>tx. rd_return (UpdateHash hs tx))"

section \<open>Values and checks\<close>

text \<open>\<open>GetValueOut\<close> throws (None) on a value or a running total out of range.\<close>

fun value_out_loop :: "u64 \<Rightarrow> CTxOut list \<Rightarrow> u64 option" where
  "value_out_loop nValueOut [] = Some nValueOut"
| "value_out_loop nValueOut (txout # vout) =
     (let nValueOut = nValueOut + t_nValue txout in
      if \<not> MoneyRange (t_nValue txout) \<or> \<not> MoneyRange nValueOut then None
      else value_out_loop nValueOut vout)"

definition GetValueOut :: "CTransaction \<Rightarrow> u64 option" where
  "GetValueOut tx = value_out_loop 0 (tx_vout tx)"

definition IsDust :: "CTxOut \<Rightarrow> int \<Rightarrow> bool" where
  "IsDust a nMinRelayTxFee \<longleftrightarrow>
     sint (t_nValue a * 1000) sdiv (3 * (int (size_txout a) + 148)) < nMinRelayTxFee"

text \<open>A rejection: the misbehaviour score and the reason sent to the peer.\<close>

type_synonym reject = "nat \<times> string"

definition MAX_BLOCK_SIZE :: nat where "MAX_BLOCK_SIZE = 1000000"

fun check_values :: "u64 \<Rightarrow> CTxOut list \<Rightarrow> reject + unit" where
  "check_values nValueOut [] = Inr ()"
| "check_values nValueOut (txout # vout) =
     (if sint (t_nValue txout) < 0 then Inl (100, ''bad-txns-vout-negative'')
      else if sint (t_nValue txout) > MAX_MONEY then Inl (100, ''bad-txns-vout-toolarge'')
      else let nValueOut = nValueOut + t_nValue txout in
        if \<not> MoneyRange nValueOut then Inl (100, ''bad-txns-txouttotal-toolarge'')
        else check_values nValueOut vout)"

fun check_duplicates :: "COutPoint list \<Rightarrow> CTxIn list \<Rightarrow> reject + unit" where
  "check_duplicates vInOutPoints [] = Inr ()"
| "check_duplicates vInOutPoints (txin # vin) =
     (if i_prevout txin \<in> set vInOutPoints then Inl (100, ''bad-txns-inputs-duplicate'')
      else check_duplicates (i_prevout txin # vInOutPoints) vin)"

fun check_prevouts :: "CTxIn list \<Rightarrow> reject + unit" where
  "check_prevouts [] = Inr ()"
| "check_prevouts (txin # vin) =
     (if outpoint_IsNull (i_prevout txin) then Inl (10, ''bad-txns-prevout-null'')
      else check_prevouts vin)"

definition CheckTransaction :: "CTransaction \<Rightarrow> reject + unit" where
  "CheckTransaction tx =
     (if tx_vin tx = [] then Inl (10, ''bad-txns-vin-empty'')
      else if tx_vout tx = [] then Inl (10, ''bad-txns-vout-empty'')
      else if size_tx tx > MAX_BLOCK_SIZE then Inl (100, ''bad-txns-oversize'')
      else case check_values 0 (tx_vout tx) of Inl r \<Rightarrow> Inl r | Inr _ \<Rightarrow>
        (case check_duplicates [] (tx_vin tx) of Inl r \<Rightarrow> Inl r | Inr _ \<Rightarrow>
          if IsCoinBase tx then
            if length (i_scriptSig (tx_vin tx ! 0)) < 2 \<or> length (i_scriptSig (tx_vin tx ! 0)) > 100
            then Inl (100, ''bad-cb-length'') else Inr ()
          else check_prevouts (tx_vin tx)))"

text \<open>\<open>IsFinalTx\<close> reads the height of the active chain and the adjusted time when it is given
  zeros; they are arguments here.\<close>

definition LOCKTIME_THRESHOLD :: int where "LOCKTIME_THRESHOLD = 500000000"

definition IsFinalTx :: "int \<Rightarrow> int \<Rightarrow> CTransaction \<Rightarrow> int \<Rightarrow> int \<Rightarrow> bool" where
  "IsFinalTx chain_height adjusted_time tx nBlockHeight nBlockTime =
     (if tx_nLockTime tx = 0 then True
      else
        let h = (if nBlockHeight = 0 then chain_height else nBlockHeight);
            t = (if nBlockTime = 0 then adjusted_time else nBlockTime);
            lt = uint (tx_nLockTime tx)
        in if lt < (if lt < LOCKTIME_THRESHOLD then h else t) then True
           else list_all txin_IsFinal (tx_vin tx))"

text \<open>\<open>IsNewerThan\<close>: the pairs of inputs with the running flag and lowest sequence number.\<close>

fun newer_loop :: "(CTxIn \<times> CTxIn) list \<Rightarrow> bool \<Rightarrow> u32 \<Rightarrow> bool" where
  "newer_loop [] fNewer nLowest = fNewer"
| "newer_loop ((a, b) # r) fNewer nLowest =
     (if i_nSequence a \<noteq> i_nSequence b then
        let (fNewer, nLowest) = (if i_nSequence a \<le> nLowest then (False, i_nSequence a) else (fNewer, nLowest));
            (fNewer, nLowest) = (if i_nSequence b < nLowest then (True, i_nSequence b) else (fNewer, nLowest))
        in newer_loop r fNewer nLowest
      else newer_loop r fNewer nLowest)"

definition IsNewerThan :: "CTransaction \<Rightarrow> CTransaction \<Rightarrow> bool" where
  "IsNewerThan tx old =
     (if length (tx_vin tx) \<noteq> length (tx_vin old) then False
      else if \<not> list_all (\<lambda>(a, b). i_prevout a = i_prevout b) (zip (tx_vin tx) (tx_vin old)) then False
      else newer_loop (zip (tx_vin tx) (tx_vin old)) False (- 1))"

section \<open>Amount compression\<close>

fun strip_zeros :: "nat \<Rightarrow> u64 \<Rightarrow> nat \<Rightarrow> u64 \<times> nat" where
  "strip_zeros 0 n e = (n, e)"
| "strip_zeros (Suc k) n e = (if n mod 10 = 0 then strip_zeros k (n div 10) (e + 1) else (n, e))"

definition CompressAmount :: "u64 \<Rightarrow> u64" where
  "CompressAmount n =
     (if n = 0 then 0
      else let (n, e) = strip_zeros 9 n 0 in
        if e < 9 then
          let d = n mod 10; n = n div 10 in 1 + (n * 9 + d - 1) * 10 + of_nat e
        else 1 + (n - 1) * 10 + 9)"

fun times_ten :: "nat \<Rightarrow> u64 \<Rightarrow> u64" where
  "times_ten 0 n = n"
| "times_ten (Suc e) n = times_ten e (n * 10)"

definition DecompressAmount :: "u64 \<Rightarrow> u64" where
  "DecompressAmount x =
     (if x = 0 then 0
      else
        let x = x - 1; e = unat (x mod 10); x = x div 10;
            n = (if e < 9 then let d = x mod 9 + 1; x = x div 9 in x * 10 + d else x + 1)
        in times_ten e n)"


section \<open>Encodings\<close>

lemmas wire_iff = byte.unser_bind_iff u32.unser_bind_iff u64.unser_bind_iff u256.unser_bind_iff
  vbytes.unser_bind_iff csize.unser_bind_iff
lemmas wire_rw = byte.unser_bind u32.unser_bind u64.unser_bind u256.unser_bind vbytes.unser_bind
  csize.unser_bind

interpretation outpoint: canonical_codec ser_outpoint unser_outpoint "\<lambda>_. True"
  by unfold_locales (auto simp: ser_outpoint_def unser_outpoint_def wire_iff wire_rw)

interpretation txin: canonical_codec ser_txin unser_txin "\<lambda>a. length (i_scriptSig a) \<le> 2 ^ 25"
  by unfold_locales
    (auto simp: ser_txin_def unser_txin_def wire_iff wire_rw outpoint.unser_bind outpoint.unser_bind_iff)

interpretation txout: canonical_codec ser_txout unser_txout "\<lambda>a. length (t_scriptPubKey a) \<le> 2 ^ 25"
  by unfold_locales (auto simp: ser_txout_def unser_txout_def wire_iff wire_rw)

interpretation txins: canonical_codec "ser_vec ser_txin" "unser_vec sizeof_CTxIn unser_txin"
  "\<lambda>v. length v \<le> 2 ^ 25 \<and> list_all (\<lambda>a. length (i_scriptSig a) \<le> 2 ^ 25) v"
  by (rule txin.vec_canonical) (simp_all add: sizeof_CTxIn_def)

interpretation txouts: canonical_codec "ser_vec ser_txout" "unser_vec sizeof_CTxOut unser_txout"
  "\<lambda>v. length v \<le> 2 ^ 25 \<and> list_all (\<lambda>a. length (t_scriptPubKey a) \<le> 2 ^ 25) v"
  by (rule txout.vec_canonical) (simp_all add: sizeof_CTxOut_def)

text \<open>What an object read from a stream looks like: sizes within the limit, the members that
  are not on the wire as they were in the object read into, the cached hash up to date.\<close>

definition tx_wire :: "CTransaction \<Rightarrow> CTransaction \<Rightarrow> CTransaction" where
  "tx_wire tx0 tx =
     (if tx_vector_format tx0 then tx0\<lparr>tx_vector_rep := tx_vector_rep tx\<rparr>
      else tx0\<lparr>tx_nVersion := tx_nVersion tx, tx_vin := tx_vin tx, tx_vout := tx_vout tx,
             tx_nLockTime := tx_nLockTime tx\<rparr>)"

definition tx_ok :: "tx_hashes \<Rightarrow> CTransaction \<Rightarrow> CTransaction \<Rightarrow> bool" where
  "tx_ok hs tx0 tx \<longleftrightarrow> tx = UpdateHash hs (tx_wire tx0 tx) \<and>
     (if tx_vector_format tx0 then length (tx_vector_rep tx) \<le> 2 ^ 25
      else length (tx_vin tx) \<le> 2 ^ 25 \<and> list_all (\<lambda>a. length (i_scriptSig a) \<le> 2 ^ 25) (tx_vin tx) \<and>
        length (tx_vout tx) \<le> 2 ^ 25 \<and> list_all (\<lambda>a. length (t_scriptPubKey a) \<le> 2 ^ 25) (tx_vout tx))"

lemma UpdateHash_fields [simp]:
  "tx_nVersion (UpdateHash hs tx) = tx_nVersion tx" "tx_vin (UpdateHash hs tx) = tx_vin tx"
  "tx_vout (UpdateHash hs tx) = tx_vout tx" "tx_nLockTime (UpdateHash hs tx) = tx_nLockTime tx"
  "tx_vector_format (UpdateHash hs tx) = tx_vector_format tx"
  "tx_vector_rep (UpdateHash hs tx) = tx_vector_rep tx"
  "tx_keccak_hash (UpdateHash hs tx) = tx_keccak_hash tx" "ser_tx (UpdateHash hs tx) = ser_tx tx"
  by (simp_all add: UpdateHash_def ser_tx_def)

lemma unser_tx_ser:
  assumes "tx_ok hs tx0 tx"
  shows "unser_tx hs tx0 (ser_tx tx @ s) = Inr (tx, s)"
proof -
  have tx: "tx = UpdateHash hs (tx_wire tx0 tx)" using assms by (simp add: tx_ok_def)
  have "ser_tx tx = ser_tx (tx_wire tx0 tx)" by (subst tx) simp
  moreover have "unser_tx hs tx0 (ser_tx (tx_wire tx0 tx) @ s) = Inr (UpdateHash hs (tx_wire tx0 tx), s)"
    using assms
    by (auto simp: unser_tx_def ser_tx_def tx_wire_def tx_ok_def rd_bind_def [of "rd_bind _ _"]
        wire_rw txins.unser_bind txouts.unser_bind)
  ultimately show ?thesis using tx by simp
qed

lemma unser_tx_canonical:
  assumes "unser_tx hs tx0 s = Inr (tx, r)"
  shows "tx_ok hs tx0 tx \<and> s = ser_tx tx @ r"
proof (cases "tx_vector_format tx0")
  case True
  then obtain v where "s = ser_bytes v @ r" "tx = UpdateHash hs (tx0\<lparr>tx_vector_rep := v\<rparr>)" "length v \<le> 2 ^ 25"
    using assms by (auto simp: unser_tx_def rd_bind_eq_Inr [of "rd_bind _ _"] wire_iff)
  then show ?thesis using True by (simp add: tx_ok_def tx_wire_def) (simp add: ser_tx_def)
next
  case False
  then obtain ver vin vout lt where
    s: "s = WRITEDATA ver @ ser_vec ser_txin vin @ ser_vec ser_txout vout @ WRITEDATA lt @ r" and
    tx: "tx = UpdateHash hs (tx0\<lparr>tx_nVersion := ver, tx_vin := vin, tx_vout := vout, tx_nLockTime := lt\<rparr>)" and
    l: "length vin \<le> 2 ^ 25" "list_all (\<lambda>a. length (i_scriptSig a) \<le> 2 ^ 25) vin"
      "length vout \<le> 2 ^ 25" "list_all (\<lambda>a. length (t_scriptPubKey a) \<le> 2 ^ 25) vout"
    using assms
    by (auto simp: unser_tx_def rd_bind_eq_Inr [of "rd_bind _ _"] wire_iff txins.unser_bind_iff
        txouts.unser_bind_iff)
  have "tx_ok hs tx0 tx" using False l by (simp add: tx_ok_def tx_wire_def tx)
  moreover have "ser_tx tx = WRITEDATA ver @ ser_vec ser_txin vin @ ser_vec ser_txout vout @ WRITEDATA lt"
    using False by (simp add: tx) (simp add: ser_tx_def)
  ultimately show ?thesis using s by simp
qed

interpretation tx: canonical_codec ser_tx "unser_tx hs tx0" "tx_ok hs tx0" for hs tx0
  by unfold_locales (simp_all add: unser_tx_ser unser_tx_canonical)

lemma length_ser_txin: "length (ser_txin a) = size_txin a"
  by (simp add: ser_txin_def size_txin_def ser_outpoint_def length_ser_bytes)

lemma length_ser_txout: "length (ser_txout a) = size_txout a"
  by (simp add: ser_txout_def size_txout_def length_ser_bytes)

lemma length_ser_tx: "length (ser_tx tx) = size_tx tx"
  by (simp add: ser_tx_def size_tx_def length_ser_bytes length_ser_vec length_ser_txin length_ser_txout)


section \<open>Totals\<close>

lemma sint_add_range:
  assumes "MoneyRange a" "0 \<le> sint v" "sint v \<le> MAX_MONEY"
  shows "sint (a + v) = sint a + sint v"
proof -
  have "0 \<le> sint a + sint v" "sint a + sint v < 2 ^ 63"
    using assms by (simp_all add: MoneyRange_def MAX_MONEY_def COIN_def)
  then show ?thesis by (simp add: sint_word_add signed_take_bit_int_eq_self)
qed

definition value_sum :: "CTxOut list \<Rightarrow> int" where
  "value_sum vout = sum_list (map (\<lambda>t. sint (t_nValue t)) vout)"

definition values_in_range :: "CTxOut list \<Rightarrow> bool" where
  "values_in_range vout \<longleftrightarrow> list_all (\<lambda>t. 0 \<le> sint (t_nValue t) \<and> sint (t_nValue t) \<le> MAX_MONEY) vout"

lemma value_sum_nonneg: "values_in_range vout \<Longrightarrow> 0 \<le> value_sum vout"
  by (induction vout) (simp_all add: value_sum_def values_in_range_def)

lemma value_out_loop_eq:
  "MoneyRange a \<Longrightarrow> map_option sint (value_out_loop a vout)
    = (if values_in_range vout \<and> sint a + value_sum vout \<le> MAX_MONEY then Some (sint a + value_sum vout) else None)"
proof (induction vout arbitrary: a)
  case Nil
  then show ?case by (simp add: values_in_range_def value_sum_def MoneyRange_def)
next
  case (Cons t vout)
  show ?case
  proof (cases "MoneyRange (t_nValue t)")
    case True
    then have s: "sint (a + t_nValue t) = sint a + sint (t_nValue t)"
      using sint_add_range Cons.prems by (simp add: MoneyRange_def)
    then have m: "MoneyRange (a + t_nValue t) \<longleftrightarrow> sint a + sint (t_nValue t) \<le> MAX_MONEY"
      using True Cons.prems by (simp add: MoneyRange_def)
    show ?thesis
    proof (cases "MoneyRange (a + t_nValue t)")
      case True2: True
      then show ?thesis using Cons.IH [OF True2] True s
        by (simp add: Let_def values_in_range_def value_sum_def MoneyRange_def add.assoc)
    next
      case False
      then have "\<not> (values_in_range vout \<and> sint a + value_sum (t # vout) \<le> MAX_MONEY)"
        using m value_sum_nonneg [of vout] by (auto simp: value_sum_def)
      then show ?thesis using False by (auto simp: Let_def values_in_range_def)
    qed
  next
    case False
    then show ?thesis by (auto simp: Let_def values_in_range_def MoneyRange_def)
  qed
qed

lemma check_values_eq:
  "MoneyRange a \<Longrightarrow> check_values a vout = Inr ()
    \<longleftrightarrow> values_in_range vout \<and> sint a + value_sum vout \<le> MAX_MONEY"
proof -
  have "MoneyRange a \<Longrightarrow> check_values a vout = Inr () \<longleftrightarrow> value_out_loop a vout \<noteq> None"
    by (induction vout arbitrary: a) (auto simp: Let_def MoneyRange_def)
  moreover have "value_out_loop a vout \<noteq> None \<longleftrightarrow> map_option sint (value_out_loop a vout) \<noteq> None"
    by simp
  ultimately show "MoneyRange a \<Longrightarrow> check_values a vout = Inr ()
    \<longleftrightarrow> values_in_range vout \<and> sint a + value_sum vout \<le> MAX_MONEY"
    by (simp only: value_out_loop_eq) simp
qed

lemma check_duplicates_eq:
  "check_duplicates seen vin = Inr ()
    \<longleftrightarrow> distinct (map i_prevout vin) \<and> set (map i_prevout vin) \<inter> set seen = {}"
  by (induction vin arbitrary: seen) auto

lemma check_prevouts_eq: "check_prevouts vin = Inr () \<longleftrightarrow> list_all (\<lambda>i. \<not> outpoint_IsNull (i_prevout i)) vin"
  by (induction vin) auto

section \<open>Amounts\<close>

lemma strip_zeros_spec:
  "strip_zeros k n e = (m, e') \<Longrightarrow>
   \<exists>j \<le> k. e' = e + j \<and> unat n = unat m * 10 ^ j \<and> (j < k \<longrightarrow> unat m mod 10 \<noteq> 0)"
proof (induction k arbitrary: n e)
  case (Suc k)
  have u: "unat (n mod 10) = unat n mod 10" "unat (n div 10) = unat n div 10"
    by (simp_all add: unat_mod_distrib unat_div_distrib)
  show ?case
  proof (cases "n mod 10 = 0")
    case True
    then obtain j where j: "j \<le> k" "e' = e + 1 + j" "unat (n div 10) = unat m * 10 ^ j"
      "j < k \<longrightarrow> unat m mod 10 \<noteq> 0"
      using Suc.IH [of "n div 10" "e + 1"] Suc.prems True by auto
    have "unat n mod 10 = 0" using True u(1) by simp
    then have "unat n = unat (n div 10) * 10" using u(2) div_mult_mod_eq [of "unat n" 10] by simp
    then show ?thesis using j by (intro exI [of _ "Suc j"]) simp
  next
    case False
    then have "unat n mod 10 \<noteq> 0" using u(1) by (metis unat_eq_0)
    then show ?thesis using Suc.prems False by auto
  qed
qed simp

lemma times_ten_eq: "times_ten e n = n * 10 ^ e"
  by (induction e arbitrary: n) (simp_all add: mult.assoc)

lemma digit_split:
  assumes "M mod 10 \<noteq> 0" "e < 9"
  shows "((M div 10 * 9 + (M mod 10 - 1)) * 10 + e) mod 10 = e"
    "((M div 10 * 9 + (M mod 10 - 1)) * 10 + e) div 10 = M div 10 * 9 + (M mod 10 - 1)"
    "(M div 10 * 9 + (M mod 10 - 1)) mod 9 + 1 = M mod (10 :: nat)"
    "(M div 10 * 9 + (M mod 10 - 1)) div 9 = M div 10"
proof -
  have d: "M mod 10 - 1 < 9" using assms(1) by (simp add: less_diff_conv2)
  have ten: "(q * 10 + e) mod 10 = e" "(q * 10 + e) div 10 = q" for q :: nat using assms(2) by auto
  have nine: "(q * 9 + r) mod 9 = r" "(q * 9 + r) div 9 = q" if "r < 9" for q r :: nat using that by auto
  show "((M div 10 * 9 + (M mod 10 - 1)) * 10 + e) mod 10 = e" by (rule ten)
  show "((M div 10 * 9 + (M mod 10 - 1)) * 10 + e) div 10 = M div 10 * 9 + (M mod 10 - 1)"
    by (rule ten)
  show "(M div 10 * 9 + (M mod 10 - 1)) mod 9 + 1 = M mod 10" using nine(1) [OF d] assms(1) by simp
  show "(M div 10 * 9 + (M mod 10 - 1)) div 9 = M div 10" by (rule nine(2) [OF d])
qed

lemma unat_of_nat_u64: "k < 2 ^ 64 \<Longrightarrow> unat (of_nat k :: u64) = k"
  by (simp add: unat_of_nat)

lemma word_eq_of_nat: "unat w = k \<Longrightarrow> w = of_nat k"
  by auto

lemma Decompress_of_nat:
  assumes "0 < k" "k < 2 ^ 64"
  shows "DecompressAmount (of_nat k) =
    (let q = (k - 1) div 10; e = (k - 1) mod 10
     in of_nat ((if e < 9 then q div 9 * 10 + (q mod 9 + 1) else q + 1) * 10 ^ e))"
proof -
  define x :: u64 where "x = of_nat k"
  have x: "unat x = k" using assms by (simp add: x_def unat_of_nat)
  then have "x \<noteq> 0" using assms(1) by auto
  then have u1: "unat (x - 1) = k - 1" using x by (simp add: unat_minus_one)
  have u2: "unat ((x - 1) mod 10) = (k - 1) mod 10" "unat ((x - 1) div 10) = (k - 1) div 10"
    by (simp_all add: unat_mod_distrib unat_div_distrib u1)
  have w: "(x - 1) div 10 = of_nat ((k - 1) div 10)" by (rule word_eq_of_nat [OF u2(2)])
  have u9: "unat ((x - 1) div 10 mod 9) = (k - 1) div 10 mod 9" "unat ((x - 1) div 10 div 9) = (k - 1) div 10 div 9"
    by (simp_all add: unat_mod_distrib unat_div_distrib u1)
  have w9: "(x - 1) div 10 div 9 = of_nat ((k - 1) div 10 div 9)" "(x - 1) div 10 mod 9 = of_nat ((k - 1) div 10 mod 9)"
    by (rule word_eq_of_nat [OF u9(2)], rule word_eq_of_nat [OF u9(1)])
  show ?thesis
    using \<open>x \<noteq> 0\<close>
    by (simp add: DecompressAmount_def x_def [symmetric] Let_def u2 w w9 [unfolded w] times_ten_eq algebra_simps del: One_nat_def)
qed


lemma CompressAmount_code:
  assumes "n \<noteq> 0" "unat n < 2 ^ 60"
  obtains M e where "unat n = M * 10 ^ e" "e \<le> 9" "0 < M" "e < 9 \<longrightarrow> M mod 10 \<noteq> 0" "M < 2 ^ 60"
    "CompressAmount n = of_nat (1 + (if e < 9 then (M div 10 * 9 + (M mod 10 - 1)) * 10 + e else (M - 1) * 10 + 9))"
proof -
  obtain m e where me: "strip_zeros 9 n 0 = (m, e)" by fastforce
  then have s: "e \<le> 9" "unat n = unat m * 10 ^ e" "e < 9 \<longrightarrow> unat m mod 10 \<noteq> 0"
    using strip_zeros_spec [OF me] by auto
  have pos: "0 < unat m" using s(2) assms(1) by (metis gr0I mult_zero_left unat_eq_0)
  have "unat m * 1 \<le> unat m * 10 ^ e" by (rule mult_le_mono2) simp
  then have lt: "unat m < 2 ^ 60" using s(2) assms(2) by linarith
  have w: "m mod 10 = of_nat (unat m mod 10)" "m div 10 = of_nat (unat m div 10)"
    by (rule word_eq_of_nat, simp add: unat_mod_distrib unat_div_distrib)+
  have "CompressAmount n = of_nat (1 + (if e < 9 then (unat m div 10 * 9 + (unat m mod 10 - 1)) * 10 + e
      else (unat m - 1) * 10 + 9))"
  proof (cases "e < 9")
    case True
    then obtain r where r: "unat m mod 10 = Suc r" using s(3) by (metis not0_implies_Suc)
    have "CompressAmount n = 1 + (of_nat (unat m div 10) * 9 + of_nat (unat m mod 10) - 1) * 10 + of_nat e"
      using assms(1) True by (simp only: CompressAmount_def me w Let_def if_False if_True prod.case)
    then show ?thesis using True by (simp add: r del: of_nat_unat)
  next
    case False
    obtain r where r: "unat m = Suc r" using pos by (metis gr0_implies_Suc)
    then have m: "m = of_nat (Suc r)" by (rule word_eq_of_nat)
    have "CompressAmount n = 1 + (m - 1) * 10 + 9"
      using assms(1) False by (simp only: CompressAmount_def me Let_def if_False if_True prod.case)
    then show ?thesis using False r by (simp add: m)
  qed
  then show ?thesis using that s pos lt by blast
qed

section \<open>Properties\<close>

text \<open>C27: Transaction parsing is exact: it succeeds precisely on the serialization of the
  transaction it returns (so a transaction has one encoding, and its id cannot be changed by
  re-encoding it), the rest of the stream is left untouched, the cached hash is the one of
  what was read, and the size the code computes is the number of bytes written.\<close>

theorem tx_roundtrip:
  "(unser_tx hs tx0 s = Inr (tx, r) \<longleftrightarrow> tx_ok hs tx0 tx \<and> s = ser_tx tx @ r)
    \<and> length (ser_tx tx) = size_tx tx"
  using tx.unser_iff length_ser_tx by blast

text \<open>C26: \<open>CheckTransaction\<close> accepts exactly the transactions with inputs and outputs, at most
  a million bytes, output values that are each in the money range and whose sum, as an
  unbounded number, is in it too (so no overflow can create money), no input twice, and a
  coinbase script of 2 to 100 bytes or no null prevout. \<open>GetValueOut\<close> then gives that sum, and
  throws otherwise.\<close>

theorem CheckTransaction_spec:
  "(CheckTransaction tx = Inr () \<longleftrightarrow>
      tx_vin tx \<noteq> [] \<and> tx_vout tx \<noteq> [] \<and> length (ser_tx tx) \<le> MAX_BLOCK_SIZE
      \<and> values_in_range (tx_vout tx) \<and> value_sum (tx_vout tx) \<le> MAX_MONEY
      \<and> distinct (map i_prevout (tx_vin tx))
      \<and> (if IsCoinBase tx then 2 \<le> length (i_scriptSig (tx_vin tx ! 0)) \<and> length (i_scriptSig (tx_vin tx ! 0)) \<le> 100
         else list_all (\<lambda>i. \<not> outpoint_IsNull (i_prevout i)) (tx_vin tx)))
    \<and> map_option sint (GetValueOut tx) =
        (if values_in_range (tx_vout tx) \<and> value_sum (tx_vout tx) \<le> MAX_MONEY
         then Some (value_sum (tx_vout tx)) else None)"
proof
  have z: "MoneyRange 0" by (simp add: MoneyRange_def MAX_MONEY_def COIN_def)
  show "map_option sint (GetValueOut tx) =
        (if values_in_range (tx_vout tx) \<and> value_sum (tx_vout tx) \<le> MAX_MONEY
         then Some (value_sum (tx_vout tx)) else None)"
    using value_out_loop_eq [OF z] by (simp add: GetValueOut_def)
  have c: "(case x of Inl r \<Rightarrow> Inl r | Inr _ \<Rightarrow> y) = Inr () \<longleftrightarrow> x = Inr () \<and> y = Inr ()"
    for x :: "reject + unit" and y by (cases x) auto
  show "CheckTransaction tx = Inr () \<longleftrightarrow>
      tx_vin tx \<noteq> [] \<and> tx_vout tx \<noteq> [] \<and> length (ser_tx tx) \<le> MAX_BLOCK_SIZE
      \<and> values_in_range (tx_vout tx) \<and> value_sum (tx_vout tx) \<le> MAX_MONEY
      \<and> distinct (map i_prevout (tx_vin tx))
      \<and> (if IsCoinBase tx then 2 \<le> length (i_scriptSig (tx_vin tx ! 0)) \<and> length (i_scriptSig (tx_vin tx ! 0)) \<le> 100
         else list_all (\<lambda>i. \<not> outpoint_IsNull (i_prevout i)) (tx_vin tx))"
    using check_values_eq [OF z, of "tx_vout tx"]
    by (auto simp: CheckTransaction_def c check_duplicates_eq check_prevouts_eq length_ser_tx not_less)
qed

lemma amount_compact:
  assumes "unat n < 2 ^ 60"
  shows "DecompressAmount (CompressAmount n) = n"
proof (cases "n = 0")
  case True
  then show ?thesis by (simp add: CompressAmount_def DecompressAmount_def)
next
  case False
  obtain M e where me: "unat n = M * 10 ^ e" "e \<le> 9" "0 < M" "e < 9 \<longrightarrow> M mod 10 \<noteq> 0" "M < 2 ^ 60"
    and c: "CompressAmount n = of_nat (1 + (if e < 9 then (M div 10 * 9 + (M mod 10 - 1)) * 10 + e else (M - 1) * 10 + 9))"
    using CompressAmount_code [OF False assms] by blast
  have n: "n = of_nat (M * 10 ^ e)" by (rule word_eq_of_nat [OF me(1)])
  show ?thesis
  proof (cases "e < 9")
    case True
    define q k where "q = M div 10 * 9 + (M mod 10 - 1)" and "k = q * 10 + e"
    have d: "k mod 10 = e" "k div 10 = q" "q mod 9 + 1 = M mod 10" "q div 9 = M div 10"
      unfolding q_def k_def by (rule digit_split [OF mp [OF me(4) True] True])+
    have "q * 10 \<le> M div 10 * 10 * 9 + M mod 10 * 10" by (simp add: q_def)
    also have "\<dots> \<le> M * 9 + 90" by (intro add_mono mult_le_mono1) simp_all
    finally have "1 + k < 2 ^ 64" using me(5) True by (simp add: k_def)
    then have "DecompressAmount (of_nat (1 + k)) = of_nat ((q div 9 * 10 + (q mod 9 + 1)) * 10 ^ e)"
      using Decompress_of_nat [of "1 + k"] True by (simp only: Let_def diff_add_inverse d) simp
    also have "q div 9 * 10 + (q mod 9 + 1) = M" unfolding d by simp
    finally show ?thesis using True c n by (simp only: q_def k_def if_True)
  next
    case False
    then have e: "e = 9" using me(2) by simp
    define k where "k = (M - 1) * 10 + 9"
    have d: "k mod 10 = 9" "k div 10 = M - 1" by (simp_all add: k_def)
    have "1 + k < 2 ^ 64" using me(5) by (simp add: k_def)
    then have "DecompressAmount (of_nat (1 + k)) = of_nat ((M - 1 + 1) * 10 ^ 9)"
      using Decompress_of_nat [of "1 + k"] by (simp only: Let_def diff_add_inverse d) simp
    also have "M - 1 + 1 = M" using me(3) by simp
    finally show ?thesis using False c n by (simp only: e k_def if_False)
  qed
qed

text \<open>C39: The compressed amount of a transaction output expands to the amount again, for every
  amount below \<open>2^60\<close>, which includes the whole money range.\<close>

theorem DecompressAmount_Compress:
  assumes "unat n < 2 ^ 60"
  shows "DecompressAmount (CompressAmount n) = n"
  using assms by (rule amount_compact)

theorem DecompressAmount_Compress_witness:
  "DecompressAmount (CompressAmount 2000000000) = 2000000000"
  by (rule DecompressAmount_Compress) simp

end
