(* ===== verification/Merkle.thy ===== *)
theory Merkle imports Main Prelude begin

text \<open>
  Merkle trees: \<open>CBlock::BuildMerkleTree\<close>, \<open>GetMerkleBranch\<close> and \<open>CheckMerkleBranch\<close> of
  \<open>src/src/core.cpp\<close>, and the partial tree sent to light clients, \<open>CPartialMerkleTree\<close> of
  \<open>src/src/main.h\<close> and \<open>src/src/main.cpp\<close>. The hash function is a parameter \<open>Hash\<close> on byte
  strings; an inner node is the hash of its two children's bytes. The code keeps a tree as
  the flat list of its levels; the specification is the list of levels.
\<close>

section \<open>The tree of a block\<close>

definition hash2 :: "(bytes \<Rightarrow> u256) \<Rightarrow> u256 \<Rightarrow> u256 \<Rightarrow> u256" where
  "hash2 Hash a b = Hash (le_bytes a @ le_bytes b)"

text \<open>One round of the outer loop appends the parents of the level of \<open>nSize\<close> nodes that
  starts at \<open>j\<close>; the last node of an odd level is paired with itself.\<close>

definition build_level :: "(bytes \<Rightarrow> u256) \<Rightarrow> u256 list \<Rightarrow> nat \<Rightarrow> nat \<Rightarrow> u256 list" where
  "build_level Hash v j nSize =
     map (\<lambda>k. let i = 2 * k; i2 = min (i + 1) (nSize - 1) in hash2 Hash (v ! (j + i)) (v ! (j + i2)))
       [0..<(nSize + 1) div 2]"

function build_loop :: "(bytes \<Rightarrow> u256) \<Rightarrow> u256 list \<Rightarrow> nat \<Rightarrow> nat \<Rightarrow> u256 list" where
  "build_loop Hash v j nSize =
     (if nSize > 1 then build_loop Hash (v @ build_level Hash v j nSize) (j + nSize) ((nSize + 1) div 2)
      else v)"
  by auto
termination by (relation "measure (\<lambda>(_, _, _, n). n)") auto

declare build_loop.simps [simp del]

definition BuildMerkleTree :: "(bytes \<Rightarrow> u256) \<Rightarrow> u256 list \<Rightarrow> u256 list \<times> u256" where
  "BuildMerkleTree Hash txids =
     (let vMerkleTree = build_loop Hash txids 0 (length txids)
      in (vMerkleTree, if vMerkleTree = [] then 0 else last vMerkleTree))"

function branch_loop :: "u256 list \<Rightarrow> nat \<Rightarrow> nat \<Rightarrow> nat \<Rightarrow> u256 list" where
  "branch_loop vMerkleTree j nSize nIndex =
     (if nSize > 1 then
        vMerkleTree ! (j + min (nIndex XOR 1) (nSize - 1)) #
        branch_loop vMerkleTree (j + nSize) ((nSize + 1) div 2) (nIndex div 2)
      else [])"
  by auto
termination by (relation "measure (\<lambda>(_, _, n, _). n)") auto

declare branch_loop.simps [simp del]

definition GetMerkleBranch :: "(bytes \<Rightarrow> u256) \<Rightarrow> u256 list \<Rightarrow> nat \<Rightarrow> u256 list" where
  "GetMerkleBranch Hash txids nIndex =
     branch_loop (fst (BuildMerkleTree Hash txids)) 0 (length txids) nIndex"

fun check_branch_loop :: "(bytes \<Rightarrow> u256) \<Rightarrow> u256 \<Rightarrow> u256 list \<Rightarrow> int \<Rightarrow> u256" where
  "check_branch_loop Hash hash [] nIndex = hash"
| "check_branch_loop Hash hash (otherside # branch) nIndex =
     check_branch_loop Hash (if odd nIndex then hash2 Hash otherside hash else hash2 Hash hash otherside)
       branch (nIndex div 2)"

definition CheckMerkleBranch :: "(bytes \<Rightarrow> u256) \<Rightarrow> u256 \<Rightarrow> u256 list \<Rightarrow> int \<Rightarrow> u256" where
  "CheckMerkleBranch Hash hash vMerkleBranch nIndex =
     (if nIndex = -1 then 0 else check_branch_loop Hash hash vMerkleBranch nIndex)"

section \<open>Partial trees\<close>

record CPartialMerkleTree =
  pm_nTransactions :: nat
  pm_vBits :: "bool list"
  pm_vHash :: "u256 list"
  pm_fBad :: bool

definition CalcTreeWidth :: "nat \<Rightarrow> nat \<Rightarrow> nat" where
  "CalcTreeWidth nTransactions height = (nTransactions + 2 ^ height - 1) div 2 ^ height"

fun CalcHash :: "(bytes \<Rightarrow> u256) \<Rightarrow> nat \<Rightarrow> nat \<Rightarrow> nat \<Rightarrow> u256 list \<Rightarrow> u256" where
  "CalcHash Hash n 0 pos vTxid = vTxid ! pos"
| "CalcHash Hash n (Suc height) pos vTxid =
     (let left = CalcHash Hash n height (pos * 2) vTxid;
          right = (if pos * 2 + 1 < CalcTreeWidth n height then CalcHash Hash n height (pos * 2 + 1) vTxid
                   else left)
      in hash2 Hash left right)"

definition parent_of_match :: "nat \<Rightarrow> nat \<Rightarrow> nat \<Rightarrow> bool list \<Rightarrow> bool" where
  "parent_of_match n height pos vMatch =
     list_ex (\<lambda>p. vMatch ! p) (filter (\<lambda>p. p < n) [pos * 2 ^ height..<(pos + 1) * 2 ^ height])"

text \<open>The bits and the hashes that a call appends.\<close>

fun TraverseAndBuild :: "(bytes \<Rightarrow> u256) \<Rightarrow> nat \<Rightarrow> u256 list \<Rightarrow> bool list \<Rightarrow> nat \<Rightarrow> nat \<Rightarrow> bool list \<times> u256 list" where
  "TraverseAndBuild Hash n vTxid vMatch 0 pos =
     ([parent_of_match n 0 pos vMatch], [CalcHash Hash n 0 pos vTxid])"
| "TraverseAndBuild Hash n vTxid vMatch (Suc height) pos =
     (if \<not> parent_of_match n (Suc height) pos vMatch
      then ([False], [CalcHash Hash n (Suc height) pos vTxid])
      else
        let (b1, h1) = TraverseAndBuild Hash n vTxid vMatch height (pos * 2);
            (b2, h2) = (if pos * 2 + 1 < CalcTreeWidth n height
                        then TraverseAndBuild Hash n vTxid vMatch height (pos * 2 + 1) else ([], []))
        in (True # b1 @ b2, h1 @ h2))"

text \<open>The state that extraction threads: bits used, hashes used, matches, the failure flag.\<close>

record extract_state =
  es_bits :: nat
  es_hashes :: nat
  es_match :: "u256 list"
  es_bad :: bool

fun TraverseAndExtract :: "(bytes \<Rightarrow> u256) \<Rightarrow> CPartialMerkleTree \<Rightarrow> nat \<Rightarrow> nat \<Rightarrow> extract_state \<Rightarrow> u256 \<times> extract_state" where
  "TraverseAndExtract Hash t height pos s =
     (if es_bits s \<ge> length (pm_vBits t) then (0, s\<lparr>es_bad := True\<rparr>)
      else
        let fParentOfMatch = pm_vBits t ! es_bits s;
            s = s\<lparr>es_bits := es_bits s + 1\<rparr>
        in if height = 0 \<or> \<not> fParentOfMatch then
             if es_hashes s \<ge> length (pm_vHash t) then (0, s\<lparr>es_bad := True\<rparr>)
             else
               let hash = pm_vHash t ! es_hashes s;
                   s = s\<lparr>es_hashes := es_hashes s + 1\<rparr>;
                   s = (if height = 0 \<and> fParentOfMatch then s\<lparr>es_match := es_match s @ [hash]\<rparr> else s)
               in (hash, s)
           else
             let (left, s) = TraverseAndExtract Hash t (height - 1) (pos * 2) s;
                 (right, s) = (if pos * 2 + 1 < CalcTreeWidth (pm_nTransactions t) (height - 1)
                               then TraverseAndExtract Hash t (height - 1) (pos * 2 + 1) s
                               else (left, s))
             in (hash2 Hash left right, s))"

declare TraverseAndExtract.simps [simp del]

lemma width_height: "CalcTreeWidth n h > 1 \<Longrightarrow> h < n"
proof -
  assume "CalcTreeWidth n h > 1"
  then have "2 * 2 ^ h \<le> n + 2 ^ h - 1"
    unfolding CalcTreeWidth_def using less_eq_div_iff_mult_less_eq [of "2 ^ h" 2 "n + 2 ^ h - 1"] by auto
  moreover have "0 < (2 :: nat) ^ h" by simp
  ultimately have "(2 :: nat) ^ h < n" by linarith
  moreover have "h < 2 ^ h" by (rule less_exp)
  ultimately show ?thesis by (rule less_trans [rotated])
qed

function tree_height :: "nat \<Rightarrow> nat \<Rightarrow> nat" where
  "tree_height n nHeight = (if CalcTreeWidth n nHeight > 1 then tree_height n (nHeight + 1) else nHeight)"
  by auto
termination
  by (relation "measure (\<lambda>(n, h). n - h)") (auto dest: width_height [unfolded One_nat_def])

declare tree_height.simps [simp del]

definition MakePartialMerkleTree :: "(bytes \<Rightarrow> u256) \<Rightarrow> u256 list \<Rightarrow> bool list \<Rightarrow> CPartialMerkleTree" where
  "MakePartialMerkleTree Hash vTxid vMatch =
     (let n = length vTxid;
          (bits, hashes) = TraverseAndBuild Hash n vTxid vMatch (tree_height n 0) 0
      in \<lparr> pm_nTransactions = n, pm_vBits = bits, pm_vHash = hashes, pm_fBad = False \<rparr>)"

definition ExtractMatches :: "(bytes \<Rightarrow> u256) \<Rightarrow> CPartialMerkleTree \<Rightarrow> u256 \<times> u256 list" where
  "ExtractMatches Hash t =
     (if pm_nTransactions t = 0 then (0, [])
      else if pm_nTransactions t > 1000000 div 60 then (0, [])
      else if length (pm_vHash t) > pm_nTransactions t then (0, [])
      else if length (pm_vBits t) < length (pm_vHash t) then (0, [])
      else
        let (root, s) = TraverseAndExtract Hash t (tree_height (pm_nTransactions t) 0) 0
              \<lparr> es_bits = 0, es_hashes = 0, es_match = [], es_bad = pm_fBad t \<rparr>
        in if es_bad s then (0, es_match s)
           else if (es_bits s + 7) div 8 \<noteq> (length (pm_vBits t) + 7) div 8 then (0, es_match s)
           else if es_hashes s \<noteq> length (pm_vHash t) then (0, es_match s)
           else (root, es_match s))"

text \<open>The bits on the wire, eight to a byte.\<close>

definition pack_bits :: "bool list \<Rightarrow> bytes" where
  "pack_bits vBits =
     map (\<lambda>k. horner_sum of_bool 2 (take 8 (drop (8 * k) vBits))) [0..<(length vBits + 7) div 8]"

definition unpack_bits :: "bytes \<Rightarrow> bool list" where
  "unpack_bits vBytes = map (\<lambda>p. bit (vBytes ! (p div 8)) (p mod 8)) [0..<length vBytes * 8]"


section \<open>The levels of a tree\<close>

fun pair_up :: "(u256 \<Rightarrow> u256 \<Rightarrow> u256) \<Rightarrow> u256 list \<Rightarrow> u256 list" where
  "pair_up h [] = []"
| "pair_up h [a] = [h a a]"
| "pair_up h (a # b # r) = h a b # pair_up h r"

lemma length_pair_up [simp]: "length (pair_up h xs) = (length xs + 1) div 2"
  by (induction h xs rule: pair_up.induct) auto

lemma pair_up_Nil [simp]: "pair_up h xs = [] \<longleftrightarrow> xs = []"
  by (induction h xs rule: pair_up.induct) auto

lemma nth_pair_up:
  "k < (length xs + 1) div 2 \<Longrightarrow> pair_up h xs ! k = h (xs ! (2 * k)) (xs ! min (2 * k + 1) (length xs - 1))"
proof (induction h xs arbitrary: k rule: pair_up.induct)
  case (3 h a b r)
  show ?case
  proof (cases k)
    case (Suc m)
    then have m: "m < (length r + 1) div 2" using "3.prems" by simp
    then have "r \<noteq> []" by auto
    then have "min (2 * k + 1) (length (a # b # r) - 1) = Suc (Suc (min (2 * m + 1) (length r - 1)))"
      using Suc by (cases r) (auto simp: min_def)
    then show ?thesis using Suc "3.IH" [OF m] by simp
  qed simp
qed auto

fun level :: "(u256 \<Rightarrow> u256 \<Rightarrow> u256) \<Rightarrow> u256 list \<Rightarrow> nat \<Rightarrow> u256 list" where
  "level h xs 0 = xs"
| "level h xs (Suc k) = pair_up h (level h xs k)"

lemma half_up: "Suc (CalcTreeWidth n k) div 2 = CalcTreeWidth n (Suc k)"
proof -
  define x where "x = (2 :: nat) ^ k"
  have x: "0 < x" by (simp add: x_def)
  have "(n + x - 1 + x) div x = (n + x - 1) div x + 1" by (rule div_add_self2) (use x in simp)
  then have "Suc ((n + x - 1) div x) div 2 = (n + x - 1 + x) div x div 2" by (simp only: Suc_eq_plus1)
  also have "\<dots> = (n + x - 1 + x) div (2 * x)" by (simp add: div_mult2_eq [symmetric] mult.commute)
  also have "n + x - 1 + x = n + 2 * x - 1" using x by simp
  finally show ?thesis by (simp add: CalcTreeWidth_def x_def)
qed

lemma length_level: "length (level h xs k) = CalcTreeWidth (length xs) k"
  by (induction k) (simp_all add: half_up CalcTreeWidth_def [of _ 0])

lemma CalcHash_level:
  "pos < CalcTreeWidth (length xs) k \<Longrightarrow> CalcHash Hash (length xs) k pos xs = level (hash2 Hash) xs k ! pos"
proof (induction k arbitrary: pos)
  case (Suc k)
  define w where "w = CalcTreeWidth (length xs) k"
  have p: "pos < (w + 1) div 2" using Suc.prems by (simp add: w_def half_up)
  then have l: "pos * 2 < w" by simp
  have lw: "length (level (hash2 Hash) xs k) = w" by (simp add: w_def length_level)
  have n: "level (hash2 Hash) xs (Suc k) ! pos
      = hash2 Hash (level (hash2 Hash) xs k ! (2 * pos)) (level (hash2 Hash) xs k ! min (2 * pos + 1) (w - 1))"
    using nth_pair_up [of pos "level (hash2 Hash) xs k"] p lw by simp
  have left: "CalcHash Hash (length xs) k (pos * 2) xs = level (hash2 Hash) xs k ! (2 * pos)"
    using Suc.IH [of "pos * 2"] l by (simp add: w_def mult.commute)
  show ?case
  proof (cases "pos * 2 + 1 < w")
    case True
    then have m: "min (2 * pos + 1) (w - 1) = pos * 2 + 1" by linarith
    have "CalcHash Hash (length xs) k (pos * 2 + 1) xs = level (hash2 Hash) xs k ! min (2 * pos + 1) (w - 1)"
      unfolding m using Suc.IH [of "pos * 2 + 1"] True by (simp add: w_def)
    then show ?thesis using True left n by (simp add: Let_def w_def)
  next
    case False
    then have "min (2 * pos + 1) (w - 1) = 2 * pos" using l by linarith
    then show ?thesis using False left n by (simp add: Let_def w_def)
  qed
qed simp

lemma width_one: "0 < n \<Longrightarrow> CalcTreeWidth n (tree_height n k) = 1 \<or> CalcTreeWidth n (tree_height n k) = 0"
  by (induction n k rule: tree_height.induct) (simp add: tree_height.simps less_Suc_eq not_less le_Suc_eq)

lemma width_pos: "0 < n \<Longrightarrow> 0 < CalcTreeWidth n k"
  by (simp add: CalcTreeWidth_def div_greater_zero_iff)

lemma width_top: "0 < n \<Longrightarrow> CalcTreeWidth n (tree_height n k) = 1"
  using width_one [of n k] width_pos [of n "tree_height n k"] by auto


section \<open>The flat tree\<close>

text \<open>The levels from \<open>k\<close> on, one after the other, up to the first of at most one node.\<close>

function flat_levels :: "(u256 \<Rightarrow> u256 \<Rightarrow> u256) \<Rightarrow> u256 list \<Rightarrow> u256 list" where
  "flat_levels h xs = xs @ (if length xs > 1 then flat_levels h (pair_up h xs) else [])"
  by auto
termination by (relation "measure (\<lambda>(h, xs). length xs)") auto

declare flat_levels.simps [simp del]

lemma build_level_pair_up:
  assumes "j + n \<le> length v" "n = length xs" "take n (drop j v) = xs"
  shows "build_level Hash v j n = pair_up (hash2 Hash) xs"
proof (rule nth_equalityI)
  show "length (build_level Hash v j n) = length (pair_up (hash2 Hash) xs)"
    using assms(2) by (simp add: build_level_def)
  fix k assume k: "k < length (build_level Hash v j n)"
  then have k2: "k < (n + 1) div 2" by (simp add: build_level_def)
  then have i: "2 * k < n" "min (2 * k + 1) (n - 1) < n" by auto
  have nth: "v ! (j + i) = xs ! i" if "i < n" for i
    using that assms(1,3) by (metis add_leD1 nth_drop nth_take)
  show "build_level Hash v j n ! k = pair_up (hash2 Hash) xs ! k"
    using k2 nth [OF i(1)] nth [OF i(2)] nth_pair_up [of k xs] assms(2) by (simp add: build_level_def Let_def)
qed

lemma build_loop_flat:
  assumes "drop j v = xs" "j + length xs = length v"
  shows "build_loop Hash v j (length xs) = take j v @ flat_levels (hash2 Hash) xs"
  using assms
proof (induction "length xs" arbitrary: v j xs rule: less_induct)
  case less
  have v: "v = take j v @ xs" using less.prems(1) by (metis append_take_drop_id)
  show ?case
  proof (cases "length xs > 1")
    case True
    define ys where "ys = pair_up (hash2 Hash) xs"
    have b: "build_level Hash v j (length xs) = ys"
      unfolding ys_def using less.prems by (intro build_level_pair_up) auto
    have len: "length ys = (length xs + 1) div 2" by (simp add: ys_def)
    have "build_loop Hash (v @ ys) (j + length xs) (length ys)
        = take (j + length xs) (v @ ys) @ flat_levels (hash2 Hash) ys"
      using True less.prems(2) by (intro less.hyps) (auto simp: len)
    moreover have "take (j + length xs) (v @ ys) = take j v @ xs"
      using less.prems(2) v by simp
    ultimately show ?thesis
      using True b by (simp add: build_loop.simps [of Hash v j] flat_levels.simps [of _ xs] len ys_def)
  next
    case False
    then show ?thesis using v by (simp add: build_loop.simps flat_levels.simps)
  qed
qed

lemma tree_flat: "fst (BuildMerkleTree Hash txids) = flat_levels (hash2 Hash) txids"
  using build_loop_flat [of 0 txids txids Hash] by (simp add: BuildMerkleTree_def Let_def)

text \<open>The root of a list of hashes, by halving.\<close>

function merkle_root :: "(u256 \<Rightarrow> u256 \<Rightarrow> u256) \<Rightarrow> u256 list \<Rightarrow> u256" where
  "merkle_root h xs = (if length xs > 1 then merkle_root h (pair_up h xs) else if xs = [] then 0 else hd xs)"
  by auto
termination by (relation "measure (\<lambda>(h, xs). length xs)") auto

declare merkle_root.simps [simp del]

lemma flat_levels_last: "xs \<noteq> [] \<Longrightarrow> flat_levels h xs \<noteq> [] \<and> last (flat_levels h xs) = merkle_root h xs"
proof (induction h xs rule: flat_levels.induct)
  case (1 h xs)
  show ?case
  proof (cases "length xs > 1")
    case True
    then have "pair_up h xs \<noteq> []" by auto
    then show ?thesis using 1 True by (simp add: flat_levels.simps [of h xs] merkle_root.simps [of h xs])
  next
    case False
    then have "length xs = 1" using 1 by (simp add: le_Suc_eq not_less)
    then obtain a where "xs = [a]" by (metis One_nat_def length_0_conv length_Suc_conv)
    then show ?thesis by (simp add: flat_levels.simps merkle_root.simps)
  qed
qed

lemma BuildMerkleTree_root: "snd (BuildMerkleTree Hash txids) = merkle_root (hash2 Hash) txids"
proof (cases "txids = []")
  case True
  then show ?thesis
    by (simp add: BuildMerkleTree_def build_loop.simps merkle_root.simps)
next
  case False
  then show ?thesis
    using tree_flat [of Hash txids] flat_levels_last [OF False, of "hash2 Hash"]
    by (simp add: BuildMerkleTree_def Let_def)
qed


section \<open>Branches\<close>

lemma xor_one_nat: "(n :: nat) XOR 1 = (if even n then n + 1 else n - 1)"
  using xor_one_eq [of n] by (cases "even n") (simp_all del: One_nat_def)

lemma branch_step:
  assumes "idx < length xs" "1 < length xs"
  shows "(if odd (int idx) then hash2 Hash (xs ! min (idx XOR 1) (length xs - 1)) (xs ! idx)
      else hash2 Hash (xs ! idx) (xs ! min (idx XOR 1) (length xs - 1)))
    = pair_up (hash2 Hash) xs ! (idx div 2)"
proof -
  have "idx div 2 < (length xs + 1) div 2" using assms(1) by linarith
  note nth_pair_up [OF this, of "hash2 Hash"]
  moreover have "even idx \<Longrightarrow> 2 * (idx div 2) = idx" "odd idx \<Longrightarrow> 2 * (idx div 2) + 1 = idx"
    by auto
  moreover have "odd idx \<Longrightarrow> min (idx - 1) (length xs - 1) = idx - 1 \<and> min idx (length xs - 1) = idx
      \<and> 2 * (idx div 2) = idx - 1"
    using assms(1) by auto
  ultimately show ?thesis unfolding xor_one_nat by (cases "even idx") auto
qed

lemma branch_complete:
  assumes "drop j tree = flat_levels (hash2 Hash) xs @ rest" "idx < length xs"
  shows "check_branch_loop Hash (xs ! idx) (branch_loop tree j (length xs) idx) (int idx)
    = merkle_root (hash2 Hash) xs"
  using assms
proof (induction "length xs" arbitrary: xs j idx rule: less_induct)
  case less
  show ?case
  proof (cases "length xs > 1")
    case True
    define ys where "ys = pair_up (hash2 Hash) xs"
    have len: "length ys = (length xs + 1) div 2" by (simp add: ys_def)
    have d: "drop j tree = xs @ flat_levels (hash2 Hash) ys @ rest"
      using less.prems(1) True by (simp add: flat_levels.simps [of _ xs] ys_def)
    have nth: "tree ! (j + i) = xs ! i" if "i < length xs" for i
    proof -
      have "j \<le> length tree" using d True by (metis append_is_Nil_conv drop_all length_0_conv linorder_le_cases not_one_less_zero)
      then have "tree ! (j + i) = drop j tree ! i" by simp
      then show ?thesis using d that by (simp add: nth_append)
    qed
    have "min (idx XOR 1) (length xs - 1) < length xs" using True by linarith
    then have o: "tree ! (j + min (idx XOR 1) (length xs - 1)) = xs ! min (idx XOR 1) (length xs - 1)"
      by (rule nth)
    have "drop (j + length xs) tree = flat_levels (hash2 Hash) ys @ rest"
      using d by (metis add.commute append_eq_conv_conj drop_drop)
    moreover have "length ys < length xs" "idx div 2 < length ys" using True less.prems(2) len by linarith+
    ultimately have "check_branch_loop Hash (ys ! (idx div 2)) (branch_loop tree (j + length xs) (length ys) (idx div 2))
        (int (idx div 2)) = merkle_root (hash2 Hash) ys"
      using less.hyps by blast
    then show ?thesis
      using True branch_step [OF less.prems(2) True, of Hash]
      by (simp add: branch_loop.simps [of tree j] merkle_root.simps [of _ xs] o len ys_def [symmetric] zdiv_int
          del: One_nat_def)
  next
    case False
    then have "length xs = 1" "idx = 0" using less.prems(2) by auto
    then show ?thesis by (auto simp: branch_loop.simps merkle_root.simps hd_conv_nth)
  qed
qed

text \<open>The pairs that are hashed on the way up.\<close>

fun path_inputs :: "(bytes \<Rightarrow> u256) \<Rightarrow> u256 \<Rightarrow> u256 list \<Rightarrow> int \<Rightarrow> (u256 \<times> u256) list" where
  "path_inputs Hash hash [] nIndex = []"
| "path_inputs Hash hash (otherside # branch) nIndex =
     (let p = (if odd nIndex then (otherside, hash) else (hash, otherside))
      in p # path_inputs Hash (hash2 Hash (fst p) (snd p)) branch (nIndex div 2))"

lemma branch_sound:
  assumes "length br1 = length br2" "check_branch_loop Hash h1 br1 i = check_branch_loop Hash h2 br2 i"
  shows "h1 = h2 \<and> br1 = br2 \<or> (\<exists>k < length br1.
    path_inputs Hash h1 br1 i ! k \<noteq> path_inputs Hash h2 br2 i ! k \<and>
    case_prod (hash2 Hash) (path_inputs Hash h1 br1 i ! k) = case_prod (hash2 Hash) (path_inputs Hash h2 br2 i ! k))"
  using assms
proof (induction br1 br2 arbitrary: h1 h2 i rule: list_induct2)
  case (Cons a as b bs)
  define p1 p2 where "p1 = (if odd i then (a, h1) else (h1, a))" and "p2 = (if odd i then (b, h2) else (h2, b))"
  define n1 n2 where "n1 = hash2 Hash (fst p1) (snd p1)" and "n2 = hash2 Hash (fst p2) (snd p2)"
  have "check_branch_loop Hash n1 as (i div 2) = check_branch_loop Hash n2 bs (i div 2)"
    using Cons.prems by (simp add: n1_def n2_def p1_def p2_def split: if_split_asm)
  note IH = Cons.IH [OF this]
  have q: "path_inputs Hash h1 (a # as) i = p1 # path_inputs Hash n1 as (i div 2)"
    "path_inputs Hash h2 (b # bs) i = p2 # path_inputs Hash n2 bs (i div 2)"
    by (simp_all add: Let_def p1_def p2_def n1_def n2_def)
  show ?case
  proof (cases "n1 = n2 \<and> as = bs")
    case True
    show ?thesis
    proof (cases "p1 = p2")
      case eq: True
      then show ?thesis using True by (auto simp: p1_def p2_def split: if_split_asm)
    next
      case False
      then show ?thesis using True unfolding q n1_def n2_def
        by (intro disjI2 exI [of _ 0]) (simp add: case_prod_beta)
    qed
  next
    case False
    then obtain k where "k < length as"
      "path_inputs Hash n1 as (i div 2) ! k \<noteq> path_inputs Hash n2 bs (i div 2) ! k \<and>
       case_prod (hash2 Hash) (path_inputs Hash n1 as (i div 2) ! k)
         = case_prod (hash2 Hash) (path_inputs Hash n2 bs (i div 2) ! k)"
      using IH by blast
    then show ?thesis unfolding q by (intro disjI2 exI [of _ "Suc k"]) simp
  qed
qed simp

lemma GetMerkleBranch_ok:
  assumes "idx < length txids"
  shows "CheckMerkleBranch Hash (txids ! idx) (GetMerkleBranch Hash txids idx) (int idx)
    = snd (BuildMerkleTree Hash txids)"
  using branch_complete [of 0 "fst (BuildMerkleTree Hash txids)" Hash txids "[]" idx] assms
  by (simp add: CheckMerkleBranch_def GetMerkleBranch_def tree_flat BuildMerkleTree_root)

section \<open>Extraction from a partial tree\<close>

lemma tree_height_root:
  assumes "xs \<noteq> []"
  shows "merkle_root h (level h xs k) = level h xs (tree_height (length xs) k) ! 0"
proof (induction "length xs" k rule: tree_height.induct)
  case (1 k)
  have l: "length (level h xs k) = CalcTreeWidth (length xs) k" by (rule length_level)
  show ?case
  proof (cases "CalcTreeWidth (length xs) k > 1")
    case True
    then show ?thesis
      using 1 l by (simp add: merkle_root.simps [of h "level h xs k"] tree_height.simps [of _ k])
  next
    case False
    moreover have "0 < CalcTreeWidth (length xs) k" using assms by (intro width_pos) simp
    ultimately have "level h xs k \<noteq> []" using l by auto
    then show ?thesis using False l
      by (simp add: merkle_root.simps tree_height.simps [of _ k] hd_conv_nth)
  qed
qed

lemma root_CalcHash:
  assumes "xs \<noteq> []"
  shows "CalcHash Hash (length xs) (tree_height (length xs) 0) 0 xs = snd (BuildMerkleTree Hash xs)"
  using CalcHash_level [of 0 xs "tree_height (length xs) 0" Hash] width_top [of "length xs" 0]
    tree_height_root [OF assms, of "hash2 Hash" 0] assms
  by (simp add: BuildMerkleTree_root)


definition matched :: "u256 list \<Rightarrow> bool list \<Rightarrow> nat \<Rightarrow> nat \<Rightarrow> u256 list" where
  "matched xs vMatch h pos =
     map (\<lambda>p. xs ! p) (filter (\<lambda>p. p < length xs \<and> vMatch ! p) [pos * 2 ^ h..<(pos + 1) * 2 ^ h])"

lemma width_le_iff: "CalcTreeWidth n h \<le> w \<longleftrightarrow> n \<le> w * 2 ^ h"
proof -
  define x where "x = (2 :: nat) ^ h"
  have x: "0 < x" by (simp add: x_def)
  have "CalcTreeWidth n h \<le> w \<longleftrightarrow> (n + x - 1) div x < Suc w" by (simp add: CalcTreeWidth_def x_def less_Suc_eq_le)
  also have "\<dots> \<longleftrightarrow> n + x - 1 < Suc w * x" by (rule div_less_iff_less_mult [OF x])
  also have "\<dots> \<longleftrightarrow> n \<le> w * x" using x by auto
  finally show ?thesis by (simp add: x_def)
qed

lemma parent_iff: "parent_of_match (length xs) h pos vMatch \<longleftrightarrow> matched xs vMatch h pos \<noteq> []"
  by (auto simp: parent_of_match_def matched_def list_ex_iff filter_empty_conv)

lemma range_split:
  "[pos * 2 ^ Suc h..<(pos + 1) * 2 ^ Suc h]
    = [(pos * 2) * 2 ^ h..<(pos * 2 + 1) * 2 ^ h] @ [(pos * 2 + 1) * 2 ^ h..<(pos * 2 + 1 + 1) * 2 ^ h]"
proof -
  define x where "x = (2 :: nat) ^ h"
  have "[pos * 2 * x..<pos * 2 * x + (x + x)] = [pos * 2 * x..<pos * 2 * x + x] @ [pos * 2 * x + x..<pos * 2 * x + x + x]"
    by (metis add.assoc le_add1 upt_add_eq_append)
  then show ?thesis by (simp add: x_def [symmetric] algebra_simps)
qed

lemma matched_Suc:
  "matched xs vMatch (Suc h) pos = matched xs vMatch h (pos * 2) @
    (if pos * 2 + 1 < CalcTreeWidth (length xs) h then matched xs vMatch h (pos * 2 + 1) else [])"
proof -
  have "matched xs vMatch h (pos * 2 + 1) = []" if "\<not> pos * 2 + 1 < CalcTreeWidth (length xs) h"
    using that width_le_iff [of "length xs" h "pos * 2 + 1"] by (auto simp: matched_def filter_empty_conv)
  then show ?thesis unfolding matched_def range_split by auto
qed

lemma extract_build:
  assumes "pos < CalcTreeWidth (length xs) h"
    "TraverseAndBuild Hash (length xs) xs vMatch h pos = (b, hs)" "pm_nTransactions t = length xs"
    "pm_vBits t = pre @ b @ post" "pm_vHash t = hpre @ hs @ hpost"
    "es_bits s = length pre" "es_hashes s = length hpre"
  shows "TraverseAndExtract Hash t h pos s = (CalcHash Hash (length xs) h pos xs,
    s\<lparr>es_bits := length pre + length b, es_hashes := length hpre + length hs,
      es_match := es_match s @ matched xs vMatch h pos\<rparr>)"
  using assms
proof (induction h arbitrary: pos b hs pre post hpre hpost s)
  case 0
  have n: "pos < length xs" using "0.prems"(1) by (simp add: CalcTreeWidth_def)
  have b: "b = [parent_of_match (length xs) 0 pos vMatch]" "hs = [xs ! pos]" using "0.prems"(2) by auto
  have m: "matched xs vMatch 0 pos = (if parent_of_match (length xs) 0 pos vMatch then [xs ! pos] else [])"
    using n by (simp add: matched_def parent_of_match_def)
  show ?case
    using "0.prems" by (simp add: TraverseAndExtract.simps [of Hash t 0] b m Let_def)
next
  case (Suc h)
  show ?case
  proof (cases "parent_of_match (length xs) (Suc h) pos vMatch")
    case False
    then have b: "b = [False]" "hs = [CalcHash Hash (length xs) (Suc h) pos xs]" using Suc.prems(2) by auto
    have "matched xs vMatch (Suc h) pos = []" using False parent_iff by blast
    then show ?thesis
      using Suc.prems by (simp add: TraverseAndExtract.simps [of Hash t "Suc h"] b Let_def del: CalcHash.simps)
  next
    case True
    define w where "w = CalcTreeWidth (length xs) h"
    obtain b1 h1 where l: "TraverseAndBuild Hash (length xs) xs vMatch h (pos * 2) = (b1, h1)" by fastforce
    obtain b2 h2 where r: "(if pos * 2 + 1 < w then TraverseAndBuild Hash (length xs) xs vMatch h (pos * 2 + 1)
        else ([], [])) = (b2, h2)" by fastforce
    have b: "b = True # b1 @ b2" "hs = h1 @ h2" using Suc.prems(2) True l r by (auto simp: w_def)
    have p: "pos * 2 < w"
      using Suc.prems(1) half_up [of "length xs" h] by (simp add: w_def [symmetric])
    define s0 where "s0 = s\<lparr>es_bits := es_bits s + 1\<rparr>"
    define s1 where "s1 = s0\<lparr>es_bits := length pre + 1 + length b1, es_hashes := length hpre + length h1,
      es_match := es_match s0 @ matched xs vMatch h (pos * 2)\<rparr>"
    have L: "TraverseAndExtract Hash t h (pos * 2) s0 = (CalcHash Hash (length xs) h (pos * 2) xs, s1)"
      using Suc.IH [of "pos * 2" b1 h1 "pre @ [True]" "b2 @ post" hpre "h2 @ hpost" s0] l p Suc.prems b
      by (simp add: w_def s0_def s1_def)
    have R: "TraverseAndExtract Hash t h (pos * 2 + 1) s1 = (CalcHash Hash (length xs) h (pos * 2 + 1) xs,
        s1\<lparr>es_bits := length pre + 1 + length b1 + length b2, es_hashes := length hpre + length h1 + length h2,
          es_match := es_match s1 @ matched xs vMatch h (pos * 2 + 1)\<rparr>)" if "pos * 2 + 1 < w"
      using Suc.IH [of "pos * 2 + 1" b2 h2 "pre @ [True] @ b1" post "hpre @ h1" hpost s1] r that Suc.prems b
      by (simp add: w_def s0_def s1_def)
    have step: "TraverseAndExtract Hash t (Suc h) pos s =
      (let (left, s) = TraverseAndExtract Hash t h (pos * 2) s0;
           (right, s) = (if pos * 2 + 1 < w then TraverseAndExtract Hash t h (pos * 2 + 1) s else (left, s))
       in (hash2 Hash left right, s))"
    proof -
      have bit: "\<not> es_bits s \<ge> length (pm_vBits t)" "pm_vBits t ! es_bits s"
        using Suc.prems(4,6) b by simp_all
      show ?thesis
        unfolding TraverseAndExtract.simps [of Hash t "Suc h" pos s] s0_def w_def
        using bit Suc.prems(3) by (simp add: Let_def cong: if_cong)
    qed
    show ?thesis
    proof (cases "pos * 2 + 1 < w")
      case T: True
      then show ?thesis unfolding step L
        using R by (simp add: Let_def b s1_def s0_def matched_Suc w_def)
    next
      case F: False
      then have "b2 = []" "h2 = []" using r by auto
      then show ?thesis unfolding step L
        using F by (simp add: Let_def b s1_def s0_def matched_Suc w_def)
    qed
  qed
qed


lemma build_sizes:
  assumes "pos < CalcTreeWidth (length xs) h"
    "TraverseAndBuild Hash (length xs) xs vMatch h pos = (b, hs)"
  shows "length hs + pos * 2 ^ h \<le> length xs \<and> length hs \<le> 2 ^ h \<and> length hs \<le> length b"
  using assms
proof (induction h arbitrary: pos b hs)
  case 0
  then show ?case by (auto simp: CalcTreeWidth_def)
next
  case (Suc h)
  define w x where "w = CalcTreeWidth (length xs) h" and "x = (2 :: nat) ^ h"
  have x: "0 < x" by (simp add: x_def)
  have lt: "pos * (2 * x) < length xs"
    using Suc.prems(1) width_le_iff [of "length xs" "Suc h" pos] by (simp add: x_def not_le [symmetric])
  show ?case
  proof (cases "parent_of_match (length xs) (Suc h) pos vMatch")
    case False
    then show ?thesis using Suc.prems(2) lt x by (auto simp: x_def)
  next
    case True
    obtain b1 h1 where l: "TraverseAndBuild Hash (length xs) xs vMatch h (pos * 2) = (b1, h1)" by fastforce
    obtain b2 h2 where r: "(if pos * 2 + 1 < w then TraverseAndBuild Hash (length xs) xs vMatch h (pos * 2 + 1)
        else ([], [])) = (b2, h2)" by fastforce
    have b: "b = True # b1 @ b2" "hs = h1 @ h2" using Suc.prems(2) True l r by (auto simp: w_def)
    have p: "pos * 2 < w" using Suc.prems(1) half_up [of "length xs" h] by (simp add: w_def [symmetric])
    have L: "length h1 + pos * 2 * x \<le> length xs \<and> length h1 \<le> x \<and> length h1 \<le> length b1"
      using Suc.IH [OF _ l] p by (simp add: w_def x_def)
    show ?thesis
    proof (cases "pos * 2 + 1 < w")
      case T: True
      then have "length h2 + (pos * 2 + 1) * x \<le> length xs \<and> length h2 \<le> x \<and> length h2 \<le> length b2"
        using Suc.IH [of "pos * 2 + 1" b2 h2] r by (simp add: w_def x_def)
      then show ?thesis using L by (simp add: b x_def [symmetric] algebra_simps)
    next
      case False
      then have "b2 = []" "h2 = []" using r by auto
      then show ?thesis using L by (simp add: b x_def [symmetric] algebra_simps)
    qed
  qed
qed

lemma bits_of_byte: "n < 8 \<Longrightarrow> bit (horner_sum of_bool 2 bs :: byte) n \<longleftrightarrow> n < length bs \<and> bs ! n"
  by (simp add: bit_horner_sum_bit_iff)

lemma unpack_pack:
  "\<exists>k. k < 8 \<and> unpack_bits (pack_bits vBits) = vBits @ replicate k False"
proof -
  define n m where "n = length vBits" and "m = (n + 7) div 8"
  have m: "n \<le> 8 * m" "8 * m < n + 8" by (simp_all add: m_def)
  have "unpack_bits (pack_bits vBits) = vBits @ replicate (8 * m - n) False"
  proof (rule nth_equalityI)
    show "length (unpack_bits (pack_bits vBits)) = length (vBits @ replicate (8 * m - n) False)"
      using m by (simp add: unpack_bits_def pack_bits_def n_def [symmetric] m_def [symmetric])
    fix i assume "i < length (unpack_bits (pack_bits vBits))"
    then have i: "i < m * 8" by (simp add: unpack_bits_def pack_bits_def n_def [symmetric] m_def [symmetric])
    then have d: "i div 8 < m" by (simp add: div_less_iff_less_mult)
    have r: "i mod 8 < 8" "8 * (i div 8) + i mod 8 = i" by simp_all
    have "unpack_bits (pack_bits vBits) ! i
        = bit (horner_sum of_bool 2 (take 8 (drop (8 * (i div 8)) vBits)) :: byte) (i mod 8)"
      using i d by (simp add: unpack_bits_def pack_bits_def n_def [symmetric] m_def [symmetric])
    also have "\<dots> \<longleftrightarrow> i < n \<and> vBits ! i"
    proof -
      have "i mod 8 < length (take 8 (drop (8 * (i div 8)) vBits)) \<longleftrightarrow> i < n"
        unfolding n_def length_take length_drop using r by linarith
      moreover have "i < n \<Longrightarrow> take 8 (drop (8 * (i div 8)) vBits) ! (i mod 8) = vBits ! i"
        using r by (simp add: n_def)
      ultimately show ?thesis unfolding bits_of_byte [OF r(1)] by blast
    qed
    also have "\<dots> \<longleftrightarrow> (vBits @ replicate (8 * m - n) False) ! i"
      using i m by (auto simp: nth_append n_def)
    finally show "unpack_bits (pack_bits vBits) ! i = (vBits @ replicate (8 * m - n) False) ! i" .
  qed
  moreover have "8 * m - n < 8" using m by linarith
  ultimately show ?thesis by blast
qed

section \<open>Properties\<close>

text \<open>The branch that \<open>GetMerkleBranch\<close> extracts for a transaction of a block leads with
  \<open>CheckMerkleBranch\<close> from the transaction's hash to the block's Merkle root, for every
  number of transactions and every position.\<close>

theorem merkle_branch_complete:
  assumes "nIndex < length txids"
  shows "CheckMerkleBranch Hash (txids ! nIndex) (GetMerkleBranch Hash txids nIndex) (int nIndex)
    = snd (BuildMerkleTree Hash txids)"
  by (rule GetMerkleBranch_ok [OF assms])

theorem merkle_branch_complete_witness:
  "CheckMerkleBranch le_word ([10, 20, 30 :: u256] ! 2) (GetMerkleBranch le_word [10, 20, 30] 2) (int 2)
    = snd (BuildMerkleTree le_word [10, 20, 30])"
  by (rule merkle_branch_complete) simp

text \<open>C20: A branch of the right length that leads to the Merkle root proves membership: either
  the hash it starts from is the transaction's and the branch is the genuine one, or at some
  level of the two paths two different pairs of nodes have the same hash, which is a collision
  of the hash function that can be read off the two paths.\<close>

theorem merkle_branch_sound:
  assumes "nIndex < length txids" "length branch = length (GetMerkleBranch Hash txids nIndex)"
    "CheckMerkleBranch Hash hash branch (int nIndex) = snd (BuildMerkleTree Hash txids)"
  shows "hash = txids ! nIndex \<and> branch = GetMerkleBranch Hash txids nIndex
    \<or> (\<exists>k < length branch.
        path_inputs Hash hash branch (int nIndex) ! k
          \<noteq> path_inputs Hash (txids ! nIndex) (GetMerkleBranch Hash txids nIndex) (int nIndex) ! k \<and>
        case_prod (hash2 Hash) (path_inputs Hash hash branch (int nIndex) ! k)
          = case_prod (hash2 Hash) (path_inputs Hash (txids ! nIndex) (GetMerkleBranch Hash txids nIndex) (int nIndex) ! k))"
  using branch_sound [OF assms(2), of Hash hash "int nIndex" "txids ! nIndex"] GetMerkleBranch_ok [OF assms(1), of Hash]
    assms(3)
  by (simp add: CheckMerkleBranch_def)

text \<open>A hash for the witnesses: the sum of the two 32-byte halves.\<close>

definition sum_hash :: "bytes \<Rightarrow> u256" where
  "sum_hash bs = le_word (take 32 bs) + 3 * le_word (drop 32 bs)"

theorem merkle_branch_sound_witness:
  "(10 :: u256) = [10, 20] ! 0 \<and> [20] = GetMerkleBranch sum_hash [10, 20] 0
    \<or> (\<exists>k < length [20 :: u256].
        path_inputs sum_hash 10 [20] (int 0) ! k
          \<noteq> path_inputs sum_hash ([10, 20] ! 0) (GetMerkleBranch sum_hash [10, 20] 0) (int 0) ! k \<and>
        case_prod (hash2 sum_hash) (path_inputs sum_hash 10 [20] (int 0) ! k)
          = case_prod (hash2 sum_hash) (path_inputs sum_hash ([10, 20] ! 0) (GetMerkleBranch sum_hash [10, 20] 0) (int 0) ! k))"
proof (rule merkle_branch_sound)
  have b: "GetMerkleBranch sum_hash [10, 20] 0 = [20]"
    by (simp add: GetMerkleBranch_def BuildMerkleTree_def Let_def build_loop.simps branch_loop.simps
        build_level_def)
  show "0 < length [10, 20 :: u256]" by simp
  show "length [20 :: u256] = length (GetMerkleBranch sum_hash [10, 20] 0)" by (simp add: b)
  show "CheckMerkleBranch sum_hash 10 [20] (int 0) = snd (BuildMerkleTree sum_hash [10, 20])"
    using GetMerkleBranch_ok [of 0 "[10, 20]" sum_hash] b by simp
qed

text \<open>C28: Round trip of the proof sent to a light client: from the partial tree built for any
  selection of a block's transactions, also after its bits were padded to whole bytes on the
  wire, \<open>ExtractMatches\<close> recovers the block's Merkle root and exactly the selected
  transaction hashes in block order. None of its checks rejects an honest tree.\<close>

theorem partial_tree_roundtrip:
  assumes "txids \<noteq> []" "length txids \<le> 16666"
  shows "ExtractMatches Hash (MakePartialMerkleTree Hash txids vMatch
      \<lparr>pm_vBits := unpack_bits (pack_bits (pm_vBits (MakePartialMerkleTree Hash txids vMatch)))\<rparr>)
    = (snd (BuildMerkleTree Hash txids),
       map (\<lambda>p. txids ! p) (filter (\<lambda>p. vMatch ! p) [0..<length txids]))"
proof -
  define n H where "n = length txids" and "H = tree_height (length txids) 0"
  obtain b hs where bh: "TraverseAndBuild Hash n txids vMatch H 0 = (b, hs)" by fastforce
  have w: "CalcTreeWidth n H = 1" using width_top assms(1) by (simp add: n_def H_def)
  obtain pad where pad: "pad < 8" "unpack_bits (pack_bits b) = b @ replicate (pad) False"
    using unpack_pack by blast
  define t where "t = \<lparr> pm_nTransactions = n, pm_vBits = b @ replicate (pad) False, pm_vHash = hs, pm_fBad = False \<rparr>"
  have t: "MakePartialMerkleTree Hash txids vMatch
      \<lparr>pm_vBits := unpack_bits (pack_bits (pm_vBits (MakePartialMerkleTree Hash txids vMatch)))\<rparr> = t"
    using bh pad(2) by (simp add: MakePartialMerkleTree_def Let_def n_def H_def t_def)
  have sz: "length hs \<le> n" "length hs \<le> length b"
    using build_sizes [of 0 txids H Hash vMatch b hs] bh w by (simp_all add: n_def)
  have unpacked: "length (unpack_bits (pack_bits b)) = ((length b + 7) div 8) * 8"
    by (simp add: unpack_bits_def pack_bits_def)
  have tot: "length b + pad = ((length b + 7) div 8) * 8" using unpacked pad(2) by simp
  have bytes: "(length b + pad + 7) div 8 = (length b + 7) div 8" unfolding tot by simp
  have X: "TraverseAndExtract Hash t H 0 \<lparr> es_bits = 0, es_hashes = 0, es_match = [], es_bad = False \<rparr>
      = (CalcHash Hash n H 0 txids,
         \<lparr> es_bits = length b, es_hashes = length hs, es_match = matched txids vMatch H 0, es_bad = False \<rparr>)"
    using extract_build [of 0 txids H Hash vMatch b hs t "[]" "replicate (pad) False" "[]" "[]"
        "\<lparr> es_bits = 0, es_hashes = 0, es_match = [], es_bad = False \<rparr>"] bh w
    by (simp add: n_def t_def)
  have root: "CalcHash Hash n H 0 txids = snd (BuildMerkleTree Hash txids)"
    using root_CalcHash [OF assms(1)] by (simp add: n_def H_def)
  have "n \<le> 2 ^ H" using width_le_iff [of n H 1] w by simp
  then have "[0..<2 ^ H] = [0..<n] @ [n..<2 ^ H]" by (metis le_add_diff_inverse upt_add_eq_append zero_le)
  then have m: "matched txids vMatch H 0 = map (\<lambda>p. txids ! p) (filter (\<lambda>p. vMatch ! p) [0..<n])"
    by (auto simp: matched_def n_def [symmetric] intro!: arg_cong [where f = "map _"] filter_cong)
  show ?thesis
    unfolding t using assms sz X root m bytes
    by (simp add: ExtractMatches_def t_def Let_def n_def H_def)
qed

theorem partial_tree_roundtrip_witness:
  "ExtractMatches le_word (MakePartialMerkleTree le_word [10, 20, 30] [False, True, False]
      \<lparr>pm_vBits := unpack_bits (pack_bits (pm_vBits (MakePartialMerkleTree le_word [10, 20, 30] [False, True, False])))\<rparr>)
    = (snd (BuildMerkleTree le_word [10, 20, 30]), [20])"
  using partial_tree_roundtrip [of "[10, 20, 30]" le_word "[False, True, False]"]
  by (simp add: upt_rec)

end
