(* ===== verification/Pow.thy ===== *)
theory Pow imports Main Prelude Compact Header begin

text \<open>
  Proof-of-work targets: the network parameters of \<open>src/src/chainparams.h\<close> and
  \<open>src/src/chainparams.cpp\<close>, the weights of the eight algorithms, \<open>CheckProofOfWork\<close> of
  \<open>src/src/pow.cpp\<close> and \<open>ComputeMinWork\<close> of \<open>src/src/main.cpp\<close>. The division of big
  numbers truncates toward zero, as OpenSSL's does.
\<close>

section \<open>Network parameters\<close>

datatype Network = MAIN | TESTNET | REGTEST

datatype Base58Type = PUBKEY_ADDRESS | SCRIPT_ADDRESS | SECRET_KEY | EXT_PUBLIC_KEY | EXT_SECRET_KEY

record CChainParams =
  p_networkID :: Network
  p_pchMessageStart :: bytes
  p_nDefaultPort :: nat
  p_bnProofOfWorkLimit :: bignum
  p_nSubsidyHalvingInterval :: int
  p_fStrictChainId :: bool
  p_nAuxpowChainId :: int
  p_nEquihashN :: nat
  p_nEquihashK :: nat
  p_fMineBlocksOnDemand :: bool
  p_base58Prefixes :: "Base58Type \<Rightarrow> bytes"

text \<open>\<open>~uint256(0) >> k\<close> is \<open>2^(256-k) - 1\<close>. The prefix 258 of the test network is stored
  in a byte and becomes 2.\<close>

definition mainParams :: CChainParams where
  "mainParams =
     \<lparr> p_networkID = MAIN, p_pchMessageStart = [0xf9, 0xbe, 0xb4, 0xd9], p_nDefaultPort = 9265,
       p_bnProofOfWorkLimit = 2 ^ 224 - 1, p_nSubsidyHalvingInterval = 788000,
       p_fStrictChainId = True, p_nAuxpowChainId = 0x5B, p_nEquihashN = 200, p_nEquihashK = 9,
       p_fMineBlocksOnDemand = False,
       p_base58Prefixes = (\<lambda>t. case t of PUBKEY_ADDRESS \<Rightarrow> [85] | SCRIPT_ADDRESS \<Rightarrow> [5]
         | SECRET_KEY \<Rightarrow> [213] | EXT_PUBLIC_KEY \<Rightarrow> [0x04, 0x88, 0xB2, 0x1E]
         | EXT_SECRET_KEY \<Rightarrow> [0x04, 0x88, 0xAD, 0xE4]) \<rparr>"

definition testNetParams :: CChainParams where
  "testNetParams = mainParams
     \<lparr> p_networkID := TESTNET, p_pchMessageStart := [0x0b, 0x11, 0x09, 0x07], p_nDefaultPort := 19265,
       p_bnProofOfWorkLimit := 2 ^ 248 - 1,
       p_base58Prefixes := (\<lambda>t. case t of PUBKEY_ADDRESS \<Rightarrow> [130] | SCRIPT_ADDRESS \<Rightarrow> [196]
         | SECRET_KEY \<Rightarrow> [258] | EXT_PUBLIC_KEY \<Rightarrow> [0x04, 0x35, 0x87, 0xCF]
         | EXT_SECRET_KEY \<Rightarrow> [0x04, 0x35, 0x83, 0x94]) \<rparr>"

definition regTestParams :: CChainParams where
  "regTestParams = testNetParams
     \<lparr> p_networkID := REGTEST, p_pchMessageStart := [0xfa, 0xbf, 0xb5, 0xda],
       p_nSubsidyHalvingInterval := 300, p_bnProofOfWorkLimit := 2 ^ 255 - 1,
       p_nDefaultPort := 18444, p_fMineBlocksOnDemand := True \<rparr>"

definition SelectParams :: "Network \<Rightarrow> CChainParams" where
  "SelectParams network = (case network of MAIN \<Rightarrow> mainParams | TESTNET \<Rightarrow> testNetParams | REGTEST \<Rightarrow> regTestParams)"

text \<open>None when both networks are asked for.\<close>

definition SelectParamsFromCommandLine :: "bool \<Rightarrow> bool \<Rightarrow> CChainParams option" where
  "SelectParamsFromCommandLine fRegTest fTestNet =
     (if fTestNet \<and> fRegTest then None
      else if fRegTest then Some (SelectParams REGTEST)
      else if fTestNet then Some (SelectParams TESTNET)
      else Some (SelectParams MAIN))"

definition SubsidyInterimInterval :: "CChainParams \<Rightarrow> int" where
  "SubsidyInterimInterval p = p_nSubsidyHalvingInterval p sdiv 2"

definition TestNet :: "CChainParams \<Rightarrow> bool" where "TestNet p \<longleftrightarrow> p_networkID p = TESTNET"
definition RegTest :: "CChainParams \<Rightarrow> bool" where "RegTest p \<longleftrightarrow> p_networkID p = REGTEST"

section \<open>Weights and the proof-of-work check\<close>

definition GetAlgoWeight :: "int \<Rightarrow> int" where
  "GetAlgoWeight algo =
     (if algo = ALGO_SHA256D then 1
      else if algo = ALGO_ARGON2 then 4000000
      else if algo = ALGO_EQUIHASH then 8000000
      else if algo = ALGO_CRYPTONIGHT then 8000000
      else if algo = ALGO_YESCRYPT then 800000
      else 8000)"

definition CheckProofOfWork :: "(bignum \<Rightarrow> bytes) \<Rightarrow> CChainParams \<Rightarrow> u256 \<Rightarrow> u32 \<Rightarrow> int \<Rightarrow> bool" where
  "CheckProofOfWork bn2mpi p hash nBits algo =
     (let bnTarget = SetCompact nBits in
      if bnTarget \<le> 0 \<or> bnTarget > p_bnProofOfWorkLimit p * GetAlgoWeight algo then False
      else if hash > getuint256 bn2mpi bnTarget then False
      else True)"

definition nTargetTimespan :: int where "nTargetTimespan = 24 * 60 * 60"
definition nTargetSpacing :: int where "nTargetSpacing = 2 * 60"
definition nInterval :: int where "nInterval = nTargetTimespan div nTargetSpacing"
definition DGWtimespan :: int where "DGWtimespan = 960"

function min_work_loop :: "bignum \<Rightarrow> bignum \<Rightarrow> int \<Rightarrow> bignum" where
  "min_work_loop bnLimit bnResult nTime =
     (if nTime > 0 \<and> bnResult < bnLimit
      then min_work_loop bnLimit (bnResult * 4) (nTime - nTargetTimespan * 4)
      else bnResult)"
  by auto
termination by (relation "measure (\<lambda>(_, _, t). nat t)") (auto simp: nTargetTimespan_def)

declare min_work_loop.simps [simp del]

definition ComputeMinWork :: "CChainParams \<Rightarrow> u32 \<Rightarrow> int \<Rightarrow> u32" where
  "ComputeMinWork p nBase nTime =
     (let bnLimit = p_bnProofOfWorkLimit p in
      if TestNet p \<and> nTime > nTargetSpacing * 2 then GetCompact bnLimit
      else
        let bnResult = min_work_loop bnLimit (SetCompact nBase) nTime;
            bnResult = (if bnResult > bnLimit then bnLimit else bnResult)
        in GetCompact bnResult)"

section \<open>Work\<close>

text \<open>\<open>GetBlockWork\<close> of the two big number types: the expected number of hashes, weighted by
  the algorithm of the version word.\<close>

definition GetAlgo :: "u32 \<Rightarrow> int" where
  "GetAlgo nVersion =
     (let v = nVersion AND BLOCK_VERSION_ALGO in
      if v = 0x200 then ALGO_SHA256D
      else if v = 0 then ALGO_SCRYPT
      else if v = 0x600 then ALGO_ARGON2
      else if v = 0x800 then ALGO_X17
      else if v = 0xA00 then ALGO_LYRA2REv2
      else if v = 0xC00 then ALGO_EQUIHASH
      else if v = 0xE00 then ALGO_CRYPTONIGHT
      else if v = 0x400 then ALGO_YESCRYPT
      else ALGO_SCRYPT)"

definition block_work :: "bignum \<Rightarrow> int \<Rightarrow> bignum" where
  "block_work bnTarget algo =
     (if bnTarget \<le> 0 then 0 else 2 ^ 256 sdiv (bnTarget sdiv GetAlgoWeight algo + 1))"

definition GetAlgoName :: "int \<Rightarrow> string" where
  "GetAlgoName algo =
     (if algo = 0 then ''SCRYPT'' else if algo = 1 then ''SHA256D'' else if algo = 2 then ''YESCRYPT''
      else if algo = 3 then ''ARGON2'' else if algo = 4 then ''X17'' else if algo = 5 then ''LYRA2REv2''
      else if algo = 6 then ''EQUIHASH'' else if algo = 7 then ''CRYPTONIGHT'' else ''SCRYPT'')"


section \<open>Lemmas\<close>

lemma weight_pos: "0 < GetAlgoWeight algo" by (simp add: GetAlgoWeight_def)

lemma weight_le: "GetAlgoWeight algo \<le> 8000000" by (simp add: GetAlgoWeight_def)

lemma limit_pos: "0 < p_bnProofOfWorkLimit (SelectParams n)"
  by (cases n) (simp_all add: SelectParams_def mainParams_def testNetParams_def regTestParams_def)

lemma min_work_done: "bnLimit \<le> b \<Longrightarrow> min_work_loop bnLimit b t = b"
  by (subst min_work_loop.simps) simp

text \<open>The number of rounds that the time allows.\<close>

definition rounds :: "int \<Rightarrow> nat" where
  "rounds nTime = nat ((nTime + (nTargetTimespan * 4 - 1)) div (nTargetTimespan * 4))"

lemma rounds_step:
  assumes "0 < nTime"
  shows "rounds nTime = Suc (rounds (nTime - nTargetTimespan * 4))"
proof -
  define T where "T = nTargetTimespan * 4"
  have T: "T = 345600" by (simp add: T_def nTargetTimespan_def)
  define y where "y = (nTime + (T - 1)) div T"
  have "nTime - T + (T - 1) = nTime + (T - 1) + (- 1) * T" by simp
  then have "(nTime - T + (T - 1)) div T = y - 1"
    unfolding y_def by (simp only: div_mult_self1) (simp add: T)
  moreover have "0 < y" unfolding y_def using assms by (simp add: pos_imp_zdiv_pos_iff T)
  ultimately show ?thesis by (simp add: rounds_def T_def [symmetric] y_def [symmetric])
qed

lemma rounds_0: "nTime \<le> 0 \<Longrightarrow> rounds nTime = 0"
  by (simp add: rounds_def nTargetTimespan_def)

lemma min_work_loop_eq:
  assumes "0 < b"
  shows "min bnLimit (min_work_loop bnLimit b nTime) = min bnLimit (b * 4 ^ rounds nTime)"
  using assms
proof (induction bnLimit b nTime rule: min_work_loop.induct)
  case (1 bnLimit b nTime)
  show ?case
  proof (cases "nTime > 0 \<and> b < bnLimit")
    case True
    then show ?thesis
      using 1 by (subst min_work_loop.simps) (simp add: rounds_step mult.assoc)
  next
    case False
    have "b \<le> b * 4 ^ k" for k using 1(2) by simp
    then show ?thesis using False
      by (subst min_work_loop.simps) (auto simp: rounds_0 not_less min_def intro: order_trans)
  qed
qed

lemma sdiv_pos: "0 < (b :: int) \<Longrightarrow> 0 \<le> a \<Longrightarrow> a sdiv b = a div b"
  by (simp add: sdiv_nonneg)

lemma block_work_eq:
  "0 < T \<Longrightarrow> block_work T algo = 2 ^ 256 div (T div GetAlgoWeight algo + 1)"
  using weight_pos [of algo] by (simp add: block_work_def sdiv_pos pos_imp_zdiv_nonneg_iff add_nonneg_pos)

lemma block_work_mono:
  assumes "0 < T" "T \<le> T'"
  shows "block_work T' algo \<le> block_work T algo"
proof -
  have "T div GetAlgoWeight algo \<le> T' div GetAlgoWeight algo" using assms weight_pos by (intro zdiv_mono1) auto
  moreover have "0 \<le> T div GetAlgoWeight algo" using assms weight_pos by (simp add: pos_imp_zdiv_nonneg_iff)
  ultimately show ?thesis unfolding block_work_eq [OF assms(1)] block_work_eq [OF order_less_le_trans [OF assms]]
    by (intro zdiv_mono2) auto
qed

lemma target_fits:
  assumes "0 < T" "T \<le> (2 ^ 224 - 1) * GetAlgoWeight algo"
  shows "nat T < 2 ^ 256"
proof -
  have "(2 ^ 224 - 1) * GetAlgoWeight algo \<le> (2 ^ 224 - 1 :: int) * 8000000"
    by (intro mult_left_mono weight_le) simp
  also have "\<dots> < 2 ^ 256" by simp
  finally have "T < int (2 ^ 256)" using assms(2) by (simp only: of_nat_power of_nat_numeral)
  then show ?thesis using assms(1) by (simp only: nat_less_iff [OF less_imp_le])
qed

lemma main_limit: "p_bnProofOfWorkLimit mainParams = 2 ^ 224 - 1"
  by (simp add: mainParams_def)

section \<open>Properties\<close>

text \<open>C37: \<open>CheckProofOfWork\<close> on the main network accepts exactly the hashes at or below the
  target of \<open>nBits\<close>, read as integers, for targets that are positive and within the weighted
  limit of the algorithm: the conversion of the target to 256 bits never loses anything.\<close>

theorem CheckProofOfWork_spec:
  assumes "mpi_format bn2mpi"
  shows "CheckProofOfWork bn2mpi mainParams hash nBits algo \<longleftrightarrow>
    0 < SetCompact nBits \<and> SetCompact nBits \<le> (2 ^ 224 - 1) * GetAlgoWeight algo \<and> uint hash \<le> SetCompact nBits"
proof -
  define T L where "T = SetCompact nBits" and "L = (2 ^ 224 - 1) * GetAlgoWeight algo"
  have gen: "(if t \<le> 0 \<or> l < t then False else if B then False else True) \<longleftrightarrow> 0 < t \<and> t \<le> l \<and> \<not> B"
    for t l :: int and B by auto
  have code: "CheckProofOfWork bn2mpi mainParams hash nBits algo \<longleftrightarrow>
      0 < T \<and> T \<le> L \<and> \<not> getuint256 bn2mpi T < hash"
    unfolding CheckProofOfWork_def Let_def main_limit T_def [symmetric] L_def [symmetric]
    by (rule gen)
  have "uint hash \<le> T \<longleftrightarrow> \<not> getuint256 bn2mpi T < hash" if "0 < T" "T \<le> L"
  proof -
    have "unat (getuint256 bn2mpi T) = nat T"
      unfolding getuint256_value [OF assms] abs_of_pos [OF that(1)]
      by (rule mod_less [OF target_fits [OF that [unfolded L_def]]])
    then have "int (unat (getuint256 bn2mpi T)) = T" using that(1) by (simp only: nat_0_le less_imp_le)
    then show ?thesis by (simp only: uint_nat word_less_def not_less)
  qed
  then show ?thesis unfolding code T_def [symmetric] L_def [symmetric] by blast
qed

theorem CheckProofOfWork_spec_witness:
  "CheckProofOfWork bn2mpi_doc mainParams 7 0x03000007 ALGO_SHA256D"
  using CheckProofOfWork_spec [OF mpi_format_doc, of 7 "0x03000007" ALGO_SHA256D]
  by (simp add: SetCompact_def Let_def BN_set_negative_def GetAlgoWeight_def)

text \<open>\<open>ComputeMinWork\<close>, the bound on the difficulty that a checkpointed peer can claim
  after a time, ends for every input and gives the base target times four for every started
  four days, cut at the limit of the network.\<close>

theorem ComputeMinWork_closed:
  assumes "0 < SetCompact nBase" "\<not> TestNet p"
  shows "ComputeMinWork p nBase nTime
    = GetCompact (min (p_bnProofOfWorkLimit p)
        (SetCompact nBase * 4 ^ nat ((nTime + (nTargetTimespan * 4 - 1)) div (nTargetTimespan * 4))))"
proof -
  have "(if min_work_loop l b t > l then l else min_work_loop l b t) = min l (min_work_loop l b t)" for l b t
    by simp
  then show ?thesis
    using assms min_work_loop_eq [OF assms(1), of "p_bnProofOfWorkLimit p" nTime]
    by (simp add: ComputeMinWork_def Let_def rounds_def)
qed

theorem ComputeMinWork_closed_witness:
  "ComputeMinWork mainParams 0x1b00ffff 345601 = GetCompact (0xffff * 2 ^ 192 * 4 ^ 2)"
  using ComputeMinWork_closed [of "0x1b00ffff" mainParams 345601]
  by (simp add: SetCompact_def Let_def BN_set_negative_def TestNet_def mainParams_def nTargetTimespan_def)

end
