(* ===== verification/AuxPow.thy ===== *)
theory AuxPow imports Main Prelude Pow Tx Merkle begin

text \<open>
  Merge mining: \<open>CMerkleTx\<close>, \<open>CAuxPow\<close>, \<open>CBlockHeader\<close> and \<open>CBlock\<close> of \<open>src/src/core.h\<close>,
  \<open>CAuxPow::check\<close>, \<open>getExpectedIndex\<close> and \<open>CheckAuxPowProofOfWork\<close> of
  \<open>src/src/core.cpp\<close>. The derived classes hold their base as a field. The hash functions and
  the check of Equihash solutions are parameters.
\<close>

section \<open>Data\<close>

record CMerkleTx =
  m_tx :: CTransaction
  m_hashBlock :: u256
  m_vMerkleBranch :: "u256 list"
  m_nIndex :: u32
  m_fMerkleVerified :: bool

record CAuxPow =
  a_merkle :: CMerkleTx
  a_vChainMerkleBranch :: "u256 list"
  a_nChainIndex :: u32
  a_parentBlock :: CPureBlockHeader

record CBlockHeader =
  bh_pure :: CPureBlockHeader
  bh_auxpow :: "CAuxPow option"

record CBlock =
  bk_header :: CBlockHeader
  bk_vtx :: "CTransaction list"
  bk_vMerkleTree :: "u256 list"

definition merkletx_Init :: "CTransaction \<Rightarrow> CMerkleTx" where
  "merkletx_Init tx = \<lparr> m_tx = tx, m_hashBlock = 0, m_vMerkleBranch = [], m_nIndex = - 1, m_fMerkleVerified = False \<rparr>"

text \<open>The constructor of \<open>CAuxPow\<close> leaves \<open>nChainIndex\<close> uninitialised: its value is an
  argument.\<close>

definition auxpow_new :: "u32 \<Rightarrow> CTransaction \<Rightarrow> CAuxPow" where
  "auxpow_new nChainIndex tx =
     \<lparr> a_merkle = merkletx_Init tx, a_vChainMerkleBranch = [], a_nChainIndex = nChainIndex,
       a_parentBlock = header_SetNull\<lparr>h_isParent := True\<rparr> \<rparr>"

text \<open>Every member that handles the proof of a header first gives it the flags that belong to
  the header's algorithm.\<close>

definition auxpow_flags :: "int \<Rightarrow> CAuxPow \<Rightarrow> CAuxPow" where
  "auxpow_flags algo a =
     (let a = a\<lparr>a_parentBlock := (a_parentBlock a)\<lparr>h_isParent := True, h_algoParent := algo\<rparr>\<rparr>;
          a = (if algo = ALGO_EQUIHASH \<or> algo = ALGO_CRYPTONIGHT
               then a\<lparr>a_merkle := (a_merkle a)\<lparr>m_tx := (m_tx (a_merkle a))\<lparr>tx_vector_format := True\<rparr>\<rparr>\<rparr> else a)
      in if algo = ALGO_CRYPTONIGHT
         then a\<lparr>a_parentBlock := (a_parentBlock a)\<lparr>h_vector_format := True\<rparr>,
                a_merkle := (a_merkle a)\<lparr>m_tx := (m_tx (a_merkle a))\<lparr>tx_keccak_hash := True\<rparr>\<rparr>\<rparr>
         else a)"

definition blockheader_SetNull :: CBlockHeader where
  "blockheader_SetNull = \<lparr> bh_pure = header_SetNull, bh_auxpow = None \<rparr>"

definition blockheader_SetAuxpow :: "CAuxPow option \<Rightarrow> CBlockHeader \<Rightarrow> CBlockHeader" where
  "blockheader_SetAuxpow apow h =
     (case apow of
        Some a \<Rightarrow> \<lparr> bh_pure = SetAuxpow True (bh_pure h), bh_auxpow = Some (auxpow_flags (header_GetAlgo (bh_pure h)) a) \<rparr>
      | None \<Rightarrow> \<lparr> bh_pure = SetAuxpow False (bh_pure h), bh_auxpow = None \<rparr>)"

definition block_SetNull :: CBlock where
  "block_SetNull = \<lparr> bk_header = blockheader_SetNull, bk_vtx = [], bk_vMerkleTree = [] \<rparr>"

section \<open>Wire format\<close>

definition ser_merkletx :: "CMerkleTx \<Rightarrow> bytes" where
  "ser_merkletx m = ser_tx (m_tx m) @ WRITEDATA (m_hashBlock m) @
     ser_vec WRITEDATA (m_vMerkleBranch m) @ WRITEDATA (m_nIndex m)"

definition unser_merkletx :: "tx_hashes \<Rightarrow> CMerkleTx \<Rightarrow> CMerkleTx reader" where
  "unser_merkletx hs m =
     rd_bind (unser_tx hs (m_tx m)) (\<lambda>tx. rd_bind READDATA (\<lambda>hb.
     rd_bind (unser_vec 32 READDATA) (\<lambda>br. rd_bind READDATA (\<lambda>i.
     rd_return (m\<lparr>m_tx := tx, m_hashBlock := hb, m_vMerkleBranch := br, m_nIndex := i\<rparr>)))))"

definition ser_auxpow :: "CAuxPow \<Rightarrow> bytes" where
  "ser_auxpow a = ser_merkletx (a_merkle a) @ ser_vec WRITEDATA (a_vChainMerkleBranch a) @
     WRITEDATA (a_nChainIndex a) @ ser_header (a_parentBlock a)"

definition unser_auxpow :: "tx_hashes \<Rightarrow> CAuxPow \<Rightarrow> CAuxPow reader" where
  "unser_auxpow hs a =
     rd_bind (unser_merkletx hs (a_merkle a)) (\<lambda>m. rd_bind (unser_vec 32 READDATA) (\<lambda>br.
     rd_bind READDATA (\<lambda>i. rd_bind (unser_header (a_parentBlock a)) (\<lambda>p.
     rd_return \<lparr> a_merkle = m, a_vChainMerkleBranch = br, a_nChainIndex = i, a_parentBlock = p \<rparr>))))"

text \<open>Writing a header: the proof follows when the version announces one; the code asserts that
  it is there (None otherwise) and sets its flags.\<close>

definition ser_blockheader :: "CBlockHeader \<Rightarrow> bytes option" where
  "ser_blockheader h =
     (if IsAuxpow (bh_pure h) then
        (case bh_auxpow h of None \<Rightarrow> None
         | Some a \<Rightarrow> Some (ser_header (bh_pure h) @ ser_auxpow (auxpow_flags (header_GetAlgo (bh_pure h)) a)))
      else Some (ser_header (bh_pure h)))"

text \<open>Reading: \<open>nChainIndex\<close> of the fresh proof is overwritten, so its initial value does not
  matter; 0 stands for it.\<close>

definition unser_blockheader :: "tx_hashes \<Rightarrow> CBlockHeader \<Rightarrow> CBlockHeader reader" where
  "unser_blockheader hs h =
     rd_bind (unser_header (bh_pure h)) (\<lambda>p.
       if IsAuxpow p then
         rd_bind (unser_auxpow hs (auxpow_flags (header_GetAlgo p) (auxpow_new 0 tx_SetNull))) (\<lambda>a.
         rd_return \<lparr> bh_pure = p, bh_auxpow = Some a \<rparr>)
       else rd_return \<lparr> bh_pure = p, bh_auxpow = None \<rparr>)"

definition sizeof_CTransaction :: nat where "sizeof_CTransaction = 128"

definition ser_block :: "CBlock \<Rightarrow> bytes option" where
  "ser_block b = map_option (\<lambda>h. h @ ser_vec ser_tx (bk_vtx b)) (ser_blockheader (bk_header b))"

definition unser_block :: "tx_hashes \<Rightarrow> CBlock \<Rightarrow> CBlock reader" where
  "unser_block hs b =
     rd_bind (unser_blockheader hs (bk_header b)) (\<lambda>h.
     rd_bind (unser_vec sizeof_CTransaction (unser_tx hs tx_SetNull)) (\<lambda>vtx.
     rd_return (b\<lparr>bk_header := h, bk_vtx := vtx\<rparr>)))"

section \<open>The check of a merge-mining proof\<close>

definition pchMergedMiningHeader :: bytes where
  "pchMergedMiningHeader = [0xfa, 0xbe, 0x6d, 0x6d]"

text \<open>\<open>std::search\<close>: the position of the first occurrence, or the length.\<close>

fun std_search :: "bytes \<Rightarrow> bytes \<Rightarrow> nat" where
  "std_search [] pat = 0"
| "std_search (b # bs) pat = (if take (length pat) (b # bs) = pat then 0 else Suc (std_search bs pat))"

definition getExpectedIndex :: "u32 \<Rightarrow> u32 \<Rightarrow> nat \<Rightarrow> u32" where
  "getExpectedIndex nNonce nChainId h =
     (let rand = nNonce;
          rand = rand * 1103515245 + 12345;
          rand = rand + nChainId;
          rand = rand * 1103515245 + 12345
      in rand mod 2 ^ h)"

datatype auxpow_error =
    NotAGenerate | ParentHasOurChainId | ChainBranchTooLong | ParentHeaderTooBig
  | MerkleRootIncorrect | ScriptTooBig | AuxHashMissing | MultipleHeaders | HeaderNotBefore
  | RootTooLate | SizeNonceMissing | SizeMismatch | WrongIndex
  | ReadOutOfBounds

record aux_hashes =
  ah_Hash :: "bytes \<Rightarrow> u256"
  ah_Keccak :: "bytes \<Rightarrow> u256"

text \<open>The part of the check that looks at the coinbase script.\<close>

definition check_script :: "bytes \<Rightarrow> bytes \<Rightarrow> nat \<Rightarrow> u32 \<Rightarrow> int \<Rightarrow> auxpow_error + unit" where
  "check_script script vchRootHash merkleHeight nChainIndex nChainId =
     (let pcHead = std_search script pchMergedMiningHeader;
          pc = std_search script vchRootHash
      in if pc = length script then Inl AuxHashMissing
         else if pcHead \<noteq> length script \<and>
             pcHead + 1 + std_search (drop (pcHead + 1) script) pchMergedMiningHeader \<noteq> length script
         then Inl MultipleHeaders
         else if pcHead \<noteq> length script \<and> pcHead + length pchMergedMiningHeader \<noteq> pc then Inl HeaderNotBefore
         else if pcHead = length script \<and> pc > 20 then Inl RootTooLate
         else
           let pc = pc + length vchRootHash in
           if length script - pc < 8 then Inl SizeNonceMissing
           else
             let nSize = sint (le_word (take 4 (drop pc script)) :: u32) in
             if nSize \<noteq> 2 ^ merkleHeight then Inl SizeMismatch
             else
               let nNonce = le_word (take 4 (drop (pc + 4) script));
                   expectedIndex = getExpectedIndex nNonce (of_int nChainId) merkleHeight
               in if nChainIndex \<noteq> expectedIndex then Inl WrongIndex else Inr ())"

definition auxpow_GetHash :: "tx_hashes \<Rightarrow> CAuxPow \<Rightarrow> u256" where
  "auxpow_GetHash hs a = GetCachedHash hs (m_tx (a_merkle a))"

definition auxpow_check ::
  "aux_hashes \<Rightarrow> tx_hashes \<Rightarrow> CChainParams \<Rightarrow> CAuxPow \<Rightarrow> u256 \<Rightarrow> int \<Rightarrow> auxpow_error + unit" where
  "auxpow_check ah hs p a hashAuxBlock nChainId =
     (let tx = m_tx (a_merkle a); parent = a_parentBlock a; nIndex = sint (m_nIndex (a_merkle a)) in
      if nIndex \<noteq> 0 then Inl NotAGenerate
      else if p_fStrictChainId p \<and> GetChainId parent = None then Inl ReadOutOfBounds
      else if p_fStrictChainId p \<and> snd (the (GetChainId parent)) = nChainId then Inl ParentHasOurChainId
      else if length (a_vChainMerkleBranch a) > 30 then Inl ChainBranchTooLong
      else
        let nRootHash = CheckMerkleBranch (ah_Hash ah) hashAuxBlock (a_vChainMerkleBranch a) (sint (a_nChainIndex a));
            vchRootHash = rev (le_bytes nRootHash);
            transaction_hash = auxpow_GetHash hs a
        in if h_vector_format parent \<and> length (h_vector_rep parent) > 1000 then Inl ParentHeaderTooBig
        else if h_vector_format parent \<and>
            std_search (h_vector_rep parent)
              (le_bytes (CheckMerkleBranch (ah_Keccak ah) transaction_hash (m_vMerkleBranch (a_merkle a)) nIndex))
              = length (h_vector_rep parent) then Inl MerkleRootIncorrect
        else if \<not> h_vector_format parent \<and>
            CheckMerkleBranch (ah_Hash ah) transaction_hash (m_vMerkleBranch (a_merkle a)) nIndex
              \<noteq> h_hashMerkleRoot parent then Inl MerkleRootIncorrect
        else if tx_vector_format tx \<and> length (tx_vector_rep tx) > 1000 then Inl ScriptTooBig
        else if \<not> tx_vector_format tx \<and> tx_vin tx = [] then Inl ReadOutOfBounds
        else
          check_script (if tx_vector_format tx then tx_vector_rep tx else i_scriptSig (tx_vin tx ! 0))
            vchRootHash (length (a_vChainMerkleBranch a)) (a_nChainIndex a) nChainId)"

section \<open>The proof of work of a header\<close>

datatype pow_error =
    NotOurChainId | NoAuxpow | PowFailed | AuxpowUnexpected | AuxpowInvalid auxpow_error
  | AuxEquihashFailed | AuxPowFailed

text \<open>\<open>eh\<close> is \<open>CheckEquihashSolution\<close>. The result of \<open>GetChainId\<close> exists here: the header of
  a block is not in vector format.\<close>

definition block_ChainId :: "CBlockHeader \<Rightarrow> int" where
  "block_ChainId block = sint (signed_drop_bit 16 (h_nVersion (bh_pure block)))"

definition CheckAuxPowProofOfWork ::
  "(bignum \<Rightarrow> bytes) \<Rightarrow> hash_functions \<Rightarrow> aux_hashes \<Rightarrow> tx_hashes \<Rightarrow> (CPureBlockHeader \<Rightarrow> bool) \<Rightarrow>
   CChainParams \<Rightarrow> CBlockHeader \<Rightarrow> pow_error + unit" where
  "CheckAuxPowProofOfWork bn2mpi hf ah hs eh p block =
     (let h = bh_pure block; algo = header_GetAlgo h in
      if sint (h_nVersion h) > 3 \<and> IsAuxpow h \<and> p_fStrictChainId p \<and> block_ChainId block \<noteq> p_nAuxpowChainId p
      then Inl NotOurChainId
      else case bh_auxpow block of
        None \<Rightarrow>
          if IsAuxpow h then Inl NoAuxpow
          else if \<not> CheckProofOfWork bn2mpi p (GetPoWHash hf h algo) (h_nBits h) (header_GetAlgo h) then Inl PowFailed
          else Inr ()
      | Some a \<Rightarrow>
          if \<not> IsAuxpow h then Inl AuxpowUnexpected
          else case auxpow_check ah hs p a (header_GetHash hf h) (block_ChainId block) of
            Inl e \<Rightarrow> Inl (AuxpowInvalid e)
          | Inr _ \<Rightarrow>
            if header_GetAlgo h = ALGO_EQUIHASH \<and> \<not> eh (a_parentBlock a) then Inl AuxEquihashFailed
            else if \<not> CheckProofOfWork bn2mpi p (GetPoWHash hf (a_parentBlock a) algo) (h_nBits h) (header_GetAlgo h)
            then Inl AuxPowFailed
            else Inr ())"


section \<open>Encodings\<close>

interpretation hashes: canonical_codec "ser_vec WRITEDATA" "unser_vec 32 READDATA"
  "\<lambda>v :: u256 list. length v \<le> 2 ^ 25 \<and> list_all (\<lambda>_. True) v"
  by (rule u256.vec_canonical) simp_all

text \<open>What is read into a given object: the members off the wire keep their values.\<close>

definition merkletx_ok :: "tx_hashes \<Rightarrow> CMerkleTx \<Rightarrow> CMerkleTx \<Rightarrow> bool" where
  "merkletx_ok hs m0 m \<longleftrightarrow> tx_ok hs (m_tx m0) (m_tx m) \<and> length (m_vMerkleBranch m) \<le> 2 ^ 25 \<and>
     m_fMerkleVerified m = m_fMerkleVerified m0"

definition auxpow_ok :: "tx_hashes \<Rightarrow> CAuxPow \<Rightarrow> CAuxPow \<Rightarrow> bool" where
  "auxpow_ok hs a0 a \<longleftrightarrow> merkletx_ok hs (a_merkle a0) (a_merkle a) \<and>
     length (a_vChainMerkleBranch a) \<le> 2 ^ 25 \<and> wire_ok (a_parentBlock a0) (a_parentBlock a)"

interpretation merkletx: canonical_codec ser_merkletx "unser_merkletx hs m0" "merkletx_ok hs m0" for hs m0
  by unfold_locales
    (auto simp: ser_merkletx_def unser_merkletx_def wire_iff wire_rw hashes.unser_bind hashes.unser_bind_iff
      tx.unser_bind tx.unser_bind_iff merkletx_ok_def list_all_iff)

interpretation auxpow: canonical_codec ser_auxpow "unser_auxpow hs a0" "auxpow_ok hs a0" for hs a0
  by unfold_locales
    (auto simp: ser_auxpow_def unser_auxpow_def wire_iff wire_rw hashes.unser_bind hashes.unser_bind_iff
      merkletx.unser_bind merkletx.unser_bind_iff header_wire.unser_bind header_wire.unser_bind_iff
      auxpow_ok_def list_all_iff)

definition blockheader_ok :: "tx_hashes \<Rightarrow> CBlockHeader \<Rightarrow> CBlockHeader \<Rightarrow> bool" where
  "blockheader_ok hs h0 h \<longleftrightarrow> wire_ok (bh_pure h0) (bh_pure h) \<and>
     (if IsAuxpow (bh_pure h)
      then \<exists>a. bh_auxpow h = Some a \<and>
        auxpow_ok hs (auxpow_flags (header_GetAlgo (bh_pure h)) (auxpow_new 0 tx_SetNull)) a
      else bh_auxpow h = None)"

lemma wire_fields_flags:
  "h_isParent (wire_fields h h0) = h_isParent h0" "h_algoParent (wire_fields h h0) = h_algoParent h0"
  by (simp_all add: wire_fields_def Let_def)

text \<open>A proof that was read has the flags already.\<close>

lemma wire_ok_flags:
  assumes "wire_ok h0 h"
  shows "h_isParent h = h_isParent h0" "h_algoParent h = h_algoParent h0" "h_vector_format h = h_vector_format h0"
proof -
  have "wire_fields h h0 = h" using assms by (simp add: wire_ok_def)
  then show "h_isParent h = h_isParent h0" "h_algoParent h = h_algoParent h0"
    by (metis (no_types, lifting) wire_fields_flags)+
  show "h_vector_format h = h_vector_format h0" using assms by (simp add: wire_ok_def)
qed

lemma tx_ok_flags:
  assumes "tx_ok hs tx0 tx"
  shows "tx_vector_format tx = tx_vector_format tx0" "tx_keccak_hash tx = tx_keccak_hash tx0"
proof -
  have e: "tx = UpdateHash hs (tx_wire tx0 tx)" using assms by (simp add: tx_ok_def)
  show "tx_vector_format tx = tx_vector_format tx0" by (subst e) (simp add: tx_wire_def)
  show "tx_keccak_hash tx = tx_keccak_hash tx0" by (subst e) (simp add: tx_wire_def)
qed

lemma auxpow_flags_id:
  assumes "h_isParent (a_parentBlock a)" "h_algoParent (a_parentBlock a) = algo"
    "algo = ALGO_EQUIHASH \<or> algo = ALGO_CRYPTONIGHT \<longrightarrow> tx_vector_format (m_tx (a_merkle a))"
    "algo = ALGO_CRYPTONIGHT \<longrightarrow> h_vector_format (a_parentBlock a) \<and> tx_keccak_hash (m_tx (a_merkle a))"
  shows "auxpow_flags algo a = a"
proof -
  have p: "h\<lparr>h_isParent := True, h_algoParent := algo\<rparr> = h" if "h_isParent h" "h_algoParent h = algo" for h
    using that by (cases h) simp
  have v: "h\<lparr>h_vector_format := True\<rparr> = h" if "h_vector_format h" for h using that by (cases h) simp
  have t: "tx\<lparr>tx_vector_format := True\<rparr> = tx" if "tx_vector_format tx" for tx using that by (cases tx) simp
  have k: "tx\<lparr>tx_keccak_hash := True\<rparr> = tx" if "tx_keccak_hash tx" for tx using that by (cases tx) simp
  have m: "m\<lparr>m_tx := m_tx m\<rparr> = m" for m by (cases m) simp
  have a: "a\<lparr>a_parentBlock := a_parentBlock a\<rparr> = a" "a\<lparr>a_merkle := a_merkle a\<rparr> = a" for a by (cases a, simp)+
  show ?thesis
    using assms by (simp add: auxpow_flags_def Let_def p v t k m a)
qed

lemma auxpow_flags_fields:
  "h_isParent (a_parentBlock (auxpow_flags algo a))" "h_algoParent (a_parentBlock (auxpow_flags algo a)) = algo"
  "algo = ALGO_EQUIHASH \<or> algo = ALGO_CRYPTONIGHT \<Longrightarrow> tx_vector_format (m_tx (a_merkle (auxpow_flags algo a)))"
  "algo = ALGO_CRYPTONIGHT \<Longrightarrow> h_vector_format (a_parentBlock (auxpow_flags algo a)) \<and>
     tx_keccak_hash (m_tx (a_merkle (auxpow_flags algo a)))"
  by (auto simp: auxpow_flags_def Let_def)

lemma auxpow_ok_flags:
  assumes "auxpow_ok hs (auxpow_flags algo a0) a"
  shows "auxpow_flags algo a = a"
proof -
  have w: "wire_ok (a_parentBlock (auxpow_flags algo a0)) (a_parentBlock a)"
    and t: "tx_ok hs (m_tx (a_merkle (auxpow_flags algo a0))) (m_tx (a_merkle a))"
    using assms by (simp_all add: auxpow_ok_def merkletx_ok_def)
  show ?thesis
    by (rule auxpow_flags_id) (simp_all add: wire_ok_flags [OF w] tx_ok_flags [OF t] auxpow_flags_fields)
qed

lemma ser_blockheader_ok:
  assumes "blockheader_ok hs h0 h"
  shows "ser_blockheader h = Some (ser_header (bh_pure h) @
    (case bh_auxpow h of None \<Rightarrow> [] | Some a \<Rightarrow> ser_auxpow a))"
  using assms by (auto simp: blockheader_ok_def ser_blockheader_def auxpow_ok_flags split: if_split_asm)

interpretation blockheader: canonical_codec "\<lambda>h. the (ser_blockheader h)" "unser_blockheader hs h0"
  "blockheader_ok hs h0" for hs h0
proof unfold_locales
  fix h s
  assume ok: "blockheader_ok hs h0 h"
  show "unser_blockheader hs h0 (the (ser_blockheader h) @ s) = Inr (h, s)"
    using ok unfolding ser_blockheader_ok [OF ok]
    by (auto simp: blockheader_ok_def unser_blockheader_def header_wire.unser_bind auxpow.unser_bind
        split: if_split_asm)
next
  fix h s r
  assume "unser_blockheader hs h0 s = Inr (h, r)"
  then have ok: "blockheader_ok hs h0 h" and
    s: "s = ser_header (bh_pure h) @ (case bh_auxpow h of None \<Rightarrow> [] | Some a \<Rightarrow> ser_auxpow a) @ r"
    by (auto simp: unser_blockheader_def blockheader_ok_def rd_bind_eq_Inr header_wire.unser_iff
        auxpow.unser_iff split: if_split_asm)
  show "blockheader_ok hs h0 h \<and> s = the (ser_blockheader h) @ r"
    using ok s unfolding ser_blockheader_ok [OF ok] by simp
qed

interpretation txs: canonical_codec "ser_vec ser_tx" "unser_vec sizeof_CTransaction (unser_tx hs tx_SetNull)"
  "\<lambda>v. length v \<le> 2 ^ 25 \<and> list_all (tx_ok hs tx_SetNull) v" for hs
  by (rule tx.vec_canonical) (simp_all add: sizeof_CTransaction_def ser_tx_def ser_bytes_def)

definition block_ok :: "tx_hashes \<Rightarrow> CBlock \<Rightarrow> CBlock \<Rightarrow> bool" where
  "block_ok hs b0 b \<longleftrightarrow> blockheader_ok hs (bk_header b0) (bk_header b) \<and> length (bk_vtx b) \<le> 2 ^ 25 \<and>
     list_all (tx_ok hs tx_SetNull) (bk_vtx b) \<and> bk_vMerkleTree b = bk_vMerkleTree b0"

interpretation block: canonical_codec "\<lambda>b. the (ser_block b)" "unser_block hs b0" "block_ok hs b0" for hs b0
proof unfold_locales
  fix b s
  assume ok: "block_ok hs b0 b"
  then have "ser_block b = Some (the (ser_blockheader (bk_header b)) @ ser_vec ser_tx (bk_vtx b))"
    using ser_blockheader_ok by (auto simp: ser_block_def block_ok_def)
  then show "unser_block hs b0 (the (ser_block b) @ s) = Inr (b, s)"
    using ok by (simp add: unser_block_def blockheader.unser_bind txs.unser_bind block_ok_def)
next
  fix b s r
  assume "unser_block hs b0 s = Inr (b, r)"
  then have ok: "block_ok hs b0 b" and s: "s = the (ser_blockheader (bk_header b)) @ ser_vec ser_tx (bk_vtx b) @ r"
    by (auto simp: unser_block_def block_ok_def rd_bind_eq_Inr blockheader.unser_iff txs.unser_iff)
  moreover have "ser_block b = Some (the (ser_blockheader (bk_header b)) @ ser_vec ser_tx (bk_vtx b))"
    using ok ser_blockheader_ok by (auto simp: ser_block_def block_ok_def)
  ultimately show "block_ok hs b0 b \<and> s = the (ser_block b) @ r" by simp
qed

section \<open>The coinbase script\<close>

lemma std_search_le: "std_search s pat \<le> length s" by (induction s) auto

lemma std_search_match:
  assumes "std_search s pat < length s"
  shows "take (length pat) (drop (std_search s pat) s) = pat"
  using assms by (induction s) (auto split: if_split_asm)

lemma std_search_first:
  assumes "i < std_search s pat"
  shows "take (length pat) (drop i s) \<noteq> pat"
  using assms
proof (induction s arbitrary: i)
  case (Cons b bs)
  then show ?case by (cases i) (auto split: if_split_asm)
qed simp

definition coinbase_script :: "CAuxPow \<Rightarrow> bytes" where
  "coinbase_script a =
     (let tx = m_tx (a_merkle a) in
      if tx_vector_format tx then tx_vector_rep tx else i_scriptSig (tx_vin tx ! 0))"

definition script_commits :: "bytes \<Rightarrow> bytes \<Rightarrow> nat \<Rightarrow> u32 \<Rightarrow> int \<Rightarrow> nat \<Rightarrow> bool" where
  "script_commits script root h idx cid pc \<longleftrightarrow>
     pc + length root + 8 \<le> length script \<and> take (length root) (drop pc script) = root \<and>
     sint (le_word (take 4 (drop (pc + length root) script)) :: u32) = 2 ^ h \<and>
     idx = getExpectedIndex (le_word (take 4 (drop (pc + length root + 4) script))) (of_int cid) h"

lemma check_script_ok:
  assumes "check_script script root h idx cid = Inr ()"
  shows "script_commits script root h idx cid (std_search script root)"
    "std_search script pchMergedMiningHeader \<noteq> length script \<Longrightarrow>
       std_search script root = std_search script pchMergedMiningHeader + 4"
    "std_search script pchMergedMiningHeader = length script \<Longrightarrow> std_search script root \<le> 20"
proof -
  note c = assms [unfolded check_script_def Let_def]
  have n: "std_search script root \<noteq> length script" using c by (auto split: if_split_asm)
  then have l: "std_search script root < length script" using std_search_le [of script root] by simp
  show "script_commits script root h idx cid (std_search script root)"
    using c n std_search_match [OF l] by (auto simp: script_commits_def split: if_split_asm)
  show "std_search script pchMergedMiningHeader \<noteq> length script \<Longrightarrow>
       std_search script root = std_search script pchMergedMiningHeader + 4"
    using c n by (auto simp: pchMergedMiningHeader_def split: if_split_asm)
  show "std_search script pchMergedMiningHeader = length script \<Longrightarrow> std_search script root \<le> 20"
    using c n by (auto split: if_split_asm)
qed

lemma auxpow_check_ok:
  assumes "auxpow_check ah hs p a hashAuxBlock cid = Inr ()"
  shows "length (a_vChainMerkleBranch a) \<le> 30"
    "check_script (coinbase_script a)
      (rev (le_bytes (CheckMerkleBranch (ah_Hash ah) hashAuxBlock (a_vChainMerkleBranch a) (sint (a_nChainIndex a)))))
      (length (a_vChainMerkleBranch a)) (a_nChainIndex a) cid = Inr ()"
  using assms unfolding auxpow_check_def Let_def coinbase_script_def by (auto split: if_split_asm)

lemma sint_small:
  assumes "unat (x :: u32) < 2147483648"
  shows "sint x = int (unat x)"
proof -
  have "int (unat x) < int 2147483648" using assms by (simp only: of_nat_less_iff)
  then have "uint x < 2 ^ (LENGTH(32) - 1)" by simp
  then show ?thesis using sint_eq_uint [of x] by (simp only: uint_nat)
qed

lemma expected_index_range:
  assumes "h \<le> 30"
  shows "0 \<le> sint (getExpectedIndex n c h)" "sint (getExpectedIndex n c h) < 2 ^ h"
proof -
  have "(2 :: nat) ^ h < 2 ^ 32" using assms by (intro power_strict_increasing) auto
  then have "unat (of_nat (2 ^ h) :: u32) = 2 ^ h" by (simp only: unat_of_nat) simp
  then have p: "unat ((2 :: u32) ^ h) = 2 ^ h" by simp
  have "unat (getExpectedIndex n c h) < 2 ^ h"
    using p by (simp add: getExpectedIndex_def Let_def unat_mod)
  moreover have "(2 :: nat) ^ h \<le> 2 ^ 30" using assms by (intro power_increasing) auto
  ultimately have lt: "unat (getExpectedIndex n c h) < 2 ^ 31" "unat (getExpectedIndex n c h) < 2 ^ h" by simp_all
  have e: "sint (getExpectedIndex n c h) = int (unat (getExpectedIndex n c h))"
    using lt(1) by (intro sint_small) simp
  show "0 \<le> sint (getExpectedIndex n c h)" unfolding e by simp
  have "int (unat (getExpectedIndex n c h)) < int (2 ^ h)" using lt(2) by (simp only: of_nat_less_iff)
  then show "sint (getExpectedIndex n c h) < 2 ^ h" unfolding e by simp
qed

lemma rev_le_bytes_inj: "rev (le_bytes a) = rev (le_bytes b) \<Longrightarrow> a = (b :: u256)"
proof -
  assume "rev (le_bytes a) = rev (le_bytes b)"
  then have "le_word (le_bytes a) = (le_word (le_bytes b) :: u256)" by (simp only: rev_is_rev_conv)
  then show "a = b" by simp
qed

lemma length_le_bytes256: "length (le_bytes (a :: u256)) = 32" by simp

section \<open>Properties\<close>

text \<open>C25: A block is read from exactly the bytes it is written as, with its merge-mining proof
  when the version word announces one, for every algorithm; the flags of the proof are
  rederived on reading, and everything after the block is left in the stream. A header that
  announces a proof and has none is never read.\<close>

theorem block_wire:
  "unser_block hs b0 s = Inr (b, r) \<longleftrightarrow>
     block_ok hs b0 b \<and> (\<exists>e. ser_block b = Some e \<and> s = e @ r)
     \<and> (IsAuxpow (bh_pure (bk_header b)) \<longleftrightarrow> bh_auxpow (bk_header b) \<noteq> None)"
proof -
  have "\<exists>e. ser_block b = Some e" "IsAuxpow (bh_pure (bk_header b)) \<longleftrightarrow> bh_auxpow (bk_header b) \<noteq> None"
    if "block_ok hs b0 b"
    using that ser_blockheader_ok
    by (auto simp: ser_block_def block_ok_def blockheader_ok_def split: if_split_asm)
  then show ?thesis using block.unser_iff [of hs b0 s b r] by (auto simp: option.sel)
qed

text \<open>C14: The same work is not counted twice when the coinbase script holds the merge-mining header: two
  valid merge-mining proofs for one chain whose coinbase scripts are equal and hold the header prove
  the same block and have the same chain branch, or the two branches exhibit a collision of the hash
  function at one of their levels. Nothing is said of scripts without the header, which the code
  accepts too when the root starts in the first 20 bytes: see \<open>headerless_double_use\<close>.\<close>

theorem auxpow_no_double_use:
  assumes "auxpow_check ah hs p a1 h1 cid = Inr ()" "auxpow_check ah hs' p' a2 h2 cid = Inr ()"
    "coinbase_script a1 = coinbase_script a2"
    "std_search (coinbase_script a1) pchMergedMiningHeader \<noteq> length (coinbase_script a1)"
  shows "h1 = h2 \<and> a_vChainMerkleBranch a1 = a_vChainMerkleBranch a2
    \<or> (\<exists>k < length (a_vChainMerkleBranch a1).
        let i = sint (a_nChainIndex a1);
            x = path_inputs (ah_Hash ah) h1 (a_vChainMerkleBranch a1) i ! k;
            y = path_inputs (ah_Hash ah) h2 (a_vChainMerkleBranch a2) i ! k
        in x \<noteq> y \<and> case_prod (hash2 (ah_Hash ah)) x = case_prod (hash2 (ah_Hash ah)) y)"
proof -
  define root where "root a h = CheckMerkleBranch (ah_Hash ah) h (a_vChainMerkleBranch a) (sint (a_nChainIndex a))"
    for a :: CAuxPow and h
  define S where "S = coinbase_script a1"
  define l where "l a = length (a_vChainMerkleBranch a)" for a :: CAuxPow
  note ok = auxpow_check_ok [OF assms(1), folded root_def S_def l_def]
    auxpow_check_ok [OF assms(2), folded root_def assms(3) S_def l_def]
  have hd: "std_search S pchMergedMiningHeader \<noteq> length S" using assms(4) by (simp add: S_def)
  define pc where "pc = std_search S pchMergedMiningHeader + 4"
  have c1: "script_commits S (rev (le_bytes (root a1 h1))) (l a1) (a_nChainIndex a1) cid pc"
    using check_script_ok(1,2) [OF ok(2)] hd by (simp add: pc_def)
  have c2: "script_commits S (rev (le_bytes (root a2 h2))) (l a2) (a_nChainIndex a2) cid pc"
    using check_script_ok(1,2) [OF ok(4)] hd by (simp add: pc_def)
  have "rev (le_bytes (root a1 h1)) = rev (le_bytes (root a2 h2))"
    using c1 c2 unfolding script_commits_def length_rev length_le_bytes256 by metis
  then have r: "root a1 h1 = root a2 h2" by (rule rev_le_bytes_inj)
  have "(2 :: int) ^ l a1 = 2 ^ l a2"
    using c1 c2 unfolding script_commits_def length_rev length_le_bytes256 by metis
  then have l: "l a1 = l a2" by simp
  then have i: "a_nChainIndex a1 = a_nChainIndex a2"
    using c1 c2 unfolding script_commits_def length_rev length_le_bytes256 by metis
  have "0 \<le> sint (a_nChainIndex a1)"
    using c1 expected_index_range(1) [OF ok(1)] by (simp add: script_commits_def)
  then have ni: "sint (a_nChainIndex a1) \<noteq> - 1" by simp
  show ?thesis
    using branch_sound [of "a_vChainMerkleBranch a1" "a_vChainMerkleBranch a2" "ah_Hash ah" h1
        "sint (a_nChainIndex a1)" h2] r l ni
    by (simp add: root_def CheckMerkleBranch_def i [symmetric] l_def Let_def)
qed

text \<open>A proof for the witness: no branches, the aux block's hash 5 right after the header in
  the coinbase script.\<close>

definition sample_auxpow :: "u256 \<Rightarrow> CAuxPow" where
  "sample_auxpow hashBlock =
     \<lparr> a_merkle = \<lparr> m_tx = tx_SetNull\<lparr>tx_hash := 9, tx_vin := [\<lparr> i_prevout = outpoint_SetNull,
           i_scriptSig = pchMergedMiningHeader @ rev (le_bytes (5 :: u256)) @ [1, 0, 0, 0, 0, 0, 0, 0],
           i_nSequence = - 1 \<rparr>]\<rparr>,
         m_hashBlock = hashBlock, m_vMerkleBranch = [], m_nIndex = 0, m_fMerkleVerified = False \<rparr>,
       a_vChainMerkleBranch = [], a_nChainIndex = 0,
       a_parentBlock = header_SetNull\<lparr>h_hashMerkleRoot := 9, h_isParent := True\<rparr> \<rparr>"


theorem auxpow_no_double_use_witness:
  "a_vChainMerkleBranch (sample_auxpow 1) = a_vChainMerkleBranch (sample_auxpow 2)"
proof -
  define ah hs where "ah = \<lparr> ah_Hash = le_word, ah_Keccak = le_word \<rparr>"
    and "hs = \<lparr> th_Hash = le_word, th_KeccakCBTX = le_word \<rparr>"
  have c: "auxpow_check ah hs mainParams (sample_auxpow b) 5 0x5B = Inr ()" for b
    unfolding ah_def hs_def by code_simp
  have s: "coinbase_script (sample_auxpow b) = coinbase_script (sample_auxpow 2)"
    "std_search (coinbase_script (sample_auxpow b)) pchMergedMiningHeader \<noteq> length (coinbase_script (sample_auxpow b))" for b
    by (simp add: coinbase_script_def sample_auxpow_def Let_def tx_SetNull_def) code_simp
  have "length (a_vChainMerkleBranch (sample_auxpow 1)) = 0" by (simp add: sample_auxpow_def)
  then show ?thesis using auxpow_no_double_use [OF c c s [of 1]] by auto
qed

section \<open>A script without the header\<close>

text \<open>Without the merge-mining header the roots of two proofs may overlap in the script: this coinbase
  script, whose bytes are the root of one block from the start and of another from the ninth byte,
  proves both blocks, whatever the hash functions are.\<close>

definition overlap_script :: bytes where
  "overlap_script = map of_nat [10..<42] @ [1, 0, 0, 0, 0, 0, 0, 0] @ [1, 0, 0, 0, 0, 0, 0, 0]"

definition overlap_root :: "nat \<Rightarrow> u256" where "overlap_root i = le_word (rev (take 32 (drop i overlap_script)))"

definition headerless_auxpow :: CAuxPow where
  "headerless_auxpow =
     (let a = sample_auxpow 0; m = a_merkle a; tx = m_tx m
      in a\<lparr>a_merkle := m\<lparr>m_tx := tx\<lparr>tx_vin := [(hd (tx_vin tx))\<lparr>i_scriptSig := overlap_script\<rparr>]\<rparr>\<rparr>\<rparr>)"

lemma headerless_double_use:
  "auxpow_check ah hs mainParams headerless_auxpow (overlap_root 0) 0x5B = Inr ()
    \<and> auxpow_check ah hs mainParams headerless_auxpow (overlap_root 8) 0x5B = Inr ()
    \<and> overlap_root 0 \<noteq> overlap_root 8"
  by code_simp

end
