(* ===== verification/Chain.thy ===== *)
theory Chain imports Main Prelude AuxPow "HOL-Library.Sublist" "HOL-Library.Multiset" begin

text \<open>
  The block index of \<open>src/src/core.h\<close> and \<open>src/src/core.cpp\<close> and the active chain
  (\<open>CChain\<close>, \<open>src/src/core.h\<close> and \<open>src/src/main.cpp\<close>). Index entries are linked by
  \<open>pprev\<close> and never change their predecessor, so a pointer to an entry is the list of the
  entries from it back to its root; the empty list is NULL.
\<close>

section \<open>Block index entries\<close>

definition BLOCK_HAVE_DATA :: u32 where "BLOCK_HAVE_DATA = 8"
definition BLOCK_HAVE_UNDO :: u32 where "BLOCK_HAVE_UNDO = 16"
definition BLOCK_FAILED_VALID :: u32 where "BLOCK_FAILED_VALID = 32"
definition BLOCK_FAILED_CHILD :: u32 where "BLOCK_FAILED_CHILD = 64"
definition BLOCK_FAILED_MASK :: u32 where "BLOCK_FAILED_MASK = 96"
definition BLOCK_VALID_MASK :: u32 where "BLOCK_VALID_MASK = 7"

record CDiskBlockPos =
  pos_nFile :: u32
  pos_nPos :: u32

definition pos_SetNull :: CDiskBlockPos where "pos_SetNull = \<lparr> pos_nFile = - 1, pos_nPos = 0 \<rparr>"
definition pos_IsNull :: "CDiskBlockPos \<Rightarrow> bool" where "pos_IsNull a \<longleftrightarrow> pos_nFile a = - 1"

record CBlockIndex =
  b_hashBlock :: u256
  b_pauxpow :: "CAuxPow option"
  b_nHeight :: u32
  b_nMoneySupply :: u64
  b_subsidyScalingFactor :: bignum
  b_nFile :: u32
  b_nDataPos :: u32
  b_nUndoPos :: u32
  b_nChainWork :: u256
  b_nTx :: u32
  b_nChainTx :: u32
  b_nStatus :: u32
  b_nVersion :: u32
  b_hashMerkleRoot :: u256
  b_nTime :: u32
  b_nBits :: u32
  b_nNonce :: u32
  b_nNonce256 :: u256
  b_nSolution :: bytes
  b_hashReserved :: u256
  b_nSequenceId :: u32

type_synonym block_ptr = "CBlockIndex list"

definition height :: "CBlockIndex \<Rightarrow> int" where "height b = sint (b_nHeight b)"

text \<open>\<open>SetNull\<close> resets the members but \<open>nNonce256\<close>, \<open>nSolution\<close> and \<open>hashReserved\<close>.\<close>

definition index_SetNull :: "CBlockIndex \<Rightarrow> CBlockIndex" where
  "index_SetNull b = b
     \<lparr> b_hashBlock := 0, b_pauxpow := None, b_nHeight := 0, b_nMoneySupply := 0, b_subsidyScalingFactor := 0,
       b_nFile := 0, b_nDataPos := 0, b_nUndoPos := 0, b_nChainWork := 0, b_nTx := 0, b_nChainTx := 0,
       b_nStatus := 0, b_nSequenceId := 0, b_nVersion := 0, b_hashMerkleRoot := 0, b_nTime := 0,
       b_nBits := 0, b_nNonce := 0 \<rparr>"

definition index_of_header :: "CBlockIndex \<Rightarrow> CBlockHeader \<Rightarrow> CBlockIndex" where
  "index_of_header b block =
     (let h = bh_pure block in (index_SetNull b)
     \<lparr> b_nVersion := h_nVersion h, b_hashMerkleRoot := h_hashMerkleRoot h, b_nTime := h_nTime h,
       b_nBits := h_nBits h, b_nNonce := h_nNonce h, b_hashReserved := h_hashReserved h,
       b_nNonce256 := h_nNonce256 h, b_nSolution := h_nSolution h \<rparr>)"

definition GetBlockPos :: "CBlockIndex \<Rightarrow> CDiskBlockPos" where
  "GetBlockPos b =
     (if b_nStatus b AND BLOCK_HAVE_DATA \<noteq> 0 then \<lparr> pos_nFile = b_nFile b, pos_nPos = b_nDataPos b \<rparr>
      else pos_SetNull)"

definition GetUndoPos :: "CBlockIndex \<Rightarrow> CDiskBlockPos" where
  "GetUndoPos b =
     (if b_nStatus b AND BLOCK_HAVE_UNDO \<noteq> 0 then \<lparr> pos_nFile = b_nFile b, pos_nPos = b_nUndoPos b \<rparr>
      else pos_SetNull)"

definition index_GetBlockTime :: "CBlockIndex \<Rightarrow> int" where
  "index_GetBlockTime b = uint (b_nTime b)"

definition index_IsAuxpow :: "CBlockIndex \<Rightarrow> bool" where
  "index_IsAuxpow b \<longleftrightarrow> b_nVersion b AND BLOCK_VERSION_AUXPOW \<noteq> 0"

definition index_GetAlgo :: "CBlockIndex \<Rightarrow> int" where
  "index_GetAlgo b = GetAlgo (b_nVersion b)"

definition GetBlockWork :: "CBlockIndex \<Rightarrow> bignum" where
  "GetBlockWork b = block_work (SetCompact (b_nBits b)) (index_GetAlgo b)"

definition GetBlockWorkBoost :: "CBlockIndex \<Rightarrow> bignum" where
  "GetBlockWorkBoost b = block_work (BoostBigNumFromCompact (b_nBits b)) (index_GetAlgo b)"

text \<open>The sum of the work of the last fifty blocks and their number.\<close>

fun work_loop :: "nat \<Rightarrow> block_ptr \<Rightarrow> bignum \<Rightarrow> int \<Rightarrow> bignum \<times> int" where
  "work_loop 0 p work n = (work, n)"
| "work_loop (Suc k) [] work n = (work, n)"
| "work_loop (Suc k) (b # p) work n = work_loop k p (work + GetBlockWork b) (n + 1)"

lemma work_loop_code [code]:
  "work_loop n p work k =
     (if n = 0 \<or> p = [] then (work, k) else work_loop (n - 1) (tl p) (work + GetBlockWork (hd p)) (k + 1))"
  by (cases n; cases p) simp_all

definition GetBlockWorkAv :: "block_ptr \<Rightarrow> bignum" where
  "GetBlockWorkAv p = (let (work, n) = work_loop 50 p 0 0 in work sdiv n)"

section \<open>Versions and the fork\<close>

definition GetBlockVersion :: "u32 \<Rightarrow> int" where "GetBlockVersion nVersion = uint (nVersion AND 255)"
definition GetBlockVariant :: "u32 \<Rightarrow> bool" where "GetBlockVariant nVersion \<longleftrightarrow> nVersion AND BLOCK_VERSION_VARIANT \<noteq> 0"
definition GetBlockVariant2 :: "u32 \<Rightarrow> bool" where "GetBlockVariant2 nVersion \<longleftrightarrow> nVersion AND BLOCK_VERSION_VARIANT2 \<noteq> 0"

text \<open>The loop that the three majority rules share: at most \<open>n\<close> blocks, stopping as soon as
  enough were found.\<close>

fun majority_loop :: "(u32 \<Rightarrow> bool) \<Rightarrow> nat \<Rightarrow> block_ptr \<Rightarrow> nat \<Rightarrow> nat \<Rightarrow> nat" where
  "majority_loop f 0 p nRequired nFound = nFound"
| "majority_loop f (Suc n) [] nRequired nFound = nFound"
| "majority_loop f (Suc n) (b # p) nRequired nFound =
     (if nFound < nRequired
      then majority_loop f n p nRequired (if f (b_nVersion b) then nFound + 1 else nFound)
      else nFound)"

lemma majority_loop_code [code]:
  "majority_loop f n p nRequired nFound =
     (if n = 0 \<or> p = [] \<or> \<not> nFound < nRequired then nFound
      else majority_loop f (n - 1) (tl p) nRequired (if f (b_nVersion (hd p)) then nFound + 1 else nFound))"
  by (cases n; cases p) simp_all

definition IsSuperMajority :: "int \<Rightarrow> block_ptr \<Rightarrow> nat \<Rightarrow> nat \<Rightarrow> bool" where
  "IsSuperMajority minVersion p nRequired nToCheck \<longleftrightarrow>
     majority_loop (\<lambda>v. GetBlockVersion v \<ge> minVersion) nToCheck p nRequired 0 \<ge> nRequired"

definition IsSuperMajorityVariant12 :: "int \<Rightarrow> bool \<Rightarrow> block_ptr \<Rightarrow> nat \<Rightarrow> nat \<Rightarrow> bool" where
  "IsSuperMajorityVariant12 minVersion variant p nRequired nToCheck \<longleftrightarrow>
     majority_loop (\<lambda>v. GetBlockVersion v \<ge> minVersion \<and> (GetBlockVariant v = variant \<or> GetBlockVariant2 v = variant))
       nToCheck p nRequired 0 \<ge> nRequired"

definition IsSuperMajorityVariant2 :: "int \<Rightarrow> bool \<Rightarrow> block_ptr \<Rightarrow> nat \<Rightarrow> nat \<Rightarrow> bool" where
  "IsSuperMajorityVariant2 minVersion variant p nRequired nToCheck \<longleftrightarrow>
     majority_loop (\<lambda>v. GetBlockVersion v \<ge> minVersion \<and> GetBlockVariant2 v = variant)
       nToCheck p nRequired 0 \<ge> nRequired"

definition nForkHeight :: int where "nForkHeight = 200"

text \<open>The members are called on an entry, so on a list that is not empty.\<close>

definition onFork :: "block_ptr \<Rightarrow> bool" where
  "onFork p \<longleftrightarrow> height (hd p) \<ge> nForkHeight \<and> IsSuperMajority 4 (tl p) 75 100"

definition onFork2 :: "block_ptr \<Rightarrow> bool" where "onFork2 p \<longleftrightarrow> False"
definition onFork3 :: "block_ptr \<Rightarrow> bool" where "onFork3 p \<longleftrightarrow> False"

section \<open>Median time\<close>

definition nMedianTimeSpan :: nat where "nMedianTimeSpan = 11"

text \<open>The times that the loop writes, newest first; it stops after the first block before the
  fork.\<close>

fun time_loop :: "nat \<Rightarrow> block_ptr \<Rightarrow> bool \<Rightarrow> int list" where
  "time_loop 0 p wasOnFork = []"
| "time_loop (Suc n) [] wasOnFork = []"
| "time_loop (Suc n) (b # p) wasOnFork =
     index_GetBlockTime b #
       (let wasOnFork = (if onFork (b # p) then True else wasOnFork) in
        if wasOnFork \<and> \<not> onFork (b # p) then [] else time_loop n p wasOnFork)"

lemma time_loop_code [code]:
  "time_loop n p wasOnFork =
     (if n = 0 then [] else case p of [] \<Rightarrow> [] | b # p' \<Rightarrow>
      index_GetBlockTime b #
        (let wasOnFork = (if onFork p then True else wasOnFork) in
         if wasOnFork \<and> \<not> onFork p then [] else time_loop (n - 1) p' wasOnFork))"
  by (cases n; cases p) simp_all

definition GetMedianTimePast :: "block_ptr \<Rightarrow> int" where
  "GetMedianTimePast p =
     (let pmedian = sort (rev (time_loop nMedianTimeSpan p False)) in pmedian ! (length pmedian div 2))"

section \<open>The active chain\<close>

text \<open>\<open>vChain\<close>: the pointers by height.\<close>

type_synonym CChain = "block_ptr list"

definition chain_Genesis :: "CChain \<Rightarrow> block_ptr" where
  "chain_Genesis v = (if length v > 0 then v ! 0 else [])"

definition chain_Tip :: "CChain \<Rightarrow> block_ptr" where
  "chain_Tip v = (if length v > 0 then v ! (length v - 1) else [])"

definition chain_at :: "CChain \<Rightarrow> int \<Rightarrow> block_ptr" where
  "chain_at v h = (if h < 0 \<or> h \<ge> int (length v) then [] else v ! nat h)"

definition chain_Contains :: "CChain \<Rightarrow> block_ptr \<Rightarrow> bool" where
  "chain_Contains v p \<longleftrightarrow> chain_at v (height (hd p)) = p"

definition chain_Next :: "CChain \<Rightarrow> block_ptr \<Rightarrow> block_ptr" where
  "chain_Next v p = (if chain_Contains v p then chain_at v (height (hd p) + 1) else [])"

definition chain_Height :: "CChain \<Rightarrow> int" where
  "chain_Height v = int (length v) - 1"

definition chain_resize :: "CChain \<Rightarrow> nat \<Rightarrow> CChain" where
  "chain_resize v n = take n v @ replicate (n - length v) []"

fun settip_loop :: "CChain \<Rightarrow> block_ptr \<Rightarrow> CChain \<times> block_ptr" where
  "settip_loop v [] = (v, [])"
| "settip_loop v (b # p) =
     (if v ! nat (height b) \<noteq> b # p then settip_loop (v[nat (height b) := b # p]) p else (v, b # p))"

definition SetTip :: "CChain \<Rightarrow> block_ptr \<Rightarrow> CChain \<times> block_ptr" where
  "SetTip v p =
     (if p = [] then ([], [])
      else settip_loop (chain_resize v (nat (height (hd p) + 1))) p)"

text \<open>The members of a locator. In the inner loop \<open>pprev\<close> is followed up to the height wanted
  or into this chain; an entry of this chain is then reached by height. The step doubles
  after the eleventh hash. \<open>None\<close> is a loop that does not end.\<close>

fun walk_back :: "CChain \<Rightarrow> int \<Rightarrow> block_ptr \<Rightarrow> block_ptr" where
  "walk_back v h [] = []"
| "walk_back v h (b # p) = (if height b > h \<and> \<not> chain_Contains v (b # p) then walk_back v h p else b # p)"

partial_function (option) locator_loop :: "CChain \<Rightarrow> block_ptr \<Rightarrow> int \<Rightarrow> u256 list \<Rightarrow> u256 list option" where
  "locator_loop v p nStep vHave =
     (if p = [] then Some vHave
      else
        let vHave = vHave @ [b_hashBlock (hd p)] in
        if height (hd p) = 0 then Some vHave
        else
          let nHeight = max (height (hd p) - nStep) 0;
              p = walk_back v nHeight p;
              p = (if height (hd p) > nHeight then chain_at v nHeight else p)
          in locator_loop v p (if length vHave > 10 then nStep * 2 else nStep) vHave)"

definition GetLocator :: "CChain \<Rightarrow> block_ptr \<Rightarrow> u256 list option" where
  "GetLocator v p = locator_loop v (if p = [] then chain_Tip v else p) 1 []"

text \<open>\<open>mapBlockIndex\<close> is an argument.\<close>

fun FindFork :: "(u256 \<rightharpoonup> block_ptr) \<Rightarrow> CChain \<Rightarrow> u256 list \<Rightarrow> block_ptr" where
  "FindFork mapBlockIndex v [] = chain_Genesis v"
| "FindFork mapBlockIndex v (hash # vHave) =
     (case mapBlockIndex hash of
        Some p \<Rightarrow> if chain_Contains v p then p else FindFork mapBlockIndex v vHave
      | None \<Rightarrow> FindFork mapBlockIndex v vHave)"

text \<open>\<open>GetMedianTime\<close>: the median of the block five places later in the active chain.\<close>

fun median_walk :: "CChain \<Rightarrow> nat \<Rightarrow> block_ptr \<Rightarrow> block_ptr option" where
  "median_walk v 0 p = Some p"
| "median_walk v (Suc n) p = (if chain_Next v p = [] then None else median_walk v n (chain_Next v p))"

definition GetMedianTime :: "CChain \<Rightarrow> block_ptr \<Rightarrow> int" where
  "GetMedianTime v p =
     (case median_walk v (nMedianTimeSpan div 2) p of
        None \<Rightarrow> index_GetBlockTime (hd p) | Some q \<Rightarrow> GetMedianTimePast q)"


section \<open>The majority rules count\<close>

lemma majority_loop_count:
  "r \<le> majority_loop f n p r k \<longleftrightarrow> r \<le> k + length (filter (\<lambda>b. f (b_nVersion b)) (take n p))"
  by (induction f n p r k rule: majority_loop.induct) auto

lemma IsSuperMajority_count:
  "IsSuperMajority minVersion p r n \<longleftrightarrow>
     r \<le> length (filter (\<lambda>b. GetBlockVersion (b_nVersion b) \<ge> minVersion) (take n p))"
  by (simp add: IsSuperMajority_def majority_loop_count)

section \<open>Order statistics\<close>

text \<open>At most \<open>i\<close> values below \<open>m\<close>: then the one at place \<open>i\<close> of the sorted list is at least
  \<open>m\<close>, and conversely.\<close>

lemma sorted_nth_ge:
  fixes xs :: "int list"
  assumes "sorted xs" "length (filter (\<lambda>x. x < m) xs) \<le> i" "i < length xs"
  shows "m \<le> xs ! i"
proof (rule ccontr)
  assume n: "\<not> m \<le> xs ! i"
  have "x < m" if mem: "x \<in> set (take (Suc i) xs)" for x
  proof -
    obtain j where j: "j < length (take (Suc i) xs)" "take (Suc i) xs ! j = x"
      using mem unfolding in_set_conv_nth by blast
    have "xs ! j \<le> xs ! i" by (rule sorted_nth_mono [OF assms(1)]) (use j assms(3) in simp_all)
    then show ?thesis using n j by simp
  qed
  then have "filter (\<lambda>x. x < m) (take (Suc i) xs) = take (Suc i) xs" by (simp add: filter_id_conv)
  then have "Suc i \<le> length (filter (\<lambda>x. x < m) (take (Suc i) xs @ drop (Suc i) xs))"
    unfolding filter_append length_append using assms(3) by simp
  then show False using assms(2) by simp
qed

lemma sorted_nth_count:
  fixes xs :: "int list"
  assumes "sorted xs" "i < length xs"
  shows "length (filter (\<lambda>x. x < xs ! i) xs) \<le> i"
proof -
  have "xs ! i \<le> x" if mem: "x \<in> set (drop i xs)" for x
  proof -
    obtain j where j: "j < length (drop i xs)" "drop i xs ! j = x"
      using mem unfolding in_set_conv_nth by blast
    then show ?thesis using sorted_nth_mono [OF assms(1), of i "i + j"] by simp
  qed
  then have "filter (\<lambda>x. x < xs ! i) (drop i xs) = []" by (auto simp: filter_empty_conv not_less)
  then have "length (filter (\<lambda>x. x < xs ! i) (take i xs @ drop i xs)) \<le> i"
    unfolding filter_append length_append by (simp add: le_trans [OF length_filter_le])
  then show ?thesis by simp
qed

definition median :: "int list \<Rightarrow> int" where
  "median xs = sort xs ! (length xs div 2)"

lemma median_ge:
  assumes "length (filter (\<lambda>x. x < m) xs) \<le> length xs div 2" "xs \<noteq> []"
  shows "m \<le> median xs"
  unfolding median_def using assms
  by (intro sorted_nth_ge) (simp_all add: filter_sort)

lemma median_count:
  assumes "xs \<noteq> []"
  shows "length (filter (\<lambda>x. x < median xs) xs) \<le> length xs div 2"
  using sorted_nth_count [of "sort xs" "length xs div 2"] assms
  by (simp add: median_def filter_sort)

lemma median_in: "xs \<noteq> [] \<Longrightarrow> median xs \<in> set xs"
  by (metis div_less_dividend length_greater_0_conv length_sort median_def nth_mem one_less_numeral_iff
      semiring_norm(76) set_sort)

text \<open>The step from one window to the next: a value above the median comes in and some values
  go out, at most one unless only one is left beside the new one.\<close>

lemma median_step:
  assumes "median (ys @ zs) < t" "length zs \<le> 1" "length (ys @ zs) \<le> 11" "zs \<noteq> [] \<longrightarrow> length (ys @ zs) = 11" "ys @ zs \<noteq> []"
  shows "median (ys @ zs) \<le> median (t # ys)"
proof (rule median_ge)
  define m where "m = median (ys @ zs)"
  have "length (filter (\<lambda>x. x < m) (ys @ zs)) \<le> length (ys @ zs) div 2"
    unfolding m_def using median_count [OF assms(5)] .
  moreover have "\<not> t < m" using assms(1) by (simp add: m_def)
  moreover have "length (ys @ zs) div 2 \<le> length (t # ys) div 2"
    using assms(2-4) by (cases zs) auto
  ultimately show "length (filter (\<lambda>x. x < median (ys @ zs)) (t # ys)) \<le> length (t # ys) div 2"
    by (simp add: m_def [symmetric])
qed simp

lemma GetMedianTimePast_median: "GetMedianTimePast p = median (time_loop nMedianTimeSpan p False)"
proof -
  have "sort (rev xs) = sort xs" for xs :: "int list" by (rule properties_for_sort) simp_all
  then show ?thesis by (simp add: GetMedianTimePast_def median_def Let_def)
qed

lemma time_loop_prefix:
  "\<exists>zs. time_loop (Suc n) p w = time_loop n p w @ zs \<and> length zs \<le> 1 \<and> (zs \<noteq> [] \<longrightarrow> length (time_loop n p w) = n)"
proof (induction n p w rule: time_loop.induct)
  case (3 n b p w)
  then show ?case by (auto simp: Let_def)
next
  case (1 p w)
  then show ?case by (cases p) (auto simp: Let_def)
qed simp

lemma time_loop_length: "length (time_loop n p w) \<le> n"
  by (induction n p w rule: time_loop.induct) (auto simp: Let_def)

lemma time_loop_Cons:
  "time_loop (Suc n) (b # p) False = index_GetBlockTime b # time_loop n p (onFork (b # p))"
  by (simp add: Let_def)

lemma time_loop_wasOnFork:
  "p \<noteq> [] \<Longrightarrow> time_loop (Suc n) p True =
    (if onFork p then time_loop (Suc n) p False else [index_GetBlockTime (hd p)])"
  by (cases p) (auto simp: Let_def)

lemma MedianTimePast_step:
  assumes "p \<noteq> []" "GetMedianTimePast p < index_GetBlockTime b"
  shows "GetMedianTimePast p \<le> GetMedianTimePast (b # p)"
proof -
  define W where "W = time_loop 11 p False"
  obtain zs where z: "time_loop (Suc 10) p False = time_loop 10 p False @ zs" "length zs \<le> 1"
    "zs \<noteq> [] \<longrightarrow> length (time_loop 10 p False) = 10"
    using time_loop_prefix [of 10 p False] by blast
  have W: "W = time_loop 10 p False @ zs" using z(1) by (simp add: W_def)
  have mp: "GetMedianTimePast p = median W"
    by (simp add: GetMedianTimePast_median W_def nMedianTimeSpan_def)
  have next': "GetMedianTimePast (b # p) = median (index_GetBlockTime b # time_loop 10 p (onFork (b # p)))"
    using time_loop_Cons [of 10 b p] by (simp add: GetMedianTimePast_median nMedianTimeSpan_def)
  have ne: "W \<noteq> []" using assms(1) by (cases p) (simp_all add: W_def numeral_eq_Suc Let_def)
  show ?thesis
  proof (cases "onFork (b # p) \<and> \<not> onFork p")
    case False
    then have e: "time_loop 10 p (onFork (b # p)) = time_loop 10 p False"
      using time_loop_wasOnFork [OF assms(1), of 9] by (cases "onFork (b # p)") auto
    have "length (time_loop 10 p False @ zs) \<le> 11"
      using time_loop_length [of 11 p False] unfolding W_def [symmetric] W .
    then show ?thesis unfolding next' mp W e
      using assms(2) z(2,3) ne unfolding mp W
      by (intro median_step) (auto simp: le_Suc_eq)
  next
    case True
    then have e: "time_loop 10 p (onFork (b # p)) = [index_GetBlockTime (hd p)]"
      using time_loop_wasOnFork [OF assms(1), of 9] by auto
    have "index_GetBlockTime b \<le> median [index_GetBlockTime b, index_GetBlockTime (hd p)]"
      by (rule median_ge) simp_all
    then show ?thesis unfolding next' e using assms(2) by simp
  qed
qed


section \<open>Paths\<close>

text \<open>Heights count the entries back to the root.\<close>

fun wf_ptr :: "block_ptr \<Rightarrow> bool" where
  "wf_ptr [] = True"
| "wf_ptr (b # p) \<longleftrightarrow> height b = int (length p) \<and> wf_ptr p"

definition path :: "block_ptr \<Rightarrow> CChain" where
  "path p = map (\<lambda>i. drop (length p - Suc i) p) [0..<length p]"

lemma length_path [simp]: "length (path p) = length p" by (simp add: path_def)

lemma path_nth [simp]: "i < length p \<Longrightarrow> path p ! i = drop (length p - Suc i) p" by (simp add: path_def)

lemma wf_suffix: "wf_ptr p \<Longrightarrow> suffix q p \<Longrightarrow> wf_ptr q"
proof (induction p)
  case (Cons b p)
  then show ?case by (auto simp: suffix_Cons)
qed simp

lemma wf_height: "wf_ptr p \<Longrightarrow> p \<noteq> [] \<Longrightarrow> height (hd p) = int (length p) - 1"
  by (cases p) auto

lemma suffix_drop_eq: "suffix q p \<Longrightarrow> drop (length p - length q) p = q"
  by (auto simp: suffix_def)

lemma Contains_path:
  assumes "wf_ptr q" "q \<noteq> []"
  shows "chain_Contains (path p) q \<longleftrightarrow> suffix q p"
proof -
  have h: "height (hd q) = int (length q) - 1" using assms by (rule wf_height)
  have n: "0 < length q" using assms(2) by simp
  show ?thesis
  proof (cases "length q \<le> length p")
    case True
    have i: "nat (int (length q) - 1) = length q - 1" "length q - 1 < length p" "Suc (length q - 1) = length q"
      using n True by linarith+
    then have "path p ! nat (int (length q) - 1) = drop (length p - length q) p"
      by (simp only: path_nth)
    then have "chain_at (path p) (height (hd q)) = drop (length p - length q) p"
      using n True unfolding chain_at_def h by (simp del: path_nth)
    then show ?thesis unfolding chain_Contains_def using suffix_drop_eq suffix_drop by metis
  next
    case False
    then have "chain_at (path p) (height (hd q)) = []" using n unfolding chain_at_def h by simp
    then show ?thesis using False assms(2) suffix_length_le by (auto simp: chain_Contains_def)
  qed
qed

lemma Tip_path: "chain_Tip (path p) = p" by (cases p) (simp_all add: chain_Tip_def)

lemma Genesis_path: "chain_Genesis (path p) = (if p = [] then [] else [last p])"
  by (cases p rule: rev_cases) (simp_all add: chain_Genesis_def)

text \<open>The last common entry of two branches.\<close>

definition last_common :: "block_ptr \<Rightarrow> block_ptr \<Rightarrow> block_ptr \<Rightarrow> bool" where
  "last_common p q r \<longleftrightarrow> suffix r p \<and> suffix r q \<and> (\<forall>r'. suffix r' p \<and> suffix r' q \<longrightarrow> suffix r' r)"

lemma settip_loop_path:
  assumes "wf_ptr p" "suffix r p" "length v = length p"
    "\<forall>j. length r \<le> j \<and> j < length p \<longrightarrow> v ! j = path p ! j"
    "\<forall>j < length r. v ! j = (if j < length q then path q ! j else [])"
  shows "fst (settip_loop v r) = path p \<and> last_common r q (snd (settip_loop v r))"
  using assms
proof (induction v r rule: settip_loop.induct)
  case (1 v)
  then have "v = path p" by (intro nth_equalityI) auto
  then show ?case by (auto simp: last_common_def)
next
  case (2 v b r)
  have h: "nat (height b) = length r" using wf_suffix [OF 2(2,3)] by simp
  have l: "length r < length p" using suffix_length_le [OF 2(3)] by simp
  have v: "v ! length r = (if length r < length q then drop (length q - Suc (length r)) q else [])"
    using 2(6) by simp
  show ?case
  proof (cases "v ! length r = b # r")
    case True
    then have q: "length r < length q" "drop (length q - Suc (length r)) q = b # r"
      using v by (auto split: if_split_asm)
    then have s: "suffix (b # r) q" by (metis suffix_drop)
    have "v ! j = path p ! j" if j: "j < length p" for j
    proof (cases "j < Suc (length r)")
      case True
      then have "v ! j = drop (length q - Suc j) q" using 2(6) q(1) by simp
      also have "\<dots> = drop (length r - j) (drop (length q - Suc (length r)) q)"
        using True q(1) by simp
      also have "\<dots> = drop (length r - j) (drop (length p - Suc (length r)) p)"
        using suffix_drop_eq [OF 2(3)] by (simp add: q(2))
      also have "\<dots> = path p ! j" using True l by simp
      finally show ?thesis .
    next
      case False
      then show ?thesis using 2(5) j by simp
    qed
    then have "v = path p" using 2(4) by (intro nth_equalityI) auto
    then show ?thesis using True s by (simp add: h last_common_def)
  next
    case False
    have IH: "fst (settip_loop (v[length r := b # r]) r) = path p \<and>
        last_common r q (snd (settip_loop (v[length r := b # r]) r))"
    proof (rule 2(1) [unfolded h])
      show "v ! length r \<noteq> b # r" by (rule False)
      show "wf_ptr p" by (rule 2(2))
      show "suffix r p" using 2(3) by (metis suffix_ConsD)
      show "length (v[length r := b # r]) = length p" using 2(4) by simp
      show "\<forall>j. length r \<le> j \<and> j < length p \<longrightarrow> v[length r := b # r] ! j = path p ! j"
        using 2(4,5) l suffix_drop_eq [OF 2(3)] by (auto simp: nth_list_update)
      show "\<forall>j<length r. v[length r := b # r] ! j = (if j < length q then path q ! j else [])"
        using 2(6) by simp
    qed
    have ns: "\<not> suffix (b # r) q"
    proof
      assume s: "suffix (b # r) q"
      then show False using False v suffix_drop_eq [OF s] suffix_length_le [OF s] by auto
    qed
    have "last_common (b # r) q s \<longleftrightarrow> last_common r q s" for s
      unfolding last_common_def using ns by (auto simp: suffix_Cons)
    then show ?thesis using IH False by (simp add: h)
  qed
qed

lemma SetTip_path:
  assumes "wf_ptr p"
  shows "fst (SetTip (path q) p) = path p" "last_common p q (snd (SetTip (path q) p))"
proof -
  define v where "v = chain_resize (path q) (length p)"
  have v: "length v = length p" "\<forall>j < length p. v ! j = (if j < length q then path q ! j else [])"
    by (auto simp: v_def chain_resize_def nth_append)
  have "fst (settip_loop v p) = path p \<and> last_common p q (snd (settip_loop v p))"
    by (rule settip_loop_path) (use assms v in auto)
  moreover have "SetTip (path q) p = settip_loop v p" if "p \<noteq> []"
    using that wf_height [OF assms that] by (simp add: SetTip_def v_def)
  ultimately show "fst (SetTip (path q) p) = path p" "last_common p q (snd (SetTip (path q) p))"
    by (cases "p = []"; auto simp: SetTip_def path_def last_common_def)+
qed


section \<open>Locators\<close>

lemma walk_back_suffix: "suffix (walk_back v h p) p"
proof (induction p)
  case (Cons b p)
  then show ?case by (simp add: suffix_ConsI)
qed simp

lemma walk_back_stop:
  assumes "wf_ptr p" "p \<noteq> []" "0 \<le> h"
  shows "walk_back v h p \<noteq> [] \<and> (height (hd (walk_back v h p)) \<le> h \<or> chain_Contains v (walk_back v h p))"
  using assms
proof (induction p)
  case (Cons b p)
  then show ?case by (cases "p = []") (auto simp: not_less)
qed simp

text \<open>One round of the loop steps to a shorter, nonempty part of the branch.\<close>

lemma locator_step:
  assumes "wf_ptr p" "p \<noteq> []" "height (hd p) \<noteq> 0" "1 \<le> nStep"
    "h = max (height (hd p) - nStep) 0" "s = walk_back (path q) h p"
    "p' = (if height (hd s) > h then chain_at (path q) h else s)"
  shows "suffix p' p \<and> p' \<noteq> [] \<and> length p' < length p"
proof -
  have hp: "height (hd p) = int (length p) - 1" by (rule wf_height [OF assms(1,2)])
  have h: "0 \<le> h" "h < height (hd p)" using assms(3,4,5) hp assms(2) by (cases p; auto)+
  have s: "suffix s p" "s \<noteq> []" "height (hd s) \<le> h \<or> chain_Contains (path q) s"
    using walk_back_suffix walk_back_stop [OF assms(1,2) h(1)] unfolding assms(6) by auto
  have ws: "wf_ptr s" by (rule wf_suffix [OF assms(1) s(1)])
  have hs: "height (hd s) = int (length s) - 1" by (rule wf_height [OF ws s(2)])
  show ?thesis
  proof (cases "height (hd s) > h")
    case True
    then have "suffix s q" using s(3) Contains_path [OF ws s(2)] by simp
    then have sq: "length s \<le> length q" "drop (length q - length s) q = s"
      using suffix_length_le suffix_drop_eq by auto
    define k where "k = nat h"
    have k: "h = int k" "Suc k < length s" using h(1) True hs by (auto simp: k_def)
    have "chain_at (path q) h = drop (length q - Suc k) q" using k sq(1) by (simp add: chain_at_def)
    also have "\<dots> = drop (length s - Suc k) (drop (length q - length s) q)" using k sq(1) by simp
    also have "\<dots> = drop (length s - Suc k) s" by (simp add: sq(2))
    finally have c: "p' = drop (length s - Suc k) s" using True assms(7) by simp
    have "suffix p' p" using s(1) suffix_drop suffix_order.trans unfolding c by blast
    moreover have "length p' = Suc k" using k by (simp add: c)
    ultimately show ?thesis using k suffix_length_le [OF s(1)] by auto
  next
    case False
    then have "length s < length p" using hs hp h(2) by linarith
    then show ?thesis using False s assms(7) by simp
  qed
qed

lemma locator_loop_spec:
  assumes "wf_ptr p" "p \<noteq> []" "1 \<le> nStep"
  shows "\<exists>rs. locator_loop (path q) p nStep vHave = Some (vHave @ map (b_hashBlock \<circ> hd) (p # rs)) \<and>
    (\<forall>r \<in> set rs. suffix r p \<and> r \<noteq> []) \<and> last (p # rs) = [last p]"
  using assms
proof (induction "length p" arbitrary: p nStep vHave rule: less_induct)
  case less
  have hp: "height (hd p) = int (length p) - 1" by (rule wf_height [OF less.prems(1,2)])
  show ?case
  proof (cases "height (hd p) = 0")
    case True
    then obtain b where "p = [b]" using hp less.prems(2) by (cases p) auto
    then show ?thesis using True by (intro exI [of _ "[]"]) (simp add: locator_loop.simps Let_def)
  next
    case False
    define h where "h = max (height (hd p) - nStep) 0"
    define s where "s = walk_back (path q) h p"
    define p' where "p' = (if height (hd s) > h then chain_at (path q) h else s)"
    define n where "n = (if length (vHave @ [b_hashBlock (hd p)]) > 10 then nStep * 2 else nStep)"
    have st: "suffix p' p" "p' \<noteq> []" "length p' < length p"
      using locator_step [OF less.prems(1,2) False less.prems(3) h_def s_def p'_def] by auto
    have "1 \<le> n" using less.prems(3) by (simp add: n_def)
    then obtain rs where rs: "locator_loop (path q) p' n (vHave @ [b_hashBlock (hd p)])
        = Some ((vHave @ [b_hashBlock (hd p)]) @ map (b_hashBlock \<circ> hd) (p' # rs))"
      "\<forall>r \<in> set rs. suffix r p' \<and> r \<noteq> []" "last (p' # rs) = [last p']"
      using less.hyps [OF st(3) wf_suffix [OF less.prems(1) st(1)] st(2)] by blast
    have "locator_loop (path q) p nStep vHave = locator_loop (path q) p' n (vHave @ [b_hashBlock (hd p)])"
      using less.prems(2) False
      by (subst locator_loop.simps) (simp add: Let_def h_def s_def p'_def n_def)
    moreover have "last p' = last p" using st(1,2) by (auto simp: suffix_def)
    ultimately show ?thesis
      using rs st(1,2) suffix_order.trans by (intro exI [of _ "p' # rs"]) (auto split: if_split_asm)
  qed
qed

lemma suffix_last: "p \<noteq> [] \<Longrightarrow> suffix [last p] p"
  by (metis append_butlast_last_id suffix_def)

lemma FindFork_P:
  assumes "\<forall>h \<in> set hs. \<forall>r. m h = Some r \<longrightarrow> chain_Contains v r \<longrightarrow> P r" "P (chain_Genesis v)"
  shows "P (FindFork m v hs)"
  using assms by (induction m v hs rule: FindFork.induct) (auto split: option.split)


section \<open>Properties\<close>

fun times_ok :: "block_ptr \<Rightarrow> bool" where
  "times_ok [] = True"
| "times_ok (b # p) \<longleftrightarrow> times_ok p \<and> (p = [] \<or> GetMedianTimePast p < index_GetBlockTime b)"

lemma MedianTimePast_suffix:
  "times_ok (r @ q) \<Longrightarrow> q \<noteq> [] \<Longrightarrow> GetMedianTimePast q \<le> GetMedianTimePast (r @ q)"
proof (induction r)
  case (Cons b r)
  then show ?case using MedianTimePast_step [of "r @ q" b] by auto
qed simp

text \<open>C35: The rule of \<open>AcceptBlock\<close> that a block is later than the median time past of its
  parent makes that median never go back along a branch, also across the fork, where the
  window of eleven blocks is cut.\<close>

theorem MedianTimePast_monotone:
  assumes "times_ok p" "suffix q p" "q \<noteq> []"
  shows "GetMedianTimePast q \<le> GetMedianTimePast p"
  using assms MedianTimePast_suffix by (auto simp: suffix_def)

text \<open>Entries for the witnesses, by height, time, version and hash.\<close>

definition sample_index :: "u32 \<Rightarrow> u32 \<Rightarrow> u256 \<Rightarrow> CBlockIndex" where
  "sample_index h t hash =
     \<lparr> b_hashBlock = hash, b_pauxpow = None, b_nHeight = h, b_nMoneySupply = 0, b_subsidyScalingFactor = 0,
       b_nFile = 0, b_nDataPos = 0, b_nUndoPos = 0, b_nChainWork = 0, b_nTx = 0, b_nChainTx = 0,
       b_nStatus = 0, b_nVersion = 4, b_hashMerkleRoot = 0, b_nTime = t, b_nBits = 0x1d00ffff,
       b_nNonce = 0, b_nNonce256 = 0, b_nSolution = [], b_hashReserved = 0, b_nSequenceId = 0 \<rparr>"

lemma sample_height [simp]: "height (sample_index h t x) = sint h"
  by (simp add: height_def sample_index_def)

theorem MedianTimePast_monotone_witness:
  "GetMedianTimePast [sample_index 1 150 7, sample_index 0 100 8]
     \<le> GetMedianTimePast [sample_index 2 151 9, sample_index 1 150 7, sample_index 0 100 8]"
proof (rule MedianTimePast_monotone)
  show "times_ok [sample_index 2 151 9, sample_index 1 150 7, sample_index 0 100 8]"
    by code_simp
qed (simp_all add: suffix_def)

text \<open>C21: \<open>SetTip\<close> makes the active chain the path from the root to the new tip, whatever
  chain was active before, rewriting only the entries above the last common block of the
  two branches, which it returns.\<close>

theorem SetTip_correct:
  assumes "wf_ptr p"
  shows "fst (SetTip (path q) p) = path p \<and> last_common p q (snd (SetTip (path q) p))"
  using SetTip_path [OF assms] by blast

theorem SetTip_correct_witness:
  "fst (SetTip (path [sample_index 1 5 7, sample_index 0 1 8]) [sample_index 1 6 9, sample_index 0 1 8])
     = path [sample_index 1 6 9, sample_index 0 1 8]"
  using SetTip_correct [of "[sample_index 1 6 9, sample_index 0 1 8]" "[sample_index 1 5 7, sample_index 0 1 8]"]
  by simp

text \<open>C30: Two nodes find a common block: a locator taken from any branch is built in finitely
  many steps and starts at its tip; a node that looks it up in its own chain with the same
  genesis block gets an entry that is on both branches, and the tip of the branch itself
  when that is in its chain. Assumes that no two different known blocks have the same hash.\<close>

theorem FindFork_GetLocator:
  assumes "wf_ptr p" "wf_ptr q" "p \<noteq> []" "q \<noteq> []" "last p = last q"
    "\<And>s r. suffix s q \<Longrightarrow> s \<noteq> [] \<Longrightarrow> m (b_hashBlock (hd s)) = Some r \<Longrightarrow> r = s"
    "\<And>s. suffix s p \<Longrightarrow> s \<noteq> [] \<Longrightarrow> m (b_hashBlock (hd s)) = Some s"
  shows "\<exists>vHave. GetLocator (path q') q = Some vHave \<and>
    suffix (FindFork m (path p) vHave) p \<and> suffix (FindFork m (path p) vHave) q
    \<and> FindFork m (path p) vHave \<noteq> [] \<and> (suffix q p \<longrightarrow> FindFork m (path p) vHave = q)"
proof -
  obtain rs where l: "locator_loop (path q') q 1 [] = Some (map (b_hashBlock \<circ> hd) (q # rs))"
    and rs: "\<forall>r \<in> set rs. suffix r q \<and> r \<noteq> []"
    using locator_loop_spec [OF assms(2,4), of 1 q' "[]"] by auto
  define vHave where "vHave = map (b_hashBlock \<circ> hd) (q # rs)"
  define F where "F = FindFork m (path p) vHave"
  have "suffix F p \<and> suffix F q \<and> F \<noteq> []"
  proof -
    have "r = s" if "s \<in> set (q # rs)" "m ((b_hashBlock \<circ> hd) s) = Some r" for s r
      using that rs assms(4,6) by auto
    then have m: "\<forall>h \<in> set vHave. \<forall>r. m h = Some r \<longrightarrow> r \<in> set (q # rs)"
      unfolding vHave_def set_map by blast
    show ?thesis unfolding F_def
    proof (rule FindFork_P)
      show "\<forall>h \<in> set vHave. \<forall>r. m h = Some r \<longrightarrow> chain_Contains (path p) r \<longrightarrow> suffix r p \<and> suffix r q \<and> r \<noteq> []"
        using m rs assms(4) Contains_path wf_suffix [OF assms(2)] by fastforce
      show "suffix (chain_Genesis (path p)) p \<and> suffix (chain_Genesis (path p)) q \<and> chain_Genesis (path p) \<noteq> []"
        using assms(3-5) suffix_last [OF assms(3)] suffix_last [OF assms(4)] by (simp add: Genesis_path)
    qed
  qed
  moreover have "F = q" if s: "suffix q p"
    using assms(7) [OF s assms(4)] Contains_path [OF assms(2,4), of p] s by (simp add: F_def vHave_def)
  moreover have "GetLocator (path q') q = Some vHave" using l assms(4) by (simp add: GetLocator_def vHave_def)
  ultimately show ?thesis unfolding F_def by blast
qed

theorem FindFork_GetLocator_witness:
  "\<exists>vHave. GetLocator (path []) [sample_index 1 5 7, sample_index 0 1 8] = Some vHave
     \<and> FindFork [9 \<mapsto> [sample_index 1 6 9, sample_index 0 1 8], 8 \<mapsto> [sample_index 0 1 8]]
         (path [sample_index 1 6 9, sample_index 0 1 8]) vHave \<noteq> []"
proof -
  define p q where "p = [sample_index 1 6 9, sample_index 0 1 8]" and "q = [sample_index 1 5 7, sample_index 0 1 8]"
  define m :: "u256 \<rightharpoonup> block_ptr" where "m = [9 \<mapsto> p, 8 \<mapsto> [sample_index 0 1 8]]"
  have h: "b_hashBlock (sample_index a b c) = c" for a b c by (simp add: sample_index_def)
  have "\<exists>vHave. GetLocator (path []) q = Some vHave \<and>
    suffix (FindFork m (path p) vHave) p \<and> suffix (FindFork m (path p) vHave) q
    \<and> FindFork m (path p) vHave \<noteq> [] \<and> (suffix q p \<longrightarrow> FindFork m (path p) vHave = q)"
    by (rule FindFork_GetLocator)
      (auto simp: p_def q_def m_def h suffix_Cons split: if_split_asm)
  then show ?thesis unfolding p_def q_def m_def by blast
qed

end
