(* ===== verification/Difficulty.thy ===== *)
theory Difficulty imports Main Prelude Chain begin

text \<open>
  Retargeting (\<open>src/src/main.cpp\<close>): \<open>GetNextWorkRequired\<close>, which retargets once a day before
  the fork and calls \<open>DarkGravityWave\<close> for every block after it. The times are 32-bit
  values and the counts are at most the length of the chain, so the 64-bit arithmetic of the
  code on them is exact and the model has integers. \<open>None\<close> is a NULL pointer that is
  dereferenced or a failed assertion.
\<close>

section \<open>Dark gravity wave\<close>

record dgw =
  g_nActualTimespan :: int
  g_LastBlockTime :: int
  g_CountBlocks :: int
  g_PastDifficultyAverage :: bignum
  g_PastDifficultyAveragePrev :: bignum
  g_LastDifficultyAlgo :: bignum
  g_time_since_last_algo :: int
  g_LastBlockTimeOtherAlgos :: int
  g_lastInRow :: int
  g_lastInRowDone :: bool
  g_nInRow :: int
  g_nInRowDone :: bool

definition dgw_init :: dgw where
  "dgw_init =
     \<lparr> g_nActualTimespan = 0, g_LastBlockTime = 0, g_CountBlocks = 0, g_PastDifficultyAverage = 0,
       g_PastDifficultyAveragePrev = 0, g_LastDifficultyAlgo = 0, g_time_since_last_algo = -1,
       g_LastBlockTimeOtherAlgos = 0, g_lastInRow = 0, g_lastInRowDone = False, g_nInRow = 0,
       g_nInRowDone = False \<rparr>"

definition PastBlocksMin :: int where "PastBlocksMin = 25"
definition PastBlocksMax :: int where "PastBlocksMax = 25"

text \<open>A run of fewer than nine blocks is forgotten, a longer one is kept.\<close>

definition end_of_row :: "dgw \<Rightarrow> dgw" where
  "end_of_row s = (if g_nInRow s < 9 then s\<lparr>g_nInRow := 0\<rparr> else s\<lparr>g_nInRowDone := True\<rparr>)"

definition dgw_prefork :: "CBlockIndex \<Rightarrow> dgw \<Rightarrow> dgw" where
  "dgw_prefork b s =
     (let s = (if g_LastBlockTime s > 0 then s\<lparr>g_nActualTimespan := g_LastBlockTime s - index_GetBlockTime b\<rparr> else s);
          s = (if g_LastBlockTimeOtherAlgos s > 0 \<and> g_time_since_last_algo s = -1
               then s\<lparr>g_time_since_last_algo := g_LastBlockTimeOtherAlgos s - index_GetBlockTime b\<rparr> else s);
          s = s\<lparr>g_CountBlocks := g_CountBlocks s + 1\<rparr>
      in end_of_row s)"

definition dgw_other_algo :: "dgw \<Rightarrow> dgw" where
  "dgw_other_algo s = end_of_row (if g_CountBlocks s \<noteq> 0 then s\<lparr>g_lastInRowDone := True\<rparr> else s)"

definition dgw_same_algo :: "block_ptr \<Rightarrow> dgw \<Rightarrow> dgw" where
  "dgw_same_algo p s =
     (let nBits = b_nBits (hd p);
          s = (if g_CountBlocks s = 0 then s\<lparr>g_LastDifficultyAlgo := SetCompact nBits\<rparr> else s);
          s = s\<lparr>g_CountBlocks := g_CountBlocks s + 1\<rparr>;
          s = (if \<not> g_nInRowDone s then s\<lparr>g_nInRow := g_nInRow s + 1\<rparr> else s);
          s = (if \<not> g_lastInRowDone s then s\<lparr>g_lastInRow := g_lastInRow s + 1\<rparr> else s)
      in if g_CountBlocks s \<le> PastBlocksMin then
           let s = (if g_CountBlocks s = 1 then
                      let s = s\<lparr>g_PastDifficultyAverage := SetCompact nBits\<rparr>;
                          s = (if g_LastBlockTimeOtherAlgos s > 0
                               then s\<lparr>g_time_since_last_algo := g_LastBlockTimeOtherAlgos s - GetMedianTimePast p\<rparr> else s)
                      in s\<lparr>g_LastBlockTime := GetMedianTimePast p\<rparr>
                    else s\<lparr>g_PastDifficultyAverage :=
                      (g_PastDifficultyAveragePrev s * (g_CountBlocks s - 1) + SetCompact nBits) sdiv g_CountBlocks s\<rparr>)
           in s\<lparr>g_PastDifficultyAveragePrev := g_PastDifficultyAverage s\<rparr>
         else s)"

definition dgw_last :: "block_ptr \<Rightarrow> dgw \<Rightarrow> dgw" where
  "dgw_last p s = (if g_LastBlockTime s > 0 then s\<lparr>g_nActualTimespan := g_LastBlockTime s - GetMedianTimePast p\<rparr> else s)"

text \<open>The loop, with the entry it stops at.\<close>

fun dgw_loop :: "int \<Rightarrow> block_ptr \<Rightarrow> dgw \<Rightarrow> block_ptr \<times> dgw" where
  "dgw_loop algo [] s = ([], s)"
| "dgw_loop algo (b # p) s =
     (if height b < nForkHeight - 1 then (b # p, s)
      else if \<not> onFork (b # p) then (b # p, dgw_prefork b s)
      else
        let s = (if g_LastBlockTimeOtherAlgos s = 0 then s\<lparr>g_LastBlockTimeOtherAlgos := GetMedianTimePast (b # p)\<rparr> else s)
        in if GetAlgo (b_nVersion b) \<noteq> algo then dgw_loop algo p (dgw_other_algo s)
           else
             let s = dgw_same_algo (b # p) s in
             if p = [] then (b # p, dgw_last (b # p) s)
             else if g_CountBlocks s \<ge> PastBlocksMax then (b # p, dgw_last (b # p) s)
             else dgw_loop algo p s)"

fun past_in_row :: "int \<Rightarrow> block_ptr \<Rightarrow> int" where
  "past_in_row algo [] = 0"
| "past_in_row algo (b # p) =
     (if GetAlgo (b_nVersion b) \<noteq> algo \<or> \<not> onFork (b # p) then 0 else 1 + past_in_row algo p)"

text \<open>The times after the loop: the special retarget when the algorithm was not seen for 160
  minutes, and the clamps.\<close>

definition dgw_timespan :: "dgw \<Rightarrow> int \<Rightarrow> int \<times> int \<times> bool" where
  "dgw_timespan s lastInRow =
     (let target = (g_CountBlocks s - 1) * DGWtimespan;
          smultiply = (g_time_since_last_algo s > 9600);
          smultiplier = (if smultiply then g_time_since_last_algo s sdiv 9600 else 1);
          actual = (if smultiply then 10 * smultiplier * target else g_nActualTimespan s);
          actual = (if actual < target sdiv 3 \<or> lastInRow \<ge> 9 \<and> lastInRow smod 9 = 0 then target sdiv 3 else actual);
          actual = (if actual > target * 3 then smultiplier * target * 3 else actual)
      in (actual, smultiplier, smultiply))"

text \<open>The rows of blocks of the algorithm, continued before the window: the length of the last
  one, whether the surge protector is due, and whether it just was.\<close>

definition dgw_rows :: "int \<Rightarrow> block_ptr \<Rightarrow> dgw \<Rightarrow> int \<times> bool \<times> bool" where
  "dgw_rows algo BlockReading s =
     (let counting = (g_nInRow s \<noteq> 0 \<and> \<not> g_nInRowDone s \<or> g_lastInRow s \<noteq> 0 \<and> \<not> g_lastInRowDone s) \<and> BlockReading \<noteq> [];
          pastInRow = (if counting then past_in_row algo (tl BlockReading) else 0);
          lastInRow = (if counting \<and> \<not> g_lastInRowDone s then g_lastInRow s + pastInRow else g_lastInRow s);
          surge = (lastInRow \<ge> 9 \<and> lastInRow smod 9 = 0);
          justHadSurge = (g_nInRow s \<ge> 9
            \<or> g_nInRow s \<noteq> 0 \<and> pastInRow \<noteq> 0 \<and> g_nInRow s + pastInRow \<ge> 9 \<and> pastInRow smod 9 \<noteq> 0)
      in (lastInRow, surge, justHadSurge))"

definition dgw_new :: "CChainParams \<Rightarrow> int \<Rightarrow> block_ptr \<Rightarrow> dgw \<Rightarrow> bignum option" where
  "dgw_new pr algo BlockReading s =
     (let algoWeight = GetAlgoWeight algo;
          (lastInRow, surge, justHadSurge) = dgw_rows algo BlockReading s;
          bnNew = (if justHadSurge \<or> g_time_since_last_algo s > 9600 then g_LastDifficultyAlgo s
                   else g_PastDifficultyAverage s);
          (actual, smultiplier, smultiply) = dgw_timespan s lastInRow
      in if g_CountBlocks s \<ge> PastBlocksMin then
           Some (if surge then bnNew sdiv 3
                 else if \<not> justHadSurge then bnNew * actual sdiv ((g_CountBlocks s - 1) * DGWtimespan)
                 else bnNew)
         else if g_CountBlocks s = 1 then
           (if algo = ALGO_SCRYPT \<or> algo = ALGO_SHA256D then
              (if BlockReading = [] then None
               else Some (SetCompact (b_nBits (hd BlockReading)) * algoWeight sdiv (8 * GetAlgoWeight ALGO_SCRYPT)
                 * (if smultiply then smultiplier * 3 else 1)))
            else if TestNet pr then
              (if BlockReading = [] then None
               else Some (SetCompact (b_nBits (hd BlockReading)) * algoWeight sdiv 128 * (if smultiply then smultiplier * 3 else 1)))
            else Some (SetCompact 0x1d00ffff * algoWeight sdiv 128 * (if smultiply then smultiplier * 3 else 1)))
         else
           (let bnNew = bnNew * (if smultiply then smultiplier * 3 else 1)
            in Some (if surge then bnNew sdiv 3 else bnNew)))"

definition dgw_limit :: "CChainParams \<Rightarrow> int \<Rightarrow> bignum \<Rightarrow> bignum" where
  "dgw_limit pr algo bnNew =
     (let limit = p_bnProofOfWorkLimit pr * GetAlgoWeight algo;
          bnNew = (if bnNew > limit then limit else bnNew);
          bnHardLimit = 2 ^ 256 - 1
      in if bnNew > bnHardLimit then bnHardLimit else bnNew)"

definition DarkGravityWave :: "CChainParams \<Rightarrow> block_ptr \<Rightarrow> int \<Rightarrow> u32 option" where
  "DarkGravityWave pr pindexLast algo =
     (if pindexLast = [] \<or> height (hd pindexLast) = 0 \<or> height (hd pindexLast) < PastBlocksMin
      then Some (GetCompact (p_bnProofOfWorkLimit pr * GetAlgoWeight algo))
      else
        let (BlockReading, s) = dgw_loop algo pindexLast dgw_init
        in map_option (\<lambda>bnNew. GetCompact (dgw_limit pr algo bnNew)) (dgw_new pr algo BlockReading s))"

section \<open>The next target\<close>

definition retarget :: "CChainParams \<Rightarrow> CBlockIndex \<Rightarrow> CBlockIndex \<Rightarrow> bignum" where
  "retarget pr pindexLast pindexFirst =
     (let actual = index_GetBlockTime pindexLast - index_GetBlockTime pindexFirst;
          actual = (if actual < nTargetTimespan sdiv 4 then nTargetTimespan sdiv 4 else actual);
          actual = (if actual > nTargetTimespan * 4 then nTargetTimespan * 4 else actual);
          bnNew = SetCompact (b_nBits pindexLast) * actual sdiv nTargetTimespan
      in if bnNew > p_bnProofOfWorkLimit pr then p_bnProofOfWorkLimit pr else bnNew)"

definition GetNextWorkRequired :: "CChainParams \<Rightarrow> block_ptr \<Rightarrow> int \<Rightarrow> u32 option" where
  "GetNextWorkRequired pr p algo =
     (if RegTest pr then Some (GetCompact (p_bnProofOfWorkLimit pr))
      else if p = [] then None
      else if height (hd p) < nForkHeight - 1 \<or> \<not> IsSuperMajority 4 p 75 100 then
        (if (height (hd p) + 1) smod nInterval \<noteq> 0 then
           (if height (hd p) = 0 \<and> TestNet pr then Some (GetCompact (p_bnProofOfWorkLimit pr))
            else Some (b_nBits (hd p)))
         else
           (case drop (nat (nInterval - 1)) p of
              [] \<Rightarrow> None
            | pindexFirst # _ \<Rightarrow> Some (GetCompact (retarget pr (hd p) pindexFirst))))
      else DarkGravityWave pr p algo)"


section \<open>Rounding\<close>

lemma num_bytes_small:
  assumes "k < 2 ^ 256"
  shows "num_bytes k < 255"
proof (rule ccontr)
  assume "\<not> num_bytes k < 255"
  then have n: "254 \<le> num_bytes k - 1" "k \<noteq> 0" by (simp, cases "k = 0") simp_all
  have "(256 :: nat) ^ 254 \<le> 256 ^ (num_bytes k - 1)" by (rule power_increasing [OF n(1)]) simp
  also have "\<dots> \<le> k" using num_bytes_bounds n(2) by blast
  also have "k < 2 ^ 256" by (rule assms)
  also have "(2 :: nat) ^ 256 = 256 ^ 32" by simp
  also have "(256 :: nat) ^ 32 \<le> 256 ^ 254" by (rule power_increasing) simp_all
  finally show False by (simp only: less_irrefl)
qed

lemma compact_zero: "SetCompact (GetCompact 0) = 0"
  by (simp add: GetCompact_def SetCompact_def Let_def BN_get_word_def BN_set_negative_def)

lemma compact_rounds:
  assumes "0 \<le> n" "n < 2 ^ 256"
  shows "0 \<le> SetCompact (GetCompact n) \<and> SetCompact (GetCompact n) \<le> n"
proof (cases "n = 0")
  case True
  then show ?thesis by (simp only: compact_zero order_refl simp_thms)
next
  case False
  define k where "k = nat n"
  have k: "n = int k" "0 < k" using assms(1) False by (simp_all add: k_def)
  have "int k < int (2 ^ 256)" using assms(2) unfolding k(1) by (simp only: of_nat_power of_nat_numeral)
  then have "k < 2 ^ 256" by (simp only: of_nat_less_iff)
  then have "num_bytes k < 255" by (rule num_bytes_small)
  then have e: "SetCompact (GetCompact n) = int (compact_trunc k)"
    unfolding k(1) by (rule SetCompact_GetCompact_nat [rotated]) (use k(2) in simp)
  have "0 \<le> int (compact_trunc k) \<and> int (compact_trunc k) \<le> int k"
    using compact_trunc_bounds(1) [of k] k(2) by simp
  then show ?thesis unfolding e [symmetric] k(1) [symmetric] .
qed


section \<open>The loop\<close>

definition targets_ok :: "block_ptr \<Rightarrow> bool" where
  "targets_ok p \<longleftrightarrow> (\<forall>b \<in> set p. 0 \<le> SetCompact (b_nBits b))"

definition dgw_inv :: "dgw \<Rightarrow> bool" where
  "dgw_inv s \<longleftrightarrow> 0 \<le> g_CountBlocks s \<and> g_CountBlocks s \<le> 25 \<and> 0 \<le> g_PastDifficultyAverage s
     \<and> 0 \<le> g_PastDifficultyAveragePrev s \<and> 0 \<le> g_LastDifficultyAlgo s"

lemma dgw_inv_count: "dgw_inv s \<Longrightarrow> 0 \<le> g_CountBlocks s" by (simp add: dgw_inv_def)

lemma dgw_inv_init: "dgw_inv dgw_init" by (simp add: dgw_inv_def dgw_init_def)

lemma end_of_row_inv [simp]: "dgw_inv (end_of_row s) = dgw_inv s"
  "g_CountBlocks (end_of_row s) = g_CountBlocks s"
  by (simp_all add: dgw_inv_def end_of_row_def)

lemma dgw_prefork_inv:
  "dgw_inv s \<Longrightarrow> g_CountBlocks s < 25 \<Longrightarrow> dgw_inv (dgw_prefork b s) \<and> g_CountBlocks (dgw_prefork b s) = g_CountBlocks s + 1"
  by (simp add: dgw_prefork_def Let_def) (simp add: dgw_inv_def)

lemma dgw_other_inv [simp]: "dgw_inv (dgw_other_algo s) = dgw_inv s"
  "g_CountBlocks (dgw_other_algo s) = g_CountBlocks s"
  by (simp_all add: dgw_other_algo_def) (simp add: dgw_inv_def)

lemma dgw_last_inv [simp]: "dgw_inv (dgw_last p s) = dgw_inv s" "g_CountBlocks (dgw_last p s) = g_CountBlocks s"
  by (simp_all add: dgw_last_def dgw_inv_def)

lemma dgw_same_count: "g_CountBlocks (dgw_same_algo p s) = g_CountBlocks s + 1"
  by (simp add: dgw_same_algo_def Let_def)

lemma dgw_same_inv:
  assumes "dgw_inv s" "g_CountBlocks s < 25" "0 \<le> SetCompact (b_nBits (hd p))"
  shows "dgw_inv (dgw_same_algo p s)"
proof -
  have "0 \<le> (g_PastDifficultyAveragePrev s * g_CountBlocks s + SetCompact (b_nBits (hd p))) sdiv (g_CountBlocks s + 1)"
    using assms by (subst sdiv_nonneg) (auto simp: dgw_inv_def pos_imp_zdiv_nonneg_iff)
  then show ?thesis using assms by (simp add: dgw_same_algo_def Let_def PastBlocksMin_def) (simp add: dgw_inv_def)
qed

lemma dgw_loop_inv:
  assumes "wf_ptr p" "p \<noteq> []" "nForkHeight - 1 \<le> height (hd p)" "targets_ok p" "dgw_inv s" "g_CountBlocks s < 25"
    "dgw_loop algo p s = (q, s')"
  shows "q \<noteq> [] \<and> suffix q p \<and> dgw_inv s' \<and> 1 \<le> g_CountBlocks s'"
  using assms
proof (induction p arbitrary: s)
  case (Cons b p)
  have nb: "0 \<le> SetCompact (b_nBits b)" "targets_ok p" using Cons.prems(4) by (simp_all add: targets_ok_def)
  have hb: "\<not> height b < nForkHeight - 1" using Cons.prems(3) by simp
  show ?case
  proof (cases "onFork (b # p)")
    case False
    then have "q = b # p" "s' = dgw_prefork b s" using Cons.prems(7) hb by auto
    then show ?thesis using dgw_prefork_inv [OF Cons.prems(5,6)] dgw_inv_count [OF Cons.prems(5)] by auto
  next
    case True
    then have "nForkHeight \<le> height b" by (simp add: onFork_def)
    then have "200 \<le> length p" using Cons.prems(1) by (simp add: nForkHeight_def)
    then have "p \<noteq> []" by auto
    then have p: "p \<noteq> []" "nForkHeight - 1 \<le> height (hd p)" "wf_ptr p"
      using Cons.prems(1) wf_height [of p] \<open>200 \<le> length p\<close> by (simp_all add: nForkHeight_def)
    define s1 where "s1 = (if g_LastBlockTimeOtherAlgos s = 0
      then s\<lparr>g_LastBlockTimeOtherAlgos := GetMedianTimePast (b # p)\<rparr> else s)"
    have s1: "dgw_inv s1" "g_CountBlocks s1 < 25" using Cons.prems(5,6) by (simp_all add: s1_def dgw_inv_def)
    show ?thesis
    proof (cases "GetAlgo (b_nVersion b) = algo")
      case F: False
      have "dgw_loop algo p (dgw_other_algo s1) = (q, s')"
        using Cons.prems(7) hb True F by (simp add: s1_def [symmetric] Let_def)
      then show ?thesis
        using Cons.IH [OF p(3,1,2) nb(2), of "dgw_other_algo s1"] s1 by (auto simp: suffix_Cons)
    next
      case T: True
      define s2 where "s2 = dgw_same_algo (b # p) s1"
      have s2: "dgw_inv s2" using dgw_same_inv [OF s1, of "b # p"] nb(1) by (simp add: s2_def)
      have c2: "1 \<le> g_CountBlocks s2"
        using s1(1) by (simp add: s2_def dgw_same_count dgw_inv_def)
      have "(if g_CountBlocks s2 \<ge> PastBlocksMax then (b # p, dgw_last (b # p) s2) else dgw_loop algo p s2) = (q, s')"
        using Cons.prems(7) hb True T p(1) by (cases "PastBlocksMax \<le> g_CountBlocks s2") (auto simp: s1_def [symmetric] s2_def Let_def)
      then show ?thesis
        using Cons.IH [OF p(3,1,2) nb(2) s2] s2 c2
        by (auto simp: suffix_Cons PastBlocksMax_def split: if_split_asm)
    qed
  qed
qed simp

section \<open>The new target\<close>

lemma third: "0 \<le> t \<Longrightarrow> ((t :: int) * 960) sdiv 3 = t * 320"
  by (subst sdiv_nonneg) simp_all

lemma timespan_bounds:
  assumes "1 \<le> g_CountBlocks s" "dgw_timespan s r = (a, m, k)"
  shows "(g_CountBlocks s - 1) * 320 \<le> a \<and> a \<le> 3 * m * ((g_CountBlocks s - 1) * 960) \<and> 1 \<le> m
    \<and> (k \<longleftrightarrow> 9600 < g_time_since_last_algo s) \<and> m = max 1 (g_time_since_last_algo s div 9600)"
proof -
  define t where "t = g_CountBlocks s - 1"
  have t: "0 \<le> t" using assms(1) by (simp add: t_def)
  define k0 where "k0 \<longleftrightarrow> g_time_since_last_algo s > 9600"
  define m0 where "m0 = (if k0 then g_time_since_last_algo s sdiv 9600 else 1)"
  define a1 where "a1 = (if k0 then 10 * m0 * (t * 960) else g_nActualTimespan s)"
  define a2 where "a2 = (if a1 < t * 320 \<or> r \<ge> 9 \<and> r smod 9 = 0 then t * 320 else a1)"
  define a3 where "a3 = (if a2 > t * 960 * 3 then m0 * (t * 960) * 3 else a2)"
  have "dgw_timespan s r = (a3, m0, k0)"
    unfolding dgw_timespan_def Let_def DGWtimespan_def t_def [symmetric] third [OF t] k0_def [symmetric]
      m0_def [symmetric] a1_def [symmetric] a2_def [symmetric] a3_def [symmetric] by (rule refl)
  then have e: "a = a3" "m = m0" "k = k0" using assms(2) by simp_all
  have m: "m0 = max 1 (g_time_since_last_algo s div 9600)"
    by (auto simp: m0_def k0_def sdiv_nonneg)
  then have m1: "1 \<le> m0" by simp
  have "1 * (t * 960) \<le> m0 * (t * 960)" using m1 t by (intro mult_right_mono) simp_all
  moreover have "t * 320 \<le> a2" using t by (auto simp: a2_def)
  ultimately have "t * 320 \<le> a3" "a3 \<le> 3 * (m0 * (t * 960))" using t by (auto simp: a3_def)
  then show ?thesis unfolding e using m m1 by (simp add: t_def k0_def mult.assoc)
qed

text \<open>The branches of the new target, for full windows.\<close>

lemma scaled_div:
  assumes "0 \<le> x" "1 \<le> (c :: int)" "c * 320 \<le> a" "a \<le> 3 * m * (c * 960)" "1 \<le> m"
  shows "x div 3 \<le> x * a sdiv (c * 960) \<and> x * a sdiv (c * 960) \<le> 3 * m * x"
proof -
  have c: "0 < c * 960" "0 \<le> a" using assms by linarith+
  have e: "x * a sdiv (c * 960) = x * a div (c * 960)"
    using c assms(1) by (subst sdiv_nonneg) simp_all
  have "x div 3 = x * (c * 320) div (c * 960)"
  proof -
    have "x * (c * 320) div (c * 960) = ((c * 320) * x) div ((c * 320) * 3)" by (simp add: algebra_simps)
    also have "\<dots> = x div 3" using assms(2) by (subst div_mult_mult1) simp_all
    finally show ?thesis by simp
  qed
  also have "\<dots> \<le> x * a div (c * 960)"
    using assms(1,3) c(1) by (intro zdiv_mono1 mult_left_mono)
  finally have l: "x div 3 \<le> x * a div (c * 960)" .
  have "x * a \<le> x * (3 * m * (c * 960))" by (rule mult_left_mono [OF assms(4,1)])
  then have "x * a div (c * 960) \<le> x * (3 * m * (c * 960)) div (c * 960)"
    using c(1) by (rule zdiv_mono1)
  also have "\<dots> = 3 * m * x" using c(1) by simp
  finally show ?thesis using l e by simp
qed

lemma third_le: "0 \<le> (x :: int) \<Longrightarrow> x sdiv 3 = x div 3 \<and> x div 3 \<le> x"
  by (simp add: sdiv_nonneg)

definition dgw_factor :: "dgw \<Rightarrow> int" where
  "dgw_factor s = max 1 (g_time_since_last_algo s div 9600)"

lemma dgw_new_full:
  assumes "dgw_inv s" "25 \<le> g_CountBlocks s"
  shows "\<exists>n. dgw_new pr algo q s = Some n \<and>
    min (g_PastDifficultyAverage s) (g_LastDifficultyAlgo s) div 3 \<le> n \<and>
    n \<le> 3 * dgw_factor s * max (g_PastDifficultyAverage s) (g_LastDifficultyAlgo s)"
proof -
  define A B M where "A = g_PastDifficultyAverage s" and "B = g_LastDifficultyAlgo s" and "M = max A B"
  have AB: "0 \<le> A" "0 \<le> B" using assms(1) by (simp_all add: dgw_inv_def A_def B_def)
  obtain lastInRow surge just where rows: "dgw_rows algo q s = (lastInRow, surge, just)"
    by (cases "dgw_rows algo q s") auto
  obtain a m k where ts: "dgw_timespan s lastInRow = (a, m, k)" by (cases "dgw_timespan s lastInRow") auto
  define x where "x = (if just \<or> g_time_since_last_algo s > 9600 then B else A)"
  have d: "dgw_new pr algo q s = Some (if surge then x sdiv 3
      else if \<not> just then x * a sdiv ((g_CountBlocks s - 1) * 960) else x)"
    using assms(2) by (simp add: dgw_new_def rows ts Let_def PastBlocksMin_def DGWtimespan_def A_def B_def x_def)
  have c1: "1 \<le> g_CountBlocks s" using assms(2) by simp
  have b: "(g_CountBlocks s - 1) * 320 \<le> a" "a \<le> 3 * m * ((g_CountBlocks s - 1) * 960)" "1 \<le> m" "m = dgw_factor s"
    using timespan_bounds [OF c1 ts] unfolding dgw_factor_def by blast+
  have x: "0 \<le> x" "min A B \<le> x" "x \<le> M" using AB by (auto simp: x_def M_def)
  have "1 * M \<le> 3 * m * M" "1 * x \<le> 3 * m * x" using b(3) x by (intro mult_right_mono; linarith)+
  moreover have "3 * m * x \<le> 3 * m * M" using b(3) x by (intro mult_left_mono) linarith+
  moreover have "min A B div 3 \<le> x div 3" using x(2) by (rule zdiv_mono1) simp
  moreover have "x sdiv 3 = x div 3" "x div 3 \<le> x" using third_le [OF x(1)] by auto
  moreover have "x div 3 \<le> x * a sdiv ((g_CountBlocks s - 1) * 960) \<and> x * a sdiv ((g_CountBlocks s - 1) * 960) \<le> 3 * m * x"
    by (rule scaled_div [OF x(1) _ b(1-3)]) (use assms(2) in simp)
  ultimately have "min A B div 3 \<le> (if surge then x sdiv 3
      else if \<not> just then x * a sdiv ((g_CountBlocks s - 1) * 960) else x) \<and>
      (if surge then x sdiv 3 else if \<not> just then x * a sdiv ((g_CountBlocks s - 1) * 960) else x) \<le> 3 * m * M"
    by auto
  then show ?thesis unfolding d b(4) [symmetric] A_def [symmetric] B_def [symmetric] M_def [symmetric] by blast
qed

lemma dgw_new_some:
  assumes "dgw_inv s" "1 \<le> g_CountBlocks s" "q \<noteq> []" "0 \<le> SetCompact (b_nBits (hd q))"
  shows "\<exists>n. dgw_new pr algo q s = Some n \<and> 0 \<le> n"
proof (cases "25 \<le> g_CountBlocks s")
  case True
  then obtain n where "dgw_new pr algo q s = Some n"
    "min (g_PastDifficultyAverage s) (g_LastDifficultyAlgo s) div 3 \<le> n"
    using dgw_new_full assms(1) by blast
  moreover have "0 \<le> min (g_PastDifficultyAverage s) (g_LastDifficultyAlgo s) div 3"
    using assms(1) by (simp add: dgw_inv_def pos_imp_zdiv_nonneg_iff)
  ultimately show ?thesis by auto
next
  case False
  obtain lastInRow surge just where rows: "dgw_rows algo q s = (lastInRow, surge, just)"
    by (cases "dgw_rows algo q s") auto
  obtain a m k where ts: "dgw_timespan s lastInRow = (a, m, k)" by (cases "dgw_timespan s lastInRow") auto
  have m: "1 \<le> m" using timespan_bounds [OF assms(2) ts] by blast
  define f where "f = (if k then m * 3 else 1)"
  have f: "0 \<le> f" using m by (simp add: f_def)
  define x where "x = (if just \<or> g_time_since_last_algo s > 9600 then g_LastDifficultyAlgo s
                   else g_PastDifficultyAverage s)"
  have x: "0 \<le> x * f" using assms(1) f by (simp add: dgw_inv_def x_def)
  have sd: "0 \<le> a sdiv b" if "0 \<le> a" "0 < b" for a b :: int
    using that by (simp add: sdiv_nonneg pos_imp_zdiv_nonneg_iff)
  have one: "0 \<le> SetCompact c * GetAlgoWeight algo sdiv d * f" if "0 \<le> SetCompact c" "0 < d" for c d
    using that f weight_pos [of algo] by (intro mult_nonneg_nonneg sd) (simp_all add: less_imp_le)
  have c: "0 \<le> SetCompact 0x1d00ffff" by (simp add: SetCompact_def Let_def BN_set_negative_def)
  show ?thesis
    using False assms(2-4) one [OF c, of 128] one [OF assms(4), of 128] one [OF assms(4), of "8 * GetAlgoWeight ALGO_SCRYPT"]
      weight_pos [of ALGO_SCRYPT] x sd [OF x, of 3]
    by (simp add: dgw_new_def rows ts Let_def PastBlocksMin_def f_def [symmetric] x_def [symmetric])
qed

lemma limit_small: "p_bnProofOfWorkLimit (SelectParams n) < 2 ^ 256"
  by (cases n) (simp_all add: SelectParams_def mainParams_def testNetParams_def regTestParams_def)

lemma dgw_limit_bounds:
  assumes "0 \<le> n" "0 < p_bnProofOfWorkLimit pr"
  shows "0 \<le> dgw_limit pr algo n \<and> dgw_limit pr algo n < 2 ^ 256 \<and>
    dgw_limit pr algo n \<le> p_bnProofOfWorkLimit pr * GetAlgoWeight algo \<and> dgw_limit pr algo n \<le> n"
proof -
  define L where "L = p_bnProofOfWorkLimit pr * GetAlgoWeight algo"
  define H :: int where "H = 2 ^ 256 - 1"
  have L: "0 < L" using assms(2) weight_pos by (simp add: L_def)
  have H: "0 < H" "x < 2 ^ 256 \<longleftrightarrow> x \<le> H" for x unfolding H_def by (simp, simp only: zle_diff1_eq)
  show ?thesis
    unfolding dgw_limit_def Let_def L_def [symmetric] H_def [symmetric] H(2) using L H(1) assms(1) by auto
qed

lemma retarget_bounds:
  assumes "0 \<le> SetCompact (b_nBits a)"
  shows "retarget pr a b \<le> p_bnProofOfWorkLimit pr \<and> retarget pr a b \<le> 4 * SetCompact (b_nBits a)
    \<and> min (p_bnProofOfWorkLimit pr) (SetCompact (b_nBits a) div 4) \<le> retarget pr a b"
proof -
  define x where "x = SetCompact (b_nBits a)"
  define t where "t = index_GetBlockTime a - index_GetBlockTime b"
  define u where "u = (if t < 21600 then 21600 else t)"
  define v where "v = (if u > 86400 * 4 then 86400 * 4 else u)"
  define n where "n = x * v div 86400"
  have v: "21600 \<le> v" "v \<le> 345600" by (auto simp: v_def u_def)
  have x: "0 \<le> x" using assms by (simp add: x_def)
  have c: "nTargetTimespan = 86400" "(86400 :: int) sdiv 4 = 21600" by (simp_all add: nTargetTimespan_def sdiv_nonneg)
  have e: "x * v sdiv 86400 = n" using x v by (simp add: n_def sdiv_nonneg)
  have r: "retarget pr a b = min (p_bnProofOfWorkLimit pr) n"
    unfolding retarget_def Let_def c t_def [symmetric] x_def [symmetric] u_def [symmetric] v_def [symmetric] e
    by auto
  have "x * v \<le> x * 345600" "x * 21600 \<le> x * v" using x v by (simp_all add: mult_left_mono)
  then have "x * v div 86400 \<le> x * 345600 div 86400" "x * 21600 div 86400 \<le> x * v div 86400"
    by (simp_all add: zdiv_mono1 del: mult_le_cancel_left)
  moreover have "x * 345600 div 86400 = 4 * x" "x * 21600 div 86400 = x div 4" by simp_all
  ultimately have "n \<le> 4 * x" "x div 4 \<le> n" by (simp_all add: n_def)
  then show ?thesis using x unfolding r x_def [symmetric] by (auto simp: min_def)
qed

section \<open>A sample branch\<close>

definition sample_chain :: "nat \<Rightarrow> block_ptr" where
  "sample_chain n = map (\<lambda>h. sample_index (of_nat h) (of_nat h * 120) (of_nat h)) (rev [0..<n])"

lemma sample_chain_simps [simp]:
  "sample_chain 0 = []"
  "sample_chain (Suc n) = sample_index (of_nat n) (of_nat n * 120) (of_nat n) # sample_chain n"
  "length (sample_chain n) = n"
  by (simp_all add: sample_chain_def)

lemma sample_fields:
  "b_nVersion (sample_index h t x) = 4" "b_nBits (sample_index h t x) = 0x1d00ffff"
  by (simp_all add: sample_index_def)

lemma height_of_nat: "n < 2147483648 \<Longrightarrow> sint (of_nat n :: u32) = int n"
  using sint_small [of "of_nat n"] by (simp add: unat_of_nat)

lemma sample_wf: "n < 2147483648 \<Longrightarrow> wf_ptr (sample_chain n)"
  by (induction n) (simp_all add: height_of_nat)

lemma sample_targets: "targets_ok (sample_chain n)"
proof -
  have "0 \<le> SetCompact 0x1d00ffff" by (simp add: SetCompact_def Let_def BN_set_negative_def)
  then show ?thesis by (auto simp: targets_ok_def sample_chain_def sample_fields)
qed

lemma sample_onFork:
  assumes "200 \<le> n" "n < 2147483648"
  shows "onFork (sample_chain (Suc n))"
proof -
  have "filter (\<lambda>b. GetBlockVersion (b_nVersion b) \<ge> 4) (take 100 (sample_chain n)) = take 100 (sample_chain n)"
    by (rule filter_True) (auto simp: sample_chain_def sample_fields GetBlockVersion_def dest!: in_set_takeD)
  then show ?thesis using assms
    by (simp add: onFork_def IsSuperMajority_count height_of_nat nForkHeight_def del: sample_chain_simps(2))
      (simp add: height_of_nat)
qed

lemma dgw_loop_step:
  assumes "onFork (b # p)" "nForkHeight - 1 \<le> height b" "GetAlgo (b_nVersion b) = algo" "p \<noteq> []"
  shows "\<exists>s2. g_CountBlocks s2 = g_CountBlocks s + 1 \<and>
    dgw_loop algo (b # p) s =
      (if g_CountBlocks s2 \<ge> PastBlocksMax then (b # p, dgw_last (b # p) s2) else dgw_loop algo p s2)"
  using assms
  by (intro exI [of _ "dgw_same_algo (b # p) (if g_LastBlockTimeOtherAlgos s = 0
      then s\<lparr>g_LastBlockTimeOtherAlgos := GetMedianTimePast (b # p)\<rparr> else s)"])
    (simp add: Let_def dgw_same_count)

lemma sample_step:
  assumes "200 \<le> n" "n < 2147483648"
  shows "\<exists>s2. g_CountBlocks s2 = g_CountBlocks s + 1 \<and>
    dgw_loop 0 (sample_chain (Suc n)) s =
      (if g_CountBlocks s2 \<ge> 25 then (sample_chain (Suc n), dgw_last (sample_chain (Suc n)) s2)
       else dgw_loop 0 (sample_chain n) s2)"
proof -
  have "sample_chain n \<noteq> []" using assms(1) sample_chain_simps(3) [of n] by force
  moreover have "GetAlgo 4 = 0" by (simp add: GetAlgo_def ALGO_defs BLOCK_VERSION_defs)
  ultimately show ?thesis
    unfolding sample_chain_simps(2) PastBlocksMax_def [symmetric]
    by (intro dgw_loop_step sample_onFork [OF assms, unfolded sample_chain_simps(2)])
      (use assms in \<open>simp_all add: height_of_nat nForkHeight_def sample_fields\<close>)
qed

lemma sample_loop:
  assumes "g_CountBlocks s = 24 - int k" "200 + k \<le> n" "n < 2147483648"
  shows "g_CountBlocks (snd (dgw_loop 0 (sample_chain (Suc n)) s)) = 25"
  using assms
proof (induction k arbitrary: n s)
  case (0 n s)
  then show ?case using sample_step [of n s] by auto
next
  case (Suc k n s)
  obtain m where m: "n = Suc m" using Suc.prems(2) by (cases n) auto
  obtain s2 where s2: "g_CountBlocks s2 = 24 - int k"
    "dgw_loop 0 (sample_chain (Suc n)) s = dgw_loop 0 (sample_chain n) s2"
    using sample_step [of n s] Suc.prems by auto
  then show ?case using Suc.IH [of s2 m] Suc.prems by (simp add: m del: sample_chain_simps(2))
qed

section \<open>Properties\<close>

text \<open>C33: After the fork the next target always exists and is within bounds: for a branch with
  targets that are not negative, \<open>DarkGravityWave\<close> dereferences no NULL pointer and its
  result expands to a target between zero and the weighted limit of the algorithm (or the
  largest 256-bit number), so no sequence of block times makes mining easier than the limit.\<close>

theorem DarkGravityWave_bounds:
  assumes "wf_ptr p" "p \<noteq> []" "nForkHeight - 1 \<le> height (hd p)" "targets_ok p"
  shows "\<exists>c. DarkGravityWave (SelectParams net) p algo = Some c \<and> 0 \<le> SetCompact c
    \<and> SetCompact c \<le> p_bnProofOfWorkLimit (SelectParams net) * GetAlgoWeight algo \<and> SetCompact c < 2 ^ 256"
proof -
  define pr where "pr = SelectParams net"
  obtain q s where l: "dgw_loop algo p dgw_init = (q, s)" by fastforce
  have q: "q \<noteq> []" "suffix q p" "dgw_inv s" "1 \<le> g_CountBlocks s"
    using dgw_loop_inv [OF assms dgw_inv_init _ l] by (simp_all add: dgw_init_def)
  have "hd q \<in> set p" using q(1,2) by (auto simp: suffix_def)
  then have "0 \<le> SetCompact (b_nBits (hd q))" using assms(4) by (simp add: targets_ok_def)
  then obtain n where n: "dgw_new pr algo q s = Some n" "0 \<le> n"
    using dgw_new_some [OF q(3,4,1)] by blast
  define m where "m = dgw_limit pr algo n"
  have m: "0 \<le> m" "m < 2 ^ 256" "m \<le> p_bnProofOfWorkLimit pr * GetAlgoWeight algo"
    using dgw_limit_bounds [OF n(2), of pr algo] limit_pos [of net] by (simp_all add: m_def pr_def)
  have "height (hd p) \<noteq> 0" "\<not> height (hd p) < PastBlocksMin"
    using assms(3) by (simp_all add: nForkHeight_def PastBlocksMin_def)
  then have "DarkGravityWave pr p algo = Some (GetCompact m)"
    using assms(2) l n(1) by (simp add: DarkGravityWave_def m_def)
  moreover have "SetCompact (GetCompact m) \<le> m" "0 \<le> SetCompact (GetCompact m)" using compact_rounds [OF m(1,2)] by auto
  ultimately show ?thesis using m(2,3) unfolding pr_def [symmetric]
    by (intro exI [of _ "GetCompact m"] conjI) (assumption | linarith)+
qed

theorem DarkGravityWave_bounds_witness:
  "\<exists>c. DarkGravityWave (SelectParams MAIN) (sample_chain 230) 0 = Some c \<and> 0 \<le> SetCompact c"
  using DarkGravityWave_bounds [OF sample_wf _ _ sample_targets, of 230 MAIN 0]
  by (auto simp: nForkHeight_def wf_height [OF sample_wf] simp flip: length_greater_0_conv)

text \<open>C19: One step of \<open>DarkGravityWave\<close> over a full window changes the target by a bounded
  factor: it is at least a third of the smaller one of the average and the last target of the
  algorithm, and at most three times the larger one, times the number of started 160-minute
  periods without a block of the algorithm when the special retarget is on. This holds on
  every branch (surge protection, after a surge, special retarget, plain retarget).\<close>

theorem DarkGravityWave_clamp:
  assumes "wf_ptr p" "p \<noteq> []" "nForkHeight - 1 \<le> height (hd p)" "targets_ok p"
    "dgw_loop algo p dgw_init = (q, s)" "25 \<le> g_CountBlocks s"
  shows "\<exists>n. dgw_new pr algo q s = Some n \<and>
    min (g_PastDifficultyAverage s) (g_LastDifficultyAlgo s) div 3 \<le> n \<and>
    n \<le> 3 * max 1 (g_time_since_last_algo s div 9600) * max (g_PastDifficultyAverage s) (g_LastDifficultyAlgo s)"
  using dgw_new_full [OF _ assms(6), of pr algo q] dgw_loop_inv [OF assms(1-4) dgw_inv_init _ assms(5)]
  by (simp add: dgw_factor_def dgw_init_def)

theorem DarkGravityWave_clamp_witness:
  "\<exists>q s n. dgw_loop 0 (sample_chain 230) dgw_init = (q, s) \<and> dgw_new mainParams 0 q s = Some n
     \<and> min (g_PastDifficultyAverage s) (g_LastDifficultyAlgo s) div 3 \<le> n"
proof -
  obtain q s where l: "dgw_loop 0 (sample_chain 230) dgw_init = (q, s)" by fastforce
  have "g_CountBlocks (snd (dgw_loop 0 (sample_chain (Suc 229)) dgw_init)) = 25"
    by (rule sample_loop [of _ 24]) (simp_all add: dgw_init_def)
  then have c: "25 \<le> g_CountBlocks s" using l by simp
  have ne: "sample_chain 230 \<noteq> []" using sample_chain_simps(3) [of 230] by force
  then have h: "nForkHeight - 1 \<le> height (hd (sample_chain 230))"
    using wf_height [OF sample_wf ne] by (simp add: nForkHeight_def)
  have "\<exists>n. dgw_new mainParams 0 q s = Some n \<and>
      min (g_PastDifficultyAverage s) (g_LastDifficultyAlgo s) div 3 \<le> n \<and>
      n \<le> 3 * max 1 (g_time_since_last_algo s div 9600) * max (g_PastDifficultyAverage s) (g_LastDifficultyAlgo s)"
    by (rule DarkGravityWave_clamp [OF sample_wf ne h sample_targets l c]) simp
  then show ?thesis using l by blast
qed

text \<open>Before the fork the target is kept between the daily retargets, and a retarget is
  within a factor of four of the old target and within the limit of the network.\<close>

theorem GetNextWorkRequired_prefork:
  assumes "wf_ptr p" "p \<noteq> []" "height (hd p) < nForkHeight - 1 \<or> \<not> IsSuperMajority 4 p 75 100"
    "pr = mainParams" "0 \<le> SetCompact (b_nBits (hd p))"
  shows "if length p mod 720 = 0
    then \<exists>n. GetNextWorkRequired pr p algo = Some (GetCompact n) \<and> n \<le> p_bnProofOfWorkLimit pr
      \<and> n \<le> 4 * SetCompact (b_nBits (hd p))
      \<and> min (p_bnProofOfWorkLimit pr) (SetCompact (b_nBits (hd p)) div 4) \<le> n
    else GetNextWorkRequired pr p algo = Some (b_nBits (hd p))"
proof -
  have n720: "nInterval = 720" by (simp add: nInterval_def nTargetTimespan_def nTargetSpacing_def)
  then have nat_diff: "nat (nInterval - 1) = 719" by simp
  have "nInterval = 720" by (rule n720)
  moreover have "(height (hd p) + 1) smod nInterval = int (length p mod 720)"
    using wf_height [OF assms(1,2)] by (simp add: calculation smod_nonneg zmod_int)
  moreover have "\<not> RegTest pr" "\<not> TestNet pr" by (simp_all add: assms(4) RegTest_def TestNet_def mainParams_def)
  ultimately have code: "GetNextWorkRequired pr p algo =
      (if length p mod 720 \<noteq> 0 then Some (b_nBits (hd p))
       else (case drop 719 p of [] \<Rightarrow> None | b # _ \<Rightarrow> Some (GetCompact (retarget pr (hd p) b))))"
    using assms(2,3) by (simp add: GetNextWorkRequired_def nat_diff)
  show ?thesis
  proof (cases "length p mod 720 = 0")
    case True
    then have "720 \<le> length p" using assms(2) by (cases "length p < 720") auto
    then obtain b r where "drop 719 p = b # r" by (cases "drop 719 p") auto
    then have "GetNextWorkRequired pr p algo = Some (GetCompact (retarget pr (hd p) b))" using code True by simp
    then show ?thesis using True retarget_bounds [OF assms(5), of pr b] by auto
  qed (simp add: code)
qed

theorem GetNextWorkRequired_prefork_witness:
  "GetNextWorkRequired mainParams (sample_chain (Suc 6)) 0 = Some 0x1d00ffff"
proof -
  define p where "p = sample_chain (Suc 6)"
  have l: "length p = 7" "p \<noteq> []" "b_nBits (hd p) = 0x1d00ffff"
    by (simp_all only: p_def sample_chain_simps list.sel sample_fields list.simps) simp_all
  have w: "wf_ptr p" unfolding p_def by (rule sample_wf) simp
  have h: "height (hd p) < nForkHeight - 1"
    using wf_height [OF w l(2)] l(1) by (simp add: nForkHeight_def)
  have "0 \<le> SetCompact (b_nBits (hd p))" by (simp add: l(3) SetCompact_def Let_def BN_set_negative_def)
  then have "if length p mod 720 = 0
    then \<exists>n. GetNextWorkRequired mainParams p 0 = Some (GetCompact n) \<and> n \<le> p_bnProofOfWorkLimit mainParams
      \<and> n \<le> 4 * SetCompact (b_nBits (hd p))
      \<and> min (p_bnProofOfWorkLimit mainParams) (SetCompact (b_nBits (hd p)) div 4) \<le> n
    else GetNextWorkRequired mainParams p 0 = Some (b_nBits (hd p))"
    using GetNextWorkRequired_prefork [OF w l(2) _ refl] h by blast
  then show ?thesis unfolding l p_def [symmetric] by simp
qed

end
