(* ===== verification/Subsidy.thy ===== *)
theory Subsidy imports Complex_Main Prelude Chain Difficulty begin

text \<open>
  Emission (\<open>src/src/main.cpp\<close>): \<open>GetBlockValue\<close> and the coin emission modulation it uses:
  the previous block of an algorithm, the scaling factor of a day of its hash rate against
  the best day of a year, the rule for the flag that marks the blocks where the factor is
  computed, and the money supply that \<open>ConnectBlock\<close> records. Amounts are integers here:
  all are far below \<open>2^63\<close>. \<open>BoostBigNum\<close> is an integer; its conversion to a 32-bit word is
  the remainder modulo \<open>2^32\<close>, as documented for unsigned targets.
\<close>

definition NUM_ALGOS :: int where "NUM_ALGOS = 8"
definition nSSF :: nat where "nSSF = 90"

section \<open>Blocks of one algorithm\<close>

fun pprev_walk :: "int \<Rightarrow> block_ptr \<Rightarrow> block_ptr" where
  "pprev_walk algo [] = []"
| "pprev_walk algo (b # p) =
     (if onFork (b # p) then (if GetAlgo (b_nVersion b) = algo then b # p else pprev_walk algo p) else [])"

definition get_pprev_algo :: "block_ptr \<Rightarrow> int \<Rightarrow> block_ptr" where
  "get_pprev_algo p use_algo =
     (if p = [] then [] else if \<not> onFork p then []
      else pprev_walk (if use_algo \<ge> 0 then use_algo else GetAlgo (b_nVersion (hd p))) (tl p))"

fun mpow_walk :: "block_ptr \<Rightarrow> int" where
  "mpow_walk [] = 0"
| "mpow_walk (b # p) =
     (if \<not> onFork (b # p) then (if height b = 0 then 2000000000 sdiv NUM_ALGOS else sint (b_nMoneySupply b) sdiv NUM_ALGOS)
      else mpow_walk p)"

definition get_mpow_ms_correction :: "block_ptr \<Rightarrow> int" where
  "get_mpow_ms_correction p = mpow_walk (tl p)"

definition update_ssf :: "u32 \<Rightarrow> bool" where
  "update_ssf nVersion \<longleftrightarrow> nVersion AND BLOCK_VERSION_UPDATE_SSF \<noteq> 0"

section \<open>The scaling factor\<close>

text \<open>The rest of a day: \<open>n\<close> more blocks of the algorithm, with the hashes and the time so
  far; without enough blocks the hashes are 0.\<close>

fun ssf_day :: "nat \<Rightarrow> block_ptr \<Rightarrow> bignum \<Rightarrow> int \<Rightarrow> block_ptr \<times> bignum \<times> int" where
  "ssf_day 0 p hashes time_i = (p, hashes, time_i)"
| "ssf_day (Suc n) p hashes time_i =
     (let p = get_pprev_algo p (-1) in
      if p = [] then ([], 0, time_i)
      else ssf_day n p (hashes + GetBlockWorkBoost (hd p)) (GetMedianTimePast p))"

fun prefork_block :: "block_ptr \<Rightarrow> block_ptr" where
  "prefork_block [] = []"
| "prefork_block (b # p) = (if onFork (b # p) then prefork_block p else b # p)"

text \<open>The days, at most \<open>n\<close>: the peak and the first day's hash rate, or \<open>None\<close> for the early
  return of 0.\<close>

fun ssf_days :: "nat \<Rightarrow> bool \<Rightarrow> block_ptr \<Rightarrow> bignum \<Rightarrow> bignum \<Rightarrow> (bignum \<times> bignum) option" where
  "ssf_days 0 first p hashes_peak hashes_cur = Some (hashes_peak, hashes_cur)"
| "ssf_days (Suc n) first p hashes_peak hashes_cur =
     (let p = get_pprev_algo p (-1) in
      if p = [] then Some (hashes_peak, hashes_cur)
      else
        let time_f = GetMedianTimePast p;
            (p, hashes, time_i) = ssf_day (nSSF - 1) p (GetBlockWorkBoost (hd p)) 0;
            q = get_pprev_algo p (-1);
            time_i = (if q \<noteq> [] then GetMedianTimePast q
                      else if prefork_block p \<noteq> [] then index_GetBlockTime (hd (prefork_block p))
                      else time_i)
        in if time_f > time_i then
             let hashes = (hashes * 100000000) sdiv (time_f - time_i);
                 hashes_peak = (if hashes > hashes_peak then hashes else hashes_peak);
                 hashes_cur = (if first then hashes else hashes_cur)
             in ssf_days n False p hashes_peak hashes_cur
           else None)"

definition ssf_factor :: "bool \<Rightarrow> bignum \<Rightarrow> bignum \<Rightarrow> bignum" where
  "ssf_factor fork2 hashes_peak hashes_cur =
     (if hashes_peak > 0 \<and> hashes_cur \<noteq> hashes_peak then
        let precise = (100000000 * hashes_peak) sdiv (hashes_peak - hashes_cur) in
        if fork2 then precise
        else uint (word_of_int (if precise > 2 ^ 64 - 1 then 2 ^ 64 - 1 else precise) :: u32)
      else 0)"

definition get_ssf :: "block_ptr \<Rightarrow> bignum" where
  "get_ssf p =
     (case ssf_days 365 True p 0 0 of None \<Rightarrow> 0
      | Some (hashes_peak, hashes_cur) \<Rightarrow> ssf_factor (onFork2 p) hashes_peak hashes_cur)"

text \<open>The number of blocks since the last one with the flag, and their work.\<close>

fun ssf_height_loop :: "nat \<Rightarrow> int \<Rightarrow> block_ptr \<Rightarrow> int" where
  "ssf_height_loop 0 i p = -1"
| "ssf_height_loop (Suc n) i p =
     (if update_ssf (b_nVersion (hd p)) then i
      else let p = get_pprev_algo p (-1) in if p = [] then -1 else ssf_height_loop n (i + 1) p)"

definition get_ssf_height :: "block_ptr \<Rightarrow> int" where
  "get_ssf_height p = ssf_height_loop nSSF 0 p"

fun ssf_work_loop :: "nat \<Rightarrow> block_ptr \<Rightarrow> bignum \<Rightarrow> bignum option" where
  "ssf_work_loop 0 p hashes = None"
| "ssf_work_loop (Suc n) p hashes =
     (if update_ssf (b_nVersion (hd p)) then Some hashes
      else let p = get_pprev_algo p (-1) in
        if p = [] then None else ssf_work_loop n p (hashes + GetBlockWorkBoost (hd p)))"

definition get_ssf_work :: "block_ptr \<Rightarrow> u64" where
  "get_ssf_work p =
     (case ssf_work_loop nSSF p (GetBlockWorkBoost (hd p)) of
        None \<Rightarrow> 0 | Some hashes \<Rightarrow> word_of_int (hashes sdiv 1000000 sdiv 1000))"

text \<open>The check of the flag in \<open>ConnectBlock\<close>: True is acceptance.\<close>

fun ssf_flag_loop :: "bool \<Rightarrow> nat \<Rightarrow> nat \<Rightarrow> block_ptr \<Rightarrow> bool" where
  "ssf_flag_loop marked i 0 p = True"
| "ssf_flag_loop marked i (Suc n) p =
     (let p = get_pprev_algo p (-1) in
      if p = [] then True
      else if update_ssf (b_nVersion (hd p)) \<and> (if marked then i \<noteq> nSSF - 1 else i = nSSF - 1) then False
      else ssf_flag_loop marked (i + 1) n p)"

definition check_ssf_flag :: "block_ptr \<Rightarrow> bool" where
  "check_ssf_flag p = ssf_flag_loop (update_ssf (b_nVersion (hd p))) 0 nSSF p"

section \<open>The block value\<close>

text \<open>The emission points: below the first number the block pays the second.\<close>

definition emission_table :: "(int \<times> int) list" where
  "emission_table =
    [(788000000000000, 2000000000), (1379000000000000, 1500000000), (1773000000000000, 1000000000), (2068500000000000, 750000000),
     (2265500000000000, 500000000), (2413250000000000, 375000000), (2511750000000000, 250000000), (2585625000000000, 187500000),
     (2634875000000000, 125000000), (2671812500000000, 93750000), (2696437500000000, 62500000), (2714906250000000, 46875000),
     (2727218750000000, 31250000), (2736453125000000, 23437500), (2742609375000000, 15625000), (2747226562500000, 11718750),
     (2750304687500000, 7812500), (2752613281250000, 5859375), (2754152343750000, 3906250), (2755306640428000, 2929687),
     (2756076171284000, 1953124), (2756653319426000, 1464843), (2757038084854000, 976562), (2757326658728000, 732421),
     (2757519041048000, 488280), (2757663327788000, 366210), (2757759518948000, 244140), (2757831662318000, 183105),
     (2757879757898000, 122070), (2757915829386000, 91552), (2757939876782000, 61034), (2757957912132000, 45775),
     (2757969935436000, 30516), (2757978952914000, 22887), (2757984964566000, 15258)]"

fun table_lookup :: "(int \<times> int) list \<Rightarrow> int \<Rightarrow> int" where
  "table_lookup [] emitted = 0"
| "table_lookup ((limit, subsidy) # t) emitted = (if emitted < limit then subsidy else table_lookup t emitted)"

text \<open>\<open>emitted\<close> is eight times the supply of the algorithm, converted from a signed 64-bit
  value to an unsigned 256-bit one.\<close>

definition emitted_points :: "block_ptr \<Rightarrow> int" where
  "emitted_points p =
     (let q = get_pprev_algo p (-1) in
      uint (word_of_int (NUM_ALGOS * (if q \<noteq> [] then sint (b_nMoneySupply (hd q)) else get_mpow_ms_correction p)) :: u64))"

lemma pprev_walk_suffix: "suffix (pprev_walk algo p) p"
  by (induction p) (auto simp: suffix_ConsI)

lemma get_pprev_algo_suffix: "p \<noteq> [] \<Longrightarrow> suffix (get_pprev_algo p a) (tl p)"
  by (simp add: get_pprev_algo_def pprev_walk_suffix)

lemma get_pprev_algo_shorter: "p \<noteq> [] \<Longrightarrow> length (get_pprev_algo p a) < length p"
  using suffix_length_le [OF get_pprev_algo_suffix [of p a]] by (cases p) auto

text \<open>The search for the block where the factor was computed.\<close>

function key_block_factor :: "block_ptr \<Rightarrow> bignum option" where
  "key_block_factor p =
     (if p = [] then None
      else if update_ssf (b_nVersion (hd p)) then Some (get_ssf p)
      else key_block_factor (get_pprev_algo p (-1)))"
  by auto
termination by (relation "measure length") (auto simp: get_pprev_algo_shorter)

declare key_block_factor.simps [simp del]

definition to_u32 :: "bignum \<Rightarrow> int" where "to_u32 n = uint (word_of_int n :: u32)"

definition scaling_factor :: "block_ptr \<Rightarrow> bool \<Rightarrow> bignum" where
  "scaling_factor p noScale =
     (if noScale then 0
      else if to_u32 (b_subsidyScalingFactor (hd p)) = 0
        then (case key_block_factor p of None \<Rightarrow> b_subsidyScalingFactor (hd p) | Some f \<Rightarrow> f)
      else b_subsidyScalingFactor (hd p))"

definition scaled_value :: "int \<Rightarrow> bignum \<Rightarrow> int \<Rightarrow> int" where
  "scaled_value nFees scalingFactor baseSubsidy =
     (if to_u32 scalingFactor = 0 then nFees + baseSubsidy
      else nFees + baseSubsidy - to_u32 ((baseSubsidy * 100000000) sdiv scalingFactor) div 2)"

definition prefork_value :: "CChainParams \<Rightarrow> int \<Rightarrow> int \<Rightarrow> int" where
  "prefork_value pr nHeight nFees =
     (let nHalfReward = 10 * 100000000;
          halvings = nHeight sdiv p_nSubsidyHalvingInterval pr
      in if halvings \<ge> 18 then nFees
         else drop_bit (nat halvings) nHalfReward +
           drop_bit (nat ((nHeight + SubsidyInterimInterval pr) sdiv p_nSubsidyHalvingInterval pr)) nHalfReward + nFees)"

text \<open>The value, and the entry with the factor it stores.\<close>

definition GetBlockValue :: "CChainParams \<Rightarrow> block_ptr \<Rightarrow> int \<Rightarrow> bool \<Rightarrow> int \<times> block_ptr" where
  "GetBlockValue pr p nFees noScale =
     (if \<not> onFork p then (prefork_value pr (height (hd p)) nFees, p)
      else
        let f = scaling_factor p noScale;
            p' = (if noScale then p else (hd p)\<lparr>b_subsidyScalingFactor := f\<rparr> # tl p);
            baseSubsidy = (if RegTest pr then 1500000000 else table_lookup emission_table (emitted_points p))
        in (scaled_value nFees f baseSubsidy, p'))"

section \<open>The money supply\<close>

text \<open>What \<open>ConnectBlock\<close> does with the factor and the supply: the factor before the coinbase is
  checked (None: the coinbase pays too much, or after the third fork less than the strict
  subsidy), the supply after it.\<close>

definition connect_factor :: "block_ptr \<Rightarrow> block_ptr" where
  "connect_factor p =
     (if onFork p then
        if update_ssf (b_nVersion (hd p)) then (hd p)\<lparr>b_subsidyScalingFactor := get_ssf p\<rparr> # tl p
        else if get_pprev_algo p (-1) \<noteq> []
          then (hd p)\<lparr>b_subsidyScalingFactor := b_subsidyScalingFactor (hd (get_pprev_algo p (-1)))\<rparr> # tl p
        else p
      else p)"

definition money_supply :: "block_ptr \<Rightarrow> int \<Rightarrow> int \<Rightarrow> int" where
  "money_supply p out nFees =
     (if onFork p then
        (if get_pprev_algo p (-1) \<noteq> [] then sint (b_nMoneySupply (hd (get_pprev_algo p (-1)))) + out - nFees
         else get_mpow_ms_correction p + out - nFees)
      else if tl p \<noteq> [] then sint (b_nMoneySupply (hd (tl p))) + out - nFees
      else 2000000000)"

definition connect_money :: "CChainParams \<Rightarrow> block_ptr \<Rightarrow> int \<Rightarrow> int \<Rightarrow> block_ptr option" where
  "connect_money pr p out nFees =
     (let (v, p) = GetBlockValue pr (connect_factor p) nFees False in
      if out > v then None
      else let (w, p) = (if out < v \<and> onFork3 p then GetBlockValue pr p 0 False else (out, p)) in
      if out < w then None
      else Some ((hd p)\<lparr>b_nMoneySupply := word_of_int (money_supply p out nFees)\<rparr> # tl p))"


section \<open>The version rule of the fork\<close>

text \<open>The check in \<open>ConnectBlock\<close> compares the whole version word.\<close>

definition connect_version_ok :: "block_ptr \<Rightarrow> bool" where
  "connect_version_ok p \<longleftrightarrow> \<not> (onFork p \<and> sint (b_nVersion (hd p)) < 4)
     \<and> \<not> (onFork2 p \<and> (GetBlockVersion (b_nVersion (hd p)) < 4
          \<or> \<not> GetBlockVariant (b_nVersion (hd p)) \<and> \<not> GetBlockVariant2 (b_nVersion (hd p))))
     \<and> \<not> (onFork3 p \<and> (GetBlockVersion (b_nVersion (hd p)) < 4 \<or> \<not> GetBlockVariant2 (b_nVersion (hd p))))"

abbreviation new_version :: "CBlockIndex \<Rightarrow> bool" where
  "new_version b \<equiv> GetBlockVersion (b_nVersion b) \<ge> 4"

lemma onFork_count:
  "onFork (b # p) \<longleftrightarrow> 200 \<le> height b \<and> 75 \<le> length (filter new_version (take 100 p))"
  by (simp add: onFork_def nForkHeight_def IsSuperMajority_count)

section \<open>The emission table\<close>

fun table_ok :: "(int \<times> int) list \<Rightarrow> bool" where
  "table_ok [] = True"
| "table_ok ((l, s) # t) \<longleftrightarrow> 0 \<le> s \<and> list_all (\<lambda>(l', s'). s' \<le> s) t \<and> table_ok t"

lemma lookup_nonneg: "table_ok t \<Longrightarrow> 0 \<le> table_lookup t x"
  by (induction t x rule: table_lookup.induct) auto

lemma lookup_le: "0 \<le> s \<Longrightarrow> list_all (\<lambda>(l', s'). s' \<le> s) t \<Longrightarrow> table_lookup t x \<le> s"
  by (induction t x rule: table_lookup.induct) auto

lemma lookup_antimono: "table_ok t \<Longrightarrow> x \<le> y \<Longrightarrow> table_lookup t y \<le> table_lookup t x"
  by (induction t x rule: table_lookup.induct) (auto simp: lookup_le)

lemma lookup_end: "list_all (\<lambda>(l, s). l \<le> x) t \<Longrightarrow> table_lookup t x = 0"
  by (induction t x rule: table_lookup.induct) auto

lemma emission_ok: "table_ok emission_table" by (simp add: emission_table_def)

definition emission_end :: int where "emission_end = 2757984964566000"

lemma emission_after: "emission_end \<le> x \<Longrightarrow> table_lookup emission_table x = 0"
  by (rule lookup_end) (simp add: emission_table_def emission_end_def)

lemma emission_le: "table_lookup emission_table x \<le> 2000000000"
  by (rule lookup_le) (simp_all add: emission_table_def)

lemma scaled_value_le: "scaled_value f sf base \<le> f + base"
  by (simp add: scaled_value_def to_u32_def)

section \<open>Supply before the fork\<close>

text \<open>An upper bound of \<open>c + c + \<dots>\<close> over \<open>n\<close> blocks, halved every \<open>K\<close> of them.\<close>

definition halving_sum :: "nat \<Rightarrow> real \<Rightarrow> nat \<Rightarrow> real" where
  "halving_sum K c n = 2 * real K * c - (2 * real K - real (n mod K)) * (c / 2 ^ (n div K))"

lemma halving_sum_Suc:
  assumes "0 < K"
  shows "halving_sum K c (Suc n) = halving_sum K c n + c / 2 ^ (n div K)"
proof (cases "Suc (n mod K) = K")
  case True
  then have r: "Suc n mod K = 0" "Suc n div K = Suc (n div K)" "real (n mod K) = real K - 1"
    using assms by (auto simp: mod_Suc div_Suc)
  show ?thesis unfolding halving_sum_def r by (simp add: field_simps)
next
  case False
  then have r: "Suc n mod K = Suc (n mod K)" "Suc n div K = n div K" by (auto simp: mod_Suc div_Suc)
  show ?thesis unfolding halving_sum_def r by (simp add: algebra_simps add_divide_distrib)
qed

lemma halving_sum_le:
  assumes "0 < K" "0 \<le> c"
  shows "halving_sum K c n \<le> 2 * real K * c"
proof -
  have "real (n mod K) \<le> 2 * real K" using mod_less_divisor [OF assms(1), of n] by linarith
  then have "0 \<le> (2 * real K - real (n mod K)) * (c / 2 ^ (n div K))" using assms(2) by simp
  then show ?thesis by (simp add: halving_sum_def)
qed


text \<open>The supply that the blocks up to height \<open>h\<close> may have made: with \<open>10\<close> coins halved every
  788000 blocks, and again \<open>10\<close> coins halved the same way half an interval ahead.\<close>

definition prefork_cap :: "nat \<Rightarrow> real" where
  "prefork_cap h = halving_sum 788000 1000000000 (Suc h) +
     (halving_sum 788000 1000000000 (Suc h + 394000) - 394000 * 1000000000)"

lemma prefork_cap_le: "prefork_cap h \<le> 2758000000000000"
  using halving_sum_le [of 788000 1000000000 "Suc h"] halving_sum_le [of 788000 1000000000 "Suc h + 394000"]
  by (simp add: prefork_cap_def)

lemma prefork_cap_Suc:
  "prefork_cap (Suc h) = prefork_cap h + 1000000000 / 2 ^ (Suc h div 788000)
     + 1000000000 / 2 ^ ((Suc h + 394000) div 788000)"
  using halving_sum_Suc [of 788000 1000000000 "Suc h"] halving_sum_Suc [of 788000 1000000000 "Suc h + 394000"]
  by (simp add: prefork_cap_def)

lemma prefork_cap_0: "prefork_cap 0 = 2000000000"
proof -
  have "halving_sum 788000 1000000000 1 = 1000000000" by (simp add: halving_sum_def)
  moreover have "halving_sum 788000 1000000000 394001 = 394001 * 1000000000" by (simp add: halving_sum_def)
  ultimately show ?thesis by (simp add: prefork_cap_def)
qed

lemma drop_bit_le_real: "real_of_int (drop_bit k 1000000000) \<le> 1000000000 / 2 ^ k"
proof -
  have "real_of_int (1000000000 div 2 ^ k) \<le> real_of_int 1000000000 / real_of_int (2 ^ k)"
    by (rule real_of_int_div4)
  then show ?thesis unfolding drop_bit_eq_div by simp
qed

lemma prefork_value_le:
  "real_of_int (prefork_value mainParams (int h) f) \<le> real_of_int f
     + (1000000000 / 2 ^ (h div 788000) + 1000000000 / 2 ^ ((h + 394000) div 788000))"
proof -
  define a b where "a = h div 788000" and "b = (h + 394000) div 788000"
  have e: "int h sdiv 788000 = int a" "(int h + 394000) sdiv 788000 = int b"
    by (simp_all add: sdiv_nonneg a_def b_def zdiv_int)
  have i: "SubsidyInterimInterval mainParams = 394000" "p_nSubsidyHalvingInterval mainParams = 788000"
    by (simp_all add: SubsidyInterimInterval_def mainParams_def sdiv_nonneg)
  have v: "prefork_value mainParams (int h) f =
      (if 18 \<le> int a then f else drop_bit a 1000000000 + drop_bit b 1000000000 + f)"
    by (simp add: prefork_value_def Let_def i e)
  have p: "0 \<le> (1000000000 :: real) / 2 ^ a" "0 \<le> (1000000000 :: real) / 2 ^ b" by simp_all
  show ?thesis unfolding v a_def [symmetric] b_def [symmetric]
    using drop_bit_le_real [of a] drop_bit_le_real [of b] p by auto
qed

lemma prefork_cap_mono: "m \<le> n \<Longrightarrow> prefork_cap m \<le> prefork_cap n"
  by (rule lift_Suc_mono_le) (simp_all add: prefork_cap_Suc)

lemma prefork_cap_first: "h < 394000 \<Longrightarrow> prefork_cap h = 2000000000 * (real h + 1)"
proof (induction h)
  case (Suc h)
  then have "Suc h div 788000 = 0" "(Suc h + 394000) div 788000 = 0" by simp_all
  then show ?case using Suc by (simp add: prefork_cap_Suc)
qed (simp add: prefork_cap_0)

text \<open>A block of the fork pays at most 20 coins, and an eighth of \<open>MAX_MONEY\<close> is less than what the
  first interval makes before the fork: so the cap holds on the fork as well.\<close>

lemma prefork_cap_step:
  assumes "real_of_int P \<le> prefork_cap n" "n < h" "m \<le> P + 2000000000" "8 * m \<le> MAX_MONEY"
  shows "real_of_int m \<le> prefork_cap h"
proof (cases "h < 394000")
  case True
  then have "prefork_cap n + 2000000000 \<le> prefork_cap h" using assms(2) by (simp add: prefork_cap_first)
  moreover have "real_of_int m \<le> real_of_int P + 2000000000" using assms(3) by linarith
  ultimately show ?thesis using assms(1) by linarith
next
  case False
  then have "788000000000000 \<le> prefork_cap h" using prefork_cap_mono [of 393999 h] by (simp add: prefork_cap_first)
  moreover have "m \<le> 350000000000000" using assms(4) by (simp add: MAX_MONEY_def COIN_def)
  ultimately show ?thesis by linarith
qed

section \<open>The supply is bounded\<close>

definition supply_of :: "CBlockIndex \<Rightarrow> int" where "supply_of b = sint (b_nMoneySupply b)"

fun supply_ok :: "block_ptr \<Rightarrow> bool" where
  "supply_ok [] = True"
| "supply_ok (b # p) \<longleftrightarrow> supply_ok p \<and> wf_ptr (b # p) \<and> real_of_int (supply_of b) \<le> prefork_cap (length p)
     \<and> (onFork (b # p) \<longrightarrow> 8 * supply_of b \<le> MAX_MONEY)"

lemma supply_suffix: "supply_ok p \<Longrightarrow> suffix q p \<Longrightarrow> supply_ok q"
  by (induction p) (auto simp: suffix_Cons)

lemma pprev_walk_fork: "pprev_walk algo p \<noteq> [] \<Longrightarrow> onFork (pprev_walk algo p)"
  by (induction p) auto

lemma get_pprev_algo_fork: "get_pprev_algo p a \<noteq> [] \<Longrightarrow> onFork (get_pprev_algo p a)"
  by (auto simp: get_pprev_algo_def pprev_walk_fork split: if_split_asm)

lemma sdiv8_le:
  assumes "x \<le> (y :: int)" "0 \<le> y"
  shows "x sdiv 8 \<le> y \<and> 8 * (x sdiv 8) \<le> y"
proof (cases "0 \<le> x")
  case True
  then have "x sdiv 8 = x div 8" by (simp add: sdiv_nonneg)
  moreover have "0 \<le> x div 8" "8 * (x div 8) \<le> x" using True by presburger+
  ultimately show ?thesis using assms by linarith
next
  case False
  then have "x sdiv 8 \<le> 0" by (simp add: signed_divide_int_def sgn_if)
  then show ?thesis using assms by simp
qed

lemma mpow_bounds:
  "supply_ok p \<Longrightarrow> p \<noteq> [] \<Longrightarrow> 8 * mpow_walk p \<le> MAX_MONEY \<and> (\<exists>n < length p. real_of_int (mpow_walk p) \<le> prefork_cap n)"
proof (induction p)
  case (Cons b p)
  have m: "MAX_MONEY = 2800000000000000" by (simp add: MAX_MONEY_def COIN_def)
  have pos: "2000000000 \<le> prefork_cap n" for n using prefork_cap_mono [of 0 n] by (simp add: prefork_cap_0)
  show ?case
  proof (cases "onFork (b # p)")
    case True
    show ?thesis
    proof (cases p)
      case Nil
      then show ?thesis using True by (simp add: onFork_count)
    qed (use Cons True in \<open>auto intro: less_SucI\<close>)
  next
    case False
    define y where "y = max (supply_of b) 0"
    have y: "supply_of b sdiv 8 \<le> y" "8 * (supply_of b sdiv 8) \<le> y" using sdiv8_le [of "supply_of b" y] by (simp_all add: y_def)
    have "real_of_int (supply_of b) \<le> prefork_cap (length p)" using Cons.prems by simp
    then have c: "real_of_int y \<le> prefork_cap (length p)" using pos [of "length p"] by (simp add: y_def max_def)
    then have "real_of_int (supply_of b sdiv 8) \<le> prefork_cap (length p)" "8 * (supply_of b sdiv 8) \<le> 2758000000000000"
      using y prefork_cap_le [of "length p"] by linarith+
    moreover have "(2000000000 :: int) sdiv 8 = 250000000" by (simp add: sdiv_nonneg)
    ultimately show ?thesis using False pos [of "length p"] m
      by (auto simp: NUM_ALGOS_def supply_of_def intro!: exI [of _ "length p"])
  qed
qed simp

lemma scaled_fields [simp]:
  "onFork (b\<lparr>b_subsidyScalingFactor := x\<rparr> # p) = onFork (b # p)"
  "height (b\<lparr>b_subsidyScalingFactor := x\<rparr>) = height b"
  "get_pprev_algo (b\<lparr>b_subsidyScalingFactor := x\<rparr> # p) a = get_pprev_algo (b # p) a"
  "onFork (b\<lparr>b_nMoneySupply := m\<rparr> # p) = onFork (b # p)"
  "height (b\<lparr>b_nMoneySupply := m\<rparr>) = height b"
  by (simp_all add: onFork_def get_pprev_algo_def height_def)

lemma scaled_money [simp]:
  "money_supply (b\<lparr>b_subsidyScalingFactor := x\<rparr> # p) out f = money_supply (b # p) out f"
  "emitted_points (b\<lparr>b_subsidyScalingFactor := x\<rparr> # p) = emitted_points (b # p)"
  by (simp_all add: money_supply_def emitted_points_def get_mpow_ms_correction_def Let_def del: sint_uint)

text \<open>An accepted coinbase pays at most the fees and the nominal subsidy.\<close>

lemma connect_money_bound:
  assumes "connect_money mainParams (b # p) out f = Some p'"
  shows "\<exists>x. p' = b\<lparr>b_subsidyScalingFactor := x, b_nMoneySupply := word_of_int (money_supply (b # p) out f)\<rparr> # p"
    "out \<le> (if onFork (b # p) then f + table_lookup emission_table (emitted_points (b # p))
            else prefork_value mainParams (height b) f)"
proof -
  obtain x where x: "connect_factor (b # p) = b\<lparr>b_subsidyScalingFactor := x\<rparr> # p"
  proof
    show "connect_factor (b # p) = b\<lparr>b_subsidyScalingFactor := b_subsidyScalingFactor (hd (connect_factor (b # p)))\<rparr> # p"
      by (simp add: connect_factor_def)
  qed
  define b1 where "b1 = b\<lparr>b_subsidyScalingFactor := x\<rparr>"
  obtain v y where v: "GetBlockValue mainParams (b1 # p) f False = (v, b\<lparr>b_subsidyScalingFactor := y\<rparr> # p)"
    "v \<le> (if onFork (b # p) then f + table_lookup emission_table (emitted_points (b # p))
          else prefork_value mainParams (height b) f)"
  proof (cases "onFork (b # p)")
    case True
    then show ?thesis using that scaled_value_le
      by (simp add: GetBlockValue_def Let_def b1_def RegTest_def mainParams_def)
  next
    case False
    then show ?thesis using that by (simp add: GetBlockValue_def b1_def)
  qed
  have "\<exists>z. snd (GetBlockValue mainParams (b\<lparr>b_subsidyScalingFactor := y\<rparr> # p) 0 False) = b\<lparr>b_subsidyScalingFactor := z\<rparr> # p"
    by (auto simp: GetBlockValue_def Let_def)
  then obtain w z where w: "GetBlockValue mainParams (b\<lparr>b_subsidyScalingFactor := y\<rparr> # p) 0 False = (w, b\<lparr>b_subsidyScalingFactor := z\<rparr> # p)"
    by (metis prod.collapse)
  have "out \<le> v \<and> (\<exists>y. p' = b\<lparr>b_subsidyScalingFactor := y, b_nMoneySupply := word_of_int (money_supply (b # p) out f)\<rparr> # p)"
    using assms by (auto simp: connect_money_def x b1_def [symmetric] v(1) w split: if_split_asm)
  then show "\<exists>x. p' = b\<lparr>b_subsidyScalingFactor := x, b_nMoneySupply := word_of_int (money_supply (b # p) out f)\<rparr> # p"
    "out \<le> (if onFork (b # p) then f + table_lookup emission_table (emitted_points (b # p))
            else prefork_value mainParams (height b) f)"
    using v(2) by auto
qed

text \<open>The supply that the previous block of the algorithm gives, or the share of the last block
  before the fork.\<close>

definition prev_supply :: "block_ptr \<Rightarrow> int" where
  "prev_supply p =
     (if get_pprev_algo p (-1) \<noteq> [] then supply_of (hd (get_pprev_algo p (-1))) else get_mpow_ms_correction p)"

lemma prev_supply_bounds:
  assumes "supply_ok p" "p \<noteq> []"
  shows "8 * prev_supply (b # p) \<le> MAX_MONEY \<and> (\<exists>n < length p. real_of_int (prev_supply (b # p)) \<le> prefork_cap n)"
proof (cases "get_pprev_algo (b # p) (-1) = []")
  case True
  then show ?thesis using mpow_bounds [OF assms] by (simp add: prev_supply_def get_mpow_ms_correction_def)
next
  case False
  then obtain c q where q: "get_pprev_algo (b # p) (-1) = c # q" by (cases "get_pprev_algo (b # p) (-1)") auto
  have "onFork (c # q)" using get_pprev_algo_fork [of "b # p" "-1"] q by simp
  moreover have s: "suffix (c # q) p" using get_pprev_algo_suffix [of "b # p" "-1"] q by simp
  then have "supply_ok (c # q)" by (rule supply_suffix [OF assms(1)])
  moreover have "length q < length p" using suffix_length_le [OF s] by simp
  ultimately show ?thesis by (auto simp: prev_supply_def q)
qed

lemma emission_step:
  assumes "8 * P \<le> MAX_MONEY"
  shows "8 * (P + table_lookup emission_table (uint (word_of_int (8 * P) :: u64))) \<le> MAX_MONEY"
proof (cases "0 \<le> P")
  case True
  have m: "MAX_MONEY = 2800000000000000" by (simp add: MAX_MONEY_def COIN_def)
  have "uint (word_of_int (8 * P) :: u64) = 8 * P"
    unfolding uint_word_of_int_eq by (rule take_bit_int_eq_self) (use assms True m in auto)
  then show ?thesis
    using assms emission_after [of "8 * P"] emission_le [of "8 * P"] unfolding m
    by (cases "emission_end \<le> 8 * P") (auto simp: emission_end_def)
next
  case False
  then show ?thesis using emission_le [of "uint (word_of_int (8 * P) :: u64)"] by (simp add: MAX_MONEY_def COIN_def)
qed

lemma supply_of_set [simp]:
  "- 9223372036854775808 \<le> m \<Longrightarrow> m < 9223372036854775808 \<Longrightarrow>
    supply_of (b\<lparr>b_subsidyScalingFactor := x, b_nMoneySupply := word_of_int m\<rparr>) = m"
  by (simp add: supply_of_def sint_sbintrunc' signed_take_bit_int_eq_self)

lemma money_supply_fork:
  "onFork (b # p) \<Longrightarrow> money_supply (b # p) out f = prev_supply (b # p) + out - f"
  by (simp add: money_supply_def prev_supply_def supply_of_def)

lemma emitted_points_prev:
  "emitted_points p = uint (word_of_int (8 * prev_supply p) :: u64)"
  by (simp only: emitted_points_def prev_supply_def supply_of_def NUM_ALGOS_def Let_def)

lemma same_fields:
  "wf_ptr (b\<lparr>b_subsidyScalingFactor := x, b_nMoneySupply := m\<rparr> # p) = wf_ptr (b # p)"
  "onFork (b\<lparr>b_subsidyScalingFactor := x, b_nMoneySupply := m\<rparr> # p) = onFork (b # p)"
  by (simp_all add: onFork_def height_def)

lemma connect_money_ok:
  assumes ok: "supply_ok p" and wf: "wf_ptr (b # p)"
    and con: "connect_money mainParams (b # p) out f = Some p'" and fits: "- 9223372036854775808 \<le> money_supply (b # p) out f"
  shows "supply_ok p'"
proof -
  let ?m = "money_supply (b # p) out f"
  note bd = connect_money_bound [OF con]
  obtain x where p': "p' = b\<lparr>b_subsidyScalingFactor := x, b_nMoneySupply := word_of_int ?m\<rparr> # p" using bd(1) by blast
  have h: "height b = int (length p)" using wf by simp
  have "real_of_int ?m \<le> prefork_cap (length p) \<and> (onFork (b # p) \<longrightarrow> 8 * ?m \<le> MAX_MONEY)"
  proof (cases "onFork (b # p)")
    case True
    then have "p \<noteq> []" by (auto simp: onFork_count)
    from prev_supply_bounds [OF ok this, of b] obtain n
      where P: "8 * prev_supply (b # p) \<le> MAX_MONEY" "n < length p" "real_of_int (prev_supply (b # p)) \<le> prefork_cap n" by blast
    have m: "?m \<le> prev_supply (b # p) + table_lookup emission_table (emitted_points (b # p))"
      using bd(2) True by (simp add: money_supply_fork)
    then have "8 * ?m \<le> 8 * (prev_supply (b # p) + table_lookup emission_table (emitted_points (b # p)))" by simp
    also have "\<dots> \<le> MAX_MONEY" unfolding emitted_points_prev using P(1) by (rule emission_step)
    finally have le: "8 * ?m \<le> MAX_MONEY" .
    have "?m \<le> prev_supply (b # p) + 2000000000" using m emission_le [of "emitted_points (b # p)"] by linarith
    then show ?thesis using prefork_cap_step [OF P(3,2) _ le] le by simp
  next
    case False
    show ?thesis
    proof (cases p)
      case Nil
      then show ?thesis using False by (simp add: money_supply_def prefork_cap_0)
    next
      case (Cons c q)
      have "real_of_int (supply_of c) \<le> prefork_cap (length q)" using ok Cons by simp
      moreover have "real_of_int out \<le> real_of_int (prefork_value mainParams (int (length p)) f)"
        using bd(2) False h by simp
      ultimately show ?thesis using prefork_value_le [of "length p" f] prefork_cap_Suc [of "length q"] False Cons
        by (simp add: money_supply_def supply_of_def)
    qed
  qed
  moreover from this have "?m < 9223372036854775808" using prefork_cap_le [of "length p"] by linarith
  ultimately show ?thesis using ok wf fits unfolding p' supply_ok.simps same_fields by simp
qed

text \<open>The chains that connecting blocks makes on the main network: each coinbase is accepted for what
  it pays out and the fees it is given, the supply is recorded, and the undo position and the status of
  the entry are set. The one condition of its own is that the difference which is recorded does not
  run below the 64 bits it is kept in; it may be negative.\<close>

inductive minted :: "block_ptr \<Rightarrow> bool" where
  genesis: "b_nHeight b = 0 \<Longrightarrow> supply_of b = 2000000000 \<Longrightarrow> minted [b]"
| connect: "minted p \<Longrightarrow> wf_ptr (b # p) \<Longrightarrow> connect_money mainParams (b # p) out nFees = Some (b' # p) \<Longrightarrow>
    - (2 ^ 63) \<le> money_supply (b # p) out nFees \<Longrightarrow> minted (b'\<lparr>b_nUndoPos := pos, b_nStatus := status\<rparr> # p)"

inductive_cases minted_elims: "minted p"

lemma undo_fields [simp]: "wf_ptr (b\<lparr>b_nUndoPos := pos, b_nStatus := status\<rparr> # p) = wf_ptr (b # p)"
  "onFork (b\<lparr>b_nUndoPos := pos, b_nStatus := status\<rparr> # p) = onFork (b # p)"
  "supply_of (b\<lparr>b_nUndoPos := pos, b_nStatus := status\<rparr>) = supply_of b" "height (b\<lparr>b_nUndoPos := pos, b_nStatus := status\<rparr>) = height b"
  by (simp_all add: onFork_def height_def supply_of_def)

lemma minted_ok: "minted p \<Longrightarrow> supply_ok p"
proof (induction rule: minted.induct)
  case (genesis b)
  then show ?case by (simp add: onFork_count height_def prefork_cap_0)
next
  case (connect p b out nFees b' pos status)
  then show ?case using connect_money_ok [of p b out nFees "b' # p"] by simp
qed

section \<open>The scaled subsidy\<close>

lemma weights_nonneg: "0 \<le> GetBlockWorkBoost b"
proof -
  have "0 \<le> block_work T a" for T a
  proof (cases "0 < T")
    case True
    have "0 \<le> T div GetAlgoWeight a" using True weight_pos by (simp add: pos_imp_zdiv_nonneg_iff)
    then show ?thesis unfolding block_work_eq [OF True] by (simp only: pos_imp_zdiv_nonneg_iff) simp
  qed (simp add: block_work_def)
  then show ?thesis by (simp add: GetBlockWorkBoost_def)
qed

lemma ssf_day_nonneg: "0 \<le> h \<Longrightarrow> 0 \<le> fst (snd (ssf_day n p h t))"
  by (induction n p h t rule: ssf_day.induct) (auto simp: Let_def weights_nonneg)

lemma ssf_days_peak:
  "0 \<le> cur \<Longrightarrow> cur \<le> peak \<Longrightarrow> ssf_days n first p peak cur = Some (pk, cu) \<Longrightarrow> 0 \<le> cu \<and> cu \<le> pk"
proof (induction n first p peak cur rule: ssf_days.induct)
  case (2 n first p peak cur)
  define q where "q = get_pprev_algo p (-1)"
  show ?case
  proof (cases "q = []")
    case True
    then show ?thesis using 2(2-4) by (simp add: q_def Let_def)
  next
    case False
    obtain r h t where d: "ssf_day (nSSF - 1) q (GetBlockWorkBoost (hd q)) 0 = (r, h, t)" by (metis prod_cases3)
    have h: "0 \<le> h" using ssf_day_nonneg [OF weights_nonneg, of "nSSF - 1" q "hd q" 0] d by simp
    define t' where "t' = (if get_pprev_algo r (-1) \<noteq> [] then GetMedianTimePast (get_pprev_algo r (-1))
      else if prefork_block r \<noteq> [] then index_GetBlockTime (hd (prefork_block r)) else t)"
    define h' where "h' = (h * 100000000) sdiv (GetMedianTimePast q - t')"
    have e: "ssf_days (Suc n) first p peak cur = (if GetMedianTimePast q > t' then
        ssf_days n False r (if h' > peak then h' else peak) (if first then h' else cur) else None)"
      using False by (simp add: q_def [symmetric] d [simplified] Let_def t'_def [symmetric] h'_def [symmetric])
    have t: "GetMedianTimePast q > t'" using 2(4) e by (simp split: if_split_asm)
    then have "0 \<le> h'" using h by (simp add: h'_def sdiv_nonneg pos_imp_zdiv_nonneg_iff)
    then show ?thesis using 2(2-4) t unfolding e
      by (intro 2(1) [OF q_def False refl refl d [symmetric] refl refl t'_def _ h'_def refl refl]) auto
  qed
qed simp

lemma factor_exact:
  assumes "0 \<le> cu" "cu < pk" "100000000 * pk < 2 ^ 32 * (pk - cu)"
  shows "ssf_factor f2 pk cu = 100000000 * pk div (pk - cu)" "100000000 \<le> ssf_factor f2 pk cu"
    "to_u32 (ssf_factor f2 pk cu) = ssf_factor f2 pk cu"
proof -
  define x where "x = 100000000 * pk div (pk - cu)"
  have d: "0 < pk - cu" "pk - cu \<le> pk" "0 < pk" using assms by auto
  have lo: "100000000 \<le> x" unfolding x_def
    using zdiv_mono1 [of "100000000 * (pk - cu)" "100000000 * pk" "pk - cu"] d assms(1)
    by (simp only: nonzero_mult_div_cancel_right) simp
  have "x * (pk - cu) \<le> 100000000 * pk" unfolding x_def
    using d(1) by (simp only: minus_mod_eq_div_mult [symmetric]) simp
  then have "x * (pk - cu) < 2 ^ 32 * (pk - cu)" using assms(3) by linarith
  then have hi: "x < 2 ^ 32" using d(1) by (simp only: mult_less_cancel_right)
  have w: "uint (word_of_int x :: u32) = x"
    unfolding uint_word_of_int_eq by (rule take_bit_int_eq_self) (use lo hi in auto)
  show f: "ssf_factor f2 pk cu = 100000000 * pk div (pk - cu)"
    using d lo hi w by (simp add: ssf_factor_def Let_def sdiv_nonneg x_def [symmetric])
  show "100000000 \<le> ssf_factor f2 pk cu" using f lo by (simp add: x_def)
  show "to_u32 (ssf_factor f2 pk cu) = ssf_factor f2 pk cu" using w by (simp only: f to_u32_def x_def)
qed

lemma scaled_value_range:
  assumes "0 \<le> base" "sf = 0 \<or> 100000000 \<le> sf"
  shows "f + base - base div 2 \<le> scaled_value f sf base"
proof (cases "sf = 0")
  case True
  then show ?thesis using assms by (simp add: scaled_value_def to_u32_def)
next
  case False
  then have sf: "100000000 \<le> sf" using assms by simp
  define x where "x = (base * 100000000) sdiv sf"
  have "0 \<le> x" "x \<le> base"
  proof -
    have e: "x = base * 100000000 div sf" using assms(1) sf by (simp add: x_def sdiv_nonneg)
    show "0 \<le> x" using assms(1) sf by (simp add: e pos_imp_zdiv_nonneg_iff)
    have "base * 100000000 \<le> base * sf" using assms(1) sf by (intro mult_left_mono)
    then have "x \<le> base * sf div sf" unfolding e using sf by (intro zdiv_mono1) auto
    then show "x \<le> base" using sf by simp
  qed
  moreover have "to_u32 x \<le> x" using \<open>0 \<le> x\<close> unfolding to_u32_def uint_word_of_int_eq by (simp add: take_bit_int_less_eq_self_iff)
  ultimately have "to_u32 x div 2 \<le> base div 2" by (intro zdiv_mono1) auto
  then show ?thesis using assms(1) by (simp add: scaled_value_def x_def [symmetric])
qed

lemma ssf_days_head:
  "ssf_days (Suc n) first (b\<lparr>b_subsidyScalingFactor := x\<rparr> # p) = ssf_days (Suc n) first (b # p)"
  by (intro ext) (simp only: ssf_days.simps scaled_fields)

lemma scaling_factor_flag:
  assumes "onFork (b # p)" "update_ssf (b_nVersion b)"
  shows "fst (GetBlockValue pr (connect_factor (b # p)) f False) =
    scaled_value f (get_ssf (b # p)) (if RegTest pr then 1500000000 else table_lookup emission_table (emitted_points (b # p)))"
proof -
  have g: "get_ssf (b\<lparr>b_subsidyScalingFactor := x\<rparr> # p) = get_ssf (b # p)" for x
    unfolding get_ssf_def onFork2_def using ssf_days_head [of 364 True x b p] by (simp del: ssf_days.simps)
  have k: "key_block_factor (b\<lparr>b_subsidyScalingFactor := x\<rparr> # p) = Some (get_ssf (b # p))" for x
    using assms(2) g by (simp add: key_block_factor.simps [of "_ # _"])
  show ?thesis using assms by (simp add: connect_factor_def GetBlockValue_def Let_def scaling_factor_def k g)
qed

lemma nominal_value:
  assumes "onFork p"
  shows "fst (GetBlockValue pr p f True) =
    f + (if RegTest pr then 1500000000 else table_lookup emission_table (emitted_points p))"
  using assms by (simp add: GetBlockValue_def Let_def scaling_factor_def scaled_value_def to_u32_def)

section \<open>Properties\<close>

text \<open>C10: The money supply is bounded. On every chain that connecting blocks on the main network makes,
  whatever the versions of its blocks, the supply recorded for the tip is at most 27580000 coins; on
  the fork, where each of the eight algorithms counts its own emission from an eighth of the supply
  at the fork, eight times the algorithm's supply is at most \<open>MAX_MONEY\<close>. (\<open>ConnectBlock_minted\<close> of
  Supply: what \<open>ConnectBlock\<close> accepts on such a chain makes one.) The chains are those where
  the recorded difference never runs below \<open>-2^63\<close>; that it may become negative, by a coinbase that
  leaves fees unclaimed, is not excluded.\<close>

theorem money_supply_capped:
  assumes "minted (b # p)"
  shows "sint (b_nMoneySupply b) \<le> 27580000 * COIN \<and> (onFork (b # p) \<longrightarrow> 8 * sint (b_nMoneySupply b) \<le> MAX_MONEY)"
proof -
  have s: "supply_ok (b # p)" using minted_ok [OF assms] .
  then have "real_of_int (supply_of b) \<le> 2758000000000000" using prefork_cap_le [of "length p"] by simp
  then have "supply_of b \<le> 2758000000000000" by linarith
  then show ?thesis using s by (simp add: supply_of_def COIN_def)
qed

definition sample_genesis :: CBlockIndex where
  "sample_genesis = (sample_index 0 0 0)\<lparr>b_nMoneySupply := 2000000000\<rparr>"

theorem money_supply_capped_witness:
  "\<exists>b. minted [b, sample_genesis] \<and> sint (b_nMoneySupply b) = 4000000000 \<and> sint (b_nMoneySupply b) \<le> 27580000 * COIN"
proof -
  let ?b = "sample_index 1 120 1"
  have f: "\<not> onFork [?b, sample_genesis]" by (simp add: onFork_def nForkHeight_def sample_index_def height_def)
  have v: "GetBlockValue mainParams [?b, sample_genesis] 0 False = (2000000000, [?b, sample_genesis])"
    using f by (simp add: GetBlockValue_def prefork_value_def Let_def sample_index_def height_def mainParams_def
        SubsidyInterimInterval_def sdiv_nonneg)
  have m: "money_supply [?b, sample_genesis] 2000000000 0 = 4000000000"
    using f by (simp add: money_supply_def sample_genesis_def)
  let ?c = "?b\<lparr>b_nMoneySupply := 4000000000\<rparr>"
  have c: "connect_money mainParams [?b, sample_genesis] 2000000000 0 = Some [?c, sample_genesis]"
    using f by (simp add: connect_money_def connect_factor_def v m)
  have "minted [sample_genesis]"
    by (rule minted.genesis) (simp_all add: sample_genesis_def sample_index_def supply_of_def)
  then have "minted [?c\<lparr>b_nUndoPos := b_nUndoPos ?c, b_nStatus := b_nStatus ?c\<rparr>, sample_genesis]"
    by (rule minted.connect [OF _ _ c])
      (use f m in \<open>simp_all add: sample_genesis_def sample_index_def height_def\<close>)
  then have mt: "minted [?c, sample_genesis]" by simp
  have "\<not> onFork [?c, sample_genesis]" using f by simp
  then show ?thesis using money_supply_capped [OF mt] mt by (intro exI [of _ ?c]) simp
qed

text \<open>C29: The emission schedule of the fork: the nominal subsidy of a block depends on the supply
  of its algorithm only, does not grow with it, is between 0 and 20 coins, and is 0 from the
  last emission point on.\<close>

theorem subsidy_schedule:
  assumes "onFork p" "onFork q" "emitted_points p \<le> emitted_points q"
  shows "fst (GetBlockValue mainParams q nFees True) \<le> fst (GetBlockValue mainParams p nFees True)
    \<and> nFees \<le> fst (GetBlockValue mainParams q nFees True)
    \<and> fst (GetBlockValue mainParams p nFees True) \<le> nFees + 20 * COIN
    \<and> (if 2757984964566000 \<le> emitted_points q then fst (GetBlockValue mainParams q nFees True) = nFees
       else nFees < fst (GetBlockValue mainParams q nFees True))"
proof -
  have pos: "0 < table_lookup emission_table x" if "\<not> 2757984964566000 \<le> x" for x
    using that by (simp add: emission_table_def)
  show ?thesis
    using lookup_antimono [OF emission_ok assms(3)] lookup_nonneg [OF emission_ok, of "emitted_points q"]
      emission_le [of "emitted_points p"] emission_after [of "emitted_points q"] pos [of "emitted_points q"]
    by (simp add: nominal_value assms(1,2) RegTest_def mainParams_def COIN_def emission_end_def)
qed

theorem subsidy_schedule_witness:
  "\<exists>p. onFork p \<and> fst (GetBlockValue mainParams p 5 True) \<le> 5 + 20 * COIN"
  using subsidy_schedule [of "sample_chain (Suc 200)" "sample_chain (Suc 200)" 5] sample_onFork [of 200] by auto


text \<open>C38: The scaling factor moves the subsidy by at most a half. At a block that carries the
  flag, where the factor is computed, let the peak and the current hash rate of the algorithm
  be such that the factor fits in the 32 bits it is cut to. Then the limit that the coinbase
  is checked against is at most the nominal value and takes at most half of the nominal
  subsidy away from it.\<close>

theorem scaled_subsidy_range:
  assumes "onFork p" "p \<noteq> []" "update_ssf (b_nVersion (hd p))"
    "case ssf_days 365 True p 0 0 of None \<Rightarrow> True
     | Some (peak, cur) \<Rightarrow> cur = peak \<or> 100000000 * peak < 2 ^ 32 * (peak - cur)"
  shows "fst (GetBlockValue pr (connect_factor p) nFees False) \<le> fst (GetBlockValue pr p nFees True)
    \<and> fst (GetBlockValue pr p nFees True) - (fst (GetBlockValue pr p nFees True) - nFees) div 2
      \<le> fst (GetBlockValue pr (connect_factor p) nFees False)"
proof -
  obtain b q where p: "p = b # q" using assms(2) by (cases p) auto
  define base where "base = (if RegTest pr then 1500000000 else table_lookup emission_table (emitted_points (b # q)))"
  have base: "0 \<le> base" using lookup_nonneg [OF emission_ok] by (simp add: base_def)
  have sf: "get_ssf p = 0 \<or> 100000000 \<le> get_ssf p"
  proof (cases "ssf_days 365 True p 0 0")
    case None
    then show ?thesis by (simp add: get_ssf_def)
  next
    case (Some pc)
    then obtain peak cur where d: "ssf_days 365 True p 0 0 = Some (peak, cur)" by (cases pc) auto
    then have c: "0 \<le> cur" "cur \<le> peak" using ssf_days_peak [OF _ _ d] by auto
    have g: "get_ssf p = ssf_factor (onFork2 p) peak cur" by (simp add: get_ssf_def d)
    show ?thesis
    proof (cases "cur = peak")
      case True
      then show ?thesis by (simp add: g ssf_factor_def)
    next
      case False
      then show ?thesis using assms(4) c factor_exact(2) [of cur peak "onFork2 p"] by (simp add: g d)
    qed
  qed
  have n: "fst (GetBlockValue pr p nFees True) = nFees + base" "fst (GetBlockValue pr (connect_factor p) nFees False) = scaled_value nFees (get_ssf p) base"
    using nominal_value [OF assms(1)] scaling_factor_flag assms(1,3) by (simp_all add: p base_def)
  show ?thesis using scaled_value_range [OF base sf, of nFees] scaled_value_le [of nFees "get_ssf p" base]
    by (simp add: n)
qed

theorem scaled_subsidy_range_witness:
  "\<exists>p. onFork p \<and> update_ssf (b_nVersion (hd p)) \<and>
    fst (GetBlockValue mainParams (connect_factor p) 7 False) \<le> fst (GetBlockValue mainParams p 7 True)"
proof -
  let ?b = "(sample_index 200 24000 200)\<lparr>b_nVersion := 0x1004\<rparr>"
  let ?p = "?b # sample_chain 200"
  have "onFork (sample_index 200 24000 200 # sample_chain 200)"
    using sample_onFork [of 200] sample_chain_simps(2) [of 200] by simp
  then have f: "onFork ?p" by (simp add: onFork_def height_def sample_index_def)
  have u: "update_ssf (b_nVersion (hd ?p))" by (simp add: update_ssf_def BLOCK_VERSION_UPDATE_SSF_def)
  have "sample_chain 200 = sample_index 199 (199 * 120) 199 # sample_chain 199"
    using sample_chain_simps(2) [of 199] by simp
  then have "\<not> onFork (sample_chain 200)" by (simp add: onFork_def height_def sample_index_def nForkHeight_def)
  then have g: "get_pprev_algo ?p (-1) = []"
    by (cases "sample_chain 200") (simp_all add: get_pprev_algo_def)
  have "ssf_days (Suc 364) True ?p 0 0 = Some (0, 0)" by (simp only: ssf_days.simps g Let_def) simp
  then have d: "ssf_days 365 True ?p 0 0 = Some (0, 0)" by simp
  show ?thesis
    using scaled_subsidy_range [OF f _ u, of mainParams 7] f u by (simp only: d) auto
qed

section \<open>Deviations\<close>

text \<open>The factor is cut to 32 bits: near the peak it can come out tiny, and then almost the whole
  subsidy is taken away, where the exact factor takes away less than a twentieth.\<close>

theorem factor_truncated:
  "ssf_factor False 4294967299 4194967299 = 3 \<and> scaled_value 0 3 2000000000 = 45235883
    \<and> scaled_value 0 (100000000 * 4294967299 sdiv (4294967299 - 4194967299)) 2000000000 = 1976716936"
  by (simp add: ssf_factor_def scaled_value_def to_u32_def Let_def sdiv_nonneg)

text \<open>The version rule of the fork compares the whole version word, the majority rule its low byte:
  a block of the fork with version word \<open>0x203\<close> is accepted and counts as an old one.\<close>

theorem version_rule_gap:
  "\<exists>p. onFork p \<and> connect_version_ok p \<and> GetBlockVersion (b_nVersion (hd p)) = 3"
proof -
  let ?p = "(sample_index 200 24000 200)\<lparr>b_nVersion := 0x203\<rparr> # sample_chain 200"
  have "onFork (sample_index 200 24000 200 # sample_chain 200)"
    using sample_onFork [of 200] sample_chain_simps(2) [of 200] by simp
  then have "onFork ?p" by (simp add: onFork_def height_def sample_index_def)
  moreover have "connect_version_ok ?p" by (simp add: connect_version_ok_def onFork2_def onFork3_def)
  moreover have "GetBlockVersion (b_nVersion (hd ?p)) = 3" by (simp add: GetBlockVersion_def)
  ultimately show ?thesis by blast
qed

end
