(* ===== verification/Script.thy ===== *)
theory Script imports Main Prelude Serialize Uint256 Opcodes begin

text \<open>
  Scripts as byte strings (\<open>src/src/script.h\<close>, \<open>src/src/script.cpp\<close>, \<open>src/src/key.h\<close>): script
  numbers, the operators that append to a script, the reader of one instruction, searching
  and counting, the syntactic tests and the compact form of a script in the coin database.
  A script is a list of bytes and a position in it the list of the bytes from there on.
  The hash functions, the elliptic curve operations and the value of a C++ shift beyond the
  width of \<open>int\<close> are parameters, gathered in the record \<open>crypto\<close>.
\<close>

unbundle bit_operations_syntax

type_synonym u160 = "160 word"

record crypto =
  c_RIPEMD160 :: "bytes \<Rightarrow> bytes"
  c_SHA1 :: "bytes \<Rightarrow> bytes"
  c_SHA256 :: "bytes \<Rightarrow> bytes"
  c_Verify :: "bytes \<Rightarrow> u256 \<Rightarrow> bytes \<Rightarrow> bool"
  c_IsFullyValid :: "bytes \<Rightarrow> bool"
  c_Decompress :: "bytes \<Rightarrow> bytes option"
  c_shl80 :: "nat \<Rightarrow> int"

section \<open>Hashes and public keys\<close>

definition Hash_bytes :: "crypto \<Rightarrow> bytes \<Rightarrow> bytes" where
  "Hash_bytes c vch = c_SHA256 c (c_SHA256 c vch)"

definition Hash160 :: "crypto \<Rightarrow> bytes \<Rightarrow> bytes" where
  "Hash160 c vch = c_RIPEMD160 c (c_SHA256 c vch)"

text \<open>A public key is the bytes that \<open>size()\<close> covers: none when it is invalid.\<close>

definition pubkey_GetLen :: "byte \<Rightarrow> nat" where
  "pubkey_GetLen chHeader =
     (if chHeader = 2 \<or> chHeader = 3 then 33
      else if chHeader = 4 \<or> chHeader = 6 \<or> chHeader = 7 then 65 else 0)"

definition pubkey_Set :: "bytes \<Rightarrow> bytes" where
  "pubkey_Set vch =
     (let len = (if vch = [] then 0 else pubkey_GetLen (hd vch)) in
      if len \<noteq> 0 \<and> len = length vch then vch else [])"

definition pubkey_IsValid :: "bytes \<Rightarrow> bool" where "pubkey_IsValid pk \<longleftrightarrow> length pk > 0"
definition pubkey_IsCompressed :: "bytes \<Rightarrow> bool" where "pubkey_IsCompressed pk \<longleftrightarrow> length pk = 33"

definition pubkey_GetID :: "crypto \<Rightarrow> bytes \<Rightarrow> bytes" where "pubkey_GetID c pk = Hash160 c pk"

section \<open>Script numbers\<close>

text \<open>The magnitude, least significant byte first, without leading zeros.\<close>

fun abs_bytes :: "nat \<Rightarrow> bytes" where
  "abs_bytes absvalue = (if absvalue = 0 then [] else of_nat (absvalue mod 256) # abs_bytes (absvalue div 256))"

declare abs_bytes.simps [simp del]

definition num_serialize :: "int \<Rightarrow> bytes" where
  "num_serialize value =
     (if value = 0 then []
      else
        let neg = value < 0; result = abs_bytes (nat \<bar>value\<bar>) in
        if last result AND 0x80 \<noteq> 0 then result @ [if neg then 0x80 else 0]
        else if neg then butlast result @ [last result OR 0x80]
        else result)"

text \<open>\<open>0x80 << n\<close> at type \<open>int\<close>: the bits that fit in 32, sign-extended; beyond, the language
  leaves it undefined.\<close>

definition shl80 :: "crypto \<Rightarrow> nat \<Rightarrow> int" where
  "shl80 c n = (if n < 32 then signed_take_bit 31 (0x80 * 2 ^ n) else c_shl80 c n)"

definition set_vch :: "crypto \<Rightarrow> bytes \<Rightarrow> int" where
  "set_vch c vch =
     (if vch = [] then 0
      else
        let result = int (le_nat vch) in
        if last vch AND 0x80 \<noteq> 0 then - (result AND NOT (shl80 c (8 * (length vch - 1)))) else result)"

definition nDefaultMaxNumSize :: nat where "nDefaultMaxNumSize = 4"

text \<open>The constructor throws (\<open>None\<close>) on a longer vector.\<close>

definition CScriptNum :: "crypto \<Rightarrow> bytes \<Rightarrow> nat \<Rightarrow> int option" where
  "CScriptNum c vch nMaxNumSize = (if length vch > nMaxNumSize then None else Some (set_vch c vch))"

definition num_getint :: "int \<Rightarrow> int" where
  "num_getint m = (if m > 2147483647 then 2147483647 else if m < - 2147483648 then - 2147483648 else m)"

text \<open>The assertions of \<open>+=\<close>, \<open>-=\<close> and unary minus.\<close>

definition add_assert :: "int \<Rightarrow> int \<Rightarrow> bool" where
  "add_assert m rhs \<longleftrightarrow> rhs = 0 \<or> (rhs > 0 \<and> m \<le> 2 ^ 63 - 1 - rhs) \<or> (rhs < 0 \<and> m \<ge> - (2 ^ 63) - rhs)"

definition sub_assert :: "int \<Rightarrow> int \<Rightarrow> bool" where
  "sub_assert m rhs \<longleftrightarrow> rhs = 0 \<or> (rhs > 0 \<and> m \<ge> - (2 ^ 63) + rhs) \<or> (rhs < 0 \<and> m \<le> 2 ^ 63 - 1 + rhs)"

definition neg_assert :: "int \<Rightarrow> bool" where "neg_assert m \<longleftrightarrow> m \<noteq> - (2 ^ 63)"

section \<open>Building scripts\<close>

type_synonym CScript = bytes

definition push_bytes :: "CScript \<Rightarrow> bytes \<Rightarrow> CScript" where
  "push_bytes s b =
     (if length b < unat OP_PUSHDATA1 then s @ [of_nat (length b)] @ b
      else if length b \<le> 0xff then s @ [OP_PUSHDATA1, of_nat (length b)] @ b
      else if length b \<le> 0xffff then s @ [OP_PUSHDATA2] @ le_bytes (of_nat (length b) :: u16) @ b
      else s @ [OP_PUSHDATA4] @ le_bytes (of_nat (length b) :: u32) @ b)"

definition push_op :: "CScript \<Rightarrow> byte \<Rightarrow> CScript" where
  "push_op s opcode = s @ [opcode]"

definition push_num :: "CScript \<Rightarrow> int \<Rightarrow> CScript" where
  "push_num s b = push_bytes s (num_serialize b)"

definition push_int64 :: "CScript \<Rightarrow> int \<Rightarrow> CScript" where
  "push_int64 s n =
     (if n = -1 \<or> (n \<ge> 1 \<and> n \<le> 16) then s @ [word_of_int (n + (uint OP_1 - 1))]
      else push_bytes s (num_serialize n))"

definition PushAll :: "bytes list \<Rightarrow> CScript" where
  "PushAll values = foldl push_bytes [] values"

text \<open>A 160-bit and a 256-bit number by their bytes; \<open>None\<close> is the failed assertion on the size
  of a key.\<close>

definition push_uint :: "CScript \<Rightarrow> bytes \<Rightarrow> CScript" where
  "push_uint s b = s @ [of_nat (length b)] @ b"

definition push_pubkey :: "CScript \<Rightarrow> bytes \<Rightarrow> CScript option" where
  "push_pubkey s key = (if length key < unat OP_PUSHDATA1 then Some (s @ [of_nat (length key)] @ key) else None)"

definition EncodeOP_N :: "int \<Rightarrow> byte option" where
  "EncodeOP_N n = (if 0 \<le> n \<and> n \<le> 16 then Some (if n = 0 then OP_0 else word_of_int (uint OP_1 + n - 1)) else None)"

definition DecodeOP_N :: "byte \<Rightarrow> int option" where
  "DecodeOP_N opcode =
     (if opcode = OP_0 then Some 0
      else if OP_1 \<le> opcode \<and> opcode \<le> OP_16 then Some (uint opcode - (uint OP_1 - 1)) else None)"

section \<open>Reading instructions\<close>

text \<open>\<open>GetOp2\<close>: the instruction with its immediate operand, or \<open>None\<close> for the result \<open>false\<close>, and
  the new position. A failed read leaves the position after the bytes it consumed.\<close>

definition GetOp :: "bytes \<Rightarrow> (byte \<times> bytes) option \<times> bytes" where
  "GetOp pc =
     (case pc of [] \<Rightarrow> (None, [])
      | opcode # pc \<Rightarrow>
        if opcode \<le> OP_PUSHDATA4 then
          let n = (if opcode < OP_PUSHDATA1 then 0 else if opcode = OP_PUSHDATA1 then 1
                   else if opcode = OP_PUSHDATA2 then 2 else 4) in
          if length pc < n then (None, pc)
          else
            let nSize = (if opcode < OP_PUSHDATA1 then unat opcode else le_nat (take n pc));
                pc = drop n pc in
            if length pc < nSize then (None, pc)
            else (Some (opcode, take nSize pc), drop nSize pc)
        else (Some (opcode, []), pc))"

lemma GetOp_length: "GetOp pc = (Some x, r) \<Longrightarrow> length r < length pc"
  by (auto simp: GetOp_def Let_def split: list.splits if_splits)

lemma GetOp_Nil [simp]: "GetOp [] = (None, [])" by (simp add: GetOp_def)

text \<open>All instructions up to the first failed read, and whether the end was reached.\<close>

function ops :: "bytes \<Rightarrow> (byte \<times> bytes) list \<times> bool" where
  "ops pc =
     (if pc = [] then ([], True)
      else case GetOp pc of (None, r) \<Rightarrow> ([], False)
        | (Some x, r) \<Rightarrow> let (xs, ok) = ops r in (x # xs, ok))"
  by auto
termination by (relation "measure length") (use GetOp_length in \<open>auto simp: eq_commute\<close>)

declare ops.simps [simp del]

section \<open>Searching\<close>

text \<open>The inner loop erases the copies of \<open>b\<close> that start at the position, the outer one steps
  over one instruction.\<close>

function erase_all :: "bytes \<Rightarrow> bytes \<Rightarrow> nat \<Rightarrow> bytes \<times> nat" where
  "erase_all b pc nFound =
     (if b \<noteq> [] \<and> length pc \<ge> length b \<and> take (length b) pc = b
      then erase_all b (drop (length b) pc) (nFound + 1) else (pc, nFound))"
  by auto
termination by (relation "measure (\<lambda>(b, pc, n). length pc)") (auto intro!: diff_less)

declare erase_all.simps [simp del]

lemma erase_all_length: "length (fst (erase_all b pc n)) \<le> length pc"
proof (induction b pc n rule: erase_all.induct)
  case (1 b pc n)
  then show ?case by (subst erase_all.simps) auto
qed

function find_delete_loop :: "bytes \<Rightarrow> bytes \<Rightarrow> nat \<Rightarrow> bytes \<times> nat" where
  "find_delete_loop b pc nFound =
     (let (pc, nFound) = erase_all b pc nFound in
      case GetOp pc of (None, r) \<Rightarrow> (pc, nFound)
      | (Some x, r) \<Rightarrow>
        let (rest, nFound) = find_delete_loop b r nFound in
        (take (length pc - length r) pc @ rest, nFound))"
  by auto
termination
proof (relation "measure (\<lambda>(b, pc, n). length pc)", goal_cases)
  case (2 b pc n x pc' n' o1 r x2)
  have "length pc' \<le> length pc" using erase_all_length [of b pc n] 2(1,2) by (metis fst_conv)
  moreover have "length r < length pc'" using 2(3,4) GetOp_length [of pc' x2 r] by simp
  ultimately show ?case by simp
qed simp

declare find_delete_loop.simps [simp del]

definition FindAndDelete :: "CScript \<Rightarrow> CScript \<Rightarrow> CScript \<times> nat" where
  "FindAndDelete s b = (if b = [] then (s, 0) else find_delete_loop b s 0)"

definition script_Find :: "CScript \<Rightarrow> byte \<Rightarrow> nat" where
  "script_Find s op = length (filter (\<lambda>x. fst x = op) (fst (ops s)))"

section \<open>Syntactic tests\<close>

definition IsUnspendable :: "CScript \<Rightarrow> bool" where
  "IsUnspendable s \<longleftrightarrow> length s > 0 \<and> hd s = OP_RETURN"

definition IsPayToScriptHash :: "CScript \<Rightarrow> bool" where
  "IsPayToScriptHash s \<longleftrightarrow> length s = 23 \<and> s ! 0 = OP_HASH160 \<and> s ! 1 = 0x14 \<and> s ! 22 = OP_EQUAL"

definition IsPushOnly :: "CScript \<Rightarrow> bool" where
  "IsPushOnly s \<longleftrightarrow> (let (xs, ok) = ops s in list_all (\<lambda>(opcode, d). \<not> opcode > OP_16) xs \<and> ok)"

definition canonical_push :: "byte \<times> bytes \<Rightarrow> bool" where
  "canonical_push x =
     (case x of (opcode, data) \<Rightarrow>
      if opcode > OP_16 then True
      else if opcode < OP_PUSHDATA1 \<and> opcode > OP_0 \<and> (length data = 1 \<and> hd data \<le> 16) then False
      else if opcode = OP_PUSHDATA1 \<and> length data < unat OP_PUSHDATA1 then False
      else if opcode = OP_PUSHDATA2 \<and> length data \<le> 0xFF then False
      else if opcode = OP_PUSHDATA4 \<and> length data \<le> 0xFFFF then False
      else True)"

definition HasCanonicalPushes :: "CScript \<Rightarrow> bool" where
  "HasCanonicalPushes s \<longleftrightarrow> (let (xs, ok) = ops s in list_all canonical_push xs \<and> ok)"

text \<open>Signature operations: the loop keeps the last opcode.\<close>

fun sigop_loop :: "bool \<Rightarrow> byte \<Rightarrow> (byte \<times> bytes) list \<Rightarrow> nat" where
  "sigop_loop fAccurate lastOpcode [] = 0"
| "sigop_loop fAccurate lastOpcode ((opcode, d) # xs) =
     (if opcode = OP_CHECKSIG \<or> opcode = OP_CHECKSIGVERIFY then 1
      else if opcode = OP_CHECKMULTISIG \<or> opcode = OP_CHECKMULTISIGVERIFY then
        (if fAccurate \<and> lastOpcode \<ge> OP_1 \<and> lastOpcode \<le> OP_16 then unat lastOpcode - (unat OP_1 - 1) else 20)
      else 0) + sigop_loop fAccurate opcode xs"

definition GetSigOpCount :: "CScript \<Rightarrow> bool \<Rightarrow> nat" where
  "GetSigOpCount s fAccurate = sigop_loop fAccurate OP_INVALIDOPCODE (fst (ops s))"

text \<open>For a pay-to-script-hash script, the operations of the last item that \<open>scriptSig\<close> pushes.\<close>

definition GetSigOpCountP2SH :: "CScript \<Rightarrow> CScript \<Rightarrow> nat" where
  "GetSigOpCountP2SH s scriptSig =
     (if \<not> IsPayToScriptHash s then GetSigOpCount s True
      else
        let (xs, ok) = ops scriptSig in
        if \<not> ok \<or> list_ex (\<lambda>(opcode, d). opcode > OP_16) xs then 0
        else GetSigOpCount (if xs = [] then [] else snd (last xs)) True)"

section \<open>The compact form\<close>

definition nSpecialScripts :: nat where "nSpecialScripts = 6"

definition IsToKeyID :: "CScript \<Rightarrow> bytes option" where
  "IsToKeyID s =
     (if length s = 25 \<and> s ! 0 = OP_DUP \<and> s ! 1 = OP_HASH160 \<and> s ! 2 = 20 \<and> s ! 23 = OP_EQUALVERIFY
       \<and> s ! 24 = OP_CHECKSIG then Some (take 20 (drop 3 s)) else None)"

definition IsToScriptID :: "CScript \<Rightarrow> bytes option" where
  "IsToScriptID s =
     (if length s = 23 \<and> s ! 0 = OP_HASH160 \<and> s ! 1 = 20 \<and> s ! 22 = OP_EQUAL
      then Some (take 20 (drop 2 s)) else None)"

text \<open>A key, also when the function returns false with the key set: \<open>Compress\<close> does not use it then.\<close>

definition IsToPubKey :: "crypto \<Rightarrow> CScript \<Rightarrow> bytes option" where
  "IsToPubKey c s =
     (if length s = 35 \<and> s ! 0 = 33 \<and> s ! 34 = OP_CHECKSIG \<and> (s ! 1 = 2 \<or> s ! 1 = 3)
        then Some (pubkey_Set (take 33 (drop 1 s)))
      else if length s = 67 \<and> s ! 0 = 65 \<and> s ! 66 = OP_CHECKSIG \<and> s ! 1 = 4 then
        let pubkey = pubkey_Set (take 65 (drop 1 s)) in
        if c_IsFullyValid c pubkey then Some pubkey else None
      else None)"

definition script_Compress :: "crypto \<Rightarrow> CScript \<Rightarrow> bytes option" where
  "script_Compress c s =
     (case IsToKeyID s of Some keyID \<Rightarrow> Some (0 # keyID) | None \<Rightarrow>
      case IsToScriptID s of Some scriptID \<Rightarrow> Some (1 # scriptID) | None \<Rightarrow>
      case IsToPubKey c s of None \<Rightarrow> None
      | Some pubkey \<Rightarrow>
        if pubkey ! 0 = 2 \<or> pubkey ! 0 = 3 then Some (pubkey ! 0 # take 32 (drop 1 pubkey))
        else if pubkey ! 0 = 4 then Some ((4 OR (pubkey ! 64 AND 1)) # take 32 (drop 1 pubkey))
        else None)"

definition GetSpecialSize :: "nat \<Rightarrow> nat" where
  "GetSpecialSize nSize = (if nSize = 0 \<or> nSize = 1 then 20 else if nSize \<in> {2, 3, 4, 5} then 32 else 0)"

text \<open>The script, unchanged (here empty) when the key cannot be decompressed.\<close>

definition script_Decompress :: "crypto \<Rightarrow> nat \<Rightarrow> bytes \<Rightarrow> CScript option" where
  "script_Decompress c nSize inp =
     (if nSize = 0 then Some ([OP_DUP, OP_HASH160, 20] @ take 20 inp @ [OP_EQUALVERIFY, OP_CHECKSIG])
      else if nSize = 1 then Some ([OP_HASH160, 20] @ take 20 inp @ [OP_EQUAL])
      else if nSize = 2 \<or> nSize = 3 then Some ([33, of_nat nSize] @ take 32 inp @ [OP_CHECKSIG])
      else if nSize = 4 \<or> nSize = 5 then
        (case c_Decompress c (of_nat (nSize - 2) # take 32 inp) of None \<Rightarrow> None
         | Some pubkey \<Rightarrow> Some ([65] @ pubkey @ [OP_CHECKSIG]))
      else None)"

definition ser_script :: "crypto \<Rightarrow> CScript \<Rightarrow> bytes" where
  "ser_script c s =
     (case script_Compress c s of Some compr \<Rightarrow> compr
      | None \<Rightarrow> WriteVarInt (of_nat (length s + nSpecialScripts) :: u32) @ s)"

definition size_script :: "crypto \<Rightarrow> CScript \<Rightarrow> nat" where
  "size_script c s =
     (case script_Compress c s of Some compr \<Rightarrow> length compr
      | None \<Rightarrow> length s + GetSizeOfVarInt (of_nat (length s + nSpecialScripts) :: u32))"

definition unser_script :: "crypto \<Rightarrow> CScript \<Rightarrow> CScript reader" where
  "unser_script c s0 =
     rd_bind ReadVarInt (\<lambda>nSize :: u32.
     if unat nSize < nSpecialScripts then
       rd_bind (rd_bytes (GetSpecialSize (unat nSize))) (\<lambda>vch.
       rd_return (case script_Decompress c (unat nSize) vch of Some s \<Rightarrow> s | None \<Rightarrow> s0))
     else rd_bytes (unat nSize - nSpecialScripts))"

section \<open>Script numbers read back\<close>

lemma abs_bytes_0 [simp]: "abs_bytes 0 = []" by (simp add: abs_bytes.simps)

lemma abs_bytes_Nil [simp]: "abs_bytes m = [] \<longleftrightarrow> m = 0" by (simp add: abs_bytes.simps [of m])

lemma le_nat_abs_bytes: "le_nat (abs_bytes m) = m"
proof (induction m rule: abs_bytes.induct)
  case (1 m)
  then show ?case by (cases "m = 0") (simp_all add: abs_bytes.simps [of m] unat_byte_of_nat)
qed

lemma last_abs_bytes: "m \<noteq> 0 \<Longrightarrow> last (abs_bytes m) \<noteq> 0"
proof (induction m rule: abs_bytes.induct)
  case (1 m)
  show ?case
  proof (cases "m div 256 = 0")
    case True
    then have "m < 256" by (simp add: div_eq_0_iff)
    then have "(of_nat (m mod 256) :: byte) \<noteq> 0" using 1(2) by (simp add: word_unat_eq_iff unat_byte_of_nat)
    then show ?thesis using True 1(2) by (simp add: abs_bytes.simps [of m])
  next
    case False
    then show ?thesis using 1 by (simp add: abs_bytes.simps [of m])
  qed
qed

text \<open>The value of a nonempty list of bytes, by its last one.\<close>

lemma le_nat_last:
  "bs \<noteq> [] \<Longrightarrow> le_nat bs = le_nat (butlast bs) + 256 ^ (length bs - 1) * unat (last bs)"
  using le_nat_append [of "butlast bs" "[last bs]"] by simp

lemma abs_bytes_size:
  assumes "m \<noteq> 0"
  shows "256 ^ (length (abs_bytes m) - 1) \<le> m" "m < 256 ^ length (abs_bytes m)"
proof -
  have "0 < unat (last (abs_bytes m))" using last_abs_bytes [OF assms] by (simp add: unat_gt_0)
  then have "(256 :: nat) ^ (length (abs_bytes m) - 1) * 1 \<le> 256 ^ (length (abs_bytes m) - 1) * unat (last (abs_bytes m))"
    by (intro mult_le_mono) auto
  also have "\<dots> \<le> m" using le_nat_last [of "abs_bytes m"] assms by (simp add: le_nat_abs_bytes)
  finally show "256 ^ (length (abs_bytes m) - 1) \<le> m" by simp
  show "m < 256 ^ length (abs_bytes m)" using le_nat_bound [of "abs_bytes m"] by (simp add: le_nat_abs_bytes)
qed

lemma top_bit_byte: "(b :: byte) AND 0x80 \<noteq> 0 \<longleftrightarrow> 128 \<le> unat b"
proof -
  have b: "unat b < 256" using unat_lt2p [of b] by simp
  have "(b AND 2 ^ 7 \<noteq> 0) = bit b 7" by (simp only: and_exp_eq_0_iff_not_bit not_not)
  also have "\<dots> = bit (unat b) 7" by (simp add: bit_unsigned_iff)
  also have "\<dots> \<longleftrightarrow> odd (unat b div 128)" by (simp add: bit_iff_odd)
  also have "\<dots> \<longleftrightarrow> 128 \<le> unat b"
  proof (cases "128 \<le> unat b")
    case True
    then have "unat b div 128 = 1" using b by (intro div_nat_eqI) auto
    then show ?thesis using True by simp
  qed simp
  finally show ?thesis by simp
qed

lemma set_top_bit: "\<not> 128 \<le> unat b \<Longrightarrow> unat (b OR 0x80 :: byte) = unat b + 128"
proof -
  assume b: "\<not> 128 \<le> unat b"
  then have "b AND 0x80 = 0" using top_bit_byte [of b] by blast
  then have "b OR 0x80 = b + 0x80" using word_plus_and_or [of b "0x80"] by simp
  then show ?thesis using b by (simp add: unat_word_ariths)
qed

text \<open>Masking the sign bit of the magnitude in a number of at most four bytes.\<close>

lemma mask_sign:
  assumes "0 \<le> a" "a < 2 ^ (n + 8)" "n \<in> {0, 8, 16, 24}"
  shows "a AND NOT (shl80 c n) = take_bit (n + 7) (a :: int)"
proof (rule bit_eqI)
  fix i
  have hi: "\<not> bit a i" if "n + 8 \<le> i"
  proof -
    have "take_bit (n + 8) a = a" using assms(1,2) by (rule take_bit_int_eq_self)
    then show ?thesis using that by (metis bit_take_bit_iff leD)
  qed
  have "0x80 * 2 ^ n = (2 ^ (n + 7) :: int)" by (simp add: power_add)
  then have s: "shl80 c n = signed_take_bit 31 (2 ^ (n + 7))" using assms(3) by (auto simp: shl80_def)
  have b: "bit (shl80 c n) i \<longleftrightarrow> i = n + 7" if "i < n + 8"
    using that assms(3) unfolding s bit_signed_take_bit_iff bit_exp_iff by auto
  show "bit (a AND NOT (shl80 c n)) i = bit (take_bit (n + 7) a) i"
    using hi b by (cases "i < n + 8") (auto simp: bit_and_iff bit_not_iff bit_take_bit_iff)
qed

lemma top_byte_le_nat:
  assumes "bs \<noteq> []"
  shows "last bs AND 0x80 \<noteq> 0 \<longleftrightarrow> 128 * 256 ^ (length bs - 1) \<le> le_nat bs"
proof -
  define P where "P = (256 :: nat) ^ (length bs - 1)"
  have b: "le_nat (butlast bs) < P" using le_nat_bound [of "butlast bs"] by (simp add: P_def)
  have v: "le_nat bs = le_nat (butlast bs) + P * unat (last bs)" using le_nat_last [OF assms] by (simp add: P_def)
  have "128 * P \<le> le_nat bs" if "128 \<le> unat (last bs)"
  proof -
    have "P * 128 \<le> P * unat (last bs)" using that by (rule mult_le_mono2)
    then show ?thesis using v by linarith
  qed
  moreover have "le_nat bs < 128 * P" if "\<not> 128 \<le> unat (last bs)"
  proof -
    have "Suc (unat (last bs)) \<le> 128" using that by simp
    then have "P * Suc (unat (last bs)) \<le> P * 128" by (rule mult_le_mono2)
    then show ?thesis using v b by (simp only: mult_Suc_right)
  qed
  ultimately show ?thesis unfolding top_bit_byte P_def by force
qed

lemma set_vch_pos:
  assumes "bs \<noteq> []" "le_nat bs < 128 * 256 ^ (length bs - 1)"
  shows "set_vch c bs = int (le_nat bs)"
  using assms top_byte_le_nat [OF assms(1)] by (auto simp: set_vch_def Let_def)

lemma set_vch_neg:
  assumes "bs \<noteq> []" "length bs \<le> 4" "le_nat bs = m + 128 * 256 ^ (length bs - 1)" "m < 128 * 256 ^ (length bs - 1)"
  shows "set_vch c bs = - int m"
proof -
  define n where "n = 8 * (length bs - 1)"
  have n: "n \<in> {0, 8, 16, 24}" 
  proof -
    have "length bs - 1 = 0 \<or> length bs - 1 = 1 \<or> length bs - 1 = 2 \<or> length bs - 1 = 3" using assms(2) by linarith
    then show ?thesis unfolding n_def by auto
  qed
  have "(256 :: nat) = 2 ^ 8" by simp
  then have P: "(256 :: nat) ^ (length bs - 1) = 2 ^ n" by (simp only: n_def power_mult)
  have m: "m < 2 ^ (n + 7)" using assms(4) unfolding P by (simp add: power_add)
  have v: "le_nat bs = m + 2 ^ (n + 7)" using assms(3) unfolding P by (simp add: power_add)
  have "le_nat bs < 2 ^ (n + 8)" using m v by (simp add: power_add)
  then have r: "int (le_nat bs) < 2 ^ (n + 8)" by (metis of_nat_less_numeral_power_cancel_iff)
  have "take_bit (n + 7) (le_nat bs) = m" using m unfolding v by (simp add: take_bit_eq_mod)
  then have t: "take_bit (n + 7) (int (le_nat bs)) = int m" by (metis of_nat_take_bit)
  show ?thesis
    using assms(1,3) top_byte_le_nat [OF assms(1)] mask_sign [OF _ r n, of c] t
    by (simp add: set_vch_def Let_def n_def)
qed

lemma num_serialize_size:
  assumes "n \<noteq> 0"
  defines "bs \<equiv> num_serialize n"
  shows "bs \<noteq> [] \<and> nat \<bar>n\<bar> < 128 * 256 ^ (length bs - 1) \<and> (1 < length bs \<longrightarrow> 128 * 256 ^ (length bs - 2) \<le> nat \<bar>n\<bar>)
    \<and> le_nat bs = (if n < 0 then nat \<bar>n\<bar> + 128 * 256 ^ (length bs - 1) else nat \<bar>n\<bar>)"
proof -
  define m as where "m = nat \<bar>n\<bar>" and "as = abs_bytes m"
  have m: "m \<noteq> 0" "as \<noteq> []" using assms(1) by (simp_all add: m_def as_def)
  note sz = abs_bytes_size [OF m(1), folded as_def]
  have val: "le_nat as = m" by (simp add: as_def le_nat_abs_bytes)
  note top = top_byte_le_nat [OF m(2), unfolded val]
  show ?thesis
  proof (cases "last as AND 0x80 = 0")
    case False
    then have b: "bs = as @ [if n < 0 then 0x80 else 0]"
      using assms(1) by (simp add: bs_def num_serialize_def Let_def m_def [symmetric] as_def [symmetric])
    have "128 * 256 ^ (length as - 1) \<le> m" using top False by simp
    then show ?thesis using sz(2) val m(2) unfolding b m_def [symmetric] by (auto simp: le_nat_append)
  next
    case True
    then have b: "bs = (if n < 0 then butlast as @ [last as OR 0x80] else as)"
      using assms(1) by (simp add: bs_def num_serialize_def Let_def m_def [symmetric] as_def [symmetric])
    have lt: "m < 128 * 256 ^ (length as - 1)" using top True by simp
    have l: "length bs = length as" using m(2) by (simp add: b)
    have "unat (last as OR 0x80) = unat (last as) + 128" using True set_top_bit top_bit_byte by blast
    then have v: "le_nat bs = (if n < 0 then m + 128 * 256 ^ (length as - 1) else m)"
      using le_nat_last [OF m(2)] val by (simp add: b le_nat_append algebra_simps)
    have "128 * 256 ^ (length as - 2) \<le> m" if "1 < length as"
    proof -
      have "length as - 1 = Suc (length as - 2)" using that by simp
      then have "(256 :: nat) ^ (length as - 1) = 256 * 256 ^ (length as - 2)" by (simp only: power_Suc)
      then show ?thesis using sz(1) by linarith
    qed
    then show ?thesis using lt v m(2) l unfolding m_def [symmetric] by (auto simp: b split: if_splits)
  qed
qed

lemma num_serialize_range:
  assumes "n \<noteq> 0"
  shows "length (num_serialize n) \<le> 4 \<longleftrightarrow> \<bar>n\<bar> < 2147483648"
proof -
  define L where "L = length (num_serialize n)"
  note sz = num_serialize_size [OF assms, folded L_def]
  show ?thesis
  proof (cases "L \<le> 4")
    case True
    then have "(256 :: nat) ^ (L - 1) \<le> 256 ^ 3" by (intro power_increasing) auto
    then have "nat \<bar>n\<bar> < 128 * 256 ^ 3" using sz by linarith
    then show ?thesis using True by (simp add: L_def)
  next
    case False
    then have "(256 :: nat) ^ 3 \<le> 256 ^ (L - 2)" by (intro power_increasing) auto
    then have "128 * 256 ^ 3 \<le> nat \<bar>n\<bar>" using sz False by linarith
    then have "\<not> \<bar>n\<bar> < 2147483648" by simp
    then show ?thesis using False by (simp add: L_def)
  qed
qed

text \<open>Script numbers: what the serializer writes reads back as the same number when its
  magnitude is below \<open>2^31\<close>, and is refused as an operand otherwise. This is the rule that
  operands are 32-bit while results may overflow.\<close>

theorem scriptnum_roundtrip:
  "CScriptNum c (num_serialize n) nDefaultMaxNumSize = (if \<bar>n\<bar> < 2147483648 then Some n else None)"
proof (cases "n = 0")
  case True
  then show ?thesis by (simp add: CScriptNum_def num_serialize_def set_vch_def nDefaultMaxNumSize_def)
next
  case False
  note sz = num_serialize_size [OF False] and r = num_serialize_range [OF False]
  have "set_vch c (num_serialize n) = n" if "length (num_serialize n) \<le> 4"
    using set_vch_neg [OF _ that, of "nat \<bar>n\<bar>" c] set_vch_pos [of "num_serialize n" c] sz
    by (cases "n < 0") simp_all
  then show ?thesis using r by (auto simp: CScriptNum_def nDefaultMaxNumSize_def)
qed

section \<open>Pushes read back\<close>

text \<open>The opcode that pushes \<open>n\<close> bytes, and the script that pushes \<open>b\<close>.\<close>

definition push_opcode :: "nat \<Rightarrow> byte" where
  "push_opcode n = (if n < 76 then of_nat n else if n \<le> 255 then OP_PUSHDATA1
     else if n \<le> 65535 then OP_PUSHDATA2 else OP_PUSHDATA4)"

lemma push_bytes_append: "push_bytes s b = s @ push_bytes [] b"
  by (simp add: push_bytes_def)

lemma small_opcode:
  assumes "n < 76" shows "unat (of_nat n :: byte) = n" "(of_nat n :: byte) < 0x4c"
  using assms by (simp_all add: unat_of_nat word_less_nat_alt)

lemma GetOp_push:
  assumes "length b < 2 ^ 32"
  shows "GetOp (push_bytes [] b @ r) = (Some (push_opcode (length b), b), r)"
proof -
  consider "length b < 76" | "76 \<le> length b" "length b \<le> 255" | "256 \<le> length b" "length b \<le> 65535"
    | "65536 \<le> length b" by linarith
  then show ?thesis
  proof cases
    case 1
    have le: "(of_nat (length b) :: byte) \<le> 0x4e" using small_opcode(1) [OF 1] 1 by (simp add: word_le_nat_alt)
    show ?thesis using 1 small_opcode [OF 1] le by (simp add: push_bytes_def GetOp_def push_opcode_def Let_def)
  next
    case 2
    then have "unat (of_nat (length b) :: byte) = length b" by (simp add: unat_of_nat)
    then show ?thesis using 2 by (simp add: push_bytes_def GetOp_def push_opcode_def Let_def)
  next
    case 3
    then have u: "unat (of_nat (length b) :: u16) = length b" by (simp add: unat_of_nat)
    then have "le_nat (le_bytes (of_nat (length b) :: u16)) = length b"
      using 3 by (simp add: le_bytes_def le_nat_nat_le)
    then show ?thesis using 3 by (simp add: push_bytes_def GetOp_def push_opcode_def Let_def)
  next
    case 4
    then have u: "unat (of_nat (length b) :: u32) = length b" using assms by (simp add: unat_of_nat)
    then have "le_nat (le_bytes (of_nat (length b) :: u32)) = length b"
      using assms by (simp add: le_bytes_def le_nat_nat_le)
    then show ?thesis using 4 by (simp add: push_bytes_def GetOp_def push_opcode_def Let_def)
  qed
qed

lemma push_not_Nil [simp]: "push_bytes s b \<noteq> []" by (simp add: push_bytes_def)

lemma ops_Nil [simp]: "ops [] = ([], True)" by (simp add: ops.simps)

lemma ops_step:
  "GetOp pc = (Some x, r) \<Longrightarrow> ops pc = (x # fst (ops r), snd (ops r))"
  by (cases "ops r", cases "pc = []") (simp_all add: ops.simps [of pc])

lemma ops_push:
  "length b < 2 ^ 32 \<Longrightarrow>
    ops (push_bytes [] b @ r) = ((push_opcode (length b), b) # fst (ops r), snd (ops r))"
  by (rule ops_step) (rule GetOp_push)

lemma foldl_push: "foldl push_bytes s xs = s @ foldl push_bytes [] xs"
proof (induction xs arbitrary: s)
  case (Cons b xs)
  show ?case using Cons.IH [of "push_bytes s b"] Cons.IH [of "push_bytes [] b"] push_bytes_append [of s b] by simp
qed simp

lemma PushAll_Cons: "PushAll (b # xs) = push_bytes [] b @ PushAll xs"
  using foldl_push [of "push_bytes [] b" xs] by (simp add: PushAll_def)

lemma PushAll_Nil [simp]: "PushAll [] = []" by (simp add: PushAll_def)

lemma ops_PushAll:
  "list_all (\<lambda>b. length b < 2 ^ 32) xs \<Longrightarrow> ops (PushAll xs) = (map (\<lambda>b. (push_opcode (length b), b)) xs, True)"
  by (induction xs) (simp_all add: PushAll_Cons ops_push)

lemma push_opcode_le: "push_opcode n \<le> 0x4e"
proof (cases "n < 76")
  case True
  then show ?thesis using small_opcode(1) [OF True] by (simp add: push_opcode_def word_le_nat_alt)
qed (simp add: push_opcode_def)

text \<open>A script built from pushes reads back as exactly the pushed values, it is push-only, and
  its pushes are canonical unless a value is a single byte of at most 16, which has an opcode
  of its own.\<close>

theorem PushAll_roundtrip:
  assumes "list_all (\<lambda>b. length b < 2 ^ 32) values"
  shows "map snd (fst (ops (PushAll values))) = values \<and> IsPushOnly (PushAll values) \<and>
    (HasCanonicalPushes (PushAll values) \<longleftrightarrow> list_all (\<lambda>b. \<not> (length b = 1 \<and> hd b \<le> 16)) values)"
proof -
  have o: "ops (PushAll values) = (map (\<lambda>b. (push_opcode (length b), b)) values, True)"
    using assms by (rule ops_PushAll)
  have lt: "\<not> (0x60 :: byte) < push_opcode n" for n using push_opcode_le [of n] by (simp add: word_less_nat_alt word_le_nat_alt)
  have "canonical_push (push_opcode (length b), b) \<longleftrightarrow> \<not> (length b = 1 \<and> hd b \<le> 16)" for b :: bytes
  proof (cases "length b < 76")
    case True
    have "0 < (of_nat (length b) :: byte) \<longleftrightarrow> length b \<noteq> 0"
      using small_opcode(1) [OF True] by (simp add: word_less_nat_alt)
    moreover have "of_nat (length b) \<noteq> (0x4c :: byte)" "of_nat (length b) \<noteq> (0x4d :: byte)" "of_nat (length b) \<noteq> (0x4e :: byte)"
      using small_opcode(1) [OF True] True by (auto simp: word_unat_eq_iff)
    ultimately show ?thesis using True small_opcode(2) [OF True] lt [of "length b"]
      by (cases "b = []") (simp_all add: canonical_push_def push_opcode_def)
  qed (auto simp: canonical_push_def push_opcode_def)
  then show ?thesis using lt unfolding IsPushOnly_def HasCanonicalPushes_def o
    by (simp add: list_all_iff comp_def)
qed

theorem PushAll_roundtrip_witness:
  "map snd (fst (ops (PushAll [[1, 2], [], replicate 80 7]))) = [[1, 2], [], replicate 80 7]"
  using PushAll_roundtrip [of "[[1, 2], [], replicate 80 7]"] by simp

section \<open>The compact form read back\<close>

text \<open>What the compressor relies on: a fully valid uncompressed key is recovered from its first
  coordinate and the parity of its second one.\<close>

definition key_compression :: "crypto \<Rightarrow> bool" where
  "key_compression c \<longleftrightarrow> (\<forall>pk. length pk = 65 \<and> pk ! 0 = 4 \<and> c_IsFullyValid c pk \<longrightarrow>
     c_Decompress c ((2 + (pk ! 64 AND 1)) # take 32 (drop 1 pk)) = Some pk)"

lemma take_1: "s \<noteq> [] \<Longrightarrow> take (Suc 0) s = [s ! 0]"
  by (cases s) simp_all

lemma take_2: "2 \<le> length s \<Longrightarrow> take 2 s = [s ! 0, s ! 1]"
  by (cases "s = []") (simp_all add: numeral_2_eq_2 take_Suc_conv_app_nth take_1)

lemma take_3: "3 \<le> length s \<Longrightarrow> take 3 s = [s ! 0, s ! 1, s ! 2]"
  by (cases "s = []") (simp_all add: numeral_3_eq_3 numeral_2_eq_2 take_Suc_conv_app_nth take_1)

lemma drop_last1: "length s = Suc n \<Longrightarrow> drop n s = [s ! n]"
  using Cons_nth_drop_Suc [of n s] by simp

lemma drop_last2: "length s = Suc (Suc n) \<Longrightarrow> drop n s = [s ! n, s ! Suc n]"
  using Cons_nth_drop_Suc [of n s] drop_last1 [of s "Suc n"] by simp

lemma split3: "s = take n s @ take m (drop n s) @ drop (n + m) s"
  by (metis add.commute append_take_drop_id drop_drop)

lemma ReadVarInt_small:
  assumes "unat b < 128" shows "ReadVarInt (b # s) = Inr (ucast b :: u32, s)"
proof -
  have "b AND 0x80 = 0" using top_bit_byte [of b] assms by auto
  moreover have "b AND 0x7f = b"
  proof -
    have "take_bit 7 b = b" using assms by (simp add: word_unat_eq_iff unsigned_take_bit_eq take_bit_nat_eq_self)
    then show ?thesis by (simp add: take_bit_eq_mask mask_eq_exp_minus_1)
  qed
  ultimately show ?thesis by (simp add: ReadVarInt_def Let_def)
qed

lemma read_special:
  assumes "unat b < 6" "length v = GetSpecialSize (unat b)" "script_Decompress c (unat b) v = Some s"
  shows "unser_script c s0 (b # v @ r) = Inr (s, r)"
proof -
  have "unat (ucast b :: u32) = unat b"
    using unat_lt2p [of b] by (simp add: unsigned_ucast_eq take_bit_nat_eq_self)
  then show ?thesis using assms
    by (simp add: unser_script_def rd_bind_def ReadVarInt_small rd_bytes_append nSpecialScripts_def)
qed

lemma script_compact:
  assumes "key_compression c" "length s + 6 < 2 ^ 32"
  shows "unser_script c s0 (ser_script c s @ r) = Inr (s, r)"
proof (cases "script_Compress c s")
  case None
  have u: "unat (of_nat (length s + 6) :: u32) = length s + 6" using assms(2) by (simp add: unat_of_nat del: of_nat_add)
  then show ?thesis using None
    by (simp add: ser_script_def unser_script_def rd_bind_def varint32.unser_ser nSpecialScripts_def rd_bytes_append
        del: of_nat_add of_nat_Suc)
next
  case (Some compr)
  have e: "ser_script c s = compr" using Some by (simp add: ser_script_def)
  consider (key) k where "IsToKeyID s = Some k" | (script) k where "IsToKeyID s = None" "IsToScriptID s = Some k"
    | (pub) k where "IsToKeyID s = None" "IsToScriptID s = None" "IsToPubKey c s = Some k"
    using Some by (auto simp: script_Compress_def split: option.splits)
  then show ?thesis
  proof cases
    case key
    then have k: "k = take 20 (drop 3 s)" "compr = 0 # k" and s: "length s = 25" "s ! 0 = 0x76" "s ! 1 = 0xa9"
      "s ! 2 = 20" "s ! 23 = 0x88" "s ! 24 = 0xac"
      using Some by (auto simp: IsToKeyID_def script_Compress_def split: if_splits)
    have "s = [0x76, 0xa9, 20] @ k @ [0x88, 0xac]"
      using split3 [of s 3 20] take_3 [of s] drop_last2 [of s 23] s k(1) by simp
    then have "script_Decompress c (unat (0 :: byte)) k = Some s" using k(1) s(1) by (simp add: script_Decompress_def)
    then show ?thesis using read_special [of 0 k c s s0 r] k s(1) unfolding e by (simp add: GetSpecialSize_def)
  next
    case script
    then have k: "k = take 20 (drop 2 s)" "compr = 1 # k" and s: "length s = 23" "s ! 0 = 0xa9" "s ! 1 = 20" "s ! 22 = 0x87"
      using Some by (auto simp: IsToScriptID_def script_Compress_def split: if_splits)
    have "s = [0xa9, 20] @ k @ [0x87]"
      using split3 [of s 2 20] take_2 [of s] drop_last1 [of s 22] s k(1) by simp
    then have "script_Decompress c (unat (1 :: byte)) k = Some s" using k(1) s(1) by (simp add: script_Decompress_def)
    then show ?thesis using read_special [of 1 k c s s0 r] k s(1) unfolding e by (simp add: GetSpecialSize_def)
  next
    case pub
    show ?thesis
    proof (cases "length s = 35")
      case True
      then have s: "s ! 0 = 33" "s ! 34 = 0xac" "s ! 1 = 2 \<or> s ! 1 = 3" and k: "k = pubkey_Set (take 33 (drop 1 s))"
        using pub(3) by (auto simp: IsToPubKey_def split: if_splits)
      have h: "take 33 (drop 1 s) = s ! 1 # take 32 (drop 2 s)"
      proof -
        have "drop 1 s = s ! 1 # drop 2 s" using Cons_nth_drop_Suc [of 1 s] True by (simp add: numeral_2_eq_2)
        then show ?thesis by simp
      qed
      have k': "k = s ! 1 # take 32 (drop 2 s)"
        using s(3) True unfolding k h pubkey_Set_def by (auto simp: pubkey_GetLen_def)
      have c: "compr = s ! 1 # take 32 (drop 2 s)"
        using Some pub s(3) by (auto simp: script_Compress_def k')
      have "s = [33, s ! 1] @ take 32 (drop 2 s) @ [0xac]"
        using split3 [of s 2 32] take_2 [of s] drop_last1 [of s 34] s True by simp
      then have "script_Decompress c (unat (s ! 1)) (take 32 (drop 2 s)) = Some s"
        using s(3) by (auto simp: script_Decompress_def)
      then show ?thesis using read_special [of "s ! 1" "take 32 (drop 2 s)" c s s0 r] s(3) True
        unfolding e c by (auto simp: GetSpecialSize_def)
    next
      case False
      define pk where "pk = take 65 (drop 1 s)"
      have s: "length s = 67" "s ! 0 = 65" "s ! 66 = 0xac" "s ! 1 = 4" and v: "c_IsFullyValid c (pubkey_Set pk)"
        and k: "k = pubkey_Set pk"
        using pub(3) False by (auto simp: IsToPubKey_def Let_def pk_def split: if_splits)
      have l: "length pk = 65" "pk ! 0 = 4" using s by (simp_all add: pk_def)
      have "hd pk = 4" using l hd_conv_nth [of pk] by force
      then have k': "k = pk" using l unfolding k pubkey_Set_def by (auto simp: pubkey_GetLen_def)
      have v': "c_IsFullyValid c pk" using v k k' by simp
      have c: "compr = (4 OR (pk ! 64 AND 1)) # take 32 (drop 1 pk)"
        using Some pub by (auto simp: script_Compress_def k' l(2))
      have b: "pk ! 64 AND 1 = 0 \<or> pk ! 64 AND 1 = 1" by (simp add: and_one_eq mod_2_eq_odd)
      have n: "unat (4 OR (pk ! 64 AND 1)) < 6" "unat (4 OR (pk ! 64 AND 1)) = 4 \<or> unat (4 OR (pk ! 64 AND 1)) = 5"
        and w: "of_nat (unat (4 OR (pk ! 64 AND 1)) - 2) = 2 + (pk ! 64 AND 1)"
        using b by auto
      have d: "c_Decompress c ((2 + (pk ! 64 AND 1)) # take 32 (drop 1 pk)) = Some pk"
        using assms(1) l v' unfolding key_compression_def by blast
      have "s = [65] @ pk @ [0xac]"
      proof -
        have "take 1 s = [s ! 0]" using s(1) by (simp add: take_Suc_conv_app_nth)
        then show ?thesis using split3 [of s 1 65] drop_last1 [of s 66] s by (simp add: pk_def)
      qed
      then have "script_Decompress c (unat (4 OR (pk ! 64 AND 1))) (take 32 (drop 1 pk)) = Some s"
        using n(2) d w by (auto simp: script_Decompress_def)
      then show ?thesis using read_special [OF n(1), of "take 32 (drop 1 pk)" c s s0 r] n(2) l(1)
        unfolding e c by (auto simp: GetSpecialSize_def)
    qed
  qed
qed

text \<open>C31: The compact form of a script in the coin database reads back as the script, for every
  script that fits (its length plus 6 is a 32-bit number), whichever special case it is.\<close>

theorem script_compression:
  assumes "key_compression c" "length s + 6 < 2 ^ 32"
  shows "unser_script c s0 (ser_script c s @ r) = Inr (s, r)"
  using assms by (rule script_compact)

text \<open>A concrete instance of the parameters, used in examples: keys whose two coordinates are equal,
  and hashes that cut or pad their input.\<close>

definition toy_crypto :: crypto where
  "toy_crypto = \<lparr> c_RIPEMD160 = (\<lambda>x. take 20 (x @ replicate 20 0)), c_SHA1 = (\<lambda>x. take 20 (x @ replicate 20 0)),
     c_SHA256 = (\<lambda>x. take 32 (x @ replicate 32 0)), c_Verify = (\<lambda>pk h sig. sig = [1]),
     c_IsFullyValid = (\<lambda>pk. drop 33 pk = take 32 (drop 1 pk)),
     c_Decompress = (\<lambda>v. Some (4 # tl v @ tl v)), c_shl80 = (\<lambda>n. 0) \<rparr>"

lemma toy_key_compression: "key_compression toy_crypto"
proof -
  have "4 # x @ x = pk" if "length pk = 65" "pk ! 0 = 4" "drop 33 pk = x" "x = take 32 (drop 1 pk)" for pk x :: bytes
  proof -
    have "drop 1 pk = take 32 (drop 1 pk) @ drop 33 pk" using append_take_drop_id [of 32 "drop 1 pk"] by simp
    moreover have "pk = pk ! 0 # drop 1 pk" using Cons_nth_drop_Suc [of 0 pk] that(1) by simp
    ultimately show ?thesis using that by simp
  qed
  then show ?thesis by (simp add: key_compression_def toy_crypto_def)
qed

theorem script_compression_witness:
  "unser_script toy_crypto [] (ser_script toy_crypto ([65, 4] @ replicate 64 9 @ [0xac]) @ [5]) = Inr ([65, 4] @ replicate 64 9 @ [0xac], [5])
    \<and> length (ser_script toy_crypto ([65, 4] @ replicate 64 9 @ [0xac])) = 33"
proof
  show "unser_script toy_crypto [] (ser_script toy_crypto ([65, 4] @ replicate 64 9 @ [0xac]) @ [5]) = Inr ([65, 4] @ replicate 64 9 @ [0xac], [5])"
    by (rule script_compression [OF toy_key_compression]) simp
  show "length (ser_script toy_crypto ([65, 4] @ replicate 64 9 @ [0xac])) = 33"
    by code_simp
qed

end
