(* ===== verification/Solver.thy ===== *)
theory Solver imports Main Prelude Opcodes Script begin

text \<open>
  Standard scripts (\<open>src/src/script.cpp\<close>): the solver that matches a script against the
  templates, the scripts of destinations, and what the key store (\<open>src/src/keystore.h\<close>,
  \<open>src/src/keystore.cpp\<close>) knows of a script. A destination holds the 20 bytes of its hash.
\<close>

unbundle bit_operations_syntax

section \<open>Templates\<close>

text \<open>The templates in the order of the multimap: by type, then by insertion.\<close>

definition mTemplates :: "(txnouttype \<times> CScript) list" where
  "mTemplates =
     [(TX_PUBKEY, [OP_PUBKEY, OP_CHECKSIG]),
      (TX_PUBKEYHASH, [OP_DUP, OP_HASH160, OP_PUBKEYHASH, OP_EQUALVERIFY, OP_CHECKSIG]),
      (TX_MULTISIG, [OP_SMALLINTEGER, OP_PUBKEYS, OP_SMALLINTEGER, OP_CHECKMULTISIG]),
      (TX_NULL_DATA, [OP_RETURN, OP_SMALLDATA]),
      (TX_NULL_DATA, [OP_RETURN])]"

text \<open>The loop over keys: it leaves with the first instruction that does not push a key. When the
  script cannot be read further the opcode is the invalid one and the operand empty.\<close>

function pubkeys_loop :: "byte \<Rightarrow> bytes \<Rightarrow> bytes \<Rightarrow> bytes list \<Rightarrow> byte \<times> bytes \<times> bytes \<times> bytes list" where
  "pubkeys_loop opcode1 vch1 pc1 sols =
     (if length vch1 \<ge> 33 \<and> length vch1 \<le> 65 then
        case GetOp pc1 of (None, r) \<Rightarrow> (OP_INVALIDOPCODE, [], r, sols @ [vch1])
        | (Some (opcode, vch), r) \<Rightarrow> pubkeys_loop opcode vch r (sols @ [vch1])
      else (opcode1, vch1, pc1, sols))"
  by auto
termination by (relation "measure (\<lambda>(a, b, pc, d). length pc)") (use GetOp_length in \<open>auto simp: eq_commute\<close>)

declare pubkeys_loop.simps [simp del]

text \<open>One template opcode against the instruction read: the solutions it adds, or \<open>None\<close> for a
  mismatch.\<close>

definition match_op :: "byte \<Rightarrow> bytes \<Rightarrow> byte \<Rightarrow> bytes \<Rightarrow> bytes list option" where
  "match_op opcode2 vch2 opcode1 vch1 =
     (if opcode2 = OP_PUBKEY then
        if length vch1 < 33 \<or> length vch1 > 65 then None else Some [vch1]
      else if opcode2 = OP_PUBKEYHASH then
        if length vch1 \<noteq> 20 then None else Some [vch1]
      else if opcode2 = OP_SMALLINTEGER then
        if opcode1 = OP_0 \<or> (opcode1 \<ge> OP_1 \<and> opcode1 \<le> OP_16)
        then Some [[if opcode1 = OP_0 then 0 else opcode1 - (OP_1 - 1)]] else None
      else if opcode2 = OP_SMALLDATA then
        if length vch1 > MAX_OP_RETURN_RELAY then None else Some []
      else if opcode1 \<noteq> opcode2 \<or> vch1 \<noteq> vch2 then None else Some [])"

function match_template :: "bytes \<Rightarrow> bytes \<Rightarrow> bytes list \<Rightarrow> bytes list option" where
  "match_template pc1 pc2 sols =
     (if pc1 = [] \<and> pc2 = [] then Some sols
      else case GetOp pc1 of (None, r1) \<Rightarrow> None | (Some (opcode1, vch1), r1) \<Rightarrow>
        case GetOp pc2 of (None, r2) \<Rightarrow> None | (Some (opcode2, vch2), r2) \<Rightarrow>
          if opcode2 = OP_PUBKEYS then
            let (opcode1, vch1, r1, sols) = pubkeys_loop opcode1 vch1 r1 sols in
            (case GetOp r2 of (None, r3) \<Rightarrow> None | (Some (opcode2, vch2), r3) \<Rightarrow>
              case match_op opcode2 vch2 opcode1 vch1 of None \<Rightarrow> None
              | Some l \<Rightarrow> match_template r1 r3 (sols @ l))
          else
            (case match_op opcode2 vch2 opcode1 vch1 of None \<Rightarrow> None
              | Some l \<Rightarrow> match_template r1 r2 (sols @ l)))"
  by auto
termination
proof (relation "measure (\<lambda>(pc1, pc2, s). length pc2)", goal_cases)
  case (2 pc1 pc2 sols a r1 b op1 vch1 c r2 d op2 vch2 e op1' f vch1' g r1' h k r3 l op2' vch2' m)
  then have "GetOp pc2 = (Some d, r2)" "GetOp r2 = (Some l, r3)" by simp_all
  from GetOp_length [OF this(1)] GetOp_length [OF this(2)] show ?case by simp
next
  case (3 pc1 pc2 sols a r1 b op1 vch1 c r2 d op2 vch2 m)
  then have "GetOp pc2 = (Some d, r2)" by simp
  from GetOp_length [OF this] show ?case by simp
qed simp

declare match_template.simps [simp del]

text \<open>The result, the type and the solutions as the function leaves them: a script that matches
  the multisig template but not its conditions is refused with its type and solutions.\<close>

fun scan_templates :: "(txnouttype \<times> CScript) list \<Rightarrow> CScript \<Rightarrow> bool \<times> txnouttype \<times> bytes list" where
  "scan_templates [] script1 = (False, TX_NONSTANDARD, [])"
| "scan_templates ((t, script2) # ts) script1 =
     (case match_template script1 script2 [] of None \<Rightarrow> scan_templates ts script1
      | Some sols \<Rightarrow>
        if t = TX_MULTISIG then
          let m = hd (hd sols); n = hd (last sols) in
          (\<not> (m < 1 \<or> n < 1 \<or> m > n \<or> length sols - 2 \<noteq> unat n), t, sols)
        else (True, t, sols))"

definition script_Solver :: "CScript \<Rightarrow> bool \<times> txnouttype \<times> bytes list" where
  "script_Solver scriptPubKey =
     (if IsPayToScriptHash scriptPubKey then (True, TX_SCRIPTHASH, [take 20 (drop 2 scriptPubKey)])
      else scan_templates mTemplates scriptPubKey)"

definition IsStandard :: "CScript \<Rightarrow> bool \<times> txnouttype" where
  "IsStandard scriptPubKey =
     (let (ok, whichType, sols) = script_Solver scriptPubKey in
      if \<not> ok then (False, whichType)
      else if whichType = TX_MULTISIG \<and>
          (let m = hd (hd sols); n = hd (last sols) in n < 1 \<or> n > 3 \<or> m < 1 \<or> m > n)
        then (False, whichType)
      else (whichType \<noteq> TX_NONSTANDARD, whichType))"

fun ScriptSigArgsExpected :: "txnouttype \<Rightarrow> bytes list \<Rightarrow> int" where
  "ScriptSigArgsExpected TX_NONSTANDARD vSolutions = -1"
| "ScriptSigArgsExpected TX_NULL_DATA vSolutions = -1"
| "ScriptSigArgsExpected TX_PUBKEY vSolutions = 1"
| "ScriptSigArgsExpected TX_PUBKEYHASH vSolutions = 2"
| "ScriptSigArgsExpected TX_MULTISIG vSolutions =
     (if length vSolutions < 1 \<or> length (hd vSolutions) < 1 then -1 else uint (hd (hd vSolutions)) + 1)"
| "ScriptSigArgsExpected TX_SCRIPTHASH vSolutions = 1"

section \<open>Destinations\<close>

datatype CTxDestination =
    CNoDestination
  | CKeyID bytes
  | CScriptID bytes

definition ExtractDestination :: "crypto \<Rightarrow> CScript \<Rightarrow> CTxDestination option" where
  "ExtractDestination c scriptPubKey =
     (let (ok, whichType, vSolutions) = script_Solver scriptPubKey in
      if \<not> ok then None
      else if whichType = TX_PUBKEY then Some (CKeyID (pubkey_GetID c (pubkey_Set (vSolutions ! 0))))
      else if whichType = TX_PUBKEYHASH then Some (CKeyID (vSolutions ! 0))
      else if whichType = TX_SCRIPTHASH then Some (CScriptID (vSolutions ! 0))
      else None)"

text \<open>The addresses and the number of signatures they need, and the type in every case.\<close>

definition ExtractDestinations :: "crypto \<Rightarrow> CScript \<Rightarrow> txnouttype \<times> (CTxDestination list \<times> nat) option" where
  "ExtractDestinations c scriptPubKey =
     (let (ok, typeRet, vSolutions) = script_Solver scriptPubKey in
      (typeRet,
       if \<not> ok then None
       else if typeRet = TX_NULL_DATA then None
       else if typeRet = TX_MULTISIG then
         Some (map (\<lambda>v. CKeyID (pubkey_GetID c (pubkey_Set v))) (butlast (tl vSolutions)), unat (hd (hd vSolutions)))
       else (case ExtractDestination c scriptPubKey of None \<Rightarrow> None | Some address \<Rightarrow> Some ([address], 1))))"

fun SetDestination :: "CTxDestination \<Rightarrow> bool \<times> CScript" where
  "SetDestination CNoDestination = (False, [])"
| "SetDestination (CKeyID keyID) =
     (True, push_op (push_op (push_uint (push_op (push_op [] OP_DUP) OP_HASH160) keyID) OP_EQUALVERIFY) OP_CHECKSIG)"
| "SetDestination (CScriptID scriptID) = (True, push_op (push_uint (push_op [] OP_HASH160) scriptID) OP_EQUAL)"

text \<open>\<open>None\<close> is a failed assertion on a number or a key.\<close>

fun push_pubkeys :: "CScript \<Rightarrow> bytes list \<Rightarrow> CScript option" where
  "push_pubkeys s [] = Some s"
| "push_pubkeys s (key # keys) = (case push_pubkey s key of None \<Rightarrow> None | Some s \<Rightarrow> push_pubkeys s keys)"

definition SetMultisig :: "int \<Rightarrow> bytes list \<Rightarrow> CScript option" where
  "SetMultisig nRequired keys =
     (case EncodeOP_N nRequired of None \<Rightarrow> None | Some m \<Rightarrow>
      case push_pubkeys (push_op [] m) keys of None \<Rightarrow> None | Some s \<Rightarrow>
      case EncodeOP_N (int (length keys)) of None \<Rightarrow> None | Some n \<Rightarrow>
        Some (push_op (push_op s n) OP_CHECKMULTISIG))"

section \<open>Key stores\<close>

text \<open>The key of an address is a byte string; scripts and keys are stored by their hashes.\<close>

record CBasicKeyStore =
  mapKeys :: "bytes \<rightharpoonup> bytes"
  mapScripts :: "bytes \<rightharpoonup> CScript"
  setWatchOnly :: "CScript set"

definition AddKeyPubKey :: "crypto \<Rightarrow> CBasicKeyStore \<Rightarrow> bytes \<Rightarrow> bytes \<Rightarrow> CBasicKeyStore" where
  "AddKeyPubKey c ks key pubkey = ks\<lparr>mapKeys := (mapKeys ks)(pubkey_GetID c pubkey \<mapsto> key)\<rparr>"

definition HaveKey :: "CBasicKeyStore \<Rightarrow> bytes \<Rightarrow> bool" where
  "HaveKey ks address \<longleftrightarrow> mapKeys ks address \<noteq> None"

definition AddCScript :: "crypto \<Rightarrow> CBasicKeyStore \<Rightarrow> CScript \<Rightarrow> bool \<times> CBasicKeyStore" where
  "AddCScript c ks redeemScript =
     (if length redeemScript > MAX_SCRIPT_ELEMENT_SIZE then (False, ks)
      else (True, ks\<lparr>mapScripts := (mapScripts ks)(Hash160 c redeemScript \<mapsto> redeemScript)\<rparr>))"

definition HaveCScript :: "CBasicKeyStore \<Rightarrow> bytes \<Rightarrow> bool" where
  "HaveCScript ks hash \<longleftrightarrow> mapScripts ks hash \<noteq> None"

definition GetCScript :: "CBasicKeyStore \<Rightarrow> bytes \<Rightarrow> CScript option" where
  "GetCScript ks hash = mapScripts ks hash"

definition AddWatchOnly :: "CBasicKeyStore \<Rightarrow> CScript \<Rightarrow> CBasicKeyStore" where
  "AddWatchOnly ks dest = ks\<lparr>setWatchOnly := insert dest (setWatchOnly ks)\<rparr>"

definition HaveWatchOnly :: "CBasicKeyStore \<Rightarrow> CScript \<Rightarrow> bool" where
  "HaveWatchOnly ks dest \<longleftrightarrow> dest \<in> setWatchOnly ks"

definition HaveKeys :: "crypto \<Rightarrow> bytes list \<Rightarrow> CBasicKeyStore \<Rightarrow> nat" where
  "HaveKeys c pubkeys ks = length (filter (\<lambda>pk. HaveKey ks (pubkey_GetID c (pubkey_Set pk))) pubkeys)"

datatype isminetype = ISMINE_NO | ISMINE_WATCH_ONLY | ISMINE_SPENDABLE

text \<open>A script hash is resolved in the store; the recursion ends unless the store holds a cycle of
  script hashes (\<open>None\<close>).\<close>

partial_function (option) IsMine :: "crypto \<Rightarrow> CBasicKeyStore \<Rightarrow> CScript \<Rightarrow> isminetype option" where
  "IsMine c ks scriptPubKey =
     (let (ok, whichType, vSolutions) = script_Solver scriptPubKey;
          watch = (if HaveWatchOnly ks scriptPubKey then ISMINE_WATCH_ONLY else ISMINE_NO)
      in if \<not> ok then Some watch
         else if whichType = TX_PUBKEY then
           Some (if HaveKey ks (pubkey_GetID c (pubkey_Set (vSolutions ! 0))) then ISMINE_SPENDABLE else watch)
         else if whichType = TX_PUBKEYHASH then
           Some (if HaveKey ks (vSolutions ! 0) then ISMINE_SPENDABLE else watch)
         else if whichType = TX_SCRIPTHASH then
           (case GetCScript ks (vSolutions ! 0) of None \<Rightarrow> Some watch
            | Some subscript \<Rightarrow>
              Option.bind (IsMine c ks subscript) (\<lambda>ret.
              Some (if ret = ISMINE_SPENDABLE then ret else watch)))
         else if whichType = TX_MULTISIG then
           let keys = butlast (tl vSolutions) in
           Some (if HaveKeys c keys ks = length keys then ISMINE_SPENDABLE else watch)
         else Some watch)"

section \<open>Matching, instruction by instruction\<close>

lemma GetOp_op: "\<not> opcode \<le> OP_PUSHDATA4 \<Longrightarrow> GetOp (opcode # r) = (Some (opcode, []), r)"
  by (simp add: GetOp_def)

lemma GetOp_direct:
  assumes "n = length v" "n < 76"
  shows "GetOp (of_nat n # v @ r) = (Some (of_nat n, v), r)"
  using GetOp_push [of v r] assms by (simp add: push_bytes_def push_opcode_def)

lemma ops_op: "\<not> opcode \<le> OP_PUSHDATA4 \<Longrightarrow> ops (opcode # r) = ((opcode, []) # fst (ops r), snd (ops r))"
  by (rule ops_step) (rule GetOp_op)

lemma match_step:
  assumes "GetOp pc1 = (Some (o1, v1), r1)" "GetOp pc2 = (Some (o2, v2), r2)" "o2 \<noteq> OP_PUBKEYS"
  shows "match_template pc1 pc2 sols =
    (case match_op o2 v2 o1 v1 of None \<Rightarrow> None | Some l \<Rightarrow> match_template r1 r2 (sols @ l))"
  using assms by (cases "pc1 = []") (simp_all add: match_template.simps [of pc1 pc2])

text \<open>For a template without the opcode for several keys, matching is a comparison of lists.\<close>

fun match_list :: "bytes \<Rightarrow> (byte \<times> bytes) list \<Rightarrow> bytes list option" where
  "match_list [] [] = Some []"
| "match_list (b # t) (x # xs) =
     (case match_op b [] (fst x) (snd x) of None \<Rightarrow> None | Some l \<Rightarrow> map_option ((@) l) (match_list t xs))"
| "match_list t xs = None"

lemma match_template_ops:
  assumes "list_all (\<lambda>b. \<not> b \<le> OP_PUSHDATA4 \<and> b \<noteq> OP_PUBKEYS) t"
  shows "match_template s t sols = (if snd (ops s) then map_option ((@) sols) (match_list t (fst (ops s))) else None)"
  using assms
proof (induction t arbitrary: s sols)
  case Nil
  show ?case
  proof (cases "s = []")
    case True
    then show ?thesis by (simp add: match_template.simps)
  next
    case False
    then show ?thesis by (cases "GetOp s") (auto simp: match_template.simps [of s] ops.simps [of s]
          split: option.splits prod.splits)
  qed
next
  case (Cons b t)
  have b: "GetOp (b # t) = (Some (b, []), t)" using Cons.prems by (simp add: GetOp_op)
  show ?case
  proof (cases "GetOp s")
    case (Pair x r)
    show ?thesis
    proof (cases x)
      case None
      then have "match_template s (b # t) sols = None" using Pair by (simp add: match_template.simps [of s])
      moreover have "ops s = (if s = [] then ([], True) else ([], False))" using Pair None by (simp add: ops.simps [of s])
      ultimately show ?thesis by (cases "s = []") simp_all
    next
      case (Some y)
      obtain o1 v1 where y: "y = (o1, v1)" by (cases y)
      have g: "GetOp s = (Some (o1, v1), r)" using Pair Some y by simp
      show ?thesis using Cons.prems Cons.IH [of r]
        by (cases "match_op b [] o1 v1"; cases "match_list t (fst (ops r))") (auto simp: match_step [OF g b] ops_step [OF g] option.map_comp comp_def)
    qed
  qed
qed

lemma templates_plain:
  "list_all (\<lambda>b. \<not> b \<le> OP_PUSHDATA4 \<and> b \<noteq> OP_PUBKEYS) [OP_PUBKEY, OP_CHECKSIG]"
  "list_all (\<lambda>b. \<not> b \<le> OP_PUSHDATA4 \<and> b \<noteq> OP_PUBKEYS) [OP_DUP, OP_HASH160, OP_PUBKEYHASH, OP_EQUALVERIFY, OP_CHECKSIG]"
  "list_all (\<lambda>b. \<not> b \<le> OP_PUSHDATA4 \<and> b \<noteq> OP_PUBKEYS) [OP_RETURN, OP_SMALLDATA]"
  "list_all (\<lambda>b. \<not> b \<le> OP_PUSHDATA4 \<and> b \<noteq> OP_PUBKEYS) [OP_RETURN]"
  by simp_all

lemma match_list_Cons:
  "match_list (b # t) xs = Some l \<longleftrightarrow>
    (\<exists>x ys l1 l2. xs = x # ys \<and> match_op b [] (fst x) (snd x) = Some l1 \<and> match_list t ys = Some l2 \<and> l = l1 @ l2)"
  by (cases xs) (auto split: option.splits)

lemma match_list_Nil: "match_list [] xs = Some l \<longleftrightarrow> xs = [] \<and> l = []"
  by (cases xs) auto

lemma match_op_cases:
  "match_op OP_PUBKEYHASH [] o1 v1 = Some l \<longleftrightarrow> length v1 = 20 \<and> l = [v1]"
  "match_op OP_PUBKEY [] o1 v1 = Some l \<longleftrightarrow> 33 \<le> length v1 \<and> length v1 \<le> 65 \<and> l = [v1]"
  "match_op OP_DUP [] o1 v1 = Some l \<longleftrightarrow> o1 = OP_DUP \<and> v1 = [] \<and> l = []"
  "match_op OP_HASH160 [] o1 v1 = Some l \<longleftrightarrow> o1 = OP_HASH160 \<and> v1 = [] \<and> l = []"
  "match_op OP_EQUALVERIFY [] o1 v1 = Some l \<longleftrightarrow> o1 = OP_EQUALVERIFY \<and> v1 = [] \<and> l = []"
  "match_op OP_CHECKSIG [] o1 v1 = Some l \<longleftrightarrow> o1 = OP_CHECKSIG \<and> v1 = [] \<and> l = []"
  by (auto simp: match_op_def)

definition p2pkh_ops :: "byte \<Rightarrow> bytes \<Rightarrow> (byte \<times> bytes) list" where
  "p2pkh_ops op h = [(OP_DUP, []), (OP_HASH160, []), (op, h), (OP_EQUALVERIFY, []), (OP_CHECKSIG, [])]"

lemma match_pubkeyhash:
  "match_template s [OP_DUP, OP_HASH160, OP_PUBKEYHASH, OP_EQUALVERIFY, OP_CHECKSIG] [] = Some sols \<longleftrightarrow>
    (\<exists>op h. length h = 20 \<and> sols = [h] \<and> ops s = (p2pkh_ops op h, True))"
  unfolding match_template_ops [OF templates_plain(2)]
  by (cases "ops s") (auto simp: match_list_Cons match_list_Nil match_op_cases p2pkh_ops_def simp del: match_list.simps)

lemma match_pubkey:
  "match_template s [OP_PUBKEY, OP_CHECKSIG] [] = Some sols \<longleftrightarrow>
    (\<exists>op k. 33 \<le> length k \<and> length k \<le> 65 \<and> sols = [k] \<and> ops s = ([(op, k), (OP_CHECKSIG, [])], True))"
  unfolding match_template_ops [OF templates_plain(1)]
  by (cases "ops s") (auto simp: match_list_Cons match_list_Nil match_op_cases simp del: match_list.simps)

lemma p2sh_ops: "IsPayToScriptHash s \<Longrightarrow> \<exists>xs ok. ops s = ((OP_HASH160, []) # xs, ok)"
  by (cases s) (auto simp: IsPayToScriptHash_def ops_op)

text \<open>The solver reports a payment to a key hash exactly for the scripts that read as the five
  instructions of the template, with any push of 20 bytes, and gives that hash.\<close>

theorem Solver_pubkeyhash:
  "script_Solver s = (True, TX_PUBKEYHASH, sols) \<longleftrightarrow>
    (\<exists>op h. length h = 20 \<and> sols = [h] \<and> ops s = (p2pkh_ops op h, True))"
proof
  assume l: "script_Solver s = (True, TX_PUBKEYHASH, sols)"
  then have "\<not> IsPayToScriptHash s" by (auto simp: script_Solver_def)
  then have "match_template s [OP_DUP, OP_HASH160, OP_PUBKEYHASH, OP_EQUALVERIFY, OP_CHECKSIG] [] = Some sols"
    using l by (auto simp: script_Solver_def mTemplates_def Let_def split: option.splits)
  then show "\<exists>op h. length h = 20 \<and> sols = [h] \<and> ops s = (p2pkh_ops op h, True)" by (simp add: match_pubkeyhash)
next
  assume r: "\<exists>op h. length h = 20 \<and> sols = [h] \<and> ops s = (p2pkh_ops op h, True)"
  then have "\<not> IsPayToScriptHash s" using p2sh_ops [of s] by (auto simp: p2pkh_ops_def)
  moreover have "match_template s [OP_PUBKEY, OP_CHECKSIG] [] = None"
    using r by (cases "match_template s [OP_PUBKEY, OP_CHECKSIG] []") (auto simp: match_pubkey p2pkh_ops_def)
  moreover have "match_template s [OP_DUP, OP_HASH160, OP_PUBKEYHASH, OP_EQUALVERIFY, OP_CHECKSIG] [] = Some sols"
    using r by (simp add: match_pubkeyhash)
  ultimately show "script_Solver s = (True, TX_PUBKEYHASH, sols)"
    by (simp add: script_Solver_def mTemplates_def)
qed

lemma ops_SetDestination:
  assumes "length h = 20"
  shows "ops (snd (SetDestination (CKeyID h))) = (p2pkh_ops 20 h, True)"
    "IsPayToScriptHash (snd (SetDestination (CScriptID h)))"
proof -
  have "ops (20 # h @ r) = ((20, h) # fst (ops r), snd (ops r))" for r
    using ops_step [OF GetOp_direct [of 20 h r]] assms by simp
  then show "ops (snd (SetDestination (CKeyID h))) = (p2pkh_ops 20 h, True)"
    by (simp add: push_op_def push_uint_def assms ops_op p2pkh_ops_def)
  show "IsPayToScriptHash (snd (SetDestination (CScriptID h)))"
    using assms by (simp add: IsPayToScriptHash_def push_op_def push_uint_def nth_append)
qed

text \<open>C36: Destinations: the script of a key hash or a script hash is read back as that destination,
  it is standard, and no other destination has it.\<close>

theorem destination_roundtrip:
  assumes "length h = 20" "dest = CKeyID h \<or> dest = CScriptID h"
  shows "ExtractDestination c (snd (SetDestination dest)) = Some dest \<and> fst (SetDestination dest)
    \<and> fst (IsStandard (snd (SetDestination dest)))"
  using assms(2)
proof
  assume d: "dest = CKeyID h"
  have "script_Solver (snd (SetDestination dest)) = (True, TX_PUBKEYHASH, [h])"
    unfolding Solver_pubkeyhash using assms(1) ops_SetDestination(1) [OF assms(1)] d by blast
  then show ?thesis using d by (simp add: ExtractDestination_def IsStandard_def)
next
  assume d: "dest = CScriptID h"
  have "script_Solver (snd (SetDestination dest)) = (True, TX_SCRIPTHASH, [h])"
    using ops_SetDestination(2) [OF assms(1)] assms(1) d by (simp add: script_Solver_def push_op_def push_uint_def)
  then show ?thesis using d by (simp add: ExtractDestination_def IsStandard_def)
qed

theorem destination_roundtrip_witness:
  "ExtractDestination toy_crypto (snd (SetDestination (CKeyID (replicate 20 7)))) = Some (CKeyID (replicate 20 7))"
  using destination_roundtrip [of "replicate 20 7" "CKeyID (replicate 20 7)" toy_crypto] by simp

section \<open>Multisig\<close>

text \<open>A script that pushes keys, each shorter than 76 bytes.\<close>

definition push_keys :: "bytes list \<Rightarrow> CScript" where
  "push_keys keys = concat (map (\<lambda>k. of_nat (length k) # k) keys)"

lemma push_pubkeys_keys:
  "list_all (\<lambda>k. length k < 76) keys \<Longrightarrow> push_pubkeys s keys = Some (s @ push_keys keys)"
  by (induction keys arbitrary: s) (simp_all add: push_keys_def push_pubkey_def)

lemma pubkeys_loop_keys:
  assumes "list_all (\<lambda>k. 33 \<le> length k \<and> length k \<le> 65) (v # keys)" "\<not> opc \<le> OP_PUSHDATA4"
  shows "pubkeys_loop o1 v (push_keys keys @ opc # r) sols = (opc, [], r, sols @ v # keys)"
  using assms(1)
proof (induction keys arbitrary: o1 v sols)
  case Nil
  then show ?case using assms(2)
    by (simp add: push_keys_def pubkeys_loop.simps [of o1 v] GetOp_op pubkeys_loop.simps [of opc "[]"])
next
  case (Cons k keys)
  have "GetOp (push_keys (k # keys) @ opc # r) = (Some (of_nat (length k), k), push_keys keys @ opc # r)"
    using GetOp_direct [of "length k" k "push_keys keys @ opc # r"] Cons.prems by (simp add: push_keys_def)
  then show ?case using Cons by (simp add: pubkeys_loop.simps [of o1 v])
qed

lemma EncodeOP_N_facts:
  assumes "1 \<le> n" "n \<le> 16"
  shows "EncodeOP_N n = Some (word_of_int (80 + n))" "uint (word_of_int (80 + n) :: byte) = 80 + n"
proof -
  show "uint (word_of_int (80 + n) :: byte) = 80 + n"
    unfolding uint_word_of_int_eq by (rule take_bit_int_eq_self) (use assms in auto)
  have e: "uint OP_1 + n - 1 = 80 + n" "(0 \<le> n \<and> n \<le> 16) = True" "(n = 0) = False" using assms by simp_all
  show "EncodeOP_N n = Some (word_of_int (80 + n))" unfolding EncodeOP_N_def e by (simp only: if_True if_False)
qed

lemma small_int_op:
  assumes "1 \<le> n" "n \<le> 16"
  defines "b \<equiv> word_of_int (80 + n) :: byte"
  shows "\<not> b \<le> OP_PUSHDATA4" "OP_1 \<le> b" "b \<le> OP_16" "b \<noteq> OP_0" "b \<noteq> OP_DUP" "b \<noteq> OP_HASH160"
    "b - (OP_1 - 1) = word_of_int n"
proof -
  have u: "uint b = 80 + n" using EncodeOP_N_facts(2) [OF assms(1,2)] by (simp only: b_def)
  show "\<not> b \<le> OP_PUSHDATA4" "OP_1 \<le> b" "b \<le> OP_16" using u assms(1,2) by (simp_all add: word_le_def)
  show "b \<noteq> OP_0" "b \<noteq> OP_DUP" "b \<noteq> OP_HASH160" using u assms(1,2) by auto
  show "b - (OP_1 - 1) = word_of_int n" by (simp add: b_def)
qed

definition multisig_script :: "int \<Rightarrow> bytes list \<Rightarrow> CScript" where
  "multisig_script m keys =
     word_of_int (80 + m) # push_keys keys @ [word_of_int (80 + int (length keys)), OP_CHECKMULTISIG]"

lemma SetMultisig_script:
  assumes "1 \<le> m" "m \<le> int (length keys)" "length keys \<le> 16" "list_all (\<lambda>k. length k < 76) keys"
  shows "SetMultisig m keys = Some (multisig_script m keys)"
  using assms EncodeOP_N_facts(1) [of m] EncodeOP_N_facts(1) [of "int (length keys)"]
  by (simp add: SetMultisig_def push_pubkeys_keys push_op_def multisig_script_def)

lemma match_op_small:
  assumes "1 \<le> n" "n \<le> 16"
  shows "match_op OP_SMALLINTEGER [] (word_of_int (80 + n)) [] = Some [[word_of_int n]]"
  unfolding match_op_def using small_int_op [OF assms] by simp

lemma match_multisig:
  assumes "1 \<le> m" "m \<le> int (length keys)" "length keys \<le> 16"
    "list_all (\<lambda>k. 33 \<le> length k \<and> length k \<le> 65) keys"
  shows "match_template (multisig_script m keys) [OP_SMALLINTEGER, OP_PUBKEYS, OP_SMALLINTEGER, OP_CHECKMULTISIG] [] =
    Some ([word_of_int m] # keys @ [[word_of_int (int (length keys))]])"
proof -
  obtain k ks where keys: "keys = k # ks" using assms(1,2) by (cases keys) auto
  define n where "n = int (length keys)"
  have n: "1 \<le> n" "n \<le> 16" and m: "m \<le> 16" using assms(1-3) by (simp_all add: n_def)
  define nb where "nb = (word_of_int (80 + n) :: byte)"
  define mb where "mb = (word_of_int (80 + m) :: byte)"
  let ?tail = "[nb, OP_CHECKMULTISIG]"
  have s: "multisig_script m keys = mb # push_keys keys @ ?tail"
    by (simp only: multisig_script_def n_def nb_def mb_def)
  have mo: "match_op OP_SMALLINTEGER [] nb [] = Some [[word_of_int n]]" "match_op OP_SMALLINTEGER [] mb [] = Some [[word_of_int m]]"
    using match_op_small [OF n] match_op_small [OF assms(1) m] by (simp_all only: nb_def mb_def)
  have g1: "GetOp (multisig_script m keys) = (Some (mb, []), push_keys keys @ ?tail)"
    unfolding s mb_def by (rule GetOp_op) (rule small_int_op(1) [OF assms(1) m])
  have g2: "GetOp (push_keys keys @ ?tail) = (Some (of_nat (length k), k), push_keys ks @ ?tail)"
    using GetOp_direct [of "length k" k "push_keys ks @ ?tail"] assms(4) by (simp add: push_keys_def keys)
  have lp: "pubkeys_loop o1 k (push_keys ks @ ?tail) sols = (nb, [], [OP_CHECKMULTISIG], sols @ keys)" for o1 sols
    using pubkeys_loop_keys [of k ks nb o1 "[OP_CHECKMULTISIG]" sols] assms(4) small_int_op(1) [OF n]
    by (simp add: keys nb_def [symmetric] del: of_int_add)
  have g: "GetOp (0xfa # r) = (Some (0xfa, []), r)" "GetOp (0xfb # r) = (Some (0xfb, []), r)"
    "GetOp (0xae # r) = (Some (0xae, []), r)" for r by (rule GetOp_op; simp)+
  have e: "match_template [OP_CHECKMULTISIG] [OP_CHECKMULTISIG] sols = Some sols" for sols
    by (simp add: match_step [OF g(3) g(3)] match_op_def match_template.simps [of "[]" "[]"])
  have ne: "push_keys keys \<noteq> []" by (simp add: push_keys_def keys)
  have "match_template (push_keys keys @ ?tail) [0xfb, 0xfa, 0xae] sols = Some (sols @ keys @ [[word_of_int n]])" for sols
    unfolding match_template.simps [of "push_keys keys @ ?tail"] using ne
    by (simp add: g2 g lp mo e)
  then show ?thesis
    using match_step [OF g1 g(1) [of "[0xfb, 0xfa, 0xae]"], of "[]"] by (simp add: mo n_def)
qed

text \<open>The script that \<open>SetMultisig\<close> builds for \<open>m\<close> of up to sixteen keys is recognised by the
  solver, which gives back the number of signatures, the keys in their order and their number;
  it is standard exactly when there are at most three keys.\<close>

theorem multisig_roundtrip:
  assumes "1 \<le> m" "m \<le> int (length keys)" "length keys \<le> 16"
    "list_all (\<lambda>k. 33 \<le> length k \<and> length k \<le> 65) keys"
  shows "\<exists>s. SetMultisig m keys = Some s
    \<and> script_Solver s = (True, TX_MULTISIG, [word_of_int m] # keys @ [[word_of_int (int (length keys))]])
    \<and> fst (IsStandard s) = (length keys \<le> 3)"
proof -
  define n where "n = int (length keys)"
  have n: "1 \<le> n" "n \<le> 16" and m: "m \<le> 16" using assms(1-3) by (simp_all add: n_def)
  let ?s = "multisig_script m keys"
  have "list_all (\<lambda>k. length k < 76) keys" using assms(4) by (auto simp: list_all_iff)
  then have set: "SetMultisig m keys = Some ?s" using assms(1-3) by (rule SetMultisig_script [rotated 3])
  note b = small_int_op [OF assms(1) m]
  have "\<not> IsPayToScriptHash ?s" using b(6) by (simp add: IsPayToScriptHash_def multisig_script_def)
  moreover have o: "ops ?s = ((word_of_int (80 + m), []) # xs, ok)" if "xs = fst (ops (tl ?s))" "ok = snd (ops (tl ?s))" for xs ok
    using ops_op [OF b(1), of "tl ?s"] that by (simp add: multisig_script_def)
  have "match_template ?s [OP_PUBKEY, OP_CHECKSIG] [] = None"
    using o by (cases "match_template ?s [OP_PUBKEY, OP_CHECKSIG] []") (auto simp: match_pubkey)
  moreover have "match_template ?s [OP_DUP, OP_HASH160, OP_PUBKEYHASH, OP_EQUALVERIFY, OP_CHECKSIG] [] = None"
    using o b(5) by (cases "match_template ?s [OP_DUP, OP_HASH160, OP_PUBKEYHASH, OP_EQUALVERIFY, OP_CHECKSIG] []")
      (auto simp: match_pubkeyhash p2pkh_ops_def)
  moreover have u: "uint (word_of_int m :: byte) = m" "uint (word_of_int n :: byte) = n"
    unfolding uint_word_of_int_eq by (rule take_bit_int_eq_self; use assms(1) m n in auto)+
  have un: "unat (word_of_int n :: byte) = length keys" using u(2) by (simp add: unat_eq_nat_uint n_def del: uint_nat)
  have ok: "\<not> (word_of_int m < (1 :: byte) \<or> word_of_int n < (1 :: byte) \<or> word_of_int n < (word_of_int m :: byte))"
    using u assms(1,2) n(1) by (auto simp: word_less_def n_def)
  ultimately have sv: "script_Solver ?s = (True, TX_MULTISIG, [word_of_int m] # keys @ [[word_of_int n]])"
    using match_multisig [OF assms] ok un
    by (simp add: script_Solver_def mTemplates_def n_def [symmetric] Let_def)
  have "(3 :: byte) < word_of_int n \<longleftrightarrow> \<not> length keys \<le> 3" using u(2) by (auto simp: word_less_def n_def)
  then have "fst (IsStandard ?s) = (length keys \<le> 3)"
    using sv ok by (auto simp: IsStandard_def Let_def)
  then show ?thesis using set sv by (auto simp: n_def)
qed

theorem multisig_roundtrip_witness:
  "\<exists>s. SetMultisig 2 [replicate 33 2, replicate 33 3, replicate 65 4] = Some s \<and> fst (IsStandard s)"
  using multisig_roundtrip [of 2 "[replicate 33 2, replicate 33 3, replicate 65 4]"] by auto

end
