(* ===== verification/Sighash.thy ===== *)
theory Sighash imports Main "HOL-Library.Product_Lexorder" "HOL-Library.List_Lexorder" Prelude Serialize Tx Opcodes Script begin

text \<open>
  Signatures (\<open>src/src/script.cpp\<close>): the syntactic tests of signatures and public keys, the
  serialization of a transaction that is hashed for a signature, the check of a signature and
  the cache of valid ones.
\<close>

unbundle bit_operations_syntax

section \<open>Encodings\<close>

definition IsCompressedOrUncompressedPubKey :: "bytes \<Rightarrow> bool" where
  "IsCompressedOrUncompressedPubKey vchPubKey =
     (if length vchPubKey < 33 then False
      else if vchPubKey ! 0 = 0x04 then length vchPubKey = 65
      else if vchPubKey ! 0 = 0x02 \<or> vchPubKey ! 0 = 0x03 then length vchPubKey = 33
      else False)"

definition IsValidSignatureEncoding :: "bytes \<Rightarrow> bool" where
  "IsValidSignatureEncoding sig =
     (if length sig < 9 then False
      else if length sig > 73 then False
      else if sig ! 0 \<noteq> 0x30 then False
      else if unat (sig ! 1) \<noteq> length sig - 3 then False
      else let lenR = unat (sig ! 3) in
        if 5 + lenR \<ge> length sig then False
        else let lenS = unat (sig ! (5 + lenR)) in
          if lenR + lenS + 7 \<noteq> length sig then False
          else if sig ! 2 \<noteq> 0x02 then False
          else if lenR = 0 then False
          else if sig ! 4 AND 0x80 \<noteq> 0 then False
          else if lenR > 1 \<and> sig ! 4 = 0x00 \<and> \<not> sig ! 5 AND 0x80 \<noteq> 0 then False
          else if sig ! (lenR + 4) \<noteq> 0x02 then False
          else if lenS = 0 then False
          else if sig ! (lenR + 6) AND 0x80 \<noteq> 0 then False
          else if lenS > 1 \<and> sig ! (lenR + 6) = 0x00 \<and> \<not> sig ! (lenR + 7) AND 0x80 \<noteq> 0 then False
          else True)"

text \<open>The test of the size of \<open>S\<close> is commented out in the source.\<close>

definition IsLowDERSignature :: "bytes \<Rightarrow> bool" where
  "IsLowDERSignature vchSig = IsValidSignatureEncoding vchSig"

definition IsDefinedHashtypeSignature :: "bytes \<Rightarrow> bool" where
  "IsDefinedHashtypeSignature vchSig =
     (if length vchSig = 0 then False
      else let nHashType = last vchSig AND NOT 0x80 in \<not> (nHashType < 1 \<or> nHashType > 3))"

definition CheckSignatureEncoding :: "bytes \<Rightarrow> u32 \<Rightarrow> bool" where
  "CheckSignatureEncoding vchSig flags =
     (if length vchSig = 0 then True
      else if flags AND (SCRIPT_VERIFY_DERSIG OR SCRIPT_VERIFY_LOW_S OR SCRIPT_VERIFY_STRICTENC) \<noteq> 0
          \<and> \<not> IsValidSignatureEncoding vchSig then False
      else if flags AND SCRIPT_VERIFY_LOW_S \<noteq> 0 \<and> \<not> IsLowDERSignature vchSig then False
      else if flags AND SCRIPT_VERIFY_STRICTENC \<noteq> 0 \<and> \<not> IsDefinedHashtypeSignature vchSig then False
      else True)"

definition CheckPubKeyEncoding :: "bytes \<Rightarrow> u32 \<Rightarrow> bool" where
  "CheckPubKeyEncoding vchPubKey flags =
     (if flags AND SCRIPT_VERIFY_STRICTENC \<noteq> 0 \<and> \<not> IsCompressedOrUncompressedPubKey vchPubKey then False else True)"

definition IsCanonicalPubKey :: "bytes \<Rightarrow> u32 \<Rightarrow> bool" where
  "IsCanonicalPubKey vchPubKey flags =
     (if flags AND SCRIPT_VERIFY_STRICTENC = 0 then True
      else if length vchPubKey < 33 then False
      else if vchPubKey ! 0 = 0x04 then length vchPubKey = 65
      else if vchPubKey ! 0 = 0x02 \<or> vchPubKey ! 0 = 0x03 then length vchPubKey = 33
      else False)"

definition IsCanonicalSignature :: "bytes \<Rightarrow> u32 \<Rightarrow> bool" where
  "IsCanonicalSignature vchSig flags =
     (if flags AND SCRIPT_VERIFY_STRICTENC = 0 then True
      else if length vchSig < 9 then False
      else if length vchSig > 73 then False
      else let nHashType = last vchSig AND NOT 0x80 in
        if nHashType < 1 \<or> nHashType > 3 then False
        else if vchSig ! 0 \<noteq> 0x30 then False
        else if unat (vchSig ! 1) \<noteq> length vchSig - 3 then False
        else let nLenR = unat (vchSig ! 3) in
          if 5 + nLenR \<ge> length vchSig then False
          else let nLenS = unat (vchSig ! (5 + nLenR)) in
            if nLenR + nLenS + 7 \<noteq> length vchSig then False
            else if vchSig ! 2 \<noteq> 0x02 then False
            else if nLenR = 0 then False
            else if vchSig ! 4 AND 0x80 \<noteq> 0 then False
            else if nLenR > 1 \<and> vchSig ! 4 = 0x00 \<and> \<not> vchSig ! 5 AND 0x80 \<noteq> 0 then False
            else if vchSig ! (4 + nLenR) \<noteq> 0x02 then False
            else if nLenS = 0 then False
            else if vchSig ! (6 + nLenR) AND 0x80 \<noteq> 0 then False
            else if nLenS > 1 \<and> vchSig ! (6 + nLenR) = 0x00 \<and> \<not> vchSig ! (7 + nLenR) AND 0x80 \<noteq> 0 then False
            else if flags AND SCRIPT_VERIFY_EVEN_S \<noteq> 0 \<and> vchSig ! (6 + nLenR + nLenS - 1) AND 1 \<noteq> 0 then False
            else True)"

section \<open>The hash that is signed\<close>

record sig_ser =
  s_txTo :: CTransaction
  s_scriptCode :: CScript
  s_nIn :: nat
  s_fAnyoneCanPay :: bool
  s_fHashSingle :: bool
  s_fHashNone :: bool

definition sig_ser_new :: "CTransaction \<Rightarrow> CScript \<Rightarrow> nat \<Rightarrow> u32 \<Rightarrow> sig_ser" where
  "sig_ser_new txTo scriptCode nIn nHashType =
     \<lparr> s_txTo = txTo, s_scriptCode = scriptCode, s_nIn = nIn,
       s_fAnyoneCanPay = (nHashType AND SIGHASH_ANYONECANPAY \<noteq> 0),
       s_fHashSingle = (nHashType AND 0x1f = SIGHASH_SINGLE),
       s_fHashNone = (nHashType AND 0x1f = SIGHASH_NONE) \<rparr>"

text \<open>The bytes written from a position on: the instructions but the code separators, and at a
  failed read the bytes it consumed.\<close>

function code_bytes :: "bytes \<Rightarrow> bytes" where
  "code_bytes pc =
     (case GetOp pc of (None, r) \<Rightarrow> take (length pc - length r) pc
      | (Some (opcode, v), r) \<Rightarrow>
        (if opcode = OP_CODESEPARATOR then [] else take (length pc - length r) pc) @ code_bytes r)"
  by auto
termination by (relation "measure length") (use GetOp_length in \<open>auto simp: eq_commute\<close>)

declare code_bytes.simps [simp del]

definition SerializeScriptCode :: "sig_ser \<Rightarrow> bytes" where
  "SerializeScriptCode s =
     (let nCodeSeparators = length (filter (\<lambda>x. fst x = OP_CODESEPARATOR) (fst (ops (s_scriptCode s)))) in
      WriteCompactSize (of_nat (length (s_scriptCode s) - nCodeSeparators)) @ code_bytes (s_scriptCode s))"

definition SerializeInput :: "sig_ser \<Rightarrow> nat \<Rightarrow> bytes" where
  "SerializeInput s nInput0 =
     (let nInput = (if s_fAnyoneCanPay s then s_nIn s else nInput0) in
      ser_outpoint (i_prevout (tx_vin (s_txTo s) ! nInput)) @
      (if nInput \<noteq> s_nIn s then ser_bytes [] else SerializeScriptCode s) @
      (if nInput \<noteq> s_nIn s \<and> (s_fHashSingle s \<or> s_fHashNone s) then WRITEDATA (0 :: u32)
       else WRITEDATA (i_nSequence (tx_vin (s_txTo s) ! nInput))))"

definition SerializeOutput :: "sig_ser \<Rightarrow> nat \<Rightarrow> bytes" where
  "SerializeOutput s nOutput =
     (if s_fHashSingle s \<and> nOutput \<noteq> s_nIn s then ser_txout txout_SetNull
      else ser_txout (tx_vout (s_txTo s) ! nOutput))"

definition sig_Serialize :: "sig_ser \<Rightarrow> bytes" where
  "sig_Serialize s =
     (let nInputs = (if s_fAnyoneCanPay s then 1 else length (tx_vin (s_txTo s)));
          nOutputs = (if s_fHashNone s then 0 else if s_fHashSingle s then s_nIn s + 1 else length (tx_vout (s_txTo s)))
      in WRITEDATA (tx_nVersion (s_txTo s)) @
         WriteCompactSize (of_nat nInputs) @ concat (map (SerializeInput s) [0..<nInputs]) @
         WriteCompactSize (of_nat nOutputs) @ concat (map (SerializeOutput s) [0..<nOutputs]) @
         WRITEDATA (tx_nLockTime (s_txTo s)))"

definition SignatureHash :: "crypto \<Rightarrow> CScript \<Rightarrow> CTransaction \<Rightarrow> nat \<Rightarrow> u32 \<Rightarrow> u256" where
  "SignatureHash c scriptCode txTo nIn nHashType =
     (if nIn \<ge> length (tx_vin txTo) then 1
      else if nHashType AND 0x1f = SIGHASH_SINGLE \<and> nIn \<ge> length (tx_vout txTo) then 1
      else le_word (Hash_bytes c (sig_Serialize (sig_ser_new txTo scriptCode nIn nHashType) @ WRITEDATA nHashType)))"

section \<open>Checking a signature\<close>

text \<open>The hash type and the signature without it, or \<open>None\<close> when the check fails before hashing.\<close>

definition sig_parts :: "bytes \<Rightarrow> u32 \<Rightarrow> (u32 \<times> bytes) option" where
  "sig_parts vchSig nHashType =
     (if vchSig = [] then None
      else if nHashType = 0 then Some (ucast (last vchSig), butlast vchSig)
      else if nHashType \<noteq> ucast (last vchSig) then None
      else Some (nHashType, butlast vchSig))"

text \<open>Without the cache.\<close>

definition CheckSig :: "crypto \<Rightarrow> bytes \<Rightarrow> bytes \<Rightarrow> CScript \<Rightarrow> CTransaction \<Rightarrow> nat \<Rightarrow> u32 \<Rightarrow> bool" where
  "CheckSig c vchSig vchPubKey scriptCode txTo nIn nHashType =
     (let pubkey = pubkey_Set vchPubKey in
      if \<not> pubkey_IsValid pubkey then False
      else case sig_parts vchSig nHashType of None \<Rightarrow> False
      | Some (nHashType, vchSig) \<Rightarrow> c_Verify c pubkey (SignatureHash c scriptCode txTo nIn nHashType) vchSig)"

section \<open>The signature cache\<close>

text \<open>The set as a sorted list of hashes, signatures and keys. \<open>lower_bound\<close> for a random hash with
  an empty signature and an invalid key, whose first byte \<open>0xFF\<close> is above every valid one.\<close>

type_synonym sigdata = "u256 \<times> bytes \<times> bytes"

definition sigcache_Get :: "sigdata list \<Rightarrow> sigdata \<Rightarrow> bool" where
  "sigcache_Get setValid k \<longleftrightarrow> k \<in> set setValid"

fun erase_lower_bound :: "u256 \<Rightarrow> sigdata list \<Rightarrow> sigdata list" where
  "erase_lower_bound r [] = []"
| "erase_lower_bound r ((h, s, pk) # l) =
     (if h > r \<or> (h = r \<and> (s \<noteq> [] \<or> pk = [])) then l else (h, s, pk) # erase_lower_bound r l)"

definition evict_one :: "u256 \<Rightarrow> sigdata list \<Rightarrow> sigdata list" where
  "evict_one randomHash setValid =
     (let l = erase_lower_bound randomHash setValid in
      if length l = length setValid then tl setValid else l)"

text \<open>The random hashes are a stream; the loop runs while the cache is above the limit.\<close>

fun evict_loop :: "nat \<Rightarrow> nat \<Rightarrow> (nat \<Rightarrow> u256) \<Rightarrow> nat \<Rightarrow> sigdata list \<Rightarrow> sigdata list" where
  "evict_loop 0 nMax rnd i setValid = setValid"
| "evict_loop (Suc k) nMax rnd i setValid =
     (if length setValid > nMax then evict_loop k nMax rnd (i + 1) (evict_one (rnd i) setValid) else setValid)"

definition sigcache_Set :: "int \<Rightarrow> (nat \<Rightarrow> u256) \<Rightarrow> sigdata list \<Rightarrow> sigdata \<Rightarrow> sigdata list" where
  "sigcache_Set nMaxCacheSize rnd setValid k =
     (if nMaxCacheSize \<le> 0 then setValid
      else
        let l = evict_loop (length setValid) (nat nMaxCacheSize) rnd 0 setValid in
        if k \<in> set l then l else insort k l)"

definition CheckSig_cached ::
  "crypto \<Rightarrow> int \<Rightarrow> (nat \<Rightarrow> u256) \<Rightarrow> sigdata list \<Rightarrow> bytes \<Rightarrow> bytes \<Rightarrow> CScript \<Rightarrow> CTransaction \<Rightarrow> nat \<Rightarrow> u32 \<Rightarrow> u32 \<Rightarrow> bool \<times> sigdata list"
where
  "CheckSig_cached c nMaxCacheSize rnd setValid vchSig vchPubKey scriptCode txTo nIn nHashType flags =
     (let pubkey = pubkey_Set vchPubKey in
      if \<not> pubkey_IsValid pubkey then (False, setValid)
      else case sig_parts vchSig nHashType of None \<Rightarrow> (False, setValid)
      | Some (nHashType, vchSig) \<Rightarrow>
        let sighash = SignatureHash c scriptCode txTo nIn nHashType in
        if sigcache_Get setValid (sighash, vchSig, pubkey) then (True, setValid)
        else if \<not> c_Verify c pubkey sighash vchSig then (False, setValid)
        else if flags AND SCRIPT_VERIFY_NOCACHE = 0
          then (True, sigcache_Set nMaxCacheSize rnd setValid (sighash, vchSig, pubkey))
        else (True, setValid))"

section \<open>The signed transaction as a modified copy\<close>

text \<open>The specification: a copy of the transaction with the scripts blanked, the signed input
  carrying the script code, and what the hash type leaves out removed or neutralised.\<close>

definition tx_to_sign :: "CTransaction \<Rightarrow> CScript \<Rightarrow> nat \<Rightarrow> u32 \<Rightarrow> CTransaction" where
  "tx_to_sign tx scriptCode nIn nHashType =
     (let none = (nHashType AND 0x1f = SIGHASH_NONE); single = (nHashType AND 0x1f = SIGHASH_SINGLE);
          signed = (tx_vin tx ! nIn)\<lparr>i_scriptSig := code_bytes scriptCode\<rparr>;
          blank = (\<lambda>a. a\<lparr>i_scriptSig := [], i_nSequence := (if none \<or> single then 0 else i_nSequence a)\<rparr>)
      in tx\<lparr>tx_vin := (if nHashType AND SIGHASH_ANYONECANPAY \<noteq> 0 then [signed]
                       else (map blank (tx_vin tx))[nIn := signed]),
            tx_vout := (if none then []
                        else if single then replicate nIn txout_SetNull @ [tx_vout tx ! nIn]
                        else tx_vout tx)\<rparr>)"

lemma GetOp_suffix: "GetOp pc = (x, r) \<Longrightarrow> length r \<le> length pc"
  by (auto simp: GetOp_def Let_def split: list.splits if_splits)

lemma GetOp_separator: "GetOp pc = (Some (OP_CODESEPARATOR, v), r) \<Longrightarrow> length pc = Suc (length r)"
  by (auto simp: GetOp_def Let_def split: list.splits if_splits)

lemma length_code_bytes:
  "snd (ops s) \<Longrightarrow> length (code_bytes s) + length (filter (\<lambda>x. fst x = OP_CODESEPARATOR) (fst (ops s))) = length s"
proof (induction s rule: code_bytes.induct)
  case (1 pc)
  show ?case
  proof (cases "GetOp pc")
    case (Pair x r)
    show ?thesis
    proof (cases x)
      case None
      then have "pc = []" using 1(2) Pair by (auto simp: ops.simps [of pc] split: if_split_asm)
      then show ?thesis by (simp add: code_bytes.simps)
    next
      case (Some y)
      obtain o1 v where y: "y = (o1, v)" by (cases y)
      have g: "GetOp pc = (Some (o1, v), r)" using Pair Some y by simp
      have "length (code_bytes r) + length (filter (\<lambda>x. fst x = OP_CODESEPARATOR) (fst (ops r))) = length r"
        using 1(1) [OF g [symmetric] refl refl] 1(2) by (simp add: ops_step [OF g])
      then show ?thesis using GetOp_separator [of pc v r] GetOp_suffix [OF g] g
        by (auto simp: ops_step [OF g] code_bytes.simps [of pc])
    qed
  qed
qed

lemma SerializeScriptCode_bytes:
  assumes "snd (ops (s_scriptCode s))"
  shows "SerializeScriptCode s = ser_bytes (code_bytes (s_scriptCode s))"
proof -
  have "length (s_scriptCode s) - length (filter (\<lambda>x. fst x = OP_CODESEPARATOR) (fst (ops (s_scriptCode s))))
      = length (code_bytes (s_scriptCode s))"
    using length_code_bytes [OF assms] by simp
  then show ?thesis by (simp add: SerializeScriptCode_def ser_bytes_def Let_def)
qed

lemma sig_Serialize_eq:
  assumes "nIn < length (tx_vin tx)" "nHashType AND 0x1f = SIGHASH_SINGLE \<longrightarrow> nIn < length (tx_vout tx)"
    "snd (ops scriptCode)" "\<not> tx_vector_format tx"
  shows "sig_Serialize (sig_ser_new tx scriptCode nIn nHashType) = ser_tx (tx_to_sign tx scriptCode nIn nHashType)"
proof -
  define s where "s = sig_ser_new tx scriptCode nIn nHashType"
  define t where "t = tx_to_sign tx scriptCode nIn nHashType"
  have s_simps: "s_txTo s = tx" "s_nIn s = nIn" "s_scriptCode s = scriptCode"
    "s_fAnyoneCanPay s = (nHashType AND SIGHASH_ANYONECANPAY \<noteq> 0)" "s_fHashSingle s = (nHashType AND 0x1f = SIGHASH_SINGLE)"
    "s_fHashNone s = (nHashType AND 0x1f = SIGHASH_NONE)"
    by (simp_all add: s_def sig_ser_new_def)
  have code: "SerializeScriptCode s = ser_bytes (code_bytes scriptCode)"
    using assms(3) SerializeScriptCode_bytes [of s] by (simp add: s_simps)
  have vin: "map (SerializeInput s) [0..<(if s_fAnyoneCanPay s then 1 else length (tx_vin tx))] = map ser_txin (tx_vin t)"
  proof (cases "nHashType AND SIGHASH_ANYONECANPAY \<noteq> 0")
    case True
    then show ?thesis by (simp add: SerializeInput_def Let_def code ser_txin_def t_def tx_to_sign_def s_simps)
  next
    case False
    show ?thesis
    proof (rule nth_equalityI)
      show "length (map (SerializeInput s) [0..<(if s_fAnyoneCanPay s then 1 else length (tx_vin tx))]) = length (map ser_txin (tx_vin t))"
        using False by (simp add: s_simps t_def tx_to_sign_def Let_def)
      fix i assume "i < length (map (SerializeInput s) [0..<(if s_fAnyoneCanPay s then 1 else length (tx_vin tx))])"
      then have i: "i < length (tx_vin tx)" using False by (simp add: s_simps)
      have "SerializeInput s i = ser_txin (tx_vin t ! i)"
        using False i assms(1) by (auto simp: SerializeInput_def Let_def code ser_txin_def t_def tx_to_sign_def nth_list_update s_simps)
      then show "map (SerializeInput s) [0..<(if s_fAnyoneCanPay s then 1 else length (tx_vin tx))] ! i = map ser_txin (tx_vin t) ! i"
        using False i by (simp add: s_simps t_def tx_to_sign_def Let_def)
    qed
  qed
  define nO where "nO = (if s_fHashNone s then 0 else if s_fHashSingle s then nIn + 1 else length (tx_vout tx))"
  have vout: "map (SerializeOutput s) [0..<nO] = map ser_txout (tx_vout t)"
  proof (rule nth_equalityI)
    show l: "length (map (SerializeOutput s) [0..<nO]) = length (map ser_txout (tx_vout t))"
      by (simp add: nO_def s_simps t_def tx_to_sign_def Let_def)
    fix i assume "i < length (map (SerializeOutput s) [0..<nO])"
    then have i: "i < nO" "i < length (tx_vout t)" using l by simp_all
    then have "SerializeOutput s i = ser_txout (tx_vout t ! i)"
      by (auto simp: SerializeOutput_def nO_def s_simps t_def tx_to_sign_def Let_def nth_append split: if_split_asm)
    then show "map (SerializeOutput s) [0..<nO] ! i = map ser_txout (tx_vout t) ! i" using i by simp
  qed
  have tx: "s_txTo s = tx" "s_nIn s = nIn" by (simp_all add: s_simps)
  have nI: "(if s_fAnyoneCanPay s then 1 else length (tx_vin tx)) = length (tx_vin t)"
    using arg_cong [OF vin, of length] by simp
  have nO: "nO = length (tx_vout t)" using arg_cong [OF vout, of length] by simp
  have fields: "tx_nVersion t = tx_nVersion tx" "tx_nLockTime t = tx_nLockTime tx" "\<not> tx_vector_format t"
    using assms(4) by (simp_all add: t_def tx_to_sign_def Let_def)
  show ?thesis
    unfolding s_def [symmetric] t_def [symmetric] sig_Serialize_def Let_def tx nO_def [symmetric] vout
    unfolding vin unfolding nI nO by (simp add: ser_tx_def ser_vec_def fields)
qed

text \<open>C24: The streaming serializer of the signature hash writes exactly the modified copy of the
  transaction, for every hash type, when the script code reads to its end.\<close>

theorem sig_Serialize_copy:
  assumes "nIn < length (tx_vin tx)" "nHashType AND 0x1f = SIGHASH_SINGLE \<longrightarrow> nIn < length (tx_vout tx)"
    "snd (ops scriptCode)" "\<not> tx_vector_format tx"
  shows "sig_Serialize (sig_ser_new tx scriptCode nIn nHashType) = ser_tx (tx_to_sign tx scriptCode nIn nHashType)"
  by (rule sig_Serialize_eq [OF assms])

section \<open>What a signature commits to\<close>

text \<open>A transaction whose parts fit the limits of the wire format.\<close>

definition tx_fits :: "CTransaction \<Rightarrow> bool" where
  "tx_fits tx \<longleftrightarrow> \<not> tx_vector_format tx \<and> length (tx_vin tx) \<le> 2 ^ 25 \<and> length (tx_vout tx) \<le> 2 ^ 25 \<and>
     list_all (\<lambda>a. length (i_scriptSig a) \<le> 2 ^ 25) (tx_vin tx) \<and> list_all (\<lambda>a. length (t_scriptPubKey a) \<le> 2 ^ 25) (tx_vout tx)"

lemma ser_tx_inj:
  assumes "tx_fits t" "tx_fits u" "ser_tx t @ r = ser_tx u @ r'"
  shows "tx_nVersion t = tx_nVersion u \<and> tx_vin t = tx_vin u \<and> tx_vout t = tx_vout u \<and> tx_nLockTime t = tx_nLockTime u \<and> r = r'"
proof -
  have e: "WRITEDATA (tx_nVersion t) @ (ser_vec ser_txin (tx_vin t) @ ser_vec ser_txout (tx_vout t) @ WRITEDATA (tx_nLockTime t) @ r) =
      WRITEDATA (tx_nVersion u) @ (ser_vec ser_txin (tx_vin u) @ ser_vec ser_txout (tx_vout u) @ WRITEDATA (tx_nLockTime u) @ r')"
    using assms by (simp add: ser_tx_def tx_fits_def)
  note a = u32.ser_prefix_free [OF _ _ e, simplified]
  note b = txins.ser_prefix_free [OF _ _ conjunct2 [OF a]]
  have b': "tx_vin t = tx_vin u \<and> ser_vec ser_txout (tx_vout t) @ WRITEDATA (tx_nLockTime t) @ r =
      ser_vec ser_txout (tx_vout u) @ WRITEDATA (tx_nLockTime u) @ r'"
    by (rule b) (use assms(1,2) in \<open>simp_all add: tx_fits_def\<close>)
  note c = txouts.ser_prefix_free [OF _ _ conjunct2 [OF b']]
  have c': "tx_vout t = tx_vout u \<and> WRITEDATA (tx_nLockTime t) @ r = WRITEDATA (tx_nLockTime u) @ r'"
    by (rule c) (use assms(1,2) in \<open>simp_all add: tx_fits_def\<close>)
  show ?thesis using a b' c' u32.ser_prefix_free [OF _ _ conjunct2 [OF c']] by simp
qed

lemma to_sign_all:
  assumes "nIn < length (tx_vin tx)"
  shows "tx_vin (tx_to_sign tx code nIn SIGHASH_ALL) =
      (map (\<lambda>a. a\<lparr>i_scriptSig := []\<rparr>) (tx_vin tx))[nIn := (tx_vin tx ! nIn)\<lparr>i_scriptSig := code_bytes code\<rparr>]"
    "tx_vout (tx_to_sign tx code nIn SIGHASH_ALL) = tx_vout tx"
    "tx_nVersion (tx_to_sign tx code nIn SIGHASH_ALL) = tx_nVersion tx"
    "tx_nLockTime (tx_to_sign tx code nIn SIGHASH_ALL) = tx_nLockTime tx"
  by (simp_all add: tx_to_sign_def Let_def sighash_defs)

lemma to_sign_fits:
  assumes "nIn < length (tx_vin tx)" "tx_fits tx" "length (code_bytes code) \<le> 2 ^ 25"
  shows "tx_fits (tx_to_sign tx code nIn SIGHASH_ALL)"
proof -
  have "\<not> tx_vector_format (tx_to_sign tx code nIn SIGHASH_ALL)"
    using assms(2) by (simp add: tx_to_sign_def Let_def tx_fits_def)
  moreover have "list_all (\<lambda>a. length (i_scriptSig a) \<le> 2 ^ 25) ((map (\<lambda>a. a\<lparr>i_scriptSig := []\<rparr>) (tx_vin tx))[nIn := (tx_vin tx ! nIn)\<lparr>i_scriptSig := code_bytes code\<rparr>])"
    using assms(1,3) by (simp add: list_all_length nth_list_update)
  ultimately show ?thesis using assms(2) by (simp add: tx_fits_def to_sign_all [OF assms(1)])
qed

lemma signed_vin_eq:
  assumes "(map (\<lambda>a. a\<lparr>i_scriptSig := []\<rparr>) v)[n := (v ! n)\<lparr>i_scriptSig := x\<rparr>] =
      (map (\<lambda>a. a\<lparr>i_scriptSig := []\<rparr>) w)[m := (w ! m)\<lparr>i_scriptSig := y\<rparr>]"
    "n < length v" "m < length w" "x \<noteq> []"
  shows "n = m \<and> x = y \<and> map (\<lambda>a. (i_prevout a, i_nSequence a)) v = map (\<lambda>a. (i_prevout a, i_nSequence a)) w"
proof -
  let ?l = "(map (\<lambda>a. a\<lparr>i_scriptSig := []\<rparr>) v)[n := (v ! n)\<lparr>i_scriptSig := x\<rparr>]"
  let ?r = "(map (\<lambda>a. a\<lparr>i_scriptSig := []\<rparr>) w)[m := (w ! m)\<lparr>i_scriptSig := y\<rparr>]"
  have len: "length v = length w" using arg_cong [OF assms(1), of length] by simp
  have "i_scriptSig (?l ! n) = i_scriptSig (?r ! n)" by (simp only: assms(1))
  then have nm: "n = m" using assms(2-4) len by (cases "n = m") (simp_all add: nth_list_update)
  then have "x = y" using \<open>i_scriptSig (?l ! n) = i_scriptSig (?r ! n)\<close> assms(2,3) by simp
  moreover have "map (\<lambda>a. (i_prevout a, i_nSequence a)) v = map (\<lambda>a. (i_prevout a, i_nSequence a)) w"
  proof (rule nth_equalityI)
    fix i assume "i < length (map (\<lambda>a. (i_prevout a, i_nSequence a)) v)"
    then have i: "i < length v" "i < length w" using len by simp_all
    have "i_prevout (?l ! i) = i_prevout (?r ! i)" "i_nSequence (?l ! i) = i_nSequence (?r ! i)" by (simp_all only: assms(1))
    then show "map (\<lambda>a. (i_prevout a, i_nSequence a)) v ! i = map (\<lambda>a. (i_prevout a, i_nSequence a)) w ! i"
      using i assms(2,3) by (auto simp: nth_list_update nm split: if_split_asm)
  qed (simp add: len)
  ultimately show ?thesis using nm by simp
qed

text \<open>C22: A signature over the whole transaction commits to it: when two transactions have the same
  hash to sign with \<open>SIGHASH_ALL\<close>, they have the same version, lock time, outputs, spent
  outpoints and sequence numbers, the same input is signed and the script code is the same up
  to its code separators (both codes read to their end, the first has more than separators) - or the
  very two byte strings that \<open>SignatureHash\<close> hashed for them differ
  and collide.\<close>

theorem sighash_all_commits:
  assumes "tx_fits t" "n < length (tx_vin t)" "snd (ops code)" "length (code_bytes code) \<le> 2 ^ 25" "code_bytes code \<noteq> []"
    and "tx_fits u" "m < length (tx_vin u)" "snd (ops code')" "length (code_bytes code') \<le> 2 ^ 25"
    and "SignatureHash c code t n SIGHASH_ALL = SignatureHash c code' u m SIGHASH_ALL"
  shows "(tx_nVersion t = tx_nVersion u \<and> tx_nLockTime t = tx_nLockTime u \<and> tx_vout t = tx_vout u
      \<and> map (\<lambda>a. (i_prevout a, i_nSequence a)) (tx_vin t) = map (\<lambda>a. (i_prevout a, i_nSequence a)) (tx_vin u)
      \<and> n = m \<and> code_bytes code = code_bytes code')
    \<or> (let x = sig_Serialize (sig_ser_new t code n SIGHASH_ALL) @ WRITEDATA SIGHASH_ALL;
            y = sig_Serialize (sig_ser_new u code' m SIGHASH_ALL) @ WRITEDATA SIGHASH_ALL
        in x \<noteq> y \<and> (le_word (Hash_bytes c x) :: u256) = le_word (Hash_bytes c y))"
proof -
  have all: "SIGHASH_ALL AND 0x1f = SIGHASH_SINGLE \<longleftrightarrow> False" by (simp add: sighash_defs)
  define x where "x = sig_Serialize (sig_ser_new t code n SIGHASH_ALL) @ WRITEDATA SIGHASH_ALL"
  define y where "y = sig_Serialize (sig_ser_new u code' m SIGHASH_ALL) @ WRITEDATA SIGHASH_ALL"
  have xy: "x = ser_tx (tx_to_sign t code n SIGHASH_ALL) @ WRITEDATA SIGHASH_ALL"
    "y = ser_tx (tx_to_sign u code' m SIGHASH_ALL) @ WRITEDATA SIGHASH_ALL"
    using assms(1-3,6-8) sig_Serialize_eq [of n t SIGHASH_ALL code] sig_Serialize_eq [of m u SIGHASH_ALL code']
    by (simp_all add: x_def y_def all tx_fits_def)
  have h: "(le_word (Hash_bytes c x) :: u256) = le_word (Hash_bytes c y)"
    using assms(2,7,10) by (simp add: SignatureHash_def x_def y_def all)
  show ?thesis
  proof (cases "x = y")
    case True
    note e = ser_tx_inj [OF to_sign_fits [OF assms(2,1,4)] to_sign_fits [OF assms(7,6,9)] True [unfolded xy]]
    then show ?thesis using signed_vin_eq [OF _ assms(2,7,5), of "code_bytes code'"]
      by (simp add: to_sign_all [OF assms(2)] to_sign_all [OF assms(7)])
  next
    case False
    then show ?thesis using h by (simp add: x_def y_def Let_def)
  qed
qed

definition sample_tx :: CTransaction where
  "sample_tx = tx_SetNull\<lparr>
     tx_vin := [\<lparr> i_prevout = \<lparr> o_hash = 5, o_n = 1 \<rparr>, i_scriptSig = [1, 2], i_nSequence = - 1 \<rparr>,
                \<lparr> i_prevout = \<lparr> o_hash = 6, o_n = 0 \<rparr>, i_scriptSig = [], i_nSequence = 7 \<rparr>],
     tx_vout := [\<lparr> t_nValue = 100, t_scriptPubKey = [0x51] \<rparr>] \<rparr>"

lemma sample_tx_fits: "tx_fits sample_tx" by (simp add: tx_fits_def sample_tx_def tx_SetNull_def)

lemma sample_code: "snd (ops [0x76, 0xab, 0xac])" "code_bytes [0x76, 0xab, 0xac] = [0x76, 0xac]"
proof -
  have g: "GetOp [0x76, 0xab, 0xac] = (Some (0x76, []), [0xab, 0xac])" "GetOp [0xab, 0xac] = (Some (0xab, []), [0xac])"
    "GetOp [0xac] = (Some (0xac, []), [])" by (simp_all add: GetOp_def)
  show "snd (ops [0x76, 0xab, 0xac])" by (simp add: ops_step [OF g(1)] ops_step [OF g(2)] ops_step [OF g(3)])
  show "code_bytes [0x76, 0xab, 0xac] = [0x76, 0xac]" using g by (simp add: code_bytes.simps)
qed

theorem sig_Serialize_copy_witness:
  "sig_Serialize (sig_ser_new sample_tx [0x76, 0xab, 0xac] 1 0x82) = ser_tx (tx_to_sign sample_tx [0x76, 0xab, 0xac] 1 0x82)"
  by (rule sig_Serialize_copy)
    (use sample_tx_fits sample_code in \<open>simp_all add: sample_tx_def tx_SetNull_def sighash_defs\<close>)

text \<open>Two copies of the sample that differ in what \<open>SIGHASH_ALL\<close> leaves out, the script of the input that
  is not signed, with the identity in place of the hash.\<close>

definition sample_tx2 :: CTransaction where
  "sample_tx2 = sample_tx\<lparr>tx_vin := [(hd (tx_vin sample_tx))\<lparr>i_scriptSig := [3]\<rparr>, tx_vin sample_tx ! 1]\<rparr>"

theorem sighash_all_commits_witness:
  "SignatureHash toy_crypto [0x76, 0xab, 0xac] sample_tx 1 SIGHASH_ALL = SignatureHash toy_crypto [0x76, 0xab, 0xac] sample_tx2 1 SIGHASH_ALL
    \<and> tx_vin sample_tx \<noteq> tx_vin sample_tx2
    \<and> map (\<lambda>a. (i_prevout a, i_nSequence a)) (tx_vin sample_tx) = map (\<lambda>a. (i_prevout a, i_nSequence a)) (tx_vin sample_tx2)"
proof -
  have l: "1 < length (tx_vin sample_tx)" "1 < length (tx_vin sample_tx2)" "tx_fits sample_tx2"
    using sample_tx_fits by (simp_all add: sample_tx_def sample_tx2_def tx_fits_def)
  have copy: "tx_to_sign sample_tx2 [0x76, 0xab, 0xac] 1 SIGHASH_ALL = tx_to_sign sample_tx [0x76, 0xab, 0xac] 1 SIGHASH_ALL"
    by (simp add: tx_to_sign_def Let_def sighash_defs sample_tx2_def sample_tx_def tx_SetNull_def)
  have ser: "sig_Serialize (sig_ser_new sample_tx2 [0x76, 0xab, 0xac] 1 SIGHASH_ALL) = sig_Serialize (sig_ser_new sample_tx [0x76, 0xab, 0xac] 1 SIGHASH_ALL)"
    using sig_Serialize_eq [OF l(1), of SIGHASH_ALL "[0x76, 0xab, 0xac]"] sig_Serialize_eq [OF l(2), of SIGHASH_ALL "[0x76, 0xab, 0xac]"]
      sample_code(1) sample_tx_fits l(3) copy by (simp add: sighash_defs tx_fits_def)
  have h: "SignatureHash toy_crypto [0x76, 0xab, 0xac] sample_tx 1 SIGHASH_ALL = SignatureHash toy_crypto [0x76, 0xab, 0xac] sample_tx2 1 SIGHASH_ALL"
    using l ser by (simp add: SignatureHash_def sighash_defs)
  moreover have "tx_vin sample_tx \<noteq> tx_vin sample_tx2" by (simp add: sample_tx2_def sample_tx_def)
  ultimately show ?thesis
    using sighash_all_commits [OF sample_tx_fits l(1) sample_code(1) _ _ l(3,2) sample_code(1) _ h] ser
    by (simp add: sample_code(2) Let_def)
qed

section \<open>The cache is transparent\<close>

lemma erase_lower_bound_subseq: "length (erase_lower_bound r l) \<le> length l \<and> length l \<le> Suc (length (erase_lower_bound r l))
  \<and> set (erase_lower_bound r l) \<subseteq> set l \<and> (sorted l \<longrightarrow> sorted (erase_lower_bound r l)) \<and> (distinct l \<longrightarrow> distinct (erase_lower_bound r l))"
  by (induction r l rule: erase_lower_bound.induct) auto

lemma evict_one_facts:
  "set (evict_one r l) \<subseteq> set l \<and> (sorted l \<longrightarrow> sorted (evict_one r l)) \<and> (distinct l \<longrightarrow> distinct (evict_one r l))
    \<and> length (evict_one r l) = length l - 1"
  using erase_lower_bound_subseq [of r l] by (cases l) (auto simp: evict_one_def Let_def)

lemma evict_loop_facts:
  "set (evict_loop k n rnd i l) \<subseteq> set l \<and> (sorted l \<longrightarrow> sorted (evict_loop k n rnd i l))
    \<and> (distinct l \<longrightarrow> distinct (evict_loop k n rnd i l)) \<and> (length l \<le> k + n \<longrightarrow> length (evict_loop k n rnd i l) \<le> n)"
proof (induction k n rnd i l rule: evict_loop.induct)
  case (2 k n rnd i l)
  then show ?case using evict_one_facts [of "rnd i" l] by auto
qed simp

definition sigcache_ok :: "crypto \<Rightarrow> sigdata list \<Rightarrow> bool" where
  "sigcache_ok c l \<longleftrightarrow> sorted l \<and> distinct l \<and> list_all (\<lambda>(h, sig, pk). c_Verify c pk h sig) l"

lemma sigcache_Set_ok:
  assumes "sigcache_ok c l" "c_Verify c pk h sig"
  shows "sigcache_ok c (sigcache_Set n rnd l (h, sig, pk))"
    "length (sigcache_Set n rnd l (h, sig, pk)) \<le> max (length l) (nat n + 1)"
proof -
  define l' where "l' = evict_loop (length l) (nat n) rnd 0 l"
  have f: "set l' \<subseteq> set l" "sorted l'" "distinct l'" "length l' \<le> nat n"
    using evict_loop_facts [of "length l" "nat n" rnd 0 l] assms(1) by (simp_all add: l'_def sigcache_ok_def)
  then show "sigcache_ok c (sigcache_Set n rnd l (h, sig, pk))"
    using assms by (auto simp: sigcache_Set_def Let_def l'_def [symmetric] sigcache_ok_def sorted_insort distinct_insort
        set_insort_key list_all_iff)
  show "length (sigcache_Set n rnd l (h, sig, pk)) \<le> max (length l) (nat n + 1)"
    using f(4) by (auto simp: sigcache_Set_def Let_def l'_def [symmetric] le_max_iff_disj)
qed

text \<open>C23: The signature cache changes no result: with a cache of valid signatures, whatever random
  hashes drive the eviction, the cached check answers as the plain one, leaves a sorted cache
  of valid signatures and never lets it grow above its limit plus one.\<close>

theorem CheckSig_cache_transparent:
  assumes "sigcache_ok c setValid"
  shows "fst (CheckSig_cached c nMax rnd setValid vchSig vchPubKey scriptCode txTo nIn nHashType flags)
      = CheckSig c vchSig vchPubKey scriptCode txTo nIn nHashType
    \<and> sigcache_ok c (snd (CheckSig_cached c nMax rnd setValid vchSig vchPubKey scriptCode txTo nIn nHashType flags))
    \<and> length (snd (CheckSig_cached c nMax rnd setValid vchSig vchPubKey scriptCode txTo nIn nHashType flags))
      \<le> max (length setValid) (nat nMax + 1)"
  using assms sigcache_Set_ok [OF assms]
  by (auto simp: CheckSig_cached_def CheckSig_def Let_def sigcache_Get_def sigcache_ok_def list_all_iff
      split: option.split prod.split)

theorem CheckSig_cache_transparent_witness:
  "fst (CheckSig_cached toy_crypto 50000 (\<lambda>i. 0) [] [1, 1] (2 # replicate 32 9) [0xac] sample_tx 0 0 0) = True"
proof -
  have "sigcache_ok toy_crypto []" by (simp add: sigcache_ok_def)
  from CheckSig_cache_transparent [OF this, of 50000 "\<lambda>i. 0" "[1, 1]" "2 # replicate 32 9" "[0xac]" sample_tx 0 0 0]
  show ?thesis by (simp add: CheckSig_def pubkey_Set_def pubkey_GetLen_def pubkey_IsValid_def sig_parts_def toy_crypto_def)
qed

end
