(* ===== verification/Interp.thy ===== *)
theory Interp imports Main Prelude Tx Opcodes Script Solver Sighash begin

text \<open>
  The script interpreter (\<open>EvalScript\<close> and \<open>VerifyScript\<close> of \<open>src/src/script.cpp\<close>). The stacks
  are lists with the top first. One instruction is a function of the state; a run is the
  recursion over the rest of the script. A result of \<open>false\<close> and a caught exception are
  \<open>Fail\<close>, a failed assertion, which ends the process, is \<open>Abort\<close>.
\<close>

unbundle bit_operations_syntax

section \<open>State\<close>

datatype 'a exec = Ret 'a | Fail | Abort

record eval_env =
  v_crypto :: crypto
  v_txTo :: CTransaction
  v_nIn :: nat
  v_flags :: u32
  v_nHashType :: u32

record eval_state =
  e_pc :: bytes
  e_codehash :: bytes
  e_stack :: "bytes list"
  e_altstack :: "bytes list"
  e_vfExec :: "bool list"
  e_nOpCount :: int

definition vchTrue :: bytes where "vchTrue = [1]"
definition vchFalse :: bytes where "vchFalse = []"

definition bool_vch :: "bool \<Rightarrow> bytes" where "bool_vch b = (if b then vchTrue else vchFalse)"

fun CastToBool :: "bytes \<Rightarrow> bool" where
  "CastToBool [] = False"
| "CastToBool (b # vch) = (if b \<noteq> 0 then \<not> (vch = [] \<and> b = 0x80) else CastToBool vch)"

definition disabled_opcode :: "byte \<Rightarrow> bool" where
  "disabled_opcode opcode \<longleftrightarrow> opcode \<in> {OP_CAT, OP_SUBSTR, OP_LEFT, OP_RIGHT, OP_INVERT, OP_AND, OP_OR, OP_XOR,
     OP_2MUL, OP_2DIV, OP_MUL, OP_DIV, OP_MOD, OP_LSHIFT, OP_RSHIFT}"

section \<open>Stack operations\<close>

text \<open>The operations on the stack alone; \<open>None\<close> is failure.\<close>

definition pick_roll :: "crypto \<Rightarrow> bool \<Rightarrow> bytes list \<Rightarrow> bytes list option" where
  "pick_roll c roll st =
     (if length st < 2 then None
      else case CScriptNum c (hd st) nDefaultMaxNumSize of None \<Rightarrow> None
      | Some bn \<Rightarrow>
        let n = num_getint bn; st = tl st in
        if n < 0 \<or> n \<ge> int (length st) then None
        else let vch = st ! nat n in
          Some (vch # (if roll then take (nat n) st @ drop (Suc (nat n)) st else st)))"

definition stack_op :: "crypto \<Rightarrow> byte \<Rightarrow> bytes list \<Rightarrow> bytes list option" where
  "stack_op c opcode st =
     (if opcode = OP_2DROP then (case st of x2 # x1 # r \<Rightarrow> Some r | _ \<Rightarrow> None)
      else if opcode = OP_2DUP then (case st of x2 # x1 # r \<Rightarrow> Some (x2 # x1 # x2 # x1 # r) | _ \<Rightarrow> None)
      else if opcode = OP_3DUP then
        (case st of x3 # x2 # x1 # r \<Rightarrow> Some (x3 # x2 # x1 # x3 # x2 # x1 # r) | _ \<Rightarrow> None)
      else if opcode = OP_2OVER then
        (case st of x4 # x3 # x2 # x1 # r \<Rightarrow> Some (x2 # x1 # x4 # x3 # x2 # x1 # r) | _ \<Rightarrow> None)
      else if opcode = OP_2ROT then
        (case st of x6 # x5 # x4 # x3 # x2 # x1 # r \<Rightarrow> Some (x2 # x1 # x6 # x5 # x4 # x3 # r) | _ \<Rightarrow> None)
      else if opcode = OP_2SWAP then
        (case st of x4 # x3 # x2 # x1 # r \<Rightarrow> Some (x2 # x1 # x4 # x3 # r) | _ \<Rightarrow> None)
      else if opcode = OP_IFDUP then
        (case st of x # r \<Rightarrow> Some (if CastToBool x then x # x # r else x # r) | _ \<Rightarrow> None)
      else if opcode = OP_DEPTH then Some (num_serialize (int (length st)) # st)
      else if opcode = OP_DROP then (case st of x # r \<Rightarrow> Some r | _ \<Rightarrow> None)
      else if opcode = OP_DUP then (case st of x # r \<Rightarrow> Some (x # x # r) | _ \<Rightarrow> None)
      else if opcode = OP_NIP then (case st of x2 # x1 # r \<Rightarrow> Some (x2 # r) | _ \<Rightarrow> None)
      else if opcode = OP_OVER then (case st of x2 # x1 # r \<Rightarrow> Some (x1 # x2 # x1 # r) | _ \<Rightarrow> None)
      else if opcode = OP_PICK then pick_roll c False st
      else if opcode = OP_ROLL then pick_roll c True st
      else if opcode = OP_ROT then (case st of x3 # x2 # x1 # r \<Rightarrow> Some (x1 # x3 # x2 # r) | _ \<Rightarrow> None)
      else if opcode = OP_SWAP then (case st of x2 # x1 # r \<Rightarrow> Some (x1 # x2 # r) | _ \<Rightarrow> None)
      else if opcode = OP_TUCK then (case st of x2 # x1 # r \<Rightarrow> Some (x2 # x1 # x2 # r) | _ \<Rightarrow> None)
      else if opcode = OP_SIZE then (case st of x # r \<Rightarrow> Some (num_serialize (int (length x)) # x # r) | _ \<Rightarrow> None)
      else None)"

definition is_stack_op :: "byte \<Rightarrow> bool" where
  "is_stack_op opcode \<longleftrightarrow> OP_2DROP \<le> opcode \<and> opcode \<le> OP_TUCK \<or> opcode = OP_SIZE"

section \<open>Arithmetic\<close>

definition unary_op :: "byte \<Rightarrow> int \<Rightarrow> int exec" where
  "unary_op opcode bn =
     (if opcode = OP_1ADD then (if add_assert bn 1 then Ret (bn + 1) else Abort)
      else if opcode = OP_1SUB then (if sub_assert bn 1 then Ret (bn - 1) else Abort)
      else if opcode = OP_NEGATE then (if neg_assert bn then Ret (- bn) else Abort)
      else if opcode = OP_ABS then (if bn < 0 then (if neg_assert bn then Ret (- bn) else Abort) else Ret bn)
      else if opcode = OP_NOT then Ret (of_bool (bn = 0))
      else if opcode = OP_0NOTEQUAL then Ret (of_bool (bn \<noteq> 0))
      else Abort)"

definition is_unary_op :: "byte \<Rightarrow> bool" where
  "is_unary_op opcode \<longleftrightarrow> opcode \<in> {OP_1ADD, OP_1SUB, OP_NEGATE, OP_ABS, OP_NOT, OP_0NOTEQUAL}"

definition binary_op :: "byte \<Rightarrow> int \<Rightarrow> int \<Rightarrow> int exec" where
  "binary_op opcode bn1 bn2 =
     (if opcode = OP_ADD then Ret (bn1 + bn2)
      else if opcode = OP_SUB then Ret (bn1 - bn2)
      else if opcode = OP_BOOLAND then Ret (of_bool (bn1 \<noteq> 0 \<and> bn2 \<noteq> 0))
      else if opcode = OP_BOOLOR then Ret (of_bool (bn1 \<noteq> 0 \<or> bn2 \<noteq> 0))
      else if opcode = OP_NUMEQUAL then Ret (of_bool (bn1 = bn2))
      else if opcode = OP_NUMEQUALVERIFY then Ret (of_bool (bn1 = bn2))
      else if opcode = OP_NUMNOTEQUAL then Ret (of_bool (bn1 \<noteq> bn2))
      else if opcode = OP_LESSTHAN then Ret (of_bool (bn1 < bn2))
      else if opcode = OP_GREATERTHAN then Ret (of_bool (bn1 > bn2))
      else if opcode = OP_LESSTHANOREQUAL then Ret (of_bool (bn1 \<le> bn2))
      else if opcode = OP_GREATERTHANOREQUAL then Ret (of_bool (bn1 \<ge> bn2))
      else if opcode = OP_MIN then Ret (if bn1 < bn2 then bn1 else bn2)
      else if opcode = OP_MAX then Ret (if bn1 > bn2 then bn1 else bn2)
      else Abort)"

definition is_binary_op :: "byte \<Rightarrow> bool" where
  "is_binary_op opcode \<longleftrightarrow> opcode \<in> {OP_ADD, OP_SUB, OP_BOOLAND, OP_BOOLOR, OP_NUMEQUAL, OP_NUMEQUALVERIFY,
     OP_NUMNOTEQUAL, OP_LESSTHAN, OP_GREATERTHAN, OP_LESSTHANOREQUAL, OP_GREATERTHANOREQUAL, OP_MIN, OP_MAX}"

text \<open>The result of a \<open>VERIFY\<close> variant: the truth value is popped, or the script fails.\<close>

definition verify_top :: "bool \<Rightarrow> bytes list \<Rightarrow> bytes list exec" where
  "verify_top verify st = (if verify then (if CastToBool (hd st) then Ret (tl st) else Fail) else Ret st)"

definition arith_op :: "crypto \<Rightarrow> byte \<Rightarrow> bytes list \<Rightarrow> bytes list exec" where
  "arith_op c opcode st =
     (if is_unary_op opcode then
        (case st of x # r \<Rightarrow>
           (case CScriptNum c x nDefaultMaxNumSize of None \<Rightarrow> Fail
            | Some bn \<Rightarrow> (case unary_op opcode bn of Ret bn \<Rightarrow> Ret (num_serialize bn # r) | Fail \<Rightarrow> Fail | Abort \<Rightarrow> Abort))
         | _ \<Rightarrow> Fail)
      else if is_binary_op opcode then
        (case st of x2 # x1 # r \<Rightarrow>
           (case (CScriptNum c x1 nDefaultMaxNumSize, CScriptNum c x2 nDefaultMaxNumSize) of
              (Some bn1, Some bn2) \<Rightarrow>
                (case binary_op opcode bn1 bn2 of
                   Ret bn \<Rightarrow> verify_top (opcode = OP_NUMEQUALVERIFY) (num_serialize bn # r)
                 | Fail \<Rightarrow> Fail | Abort \<Rightarrow> Abort)
            | _ \<Rightarrow> Fail)
         | _ \<Rightarrow> Fail)
      else
        (case st of x3 # x2 # x1 # r \<Rightarrow>
           (case (CScriptNum c x1 nDefaultMaxNumSize, CScriptNum c x2 nDefaultMaxNumSize, CScriptNum c x3 nDefaultMaxNumSize) of
              (Some bn1, Some bn2, Some bn3) \<Rightarrow> Ret (bool_vch (bn2 \<le> bn1 \<and> bn1 < bn3) # r)
            | _ \<Rightarrow> Fail)
         | _ \<Rightarrow> Fail))"

section \<open>Hashes and signatures\<close>

definition hash_op :: "crypto \<Rightarrow> byte \<Rightarrow> bytes \<Rightarrow> bytes" where
  "hash_op c opcode vch =
     (if opcode = OP_RIPEMD160 then c_RIPEMD160 c vch
      else if opcode = OP_SHA1 then c_SHA1 c vch
      else if opcode = OP_SHA256 then c_SHA256 c vch
      else if opcode = OP_HASH160 then Hash160 c vch
      else Hash_bytes c vch)"

definition sig_ok :: "eval_env \<Rightarrow> CScript \<Rightarrow> bytes \<Rightarrow> bytes \<Rightarrow> bool" where
  "sig_ok v scriptCode vchSig vchPubKey \<longleftrightarrow>
     CheckSignatureEncoding vchSig (v_flags v) \<and> CheckPubKeyEncoding vchPubKey (v_flags v) \<and>
     CheckSig (v_crypto v) vchSig vchPubKey scriptCode (v_txTo v) (v_nIn v) (v_nHashType v)"

definition checksig_op :: "eval_env \<Rightarrow> byte \<Rightarrow> bytes \<Rightarrow> bytes list \<Rightarrow> bytes list exec" where
  "checksig_op v opcode codehash st =
     (case st of vchPubKey # vchSig # r \<Rightarrow>
        let scriptCode = fst (FindAndDelete codehash (push_bytes [] vchSig));
            fSuccess = sig_ok v scriptCode vchSig vchPubKey
        in verify_top (opcode = OP_CHECKSIGVERIFY) (bool_vch fSuccess # r)
      | _ \<Rightarrow> Fail)"

text \<open>The signatures and keys as the loop meets them; each key is used at most once.\<close>

fun multisig_loop :: "(bytes \<Rightarrow> bytes \<Rightarrow> bool) \<Rightarrow> bytes list \<Rightarrow> bytes list \<Rightarrow> bool" where
  "multisig_loop fOk [] keys = True"
| "multisig_loop fOk (sig # sigs) [] = False"
| "multisig_loop fOk (sig # sigs) (key # keys) =
     (let rest = (if fOk sig key then sigs else sig # sigs) in
      if length rest > length keys then False else multisig_loop fOk rest keys)"

definition checkmultisig_op :: "eval_env \<Rightarrow> byte \<Rightarrow> eval_state \<Rightarrow> eval_state exec" where
  "checkmultisig_op v opcode s =
     (let c = v_crypto v; st = e_stack s in
      if length st < 1 then Fail
      else case CScriptNum c (st ! 0) nDefaultMaxNumSize of None \<Rightarrow> Fail | Some bn \<Rightarrow>
      let nKeysCount = num_getint bn in
      if nKeysCount < 0 \<or> nKeysCount > 20 then Fail
      else if e_nOpCount s + nKeysCount > 201 then Fail
      else let i = 2 + nat nKeysCount in
      if length st < i then Fail
      else case CScriptNum c (st ! (i - 1)) nDefaultMaxNumSize of None \<Rightarrow> Fail | Some bn \<Rightarrow>
      let nSigsCount = num_getint bn in
      if nSigsCount < 0 \<or> nSigsCount > nKeysCount then Fail
      else let i = i + 1 + nat nSigsCount in
      if length st < i then Fail
      else
        let keys = take (nat nKeysCount) (drop 1 st);
            sigs = take (nat nSigsCount) (drop (2 + nat nKeysCount) st);
            scriptCode = foldl (\<lambda>code vchSig. fst (FindAndDelete code (push_bytes [] vchSig))) (e_codehash s) sigs;
            fSuccess = multisig_loop (sig_ok v scriptCode) sigs keys
        in case verify_top (opcode = OP_CHECKMULTISIGVERIFY) (bool_vch fSuccess # drop i st) of
             Ret st \<Rightarrow> Ret (s\<lparr>e_stack := st, e_nOpCount := e_nOpCount s + nKeysCount\<rparr>)
           | Fail \<Rightarrow> Fail | Abort \<Rightarrow> Abort)"

section \<open>Lock times\<close>

definition checklocktime :: "eval_env \<Rightarrow> bytes list \<Rightarrow> bool" where
  "checklocktime v st =
     (if v_flags v AND SCRIPT_VERIFY_CHECKLOCKTIMEVERIFY = 0 then True
      else if length st < 1 then False
      else case CScriptNum (v_crypto v) (hd st) 5 of None \<Rightarrow> False | Some nLockTime \<Rightarrow>
        let lt = uint (tx_nLockTime (v_txTo v)) in
        if nLockTime < 0 then False
        else if \<not> ((lt < LOCKTIME_THRESHOLD \<and> nLockTime < LOCKTIME_THRESHOLD)
                 \<or> (lt \<ge> LOCKTIME_THRESHOLD \<and> nLockTime \<ge> LOCKTIME_THRESHOLD)) then False
        else if nLockTime > lt then False
        else \<not> txin_IsFinal (tx_vin (v_txTo v) ! v_nIn v))"

section \<open>One instruction\<close>

text \<open>A result of the stack operations as a result of the instruction.\<close>

definition on_stack :: "eval_state \<Rightarrow> bytes list exec \<Rightarrow> eval_state exec" where
  "on_stack s r = (case r of Ret st \<Rightarrow> Ret (s\<lparr>e_stack := st\<rparr>) | Fail \<Rightarrow> Fail | Abort \<Rightarrow> Abort)"

definition opt_exec :: "'a option \<Rightarrow> 'a exec" where
  "opt_exec r = (case r of None \<Rightarrow> Fail | Some x \<Rightarrow> Ret x)"

text \<open>The control instructions, the only ones that a branch not taken executes.\<close>

definition control_op :: "bool \<Rightarrow> byte \<Rightarrow> eval_state \<Rightarrow> eval_state exec" where
  "control_op fExec opcode s =
     (if opcode = OP_IF \<or> opcode = OP_NOTIF then
        if fExec then
          (case e_stack s of [] \<Rightarrow> Fail
           | vch # r \<Rightarrow>
             let fValue = CastToBool vch; fValue = (if opcode = OP_NOTIF then \<not> fValue else fValue) in
             Ret (s\<lparr>e_stack := r, e_vfExec := e_vfExec s @ [fValue]\<rparr>))
        else Ret (s\<lparr>e_vfExec := e_vfExec s @ [False]\<rparr>)
      else if opcode = OP_ELSE then
        if e_vfExec s = [] then Fail
        else Ret (s\<lparr>e_vfExec := butlast (e_vfExec s) @ [\<not> last (e_vfExec s)]\<rparr>)
      else if opcode = OP_ENDIF then
        if e_vfExec s = [] then Fail else Ret (s\<lparr>e_vfExec := butlast (e_vfExec s)\<rparr>)
      else Fail)"

definition is_nop :: "byte \<Rightarrow> bool" where
  "is_nop opcode \<longleftrightarrow> opcode = OP_NOP \<or> opcode = OP_NOP1 \<or> OP_NOP3 \<le> opcode \<and> opcode \<le> OP_NOP10"

text \<open>The switch. The position is already behind the instruction.\<close>

definition exec_op :: "eval_env \<Rightarrow> bool \<Rightarrow> byte \<Rightarrow> eval_state \<Rightarrow> eval_state exec" where
  "exec_op v fExec opcode s =
     (if opcode = OP_1NEGATE \<or> (OP_1 \<le> opcode \<and> opcode \<le> OP_16) then
        Ret (s\<lparr>e_stack := num_serialize (uint opcode - (uint OP_1 - 1)) # e_stack s\<rparr>)
      else if is_nop opcode then Ret s
      else if opcode = OP_NOP2 then (if checklocktime v (e_stack s) then Ret s else Fail)
      else if OP_IF \<le> opcode \<and> opcode \<le> OP_ENDIF then control_op fExec opcode s
      else if opcode = OP_VERIFY then
        (case e_stack s of x # r \<Rightarrow> if CastToBool x then Ret (s\<lparr>e_stack := r\<rparr>) else Fail | _ \<Rightarrow> Fail)
      else if opcode = OP_RETURN then Fail
      else if opcode = OP_TOALTSTACK then
        (case e_stack s of x # r \<Rightarrow> Ret (s\<lparr>e_stack := r, e_altstack := x # e_altstack s\<rparr>) | _ \<Rightarrow> Fail)
      else if opcode = OP_FROMALTSTACK then
        (case e_altstack s of x # r \<Rightarrow> Ret (s\<lparr>e_stack := x # e_stack s, e_altstack := r\<rparr>) | _ \<Rightarrow> Fail)
      else if is_stack_op opcode then on_stack s (opt_exec (stack_op (v_crypto v) opcode (e_stack s)))
      else if opcode = OP_EQUAL \<or> opcode = OP_EQUALVERIFY then
        (case e_stack s of x2 # x1 # r \<Rightarrow> on_stack s (verify_top (opcode = OP_EQUALVERIFY) (bool_vch (x1 = x2) # r))
         | _ \<Rightarrow> Fail)
      else if is_unary_op opcode \<or> is_binary_op opcode \<or> opcode = OP_WITHIN then
        on_stack s (arith_op (v_crypto v) opcode (e_stack s))
      else if OP_RIPEMD160 \<le> opcode \<and> opcode \<le> OP_HASH256 then
        (case e_stack s of x # r \<Rightarrow> Ret (s\<lparr>e_stack := hash_op (v_crypto v) opcode x # r\<rparr>) | _ \<Rightarrow> Fail)
      else if opcode = OP_CODESEPARATOR then Ret (s\<lparr>e_codehash := e_pc s\<rparr>)
      else if opcode = OP_CHECKSIG \<or> opcode = OP_CHECKSIGVERIFY then
        on_stack s (checksig_op v opcode (e_codehash s) (e_stack s))
      else if opcode = OP_CHECKMULTISIG \<or> opcode = OP_CHECKMULTISIGVERIFY then checkmultisig_op v opcode s
      else Fail)"

text \<open>The loop body for the instruction read: its counts and limits, then the push or the switch.\<close>

definition exec_instr :: "eval_env \<Rightarrow> byte \<Rightarrow> bytes \<Rightarrow> eval_state \<Rightarrow> eval_state exec" where
  "exec_instr v opcode vchPushValue s =
     (let fExec = (False \<notin> set (e_vfExec s));
          s = (if opcode > OP_16 then s\<lparr>e_nOpCount := e_nOpCount s + 1\<rparr> else s)
      in if length vchPushValue > MAX_SCRIPT_ELEMENT_SIZE then Fail
         else if opcode > OP_16 \<and> e_nOpCount s > 201 then Fail
         else if disabled_opcode opcode then Fail
         else
           case (if fExec \<and> opcode \<le> OP_PUSHDATA4 then Ret (s\<lparr>e_stack := vchPushValue # e_stack s\<rparr>)
                 else if fExec \<or> (OP_IF \<le> opcode \<and> opcode \<le> OP_ENDIF) then exec_op v fExec opcode s
                 else Ret s) of
             Ret s \<Rightarrow> if length (e_stack s) + length (e_altstack s) > 1000 then Fail else Ret s
           | Fail \<Rightarrow> Fail | Abort \<Rightarrow> Abort)"

lemma on_stack_pc: "on_stack s r = Ret t \<Longrightarrow> e_pc t = e_pc s"
  by (auto simp: on_stack_def split: exec.splits)

lemma control_op_pc: "control_op f opcode s = Ret t \<Longrightarrow> e_pc t = e_pc s"
  by (auto simp: control_op_def Let_def split: if_split_asm list.splits)

lemma checkmultisig_pc: "checkmultisig_op v opcode s = Ret t \<Longrightarrow> e_pc t = e_pc s"
  by (auto simp: checkmultisig_op_def Let_def split: if_split_asm option.splits exec.splits)

lemma exec_op_pc: "exec_op v f opcode s = Ret t \<Longrightarrow> e_pc t = e_pc s"
  unfolding exec_op_def
  by (auto dest: on_stack_pc control_op_pc checkmultisig_pc split: if_split_asm list.splits)

lemma exec_instr_pc: "exec_instr v opcode x s = Ret t \<Longrightarrow> e_pc t = e_pc s"
  by (auto simp: exec_instr_def Let_def split: if_split_asm exec.splits dest!: exec_op_pc)

section \<open>Running a script\<close>

function eval_loop :: "eval_env \<Rightarrow> eval_state \<Rightarrow> eval_state exec" where
  "eval_loop v s =
     (if e_pc s = [] then Ret s
      else case GetOp (e_pc s) of (None, r) \<Rightarrow> Fail
        | (Some (opcode, vchPushValue), r) \<Rightarrow>
          (case exec_instr v opcode vchPushValue (s\<lparr>e_pc := r\<rparr>) of
             Ret t \<Rightarrow> eval_loop v t | Fail \<Rightarrow> Fail | Abort \<Rightarrow> Abort))"
  by auto
termination
proof (relation "measure (\<lambda>(v, s). length (e_pc s))", goal_cases)
  case (2 v s x r y opcode vch t)
  then have "GetOp (e_pc s) = (Some y, r)" "e_pc t = r" by (simp_all add: exec_instr_pc)
  then show ?case using GetOp_length by auto
qed simp

declare eval_loop.simps [simp del]

definition eval_init :: "bytes list \<Rightarrow> CScript \<Rightarrow> eval_state" where
  "eval_init stack script =
     \<lparr> e_pc = script, e_codehash = script, e_stack = stack, e_altstack = [], e_vfExec = [], e_nOpCount = 0 \<rparr>"

text \<open>The stack that an accepted script leaves.\<close>

definition EvalScript :: "eval_env \<Rightarrow> bytes list \<Rightarrow> CScript \<Rightarrow> bytes list exec" where
  "EvalScript v stack script =
     (if length script > 10000 then Fail
      else case eval_loop v (eval_init stack script) of
        Ret s \<Rightarrow> if e_vfExec s \<noteq> [] then Fail else Ret (e_stack s)
      | Fail \<Rightarrow> Fail | Abort \<Rightarrow> Abort)"

text \<open>\<open>None\<close> is an aborted process.\<close>

definition VerifyScript :: "eval_env \<Rightarrow> CScript \<Rightarrow> CScript \<Rightarrow> bool option" where
  "VerifyScript v scriptSig scriptPubKey =
     (case EvalScript v [] scriptSig of Abort \<Rightarrow> None | Fail \<Rightarrow> Some False | Ret stackCopy \<Rightarrow>
      case EvalScript v stackCopy scriptPubKey of Abort \<Rightarrow> None | Fail \<Rightarrow> Some False | Ret stack \<Rightarrow>
        if stack = [] then Some False
        else if \<not> CastToBool (hd stack) then Some False
        else if v_flags v AND SCRIPT_VERIFY_P2SH \<noteq> 0 \<and> IsPayToScriptHash scriptPubKey then
          if \<not> IsPushOnly scriptSig then Some False
          else if stackCopy = [] then None
          else
            (case EvalScript v (tl stackCopy) (hd stackCopy) of Abort \<Rightarrow> None | Fail \<Rightarrow> Some False | Ret stack \<Rightarrow>
               if stack = [] then Some False else Some (CastToBool (hd stack)))
        else Some True)"

section \<open>No assertion fails\<close>

lemma operand_range: "CScriptNum c x nDefaultMaxNumSize = Some n \<Longrightarrow> \<bar>n\<bar> < 4294967296"
proof -
  assume n: "CScriptNum c x nDefaultMaxNumSize = Some n"
  then have l: "length x \<le> 4" and v: "n = set_vch c x"
    by (auto simp: CScriptNum_def nDefaultMaxNumSize_def split: if_split_asm)
  define r where "r = int (le_nat x)"
  have "(256 :: nat) ^ length x \<le> 256 ^ 4" using l by (intro power_increasing) auto
  then have "le_nat x < 256 ^ 4" using le_nat_bound [of x] by linarith
  then have r: "0 \<le> r" "r < 4294967296" by (simp_all add: r_def)
  moreover have "0 \<le> r AND m" "r AND m \<le> r" for m using r(1) by (simp_all add: AND_upper1)
  ultimately have "\<bar>- (r AND m)\<bar> < 4294967296" for m
    by (metis abs_minus_cancel abs_of_nonneg order_le_less_trans)
  then show ?thesis using r unfolding v set_vch_def Let_def r_def [symmetric] by simp
qed

lemma unary_op_range:
  assumes "is_unary_op opcode" "\<bar>n\<bar> < 4294967296"
  shows "\<exists>m. unary_op opcode n = Ret m \<and> \<bar>m\<bar> < 9223372036854775808"
  using assms by (auto simp: is_unary_op_def unary_op_def add_assert_def sub_assert_def neg_assert_def)

lemma binary_op_range:
  assumes "is_binary_op opcode" "\<bar>n\<bar> < 4294967296" "\<bar>m\<bar> < 4294967296"
  shows "\<exists>k. binary_op opcode n m = Ret k \<and> \<bar>k\<bar> < 9223372036854775808"
  using assms by (auto simp: is_binary_op_def binary_op_def)

lemma verify_top_Abort [simp]: "verify_top b st \<noteq> Abort" by (simp add: verify_top_def)

lemma arith_op_Abort: "arith_op c opcode st \<noteq> Abort"
proof -
  have "\<exists>m. unary_op opcode n = Ret m" if "is_unary_op opcode" "CScriptNum c x nDefaultMaxNumSize = Some n" for x n
    using unary_op_range [OF that(1) operand_range [OF that(2)]] by blast
  moreover have "\<exists>k. binary_op opcode n m = Ret k"
    if "is_binary_op opcode" "CScriptNum c x nDefaultMaxNumSize = Some n" "CScriptNum c y nDefaultMaxNumSize = Some m" for x y n m
    using binary_op_range [OF that(1) operand_range [OF that(2)] operand_range [OF that(3)]] by blast
  ultimately show ?thesis unfolding arith_op_def
    by (auto split: list.split option.split exec.split) (metis exec.distinct)+
qed

lemma on_stack_Abort: "on_stack s r = Abort \<longleftrightarrow> r = Abort" by (auto simp: on_stack_def split: exec.splits)

lemma exec_op_Abort: "exec_op v f opcode s \<noteq> Abort"
proof -
  have "control_op f opcode s \<noteq> Abort" by (auto simp: control_op_def Let_def split: list.split)
  moreover have "opt_exec r \<noteq> Abort" for r :: "bytes list option" by (auto simp: opt_exec_def split: option.split)
  moreover have "checkmultisig_op v opcode s \<noteq> Abort"
    by (auto simp: checkmultisig_op_def Let_def split: option.split exec.split)
  moreover have "checksig_op v opcode x st \<noteq> Abort" for x st
    by (auto simp: checksig_op_def Let_def split: list.split)
  ultimately show ?thesis unfolding exec_op_def
    by (simp add: on_stack_Abort arith_op_Abort split: list.split)
qed

lemma exec_instr_Abort: "exec_instr v opcode x s \<noteq> Abort"
  using exec_op_Abort by (auto simp: exec_instr_def Let_def split: exec.split)

lemma eval_loop_Abort: "eval_loop v s \<noteq> Abort"
proof (induction v s rule: eval_loop.induct)
  case (1 v s)
  then show ?case using exec_instr_Abort
    by (auto simp: eval_loop.simps [of v s] split: prod.split option.split exec.split)
qed

lemma EvalScript_Abort: "EvalScript v st script \<noteq> Abort"
  using eval_loop_Abort by (auto simp: EvalScript_def split: exec.split)

lemma eval_step:
  assumes "GetOp (e_pc s) = (Some (opcode, x), r)"
  shows "eval_loop v s = (case exec_instr v opcode x (s\<lparr>e_pc := r\<rparr>) of Ret t \<Rightarrow> eval_loop v t | Fail \<Rightarrow> Fail | Abort \<Rightarrow> Abort)"
  using assms by (cases "e_pc s = []") (auto simp: eval_loop.simps [of v s])

lemma P2SH_empty_stack:
  assumes "IsPayToScriptHash s" shows "EvalScript v [] s = Fail"
proof -
  obtain r where s: "s = 0xa9 # r" using assms by (cases s) (auto simp: IsPayToScriptHash_def)
  have "exec_instr v 0xa9 [] t = Fail" if "e_stack t = []" "e_vfExec t = []" for t
    using that by (auto simp: exec_instr_def exec_op_def disabled_opcode_def is_nop_def is_stack_op_def is_unary_op_def
        is_binary_op_def Let_def split: list.split)
  then have "eval_loop v (eval_init [] s) = Fail"
    by (subst eval_step [of _ "0xa9" "[]" r]) (simp_all add: eval_init_def s GetOp_op)
  then show ?thesis by (simp add: EvalScript_def)
qed

lemma VerifyScript_not_None: "VerifyScript v scriptSig scriptPubKey \<noteq> None"
proof (cases "EvalScript v [] scriptSig")
  case (Ret stackCopy)
  show ?thesis
  proof (cases "EvalScript v stackCopy scriptPubKey")
    case (Ret stack)
    have "stackCopy \<noteq> []" if "IsPayToScriptHash scriptPubKey"
      using P2SH_empty_stack [OF that, of v] Ret by auto
    moreover have "EvalScript v (tl stackCopy) (hd stackCopy) \<noteq> Abort" by (rule EvalScript_Abort)
    ultimately show ?thesis using \<open>EvalScript v [] scriptSig = Ret stackCopy\<close> Ret
      by (cases "EvalScript v (tl stackCopy) (hd stackCopy)") (simp_all add: VerifyScript_def del: not_None_eq)
  qed (use Ret EvalScript_Abort in \<open>simp_all add: VerifyScript_def\<close>)
qed (use EvalScript_Abort in \<open>simp_all add: VerifyScript_def\<close>)

text \<open>C18: No script makes the process abort: every assertion of the number operations and the one of
  \<open>VerifyScript\<close> on the copied stack hold, for all scripts, transactions and flags; so
  verification always answers.\<close>

theorem VerifyScript_answers: "\<exists>b. VerifyScript v scriptSig scriptPubKey = Some b"
  using VerifyScript_not_None [of v scriptSig scriptPubKey] by simp

section \<open>Limits\<close>

definition digest_sizes :: "crypto \<Rightarrow> bool" where
  "digest_sizes c \<longleftrightarrow> (\<forall>x. length (c_RIPEMD160 c x) = 20 \<and> length (c_SHA1 c x) = 20 \<and> length (c_SHA256 c x) = 32)"

abbreviation elems_ok :: "bytes list \<Rightarrow> bool" where
  "elems_ok st \<equiv> list_all (\<lambda>x. length x \<le> MAX_SCRIPT_ELEMENT_SIZE) st"

definition eval_ok :: "eval_state \<Rightarrow> bool" where
  "eval_ok s \<longleftrightarrow> elems_ok (e_stack s) \<and> elems_ok (e_altstack s)
     \<and> length (e_stack s) + length (e_altstack s) \<le> 1000 \<and> 0 \<le> e_nOpCount s \<and> e_nOpCount s \<le> 201"

lemma num_size: "\<bar>n\<bar> < 9223372036854775808 \<Longrightarrow> length (num_serialize n) \<le> MAX_SCRIPT_ELEMENT_SIZE"
proof (cases "n = 0")
  case True
  then show ?thesis by (simp add: num_serialize_def)
next
  case False
  assume n: "\<bar>n\<bar> < 9223372036854775808"
  define L where "L = length (num_serialize n)"
  have "128 * 256 ^ (L - 2) \<le> nat \<bar>n\<bar>" if "1 < L" using num_serialize_size [OF False] that by (simp add: L_def)
  moreover have "nat \<bar>n\<bar> < 128 * 256 ^ 7" using n by simp
  ultimately have "(256 :: nat) ^ (L - 2) < 256 ^ 7" if "1 < L" using that by linarith
  then have "L - 2 < 7" if "1 < L" using power_less_imp_less_exp [of 256 "L - 2" 7] that by simp
  then have "L \<le> 9" by (cases "1 < L") auto
  then show ?thesis by (simp add: L_def MAX_SCRIPT_ELEMENT_SIZE_def)
qed

lemma bool_vch_size: "length (bool_vch b) \<le> MAX_SCRIPT_ELEMENT_SIZE"
  by (simp add: bool_vch_def vchTrue_def vchFalse_def MAX_SCRIPT_ELEMENT_SIZE_def)

lemma verify_top_ok: "verify_top b st = Ret t \<Longrightarrow> elems_ok st \<Longrightarrow> st \<noteq> [] \<Longrightarrow> elems_ok t"
  by (cases st) (auto simp: verify_top_def split: if_split_asm)

lemma arith_op_ok:
  assumes "arith_op c opcode st = Ret t" "elems_ok st" shows "elems_ok t"
proof -
  have u: "length (num_serialize m) \<le> MAX_SCRIPT_ELEMENT_SIZE"
    if "is_unary_op opcode" "CScriptNum c x nDefaultMaxNumSize = Some n" "unary_op opcode n = Ret m" for x n m
    using unary_op_range [OF that(1) operand_range [OF that(2)]] that(3) num_size by auto
  have b: "length (num_serialize k) \<le> MAX_SCRIPT_ELEMENT_SIZE"
    if "is_binary_op opcode" "CScriptNum c x nDefaultMaxNumSize = Some n" "CScriptNum c y nDefaultMaxNumSize = Some m"
      "binary_op opcode n m = Ret k" for x y n m k
    using binary_op_range [OF that(1) operand_range [OF that(2)] operand_range [OF that(3)]] that(4) num_size by auto
  show ?thesis using assms u b bool_vch_size
    by (auto simp: arith_op_def split: if_split_asm list.splits option.splits exec.splits dest!: verify_top_ok)
qed

lemma pick_roll_ok:
  assumes "pick_roll c roll st = Some t" "elems_ok st" shows "elems_ok t"
proof -
  obtain x r where st: "st = x # r" using assms(1) by (cases st) (auto simp: pick_roll_def)
  have "set t \<subseteq> set r" using assms(1) st
    by (auto simp: pick_roll_def Let_def split: if_split_asm option.splits dest!: in_set_takeD in_set_dropD)
  then show ?thesis using assms(2) st by (auto simp: list_all_iff)
qed

lemma stack_op_ok:
  assumes "stack_op c opcode st = Some t" "elems_ok st" "length st \<le> 1000" shows "elems_ok t"
proof -
  have n: "length (num_serialize (int k)) \<le> MAX_SCRIPT_ELEMENT_SIZE" if "k \<le> 1000" for k
    using num_size [of "int k"] that by simp
  show ?thesis using assms n
    by (auto simp: stack_op_def MAX_SCRIPT_ELEMENT_SIZE_def split: if_split_asm list.splits dest: pick_roll_ok)
qed

lemma hash_op_size: "digest_sizes c \<Longrightarrow> length (hash_op c opcode x) \<le> MAX_SCRIPT_ELEMENT_SIZE"
  by (simp add: digest_sizes_def hash_op_def Hash160_def Hash_bytes_def MAX_SCRIPT_ELEMENT_SIZE_def)

lemma on_stack_Ret: "on_stack s r = Ret t \<longleftrightarrow> (\<exists>st. r = Ret st \<and> t = s\<lparr>e_stack := st\<rparr>)"
  by (auto simp: on_stack_def split: exec.splits)

lemma opt_exec_Ret: "opt_exec r = Ret x \<longleftrightarrow> r = Some x" by (auto simp: opt_exec_def split: option.splits)

definition elems_state :: "eval_state \<Rightarrow> bool" where
  "elems_state s \<longleftrightarrow> elems_ok (e_stack s) \<and> elems_ok (e_altstack s) \<and> 0 \<le> e_nOpCount s \<and> e_nOpCount s \<le> 201"

lemma control_op_ok: "control_op f opcode s = Ret t \<Longrightarrow> elems_state s \<Longrightarrow> elems_state t"
  by (auto simp: control_op_def Let_def elems_state_def split: if_split_asm list.splits)

lemma checkmultisig_ok:
  assumes "checkmultisig_op v opcode s = Ret t" "elems_state s" shows "elems_state t"
proof -
  have "elems_ok (drop i (e_stack s))" for i using assms(2) by (auto simp: elems_state_def list_all_iff dest: in_set_dropD)
  then show ?thesis using assms bool_vch_size
    by (auto simp: checkmultisig_op_def Let_def elems_state_def split: if_split_asm option.splits exec.splits dest!: verify_top_ok)
qed

lemma checksig_ok:
  "checksig_op v opcode x st = Ret t \<Longrightarrow> elems_ok st \<Longrightarrow> elems_ok t"
  using bool_vch_size by (auto simp: checksig_op_def Let_def split: list.splits dest!: verify_top_ok)

lemma exec_op_ok:
  assumes "exec_op v f opcode s = Ret t" "elems_state s" "length (e_stack s) \<le> 1000" "digest_sizes (v_crypto v)"
  shows "elems_state t"
proof -
  have u: "0 \<le> uint opcode" "uint opcode < 256" using unsigned_less [of opcode, where 'a = int] by simp_all
  then have "\<bar>uint opcode - 80\<bar> < 9223372036854775808" by linarith
  then have "\<bar>uint opcode - (uint OP_1 - 1)\<bar> < 9223372036854775808" by simp
  then have n: "length (num_serialize (uint opcode - (uint OP_1 - 1))) \<le> MAX_SCRIPT_ELEMENT_SIZE" by (rule num_size)
  have st: "elems_ok (e_stack s)" using assms(2) by (simp add: elems_state_def)
  have stack: "elems_state t" if "on_stack s r = Ret t" "\<And>st. r = Ret st \<Longrightarrow> elems_ok st" for r
    using that assms(2) by (auto simp: on_stack_Ret elems_state_def)
  have ops: "opt_exec (stack_op c opcode (e_stack s)) = Ret u \<Longrightarrow> elems_ok u" for c u
    using stack_op_ok [OF _ st assms(3)] by (simp add: opt_exec_Ret)
  have eq: "verify_top b (bool_vch e # r) = Ret u \<Longrightarrow> elems_ok r \<Longrightarrow> elems_ok u" for b e r u
    using verify_top_ok [of b "bool_vch e # r" u] bool_vch_size by simp
  note h = hash_op_size [OF assms(4), of opcode]
  show ?thesis using assms(1) unfolding exec_op_def
    by (auto split: if_split_asm list.splits dest!: control_op_ok [OF _ assms(2)] checkmultisig_ok [OF _ assms(2)]
        elim!: stack intro: ops eq arith_op_ok [OF _ st] checksig_ok [OF _ st])
      (use assms(2) n h in \<open>auto simp: elems_state_def intro: eq\<close>)
qed

lemma exec_instr_ok:
  assumes "exec_instr v opcode x s = Ret t" "eval_ok s" "digest_sizes (v_crypto v)"
  shows "eval_ok t"
proof -
  define s' where "s' = (if opcode > OP_16 then s\<lparr>e_nOpCount := e_nOpCount s + 1\<rparr> else s)"
  have s': "elems_state s'" if "\<not> (opcode > OP_16 \<and> e_nOpCount s' > 201)"
    using assms(2) that by (auto simp: s'_def eval_ok_def elems_state_def)
  have l: "length (e_stack s') \<le> 1000" using assms(2) by (simp add: s'_def eval_ok_def)
  have f: "False \<in> set (e_vfExec s') \<longleftrightarrow> False \<in> set (e_vfExec s)" by (simp add: s'_def)
  show ?thesis using assms(1) s' exec_op_ok [OF _ _ l assms(3)]
    unfolding exec_instr_def Let_def s'_def [symmetric]
    by (auto simp: eval_ok_def elems_state_def split: if_split_asm exec.splits)
qed

lemma eval_loop_ok:
  "eval_loop v s = Ret t \<Longrightarrow> eval_ok s \<Longrightarrow> digest_sizes (v_crypto v) \<Longrightarrow> eval_ok t"
proof (induction v s rule: eval_loop.induct)
  case (1 v s)
  have "eval_ok (s\<lparr>e_pc := r\<rparr>)" for r using 1(3) by (simp add: eval_ok_def)
  then show ?case using 1 exec_instr_ok
    by (auto simp: eval_loop.simps [of v s] split: if_split_asm prod.splits option.splits exec.splits)
qed

text \<open>C17: The limits of the interpreter: a script that is accepted on a stack within the limits
  leaves a stack of at most 1000 elements, each of at most 520 bytes, whatever the script,
  provided the hash functions have digests of 20 and 32 bytes.\<close>

theorem EvalScript_limits:
  assumes "EvalScript v st script = Ret st'" "digest_sizes (v_crypto v)"
    "length st \<le> 1000" "list_all (\<lambda>x. length x \<le> MAX_SCRIPT_ELEMENT_SIZE) st"
  shows "length st' \<le> 1000 \<and> list_all (\<lambda>x. length x \<le> MAX_SCRIPT_ELEMENT_SIZE) st'"
proof -
  have "eval_ok (eval_init st script)" using assms(3,4) by (simp add: eval_ok_def eval_init_def)
  then show ?thesis using assms(1,2) eval_loop_ok [of v "eval_init st script"]
    by (auto simp: EvalScript_def eval_ok_def split: if_split_asm exec.splits)
qed

theorem EvalScript_limits_witness:
  "\<exists>st'. EvalScript (eval_env.make toy_crypto tx_SetNull 0 0 0) [[7]] [OP_DUP, OP_HASH160, OP_SIZE] = Ret st' \<and> length st' \<le> 1000
    \<and> list_all (\<lambda>x. length x \<le> MAX_SCRIPT_ELEMENT_SIZE) st'"
proof -
  let ?v = "eval_env.make toy_crypto tx_SetNull 0 0 0"
  have r: "EvalScript ?v [[7]] [OP_DUP, OP_HASH160, OP_SIZE] = Ret [[20], 7 # replicate 19 0, [7]]" by code_simp
  have "digest_sizes (v_crypto ?v)" by (auto simp: digest_sizes_def toy_crypto_def eval_env.defs min_def)
  from EvalScript_limits [OF r this] show ?thesis unfolding r by (simp add: MAX_SCRIPT_ELEMENT_SIZE_def)
qed

section \<open>Standard spends\<close>

lemma exec_push:
  assumes "opcode \<le> OP_PUSHDATA4" "False \<notin> set (e_vfExec s)" "length x \<le> MAX_SCRIPT_ELEMENT_SIZE"
    "length (e_stack s) + length (e_altstack s) < 1000"
  shows "exec_instr v opcode x s = Ret (s\<lparr>e_stack := x # e_stack s\<rparr>)"
proof -
  have "\<not> opcode > OP_16" "\<not> disabled_opcode opcode"
    using assms(1) by (auto simp: disabled_opcode_def word_le_nat_alt word_less_nat_alt)
  then show ?thesis using assms by (simp add: exec_instr_def Let_def)
qed

lemma eval_pushes:
  assumes "list_all (\<lambda>x. length x \<le> MAX_SCRIPT_ELEMENT_SIZE) xs" "e_pc s = PushAll xs @ r" "e_vfExec s = []"
    "length xs + length (e_stack s) + length (e_altstack s) \<le> 1000"
  shows "eval_loop v s = eval_loop v (s\<lparr>e_pc := r, e_stack := rev xs @ e_stack s\<rparr>)"
  using assms
proof (induction xs arbitrary: s)
  case Nil
  then have "s\<lparr>e_pc := r, e_stack := e_stack s\<rparr> = s" by simp
  then show ?case by simp
next
  case (Cons x xs)
  have l: "length x \<le> MAX_SCRIPT_ELEMENT_SIZE" "length x < 2 ^ 32"
    using Cons.prems(1) by (simp_all add: MAX_SCRIPT_ELEMENT_SIZE_def)
  have g: "GetOp (e_pc s) = (Some (push_opcode (length x), x), PushAll xs @ r)"
    using Cons.prems(2) GetOp_push [OF l(2), of "PushAll xs @ r"] by (simp add: PushAll_Cons)
  have "eval_loop v s = eval_loop v (s\<lparr>e_pc := PushAll xs @ r, e_stack := x # e_stack s\<rparr>)"
    using l(1) Cons.prems(3,4) push_opcode_le by (simp add: eval_step [OF g] exec_push)
  also have "\<dots> = eval_loop v (s\<lparr>e_pc := r, e_stack := rev xs @ x # e_stack s\<rparr>)"
    using Cons.IH [of "s\<lparr>e_pc := PushAll xs @ r, e_stack := x # e_stack s\<rparr>"] Cons.prems by simp
  finally show ?case by simp
qed

lemma EvalScript_PushAll:
  assumes "list_all (\<lambda>x. length x \<le> MAX_SCRIPT_ELEMENT_SIZE) xs" "length xs \<le> 1000" "length (PushAll xs) \<le> 10000"
  shows "EvalScript v [] (PushAll xs) = Ret (rev xs)"
  using eval_pushes [OF assms(1), of "eval_init [] (PushAll xs)" "[]" v] assms(2,3)
  by (simp add: EvalScript_def eval_init_def eval_loop.simps [of v "_\<lparr>e_pc := []\<rparr>"] eval_loop.simps)

lemma CastToBool_bool [simp]: "CastToBool (bool_vch b) = b" by (simp add: bool_vch_def vchTrue_def vchFalse_def)

text \<open>The run of the script of a key hash on a signature and a key.\<close>

lemma exec_p2pkh:
  assumes "e_stack s = pk # r" "e_vfExec s = []" "e_nOpCount s < 100" "length r + length (e_altstack s) < 900"
  shows "exec_instr v OP_DUP [] s = Ret (s\<lparr>e_stack := pk # pk # r, e_nOpCount := e_nOpCount s + 1\<rparr>)"
    "exec_instr v OP_HASH160 [] s = Ret (s\<lparr>e_stack := Hash160 (v_crypto v) pk # r, e_nOpCount := e_nOpCount s + 1\<rparr>)"
    "r = x # r' \<Longrightarrow> exec_instr v OP_EQUALVERIFY [] s =
      (if x = pk then Ret (s\<lparr>e_stack := r', e_nOpCount := e_nOpCount s + 1\<rparr>) else Fail)"
    "r = sig # r' \<Longrightarrow> exec_instr v OP_CHECKSIG [] s = Ret (s\<lparr>e_nOpCount := e_nOpCount s + 1, e_stack :=
      bool_vch (sig_ok v (fst (FindAndDelete (e_codehash s) (push_bytes [] sig))) sig pk) # r'\<rparr>)"
    "r = x # r' \<Longrightarrow> exec_instr v OP_EQUAL [] s = Ret (s\<lparr>e_nOpCount := e_nOpCount s + 1, e_stack := bool_vch (x = pk) # r'\<rparr>)"
  using assms
  by (auto simp: exec_instr_def exec_op_def disabled_opcode_def is_nop_def is_stack_op_def is_unary_op_def is_binary_op_def
      Let_def on_stack_def opt_exec_def stack_op_def hash_op_def checksig_op_def verify_top_def)

lemma push_small:
  assumes "length h = 20" shows "GetOp (20 # h @ r) = (Some (20, h), r)"
  using GetOp_direct [of 20 h r] assms by simp

lemma p2pkh_script:
  "snd (SetDestination (CKeyID h)) = [OP_DUP, OP_HASH160, of_nat (length h)] @ h @ [OP_EQUALVERIFY, OP_CHECKSIG]"
  "snd (SetDestination (CScriptID h)) = [OP_HASH160, of_nat (length h)] @ h @ [OP_EQUAL]"
  by (simp_all add: push_op_def push_uint_def)

lemma eval_p2pkh:
  assumes "length h = 20"
  shows "EvalScript v [pk, sig] (snd (SetDestination (CKeyID h))) =
    (if Hash160 (v_crypto v) pk = h
     then Ret [bool_vch (sig_ok v (fst (FindAndDelete (snd (SetDestination (CKeyID h))) (push_bytes [] sig))) sig pk)]
     else Fail)"
proof -
  define sc where "sc = snd (SetDestination (CKeyID h))"
  have sc: "sc = 0x76 # 0xa9 # 20 # h @ [0x88, 0xac]" using assms by (simp add: sc_def p2pkh_script del: SetDestination.simps)
  define s0 where "s0 = eval_init [pk, sig] sc"
  have f: "e_pc s0 = 0x76 # 0xa9 # 20 # h @ [0x88, 0xac]" "e_stack s0 = [pk, sig]" "e_altstack s0 = []" "e_vfExec s0 = []"
    "e_nOpCount s0 = 0" "e_codehash s0 = sc" by (simp_all add: s0_def eval_init_def sc)
  have g: "GetOp (0x76 # q) = (Some (0x76, []), q)" "GetOp (0xa9 # q) = (Some (0xa9, []), q)"
    "GetOp (0x88 # q) = (Some (0x88, []), q)" "GetOp (0xac # q) = (Some (0xac, []), q)" for q by (simp_all add: GetOp_op)
  have ln: "length sc \<le> 10000" using assms by (simp add: sc)
  have h: "length h \<le> MAX_SCRIPT_ELEMENT_SIZE" using assms by (simp add: MAX_SCRIPT_ELEMENT_SIZE_def)
  have "eval_loop v s0 = (if Hash160 (v_crypto v) pk = h
      then Ret (s0\<lparr>e_pc := [], e_nOpCount := 4, e_stack := [bool_vch (sig_ok v (fst (FindAndDelete sc (push_bytes [] sig))) sig pk)]\<rparr>)
      else Fail)"
    by (simp add: eval_step f g push_small [OF assms] exec_p2pkh exec_push h eval_loop.simps [of v "_\<lparr>e_pc := [], e_nOpCount := _, e_stack := _\<rparr>"])
  then show ?thesis using ln f(4) by (simp add: EvalScript_def s0_def [symmetric] sc_def [symmetric] del: SetDestination.simps)
qed

lemma eval_p2sh:
  assumes "length h = 20" "length r < 890"
  shows "EvalScript v (x # r) (snd (SetDestination (CScriptID h))) = Ret (bool_vch (Hash160 (v_crypto v) x = h) # r)"
proof -
  define sc where "sc = snd (SetDestination (CScriptID h))"
  have sc: "sc = 0xa9 # 20 # h @ [0x87]" using assms by (simp add: sc_def p2pkh_script del: SetDestination.simps)
  define s0 where "s0 = eval_init (x # r) sc"
  have f: "e_pc s0 = 0xa9 # 20 # h @ [0x87]" "e_stack s0 = x # r" "e_altstack s0 = []" "e_vfExec s0 = []"
    "e_nOpCount s0 = 0" by (simp_all add: s0_def eval_init_def sc)
  have g: "GetOp (0xa9 # q) = (Some (0xa9, []), q)" "GetOp (0x87 # q) = (Some (0x87, []), q)" for q
    by (simp_all add: GetOp_op)
  have ln: "length sc \<le> 10000" using assms by (simp add: sc)
  have h: "length h \<le> MAX_SCRIPT_ELEMENT_SIZE" using assms by (simp add: MAX_SCRIPT_ELEMENT_SIZE_def)
  have "eval_loop v s0 = Ret (s0\<lparr>e_pc := [], e_nOpCount := 2, e_stack := bool_vch (Hash160 (v_crypto v) x = h) # r\<rparr>)"
    using assms(2)
    by (simp add: eval_step f g push_small [OF assms(1)] exec_p2pkh exec_push h
        eval_loop.simps [of v "_\<lparr>e_pc := [], e_nOpCount := _, e_stack := _\<rparr>"])
  then show ?thesis using ln f(4) by (simp add: EvalScript_def s0_def [symmetric] sc_def [symmetric] del: SetDestination.simps)
qed

lemma IsPushOnly_PushAll: "list_all (\<lambda>b. length b < 2 ^ 32) xs \<Longrightarrow> IsPushOnly (PushAll xs)"
proof -
  have "push_opcode n \<le> OP_16" for n using push_opcode_le [of n] by (rule order.trans) simp
  then show "list_all (\<lambda>b. length b < 2 ^ 32) xs \<Longrightarrow> IsPushOnly (PushAll xs)"
    by (simp add: IsPushOnly_def ops_PushAll list_all_iff not_less)
qed

lemma length_push: "length (push_bytes [] b) \<le> length b + 5"
  by (simp add: push_bytes_def)

lemma SetDestination_P2SH:
  "length h = 20 \<Longrightarrow> IsPayToScriptHash (snd (SetDestination (CScriptID h)))"
  "length h = 20 \<Longrightarrow> \<not> IsPayToScriptHash (snd (SetDestination (CKeyID h)))"
  unfolding IsPayToScriptHash_def p2pkh_script by (simp_all add: nth_append)

text \<open>C15: Paying to a key hash: the input script that pushes a signature and a key spends the output
  exactly when the key hashes to the hash of the output and the signature is valid, and passes
  the encoding rules of the flags, for that key over the output's script without the signature.\<close>

theorem verify_p2pkh:
  assumes "length h = 20" "length sig \<le> MAX_SCRIPT_ELEMENT_SIZE" "length pk \<le> MAX_SCRIPT_ELEMENT_SIZE"
  shows "VerifyScript v (PushAll [sig, pk]) (snd (SetDestination (CKeyID h))) =
    Some (Hash160 (v_crypto v) pk = h \<and>
      sig_ok v (fst (FindAndDelete (snd (SetDestination (CKeyID h))) (push_bytes [] sig))) sig pk)"
proof -
  have "length (PushAll [sig, pk]) \<le> 10000" using length_push [of sig] length_push [of pk] assms(2,3)
    by (simp add: PushAll_Cons MAX_SCRIPT_ELEMENT_SIZE_def)
  then have "EvalScript v [] (PushAll [sig, pk]) = Ret [pk, sig]"
    using assms(2,3) by (subst EvalScript_PushAll) simp_all
  then show ?thesis using SetDestination_P2SH(2) [OF assms(1)]
    by (simp add: VerifyScript_def eval_p2pkh [OF assms(1)] del: SetDestination.simps)
qed

lemma toy_p2pkh:
  "sig_ok (eval_env.make toy_crypto tx_SetNull 0 0 0)
      (fst (FindAndDelete (snd (SetDestination (CKeyID (replicate 20 2)))) (push_bytes [] [1, 1]))) [1, 1] (replicate 33 2)"
  "Hash160 toy_crypto (replicate 33 2) = replicate 20 2"
  by code_simp+

theorem verify_p2pkh_witness:
  "VerifyScript (eval_env.make toy_crypto tx_SetNull 0 0 0) (PushAll [[1, 1], replicate 33 2])
      (snd (SetDestination (CKeyID (replicate 20 2)))) = Some True"
proof -
  let ?v = "eval_env.make toy_crypto tx_SetNull 0 0 0"
  have "v_crypto ?v = toy_crypto" by (simp add: eval_env.defs)
  then show ?thesis
    using verify_p2pkh [of "replicate 20 2" "[1, 1]" "replicate 33 2" ?v] toy_p2pkh
    by (simp add: MAX_SCRIPT_ELEMENT_SIZE_def del: SetDestination.simps)
qed

text \<open>C16: Paying to a script hash, with the flag on: the input script that pushes arguments and a
  script spends the output exactly when the script hashes to the hash of the output and, run on the
  arguments, is accepted with a true value on top.\<close>

theorem verify_p2sh:
  assumes "length h = 20" "v_flags v AND SCRIPT_VERIFY_P2SH \<noteq> 0"
    "list_all (\<lambda>x. length x \<le> MAX_SCRIPT_ELEMENT_SIZE) (args @ [redeem])" "length args < 890"
    "length (PushAll (args @ [redeem])) \<le> 10000"
  shows "VerifyScript v (PushAll (args @ [redeem])) (snd (SetDestination (CScriptID h))) =
    Some (Hash160 (v_crypto v) redeem = h \<and>
      (case EvalScript v (rev args) redeem of Ret st \<Rightarrow> st \<noteq> [] \<and> CastToBool (hd st) | _ \<Rightarrow> False))"
proof -
  have "EvalScript v [] (PushAll (args @ [redeem])) = Ret (redeem # rev args)"
    using assms(3-5) by (subst EvalScript_PushAll) simp_all
  moreover have "IsPushOnly (PushAll (args @ [redeem]))"
    using assms(3) by (intro IsPushOnly_PushAll) (auto simp: list_all_iff MAX_SCRIPT_ELEMENT_SIZE_def)
  moreover have "EvalScript v (redeem # rev args) (snd (SetDestination (CScriptID h))) =
      Ret (bool_vch (Hash160 (v_crypto v) redeem = h) # rev args)"
    using assms(1,4) by (intro eval_p2sh) simp_all
  ultimately show ?thesis using assms(2) SetDestination_P2SH(1) [OF assms(1)] EvalScript_Abort [of v "rev args" redeem]
    by (cases "EvalScript v (rev args) redeem") (simp_all add: VerifyScript_def del: SetDestination.simps)
qed


theorem verify_p2sh_witness:
  "VerifyScript (eval_env.make toy_crypto tx_SetNull 0 SCRIPT_VERIFY_P2SH 0) (PushAll [[5], [OP_1, OP_ADD]])
      (snd (SetDestination (CScriptID ([OP_1, OP_ADD] @ replicate 18 0)))) = Some True"
proof -
  let ?v = "eval_env.make toy_crypto tx_SetNull 0 SCRIPT_VERIFY_P2SH 0"
  have r: "Hash160 (v_crypto ?v) [OP_1, OP_ADD] = [OP_1, OP_ADD] @ replicate 18 0"
    "EvalScript ?v [[5]] [OP_1, OP_ADD] = Ret [[6]]" by code_simp+
  have "VerifyScript ?v (PushAll ([[5]] @ [[OP_1, OP_ADD]])) (snd (SetDestination (CScriptID ([OP_1, OP_ADD] @ replicate 18 0)))) =
    Some (Hash160 (v_crypto ?v) [OP_1, OP_ADD] = [OP_1, OP_ADD] @ replicate 18 0 \<and>
      (case EvalScript ?v (rev [[5]]) [OP_1, OP_ADD] of Ret st \<Rightarrow> st \<noteq> [] \<and> CastToBool (hd st) | _ \<Rightarrow> False))"
    by (rule verify_p2sh)
      (simp_all add: MAX_SCRIPT_ELEMENT_SIZE_def SCRIPT_VERIFY_P2SH_def eval_env.defs PushAll_Cons push_bytes_def)
  then show ?thesis using r by (simp del: SetDestination.simps)
qed

end
