(* ===== verification/Block.thy ===== *)
theory Block imports Main Prelude Merkle AuxPow Chain Difficulty Script begin

text \<open>
  The checks on a block: the validation state (\<open>src/src/main.h\<close>), the checkpoints
  (\<open>src/src/checkpoints.cpp\<close>), and \<open>CheckBlock\<close> and the checks of \<open>AcceptBlock\<close> of
  \<open>src/src/main.cpp\<close>. A failing check is a verdict: the call on the validation state that the code
  makes before it returns \<open>false\<close>. Clocks and the flags of the command line are arguments.
\<close>

section \<open>The validation state\<close>

definition REJECT_MALFORMED :: byte where "REJECT_MALFORMED = 0x01"
definition REJECT_INVALID :: byte where "REJECT_INVALID = 0x10"
definition REJECT_OBSOLETE :: byte where "REJECT_OBSOLETE = 0x11"
definition REJECT_DUPLICATE :: byte where "REJECT_DUPLICATE = 0x12"
definition REJECT_NONSTANDARD :: byte where "REJECT_NONSTANDARD = 0x40"
definition REJECT_INSUFFICIENTFEE :: byte where "REJECT_INSUFFICIENTFEE = 0x42"
definition REJECT_CHECKPOINT :: byte where "REJECT_CHECKPOINT = 0x43"

datatype mode_state = MODE_VALID | MODE_INVALID | MODE_ERROR

record CValidationState =
  vs_mode :: mode_state
  vs_nDoS :: nat
  vs_strRejectReason :: string
  vs_chRejectCode :: byte
  vs_corruptionPossible :: bool

definition state_new :: CValidationState where
  "state_new = \<lparr> vs_mode = MODE_VALID, vs_nDoS = 0, vs_strRejectReason = [], vs_chRejectCode = 0, vs_corruptionPossible = False \<rparr>"

definition state_DoS :: "nat \<Rightarrow> byte \<Rightarrow> string \<Rightarrow> bool \<Rightarrow> CValidationState \<Rightarrow> CValidationState" where
  "state_DoS lvl code reason corruptionIn st =
     (let st = st\<lparr>vs_chRejectCode := code, vs_strRejectReason := reason, vs_corruptionPossible := corruptionIn\<rparr> in
      if vs_mode st = MODE_ERROR then st
      else st\<lparr>vs_nDoS := vs_nDoS st + lvl, vs_mode := MODE_INVALID\<rparr>)"

definition state_Invalid :: "byte \<Rightarrow> string \<Rightarrow> CValidationState \<Rightarrow> CValidationState" where
  "state_Invalid code reason = state_DoS 0 code reason False"

definition state_Error :: "string \<Rightarrow> CValidationState \<Rightarrow> CValidationState" where
  "state_Error reason st =
     (let st = (if vs_mode st = MODE_VALID then st\<lparr>vs_strRejectReason := reason\<rparr> else st) in st\<lparr>vs_mode := MODE_ERROR\<rparr>)"

definition state_IsInvalid :: "CValidationState \<Rightarrow> nat option" where
  "state_IsInvalid st = (if vs_mode st = MODE_INVALID then Some (vs_nDoS st) else None)"

text \<open>How a function stops: a rejection, a return of \<open>false\<close> without one (also after a run-time
  error of the node), an exception, or a failed assertion
  or access outside an object, which ends the process.\<close>

datatype verdict = DoS nat byte string bool | Failed | Threw | Aborted

abbreviation Invalid :: "byte \<Rightarrow> string \<Rightarrow> verdict" where "Invalid code reason \<equiv> DoS 0 code reason False"

definition apply_verdict :: "verdict \<Rightarrow> CValidationState \<Rightarrow> CValidationState" where
  "apply_verdict v st = (case v of DoS lvl code reason corruption \<Rightarrow> state_DoS lvl code reason corruption st | _ \<Rightarrow> st)"

section \<open>Checkpoints\<close>

record CCheckpointData =
  cp_mapCheckpoints :: "(int \<times> u256) list"
  cp_nTimeLastCheckpoint :: int
  cp_nTransactionsLastCheckpoint :: int

definition mainCheckpoints :: CCheckpointData where
  "mainCheckpoints = \<lparr> cp_mapCheckpoints =
     [(0, 0xc1fb746e87e89ae75bdec2ef0639a1f6786744639ce3d0ece1dcf979b79137cb),
      (4918, 0x79aa44255b446aedb3cd9d765c4c7fc51b9c4a82e7d8639bf97ba42a73e61aec),
      (11571, 0xec7fa58c5659476f5bafc1ff70d41188a73cdaa6deffb0fc42b7054815225f21),
      (17500, 0x812f6ba1879ef23d3210c831b2572b411ee272f16317a541461fddfda5d2ebbf),
      (27050, 0x2ef099e35b775661d748296da1a43cdd62b7bf34f1f347cb7e14855841064560),
      (33298, 0xce5bc23644c83868038f6b08a9e6db3120613404036d2da371524ad168ad2413),
      (38290, 0x984b6bd2c102bbeda7cef322f4b76109f6b42b64b2ae4beadc12d70614ffeeda),
      (42020, 0xc795bf104a235632bd768d82c8d5097358247d59aed3cc7dccb04df651a08fa9),
      (44750, 0xd33f726c5771bcae22580cdbf40cee2e2414c7196dacbffd34a09cb852f31ca3),
      (46190, 0x926dfff0792133f87c497327c1bfdc1245af8c4ea41f9795edab042b0676b52c),
      (46519, 0x5f0daab303063ec6bf2ee63bc666ac37f36647cbd2018280df845ab87169744a),
      (363838, 0x43ecdc8de768235547f834ffa670304aca28c46b83385adbe59477f2409f68c6),
      (446399, 0xf6d49ebc768025e300083d133d1bc1bf4e05b0878685c16237739d569cb9dcfe)],
     cp_nTimeLastCheckpoint = 1525291237, cp_nTransactionsLastCheckpoint = 1085558 \<rparr>"

definition testNetCheckpoints :: CCheckpointData where
  "testNetCheckpoints = \<lparr> cp_mapCheckpoints = [(0, 0x4095fd0ebc18fa070a75e12376a161d864de1589f5a92bd780e2479f8d0003d5)],
     cp_nTimeLastCheckpoint = 1526922055, cp_nTransactionsLastCheckpoint = 0 \<rparr>"

definition regTestCheckpoints :: CCheckpointData where
  "regTestCheckpoints = \<lparr> cp_mapCheckpoints = [(0, 0x168329a349fc93768bfb02e536bbe1e1847d77a65764564552122fa9268d8841)],
     cp_nTimeLastCheckpoint = 1405274400, cp_nTransactionsLastCheckpoint = 0 \<rparr>"

definition Checkpoints :: "CChainParams \<Rightarrow> CCheckpointData" where
  "Checkpoints pr =
     (if p_networkID pr = TESTNET then testNetCheckpoints
      else if p_networkID pr = MAIN then mainCheckpoints
      else regTestCheckpoints)"

definition checkpoint_ok :: "bool \<Rightarrow> CChainParams \<Rightarrow> int \<Rightarrow> u256 \<Rightarrow> bool" where
  "checkpoint_ok fEnabled pr nHeight hash =
     (if \<not> fEnabled then True
      else case map_of (cp_mapCheckpoints (Checkpoints pr)) nHeight of None \<Rightarrow> True | Some h \<Rightarrow> hash = h)"

definition GetTotalBlocksEstimate :: "bool \<Rightarrow> CChainParams \<Rightarrow> int" where
  "GetTotalBlocksEstimate fEnabled pr = (if \<not> fEnabled then 0 else fst (last (cp_mapCheckpoints (Checkpoints pr))))"

text \<open>From the last checkpoint to the first; \<open>[]\<close> is NULL.\<close>

fun last_checkpoint_loop :: "(u256 \<rightharpoonup> block_ptr) \<Rightarrow> (int \<times> u256) list \<Rightarrow> block_ptr" where
  "last_checkpoint_loop mapBlockIndex [] = []"
| "last_checkpoint_loop mapBlockIndex ((h, hash) # r) =
     (case mapBlockIndex hash of Some p \<Rightarrow> p | None \<Rightarrow> last_checkpoint_loop mapBlockIndex r)"

definition GetLastCheckpoint :: "bool \<Rightarrow> CChainParams \<Rightarrow> (u256 \<rightharpoonup> block_ptr) \<Rightarrow> block_ptr" where
  "GetLastCheckpoint fEnabled pr mapBlockIndex =
     (if \<not> fEnabled then [] else last_checkpoint_loop mapBlockIndex (rev (cp_mapCheckpoints (Checkpoints pr))))"

section \<open>Blocks without their context\<close>

definition MAX_BLOCK_SIGOPS :: nat where "MAX_BLOCK_SIGOPS = MAX_BLOCK_SIZE div 50"

definition GetLegacySigOpCount :: "CTransaction \<Rightarrow> nat" where
  "GetLegacySigOpCount tx =
     sum_list (map (\<lambda>txin. GetSigOpCount (i_scriptSig txin) False) (tx_vin tx))
     + sum_list (map (\<lambda>txout. GetSigOpCount (t_scriptPubKey txout) False) (tx_vout tx))"

text \<open>What the checks of the proof of work depend on: the hash functions and the Equihash check.\<close>

record pow_env =
  pe_bn2mpi :: "bignum \<Rightarrow> bytes"
  pe_hf :: hash_functions
  pe_ah :: aux_hashes
  pe_hs :: tx_hashes
  pe_equihash :: "CPureBlockHeader \<Rightarrow> bool"

text \<open>The globals behind the warning about the clock.\<close>

record future_flags =
  ff_fBlockTooFarInFuture :: bool
  ff_nSince :: nat

definition check_pow :: "pow_env \<Rightarrow> CChainParams \<Rightarrow> CBlock \<Rightarrow> bool \<Rightarrow> verdict + unit" where
  "check_pow e pr block fCheckPOW =
     (let h = bh_pure (bk_header block) in
      if fCheckPOW \<and> IsAuxpow h then
        (case CheckAuxPowProofOfWork (pe_bn2mpi e) (pe_hf e) (pe_ah e) (pe_hs e) (pe_equihash e) pr (bk_header block) of
           Inl _ \<Rightarrow> Inl (DoS 50 REJECT_INVALID ''high-hash'' False) | Inr _ \<Rightarrow> Inr ())
      else if fCheckPOW \<and> header_GetAlgo h = ALGO_EQUIHASH \<and> \<not> pe_equihash e h then
        Inl (DoS 50 REJECT_INVALID ''bad-equihash-solution'' False)
      else if fCheckPOW \<and> \<not> CheckProofOfWork (pe_bn2mpi e) pr (GetPoWHash (pe_hf e) h (header_GetAlgo h)) (h_nBits h) (header_GetAlgo h)
      then Inl (DoS 50 REJECT_INVALID ''high-hash'' False)
      else Inr ())"

definition check_time :: "int \<Rightarrow> int \<Rightarrow> CBlock \<Rightarrow> future_flags \<Rightarrow> (verdict + unit) \<times> future_flags" where
  "check_time nNow adjusted_time block ff =
     (let t = GetBlockTime (bh_pure (bk_header block)) in
      if t > nNow + 12 * 60 then
        (Inl (Invalid REJECT_INVALID ''time-too-new''),
         if t \<le> adjusted_time + 2 * 60 * 60 then ff\<lparr>ff_fBlockTooFarInFuture := True\<rparr> else ff)
      else
        let ff = ff\<lparr>ff_nSince := ff_nSince ff + 1\<rparr> in
        (Inr (), if ff_nSince ff > 720 then ff\<lparr>ff_fBlockTooFarInFuture := False, ff_nSince := 0\<rparr> else ff))"

fun check_txs :: "CTransaction list \<Rightarrow> verdict + unit" where
  "check_txs [] = Inr ()"
| "check_txs (tx # vtx) =
     (case CheckTransaction tx of Inl (lvl, reason) \<Rightarrow> Inl (DoS lvl REJECT_INVALID reason False) | Inr _ \<Rightarrow> check_txs vtx)"

text \<open>The block comes back with its Merkle tree.\<close>

definition CheckBlock ::
  "pow_env \<Rightarrow> CChainParams \<Rightarrow> int \<Rightarrow> int \<Rightarrow> CBlock \<Rightarrow> bool \<Rightarrow> bool \<Rightarrow> future_flags \<Rightarrow> (verdict + CBlock) \<times> future_flags" where
  "CheckBlock e pr nNow adjusted_time block fCheckPOW fCheckMerkleRoot ff =
     (case ser_block block of None \<Rightarrow> (Inl Aborted, ff) | Some bs \<Rightarrow>
      let vtx = bk_vtx block in
      if vtx = [] \<or> length vtx > MAX_BLOCK_SIZE \<or> length bs > MAX_BLOCK_SIZE
      then (Inl (DoS 100 REJECT_INVALID ''bad-blk-length'' False), ff)
      else case check_pow e pr block fCheckPOW of Inl v \<Rightarrow> (Inl v, ff) | Inr _ \<Rightarrow>
      case check_time nNow adjusted_time block ff of (Inl v, ff) \<Rightarrow> (Inl v, ff) | (Inr _, ff) \<Rightarrow>
      (if vtx = [] \<or> \<not> IsCoinBase (hd vtx) then Inl (DoS 100 REJECT_INVALID ''bad-cb-missing'' False)
       else if list_ex IsCoinBase (tl vtx) then Inl (DoS 100 REJECT_INVALID ''bad-cb-multiple'' False)
       else case check_txs vtx of Inl v \<Rightarrow> Inl v | Inr _ \<Rightarrow>
       let txids = map (tx_GetHash (pe_hs e)) vtx;
           tree = fst (BuildMerkleTree (th_Hash (pe_hs e)) txids);
           uniqueTx = set (take (length vtx) tree)
       in
       if card uniqueTx \<noteq> length vtx then Inl (DoS 100 REJECT_INVALID ''bad-txns-duplicate'' True)
       else if sum_list (map GetLegacySigOpCount vtx) > MAX_BLOCK_SIGOPS
       then Inl (DoS 100 REJECT_INVALID ''bad-blk-sigops'' True)
       else if fCheckMerkleRoot \<and> h_hashMerkleRoot (bh_pure (bk_header block)) \<noteq> last tree
       then Inl (DoS 100 REJECT_INVALID ''bad-txnmrklroot'' True)
       else Inr (block\<lparr>bk_vMerkleTree := tree\<rparr>), ff))"

section \<open>Blocks in their context\<close>

definition accept_checks ::
  "CChainParams \<Rightarrow> bool \<Rightarrow> (u256 \<rightharpoonup> block_ptr) \<Rightarrow> u256 \<Rightarrow> u256 \<Rightarrow> int \<Rightarrow> int \<Rightarrow> CBlock \<Rightarrow> verdict + int" where
  "accept_checks pr fEnabled mapBlockIndex hashGenesis hash chain_height adjusted_time block =
     (let h = bh_pure (bk_header block) in
      if mapBlockIndex hash \<noteq> None then Inl (Invalid 0 ''duplicate'')
      else if hash = hashGenesis then Inr 0
      else case mapBlockIndex (h_hashPrevBlock h) of None \<Rightarrow> Inl (DoS 10 0 ''bad-prevblk'' False)
      | Some prev \<Rightarrow>
        let nHeight = height (hd prev) + 1 in
        case GetNextWorkRequired pr prev (GetAlgo (h_nVersion h)) of None \<Rightarrow> Inl Aborted
        | Some next_work_required \<Rightarrow>
          if h_nBits h \<noteq> next_work_required then Inl (DoS 100 REJECT_INVALID ''bad-diffbits'' False)
          else if GetBlockTime h \<le> GetMedianTimePast prev then Inl (Invalid REJECT_INVALID ''time-too-old'')
          else if \<not> list_all (\<lambda>tx. IsFinalTx chain_height adjusted_time tx nHeight (GetBlockTime h)) (bk_vtx block)
          then Inl (DoS 10 REJECT_INVALID ''bad-txns-nonfinal'' False)
          else if \<not> checkpoint_ok fEnabled pr nHeight hash then Inl (DoS 100 REJECT_CHECKPOINT ''checkpoint mismatch'' False)
          else if GetLastCheckpoint fEnabled pr mapBlockIndex \<noteq> []
               \<and> nHeight < height (hd (GetLastCheckpoint fEnabled pr mapBlockIndex))
          then Inl (DoS 100 0 [] False)
          else if sint (h_nVersion h) < 2 then Inl (Invalid REJECT_OBSOLETE ''bad-version'')
          else
            let expect = push_int64 [] nHeight; scriptSig = i_scriptSig (tx_vin (bk_vtx block ! 0) ! 0) in
            if length scriptSig < length expect \<or> take (length expect) scriptSig \<noteq> expect
            then Inl (DoS 100 REJECT_INVALID ''bad-cb-height'' False)
            else if sint (h_nVersion h) < 3 \<and> IsSuperMajority 3 prev 950 1000
            then Inl (Invalid REJECT_OBSOLETE ''bad-version'')
            else if (IsAuxpow h \<or> header_GetAlgo h \<noteq> ALGO_SCRYPT)
                 \<and> (height (hd prev) < nForkHeight - 1 \<or> \<not> IsSuperMajority 4 prev 75 100)
            then Inl (DoS 100 REJECT_INVALID ''bad-version-fork'' False)
            else Inr nHeight)"

section \<open>What the Merkle root commits to\<close>

text \<open>The pairs of hashes that are hashed together on one level, and on all levels.\<close>

fun level_pairs :: "u256 list \<Rightarrow> (u256 \<times> u256) list" where
  "level_pairs [] = []"
| "level_pairs [a] = [(a, a)]"
| "level_pairs (a # b # r) = (a, b) # level_pairs r"

function node_pairs :: "(u256 \<Rightarrow> u256 \<Rightarrow> u256) \<Rightarrow> u256 list \<Rightarrow> (u256 \<times> u256) list" where
  "node_pairs h xs = (if length xs > 1 then level_pairs xs @ node_pairs h (pair_up h xs) else [])"
  by auto
termination by (relation "measure (\<lambda>(h, xs). length xs)") auto

function depth :: "nat \<Rightarrow> nat" where
  "depth n = (if n > 1 then Suc (depth ((n + 1) div 2)) else 0)"
  by auto
termination by (relation "measure id") auto

declare node_pairs.simps [simp del] depth.simps [simp del]

lemma pair_up_pairs: "pair_up h xs = map (case_prod h) (level_pairs xs)"
  by (induction xs rule: level_pairs.induct) auto

lemma fst_level_pairs: "(a, b) \<in> set (level_pairs xs) \<Longrightarrow> a \<in> set xs"
  by (induction xs rule: level_pairs.induct) auto

lemma distinct_level_pairs: "distinct xs \<Longrightarrow> distinct (level_pairs xs)"
  by (induction xs rule: level_pairs.induct) (auto dest: fst_level_pairs)

lemma level_pairs_inj: "distinct xs \<Longrightarrow> distinct ys \<Longrightarrow> level_pairs xs = level_pairs ys \<Longrightarrow> xs = ys"
proof (induction xs arbitrary: ys rule: level_pairs.induct)
  case 1
  then show ?case by (cases ys rule: level_pairs.cases) auto
next
  case (2 a)
  then show ?case by (cases ys rule: level_pairs.cases) auto
next
  case (3 a b r)
  then show ?case by (cases ys rule: level_pairs.cases) auto
qed

lemma merkle_root_inj:
  assumes "distinct xs" "distinct ys" "xs \<noteq> []" "ys \<noteq> []" "depth (length xs) = depth (length ys)"
    "inj_on (case_prod h) (set (node_pairs h xs) \<union> set (node_pairs h ys))" "merkle_root h xs = merkle_root h ys"
  shows "xs = ys"
  using assms
proof (induction h xs arbitrary: ys rule: merkle_root.induct)
  case (1 h xs)
  show ?case
  proof (cases "length xs > 1")
    case True
    then have ly: "length ys > 1" using "1.prems"(5) by (simp add: depth.simps [of "length xs"] depth.simps [of "length ys"] split: if_splits)
    have np: "node_pairs h xs = level_pairs xs @ node_pairs h (pair_up h xs)"
      "node_pairs h ys = level_pairs ys @ node_pairs h (pair_up h ys)"
      using True ly by (simp_all add: node_pairs.simps [of h xs] node_pairs.simps [of h ys])
    have inj: "inj_on (case_prod h) (set (level_pairs xs) \<union> set (level_pairs ys))"
      "inj_on (case_prod h) (set (node_pairs h (pair_up h xs)) \<union> set (node_pairs h (pair_up h ys)))"
      using "1.prems"(6) unfolding np by (auto intro: inj_on_subset)
    have d: "distinct (pair_up h xs)" "distinct (pair_up h ys)"
      using distinct_level_pairs [OF "1.prems"(1)] distinct_level_pairs [OF "1.prems"(2)] inj(1)
      by (auto simp: pair_up_pairs distinct_map intro: inj_on_subset)
    have "pair_up h xs = pair_up h ys"
      using "1.prems" True ly inj(2) d
      by (intro "1.IH") (auto simp: depth.simps [of "length xs"] depth.simps [of "length ys"]
          merkle_root.simps [of h xs] merkle_root.simps [of h ys])
    then have "level_pairs xs = level_pairs ys"
      unfolding pair_up_pairs using inj(1) by (simp add: inj_on_map_eq_map)
    then show ?thesis using level_pairs_inj "1.prems"(1,2) by blast
  next
    case False
    then have "length ys \<le> 1" using "1.prems"(5) by (simp add: depth.simps [of "length xs"] depth.simps [of "length ys"] split: if_splits)
    then obtain a b where "xs = [a]" "ys = [b]"
      using False "1.prems"(3,4) by (cases xs; cases ys) auto
    then show ?thesis using "1.prems"(7) by (simp add: merkle_root.simps)
  qed
qed

text \<open>Repeating the last hashes does not change the root; only the check for duplicates tells the
  two lists apart.\<close>

lemma merkle_root_duplicate: "merkle_root h [a, b, c] = merkle_root h [a, b, c, c]"
  by (simp add: merkle_root.simps)

lemma length_tree: "length (fst (BuildMerkleTree H txids)) \<ge> length txids \<and> take (length txids) (fst (BuildMerkleTree H txids)) = txids"
  unfolding tree_flat by (induction "hash2 H" txids rule: flat_levels.induct) (simp add: flat_levels.simps)

lemma CheckBlock_accepted:
  assumes "fst (CheckBlock e pr nNow adj block fPow True ff) = Inr block'"
  shows "distinct (map (tx_GetHash (pe_hs e)) (bk_vtx block))" "bk_vtx block \<noteq> []"
    "h_hashMerkleRoot (bh_pure (bk_header block)) =
      merkle_root (hash2 (th_Hash (pe_hs e))) (map (tx_GetHash (pe_hs e)) (bk_vtx block))"
    "block' = block\<lparr>bk_vMerkleTree := fst (BuildMerkleTree (th_Hash (pe_hs e)) (map (tx_GetHash (pe_hs e)) (bk_vtx block)))\<rparr>"
    "IsCoinBase (hd (bk_vtx block))" "\<not> list_ex IsCoinBase (tl (bk_vtx block))" "check_txs (bk_vtx block) = Inr ()"
proof -
  define txids where "txids = map (tx_GetHash (pe_hs e)) (bk_vtx block)"
  define tree where "tree = fst (BuildMerkleTree (th_Hash (pe_hs e)) txids)"
  have t: "take (length (bk_vtx block)) tree = txids"
    using length_tree [of txids "th_Hash (pe_hs e)"] by (simp add: tree_def txids_def)
  have a: "bk_vtx block \<noteq> []" "card (set txids) = length (bk_vtx block)" "h_hashMerkleRoot (bh_pure (bk_header block)) = last tree"
    "block' = block\<lparr>bk_vMerkleTree := tree\<rparr>" "IsCoinBase (hd (bk_vtx block))" "\<not> list_ex IsCoinBase (tl (bk_vtx block))"
    "check_txs (bk_vtx block) = Inr ()"
    using assms unfolding CheckBlock_def Let_def txids_def [symmetric] tree_def [symmetric] t
    by (auto split: option.splits if_split_asm sum.splits prod.splits)
  have "last tree = merkle_root (hash2 (th_Hash (pe_hs e))) txids"
    unfolding tree_def tree_flat using flat_levels_last a(1) by (simp add: txids_def)
  then show "h_hashMerkleRoot (bh_pure (bk_header block)) =
      merkle_root (hash2 (th_Hash (pe_hs e))) (map (tx_GetHash (pe_hs e)) (bk_vtx block))"
    using a(3) by (simp add: txids_def)
  show "distinct (map (tx_GetHash (pe_hs e)) (bk_vtx block))"
    using a(2) card_distinct [of txids] by (simp add: txids_def)
  show "block' = block\<lparr>bk_vMerkleTree := fst (BuildMerkleTree (th_Hash (pe_hs e)) (map (tx_GetHash (pe_hs e)) (bk_vtx block)))\<rparr>"
    using a(4) by (simp add: tree_def txids_def)
qed (use assms in \<open>auto simp: CheckBlock_def Let_def split: option.splits if_split_asm sum.splits prod.splits\<close>)

text \<open>C11: The Merkle root of an accepted block commits to its transactions, despite the doubling of
  the last node of odd levels: two blocks that \<open>CheckBlock\<close> accepts with the same root and with
  trees of the same depth have the same transaction hashes in the same order, unless two
  different pairs of nodes of their trees collide.\<close>

theorem CheckBlock_commits:
  assumes "fst (CheckBlock e pr nNow adj block1 fPow True ff1) = Inr block1'"
    "fst (CheckBlock e pr nNow2 adj2 block2 fPow2 True ff2) = Inr block2'"
    "h_hashMerkleRoot (bh_pure (bk_header block1)) = h_hashMerkleRoot (bh_pure (bk_header block2))"
    "depth (length (bk_vtx block1)) = depth (length (bk_vtx block2))"
    "inj_on (case_prod (hash2 (th_Hash (pe_hs e))))
      (set (node_pairs (hash2 (th_Hash (pe_hs e))) (map (tx_GetHash (pe_hs e)) (bk_vtx block1)))
       \<union> set (node_pairs (hash2 (th_Hash (pe_hs e))) (map (tx_GetHash (pe_hs e)) (bk_vtx block2))))"
  shows "map (tx_GetHash (pe_hs e)) (bk_vtx block1) = map (tx_GetHash (pe_hs e)) (bk_vtx block2)
    \<and> bk_vMerkleTree block1' = bk_vMerkleTree block2'"
proof -
  note a = CheckBlock_accepted [OF assms(1)] and b = CheckBlock_accepted [OF assms(2)]
  have "map (tx_GetHash (pe_hs e)) (bk_vtx block1) = map (tx_GetHash (pe_hs e)) (bk_vtx block2)"
    using a(1,2,3) b(1,2,3) assms(3,4) by (intro merkle_root_inj [OF _ _ _ _ _ assms(5)]) simp_all
  then show ?thesis unfolding a(4) b(4) by simp
qed

definition byte_sum :: "bytes \<Rightarrow> u256" where
  "byte_sum bs = word_of_int (sum_list (map uint bs))"

definition block_env :: pow_env where
  "block_env = \<lparr> pe_bn2mpi = (\<lambda>_. []),
     pe_hf = \<lparr> hf_Hash = byte_sum, hf_scrypt = (\<lambda>_. 0), hf_argon2 = byte_sum, hf_x17 = byte_sum, hf_lyra2rev2 = byte_sum,
       hf_cryptonight = byte_sum, hf_yescrypt = byte_sum \<rparr>,
     pe_ah = \<lparr> ah_Hash = byte_sum, ah_Keccak = byte_sum \<rparr>, pe_hs = \<lparr> th_Hash = byte_sum, th_KeccakCBTX = byte_sum \<rparr>,
     pe_equihash = (\<lambda>_. False) \<rparr>"

definition block_coinbase :: "bytes \<Rightarrow> CTransaction" where
  "block_coinbase script = tx_SetNull\<lparr>
     tx_vin := [\<lparr> i_prevout = outpoint_SetNull, i_scriptSig = script, i_nSequence = - 1 \<rparr>],
     tx_vout := [\<lparr> t_nValue = 5, t_scriptPubKey = [OP_1] \<rparr>] \<rparr>"

definition block_spend :: "u256 \<Rightarrow> CTransaction" where
  "block_spend h = tx_SetNull\<lparr>
     tx_vin := [\<lparr> i_prevout = \<lparr> o_hash = h, o_n = 0 \<rparr>, i_scriptSig = [], i_nSequence = - 1 \<rparr>],
     tx_vout := [\<lparr> t_nValue = 4, t_scriptPubKey = [OP_1] \<rparr>] \<rparr>"

definition block_vtx :: "CTransaction list" where
  "block_vtx = [block_coinbase [1, 2], block_spend 10, block_spend 11]"

definition sample_block :: "u32 \<Rightarrow> CBlock" where
  "sample_block t = block_SetNull\<lparr>
     bk_header := blockheader_SetNull\<lparr>bh_pure := header_SetNull
       \<lparr>h_nTime := t, h_nBits := 0x1e0fffff,
        h_hashMerkleRoot := 394\<rparr>\<rparr>,
     bk_vtx := block_vtx \<rparr>"

definition sample_flags :: future_flags where
  "sample_flags = \<lparr> ff_fBlockTooFarInFuture = False, ff_nSince = 0 \<rparr>"

lemma sample_ids: "map (tx_GetHash (pe_hs block_env)) block_vtx = [2135, 1119, 1120]"
  by code_simp

lemma sample_tree: "BuildMerkleTree byte_sum [2135, 1119, 1120] = ([2135, 1119, 1120, 194, 200, 394], 394)"
  by code_simp

lemma sample_pairs: "node_pairs (hash2 byte_sum) [2135, 1119, 1120] = [(2135, 1119), (1120, 1120), (194, 200)]"
  by code_simp

lemma sample_size: "map_option length (ser_block (sample_block 5)) = Some 266" "map_option length (ser_block (sample_block 6)) = Some 266"
  by code_simp+

lemma sample_pow: "check_pow block_env mainParams (sample_block 5) True = Inr ()" "check_pow block_env mainParams (sample_block 6) True = Inr ()"
  by code_simp+

lemma sample_time: "GetBlockTime (bh_pure (bk_header (sample_block t))) = uint t"
  by (simp add: sample_block_def GetBlockTime_def)

lemma sample_txs:
  "check_txs block_vtx = Inr ()" "IsCoinBase (hd block_vtx)" "\<not> list_ex IsCoinBase (tl block_vtx)"
  "sum_list (map GetLegacySigOpCount block_vtx) = 0" "length block_vtx = 3" "block_vtx \<noteq> []"
  by code_simp+

lemma sample_block_accepted:
  assumes "t \<in> {5, 6}"
  shows "fst (CheckBlock block_env mainParams 1000 1000 (sample_block t) True True sample_flags)
    = Inr ((sample_block t)\<lparr>bk_vMerkleTree := [2135, 1119, 1120, 194, 200, 394]\<rparr>)"
proof -
  obtain bs where size: "ser_block (sample_block t) = Some bs" "length bs = 266"
    using assms sample_size by auto
  have pow: "check_pow block_env mainParams (sample_block t) True = Inr ()"
    using assms sample_pow by auto
  have time: "\<exists>ff. check_time 1000 1000 (sample_block t) sample_flags = (Inr (), ff)"
    using assms by (auto simp: check_time_def sample_time Let_def)
  have vtx: "bk_vtx (sample_block t) = block_vtx" "h_hashMerkleRoot (bh_pure (bk_header (sample_block t))) = 394"
    by (simp_all add: sample_block_def)
  have env: "th_Hash (pe_hs block_env) = byte_sum" by (simp add: block_env_def)
  show ?thesis
    using time by (auto simp: CheckBlock_def Let_def vtx size pow sample_txs env sample_ids sample_tree MAX_BLOCK_SIZE_def MAX_BLOCK_SIGOPS_def)
qed

theorem CheckBlock_commits_witness:
  "map (tx_GetHash (pe_hs block_env)) (bk_vtx (sample_block 5)) = map (tx_GetHash (pe_hs block_env)) (bk_vtx (sample_block 6))
   \<and> bk_vMerkleTree ((sample_block 5)\<lparr>bk_vMerkleTree := [2135, 1119, 1120, 194, 200, 394]\<rparr>)
     = bk_vMerkleTree ((sample_block 6)\<lparr>bk_vMerkleTree := [2135, 1119, 1120, 194, 200, 394]\<rparr>)"
proof (rule CheckBlock_commits [OF sample_block_accepted sample_block_accepted])
  have env: "th_Hash (pe_hs block_env) = byte_sum" by (simp add: block_env_def)
  show "inj_on (case_prod (hash2 (th_Hash (pe_hs block_env))))
      (set (node_pairs (hash2 (th_Hash (pe_hs block_env))) (map (tx_GetHash (pe_hs block_env)) (bk_vtx (sample_block 5))))
       \<union> set (node_pairs (hash2 (th_Hash (pe_hs block_env))) (map (tx_GetHash (pe_hs block_env)) (bk_vtx (sample_block 6)))))"
  proof -
    have v: "bk_vtx (sample_block 5) = block_vtx" "bk_vtx (sample_block 6) = block_vtx" by (simp_all add: sample_block_def)
    have h: "hash2 byte_sum 2135 1119 = 194" "hash2 byte_sum 1120 1120 = 200" "hash2 byte_sum 194 200 = 394"
      by code_simp+
    show ?thesis unfolding env v sample_ids sample_pairs by (simp add: h)
  qed
qed (simp_all add: sample_block_def)

end
