(* ===== verification/Coins.thy ===== *)
theory Coins imports Main Prelude Serialize Tx Script begin

text \<open>
  The coin record of a transaction (\<open>CCoins\<close> of \<open>src/src/coins.h\<close> and \<open>src/src/coins.cpp\<close>): its
  unspent outputs with height, version and coinbase mark, spending of an output, and the compact
  form of the coin database with its bit mask of unspent outputs; the undo records of
  \<open>src/src/core.h\<close>. The integers \<open>nHeight\<close> and \<open>nVersion\<close> are signed 32-bit words.
\<close>

unbundle bit_operations_syntax

section \<open>Coins\<close>

record CCoins =
  co_fCoinBase :: bool
  co_vout :: "CTxOut list"
  co_nHeight :: u32
  co_nVersion :: u32

definition coins_empty :: CCoins where
  "coins_empty = \<lparr> co_fCoinBase = False, co_vout = [], co_nHeight = 0, co_nVersion = 0 \<rparr>"

definition strip_spent :: "CTxOut list \<Rightarrow> CTxOut list" where
  "strip_spent vout = rev (dropWhile txout_IsNull (rev vout))"

definition coins_Cleanup :: "CCoins \<Rightarrow> CCoins" where
  "coins_Cleanup c = c\<lparr>co_vout := strip_spent (co_vout c)\<rparr>"

definition ClearUnspendable :: "CCoins \<Rightarrow> CCoins" where
  "ClearUnspendable c = coins_Cleanup
     (c\<lparr>co_vout := map (\<lambda>txout. if IsUnspendable (t_scriptPubKey txout) then txout_SetNull else txout) (co_vout c)\<rparr>)"

definition coins_of_tx :: "CTransaction \<Rightarrow> u32 \<Rightarrow> CCoins" where
  "coins_of_tx tx nHeight = ClearUnspendable
     \<lparr> co_fCoinBase = IsCoinBase tx, co_vout = tx_vout tx, co_nHeight = nHeight, co_nVersion = tx_nVersion tx \<rparr>"

definition coins_IsPruned :: "CCoins \<Rightarrow> bool" where
  "coins_IsPruned c \<longleftrightarrow> list_all txout_IsNull (co_vout c)"

definition coins_eq :: "CCoins \<Rightarrow> CCoins \<Rightarrow> bool" where
  "coins_eq a b \<longleftrightarrow>
     (if coins_IsPruned a \<and> coins_IsPruned b then True
      else co_fCoinBase a = co_fCoinBase b \<and> co_nHeight a = co_nHeight b \<and> co_nVersion a = co_nVersion b
        \<and> co_vout a = co_vout b)"

definition IsAvailable :: "CCoins \<Rightarrow> u32 \<Rightarrow> bool" where
  "IsAvailable c nPos \<longleftrightarrow> unat nPos < length (co_vout c) \<and> \<not> txout_IsNull (co_vout c ! unat nPos)"

section \<open>Spending\<close>

record CTxInUndo =
  un_txout :: CTxOut
  un_fCoinBase :: bool
  un_nHeight :: u32
  un_nVersion :: u32

definition undo_new :: "CTxOut \<Rightarrow> CTxInUndo" where
  "undo_new txout = \<lparr> un_txout = txout, un_fCoinBase = False, un_nHeight = 0, un_nVersion = 0 \<rparr>"

definition coins_Spend :: "CCoins \<Rightarrow> COutPoint \<Rightarrow> (CTxInUndo \<times> CCoins) option" where
  "coins_Spend c out =
     (let n = unat (o_n out) in
      if n \<ge> length (co_vout c) then None
      else if txout_IsNull (co_vout c ! n) then None
      else
        let undo = undo_new (co_vout c ! n);
            c' = coins_Cleanup (c\<lparr>co_vout := (co_vout c)[n := txout_SetNull]\<rparr>)
        in Some
          (if co_vout c' = [] then undo\<lparr>un_nHeight := co_nHeight c, un_fCoinBase := co_fCoinBase c, un_nVersion := co_nVersion c\<rparr>
           else undo, c'))"

definition coins_SpendPos :: "CCoins \<Rightarrow> u32 \<Rightarrow> (CTxInUndo \<times> CCoins) option" where
  "coins_SpendPos c nPos = coins_Spend c \<lparr> o_hash = 0, o_n = nPos \<rparr>"

section \<open>The compact form\<close>

definition ser_txout_compressed :: "crypto \<Rightarrow> CTxOut \<Rightarrow> bytes" where
  "ser_txout_compressed c txout = WriteVarInt (CompressAmount (t_nValue txout)) @ ser_script c (t_scriptPubKey txout)"

definition unser_txout_compressed :: "crypto \<Rightarrow> CTxOut \<Rightarrow> CTxOut reader" where
  "unser_txout_compressed c txout0 =
     rd_bind ReadVarInt (\<lambda>nVal. rd_bind (unser_script c (t_scriptPubKey txout0)) (\<lambda>s.
       rd_return \<lparr> t_nValue = DecompressAmount nVal, t_scriptPubKey = s \<rparr>))"

text \<open>The mask has a bit for each output after the second one, eight to a byte. The loop keeps
  the number of bytes up to the last nonzero one and the number of nonzero bytes.\<close>

function mask_size_loop :: "nat \<Rightarrow> nat \<times> nat \<Rightarrow> CTxOut list \<Rightarrow> nat \<times> nat" where
  "mask_size_loop b acc vs =
     (if vs = [] then acc
      else
        let fZero = list_all txout_IsNull (take 8 vs) in
        mask_size_loop (b + 1) (if fZero then acc else (b + 1, snd acc + 1)) (drop 8 vs))"
  by auto
termination by (relation "measure (\<lambda>(b, acc, vs). length vs)") auto

definition CalcMaskSize :: "CCoins \<Rightarrow> nat \<times> nat" where
  "CalcMaskSize c = mask_size_loop 0 (0, 0) (drop 2 (co_vout c))"

fun avail_bits :: "nat \<Rightarrow> CTxOut list \<Rightarrow> byte" where
  "avail_bits i [] = 0"
| "avail_bits i (v # vs) = (if \<not> txout_IsNull v then push_bit i 1 else 0) OR avail_bits (Suc i) vs"

definition mask_byte :: "CTxOut list \<Rightarrow> nat \<Rightarrow> byte" where
  "mask_byte vout b = avail_bits 0 (take 8 (drop (2 + b * 8) vout))"

definition header_code :: "CCoins \<Rightarrow> u32 option" where
  "header_code c =
     (let nMaskCode = snd (CalcMaskSize c); vout = co_vout c;
          fFirst = (length vout > 0 \<and> \<not> txout_IsNull (vout ! 0));
          fSecond = (length vout > 1 \<and> \<not> txout_IsNull (vout ! 1))
      in if fFirst \<or> fSecond \<or> nMaskCode \<noteq> 0 then
           Some (8 * (of_nat nMaskCode - (if fFirst \<or> fSecond then 0 else 1)) + (if co_fCoinBase c then 1 else 0)
             + (if fFirst then 2 else 0) + (if fSecond then 4 else 0))
         else None)"

text \<open>\<open>None\<close> is the failed assertion on a record without unspent outputs.\<close>

definition ser_coins :: "crypto \<Rightarrow> CCoins \<Rightarrow> bytes option" where
  "ser_coins c co =
     (case header_code co of None \<Rightarrow> None | Some nCode \<Rightarrow>
      Some (WriteVarInt_int (co_nVersion co) @ WriteVarInt nCode
        @ map (mask_byte (co_vout co)) [0..<fst (CalcMaskSize co)]
        @ concat (map (\<lambda>v. if txout_IsNull v then [] else ser_txout_compressed c v) (co_vout co))
        @ WriteVarInt_int (co_nHeight co)))"

definition size_coins :: "crypto \<Rightarrow> CCoins \<Rightarrow> nat option" where
  "size_coins c co =
     (case header_code co of None \<Rightarrow> None | Some nCode \<Rightarrow>
      Some (length (WriteVarInt_int (co_nVersion co)) + GetSizeOfVarInt nCode + fst (CalcMaskSize co)
        + sum_list (map (\<lambda>v. if txout_IsNull v then 0
            else GetSizeOfVarInt (CompressAmount (t_nValue v)) + size_script c (t_scriptPubKey v)) (co_vout co))
        + length (WriteVarInt_int (co_nHeight co))))"

definition byte_bits :: "byte \<Rightarrow> bool list" where
  "byte_bits chAvail = map (\<lambda>p. chAvail AND push_bit p 1 \<noteq> 0) [0..<8]"

fun read_mask :: "nat \<Rightarrow> bool list reader" where
  "read_mask 0 s = Inr ([], s)"
| "read_mask (Suc nMaskCode) [] = Inl EndOfData"
| "read_mask (Suc nMaskCode) (chAvail # s) =
     (case read_mask (if chAvail \<noteq> 0 then nMaskCode else Suc nMaskCode) s of
        Inl e \<Rightarrow> Inl e
      | Inr (vAvail, s) \<Rightarrow> Inr (byte_bits chAvail @ vAvail, s))"

lemma read_mask_code [code]:
  "read_mask n s =
     (if n = 0 then Inr ([], s)
      else case s of [] \<Rightarrow> Inl EndOfData
      | chAvail # s \<Rightarrow>
        case read_mask (if chAvail \<noteq> 0 then n - 1 else n) s of
          Inl e \<Rightarrow> Inl e
        | Inr (vAvail, s) \<Rightarrow> Inr (byte_bits chAvail @ vAvail, s))"
  by (cases n; cases s) simp_all

fun read_outputs :: "crypto \<Rightarrow> bool list \<Rightarrow> CTxOut list reader" where
  "read_outputs c [] = rd_return []"
| "read_outputs c (f # vAvail) =
     (if f then rd_bind (unser_txout_compressed c txout_SetNull) (\<lambda>v. rd_bind (read_outputs c vAvail) (\<lambda>vs. rd_return (v # vs)))
      else rd_bind (read_outputs c vAvail) (\<lambda>vs. rd_return (txout_SetNull # vs)))"

definition unser_coins :: "crypto \<Rightarrow> CCoins reader" where
  "unser_coins c =
     rd_bind ReadVarInt (\<lambda>nVersion :: u32.
     rd_bind ReadVarInt (\<lambda>nCode :: u32.
     let nMaskCode = unat (nCode div 8 + (if nCode AND 6 \<noteq> 0 then 0 else 1)) in
     rd_bind (read_mask nMaskCode) (\<lambda>vAvail.
     rd_bind (read_outputs c ([nCode AND 2 \<noteq> 0, nCode AND 4 \<noteq> 0] @ vAvail)) (\<lambda>vout.
     rd_bind ReadVarInt (\<lambda>nHeight :: u32.
     rd_return (coins_Cleanup \<lparr> co_fCoinBase = (nCode AND 1 \<noteq> 0), co_vout = vout, co_nHeight = nHeight, co_nVersion = nVersion \<rparr>))))))"

section \<open>Undo records\<close>

definition undo_code :: "CTxInUndo \<Rightarrow> u32" where
  "undo_code u = un_nHeight u * 2 + (if un_fCoinBase u then 1 else 0)"

definition ser_undo :: "crypto \<Rightarrow> CTxInUndo \<Rightarrow> bytes" where
  "ser_undo c u = WriteVarInt (undo_code u)
     @ (if un_nHeight u > 0 then WriteVarInt_int (un_nVersion u) else []) @ ser_txout_compressed c (un_txout u)"

definition size_undo :: "crypto \<Rightarrow> CTxInUndo \<Rightarrow> nat" where
  "size_undo c u = GetSizeOfVarInt (undo_code u) + (if un_nHeight u > 0 then length (WriteVarInt_int (un_nVersion u)) else 0)
     + GetSizeOfVarInt (CompressAmount (t_nValue (un_txout u))) + size_script c (t_scriptPubKey (un_txout u))"

text \<open>Read into an existing record, whose version stays when it was not written.\<close>

definition unser_undo :: "crypto \<Rightarrow> CTxInUndo \<Rightarrow> CTxInUndo reader" where
  "unser_undo c u0 =
     rd_bind ReadVarInt (\<lambda>nCode :: u32.
     let nHeight = nCode div 2 in
     rd_bind (if nHeight > 0 then ReadVarInt else rd_return (un_nVersion u0)) (\<lambda>nVersion :: u32.
     rd_bind (unser_txout_compressed c (un_txout u0)) (\<lambda>txout.
     rd_return \<lparr> un_txout = txout, un_fCoinBase = (nCode AND 1 \<noteq> 0), un_nHeight = nHeight, un_nVersion = nVersion \<rparr>)))"

type_synonym CTxUndo = "CTxInUndo list"

definition sizeof_CTxInUndo :: nat where "sizeof_CTxInUndo = 48"

definition undo_empty :: CTxInUndo where "undo_empty = undo_new txout_SetNull"

definition ser_txundo :: "crypto \<Rightarrow> CTxUndo \<Rightarrow> bytes" where
  "ser_txundo c = ser_vec (ser_undo c)"

definition unser_txundo :: "crypto \<Rightarrow> CTxUndo reader" where
  "unser_txundo c = unser_vec sizeof_CTxInUndo (unser_undo c undo_empty)"

section \<open>The mask read back\<close>

function chunk_bytes :: "CTxOut list \<Rightarrow> bytes" where
  "chunk_bytes vs = (if vs = [] then [] else avail_bits 0 (take 8 vs) # chunk_bytes (drop 8 vs))"
  by auto
termination by (relation "measure length") auto

declare mask_size_loop.simps [simp del] chunk_bytes.simps [simp del]

lemma bit_avail_bits:
  "bit (avail_bits i us) k \<longleftrightarrow> k < 8 \<and> i \<le> k \<and> k - i < length us \<and> \<not> txout_IsNull (us ! (k - i))"
proof (induction us arbitrary: i)
  case (Cons v us)
  have "bit (avail_bits i (v # us)) k \<longleftrightarrow> (\<not> txout_IsNull v \<and> k = i \<and> k < 8) \<or> bit (avail_bits (Suc i) us) k"
    by (auto simp: bit_or_iff bit_exp_iff)
  also have "\<dots> \<longleftrightarrow> k < 8 \<and> i \<le> k \<and> k - i < length (v # us) \<and> \<not> txout_IsNull ((v # us) ! (k - i))"
    unfolding Cons by (cases "k = i") (auto simp: nth_Cons split: nat.splits simp flip: Suc_diff_Suc)
  finally show ?case .
qed simp

lemma avail_bits_0: "length us \<le> 8 \<Longrightarrow> avail_bits 0 us = 0 \<longleftrightarrow> list_all txout_IsNull us"
  by (force simp: bit_eq_iff bit_avail_bits list_all_length)

lemma byte_bits_avail:
  assumes "length us \<le> 8"
  shows "byte_bits (avail_bits 0 us) = map (\<lambda>v. \<not> txout_IsNull v) us @ replicate (8 - length us) False"
proof (rule nth_equalityI)
  fix p assume "p < length (byte_bits (avail_bits 0 us))"
  then have p: "p < 8" by (simp add: byte_bits_def)
  have "avail_bits 0 us AND push_bit p 1 \<noteq> 0 \<longleftrightarrow> bit (avail_bits 0 us) p"
    using p by (auto simp: bit_eq_iff [where 'a = byte] bit_and_iff bit_exp_iff)
  then show "byte_bits (avail_bits 0 us) ! p = (map (\<lambda>v. \<not> txout_IsNull v) us @ replicate (8 - length us) False) ! p"
    using p by (simp add: byte_bits_def bit_avail_bits nth_append)
qed (use assms in \<open>simp add: byte_bits_def\<close>)

lemma length_chunk_bytes: "length (chunk_bytes vs) = (length vs + 7) div 8"
proof (induction vs rule: chunk_bytes.induct)
  case (1 vs)
  show ?case
  proof (cases "vs = []")
    case False
    then have "(length vs - 8 + 7) div 8 + 1 = (length vs + 7) div 8"
      by (cases "length vs \<le> 8") (auto simp: div_nat_eqI Suc_le_eq le_div_geq)
    then show ?thesis using 1 [OF False] False by (simp add: chunk_bytes.simps [of vs])
  qed (simp add: chunk_bytes.simps)
qed

lemma nth_chunk_bytes: "b < length (chunk_bytes vs) \<Longrightarrow> chunk_bytes vs ! b = avail_bits 0 (take 8 (drop (b * 8) vs))"
proof (induction vs arbitrary: b rule: chunk_bytes.induct)
  case (1 vs)
  show ?case
  proof (cases "vs = []")
    case False
    then show ?thesis using 1 by (cases b) (simp_all add: chunk_bytes.simps [of vs] add.commute)
  qed (use 1 in \<open>simp add: chunk_bytes.simps\<close>)
qed

lemma mask_bytes_chunks: "map (mask_byte vout) [0..<length (chunk_bytes (drop 2 vout))] = chunk_bytes (drop 2 vout)"
  by (rule nth_equalityI) (simp_all add: mask_byte_def nth_chunk_bytes add.commute)

lemma mask_size_chunks:
  assumes "vs \<noteq> [] \<Longrightarrow> \<not> txout_IsNull (last vs)"
  shows "mask_size_loop b acc vs =
    (if vs = [] then fst acc else b + length (chunk_bytes vs), snd acc + length (filter (\<lambda>x. x \<noteq> 0) (chunk_bytes vs)))
    \<and> (vs \<noteq> [] \<longrightarrow> last (chunk_bytes vs) \<noteq> 0)"
  using assms
proof (induction vs arbitrary: b acc rule: chunk_bytes.induct)
  case (1 vs)
  show ?case
  proof (cases "vs = []")
    case False
    have n: "\<not> list_all txout_IsNull vs" using 1(2) False by (metis last_in_set list_all_iff)
    have z: "avail_bits 0 (take 8 vs) = 0 \<longleftrightarrow> list_all txout_IsNull (take 8 vs)" by (rule avail_bits_0) simp
    show ?thesis
    proof (cases "drop 8 vs = []")
      case True
      then have "take 8 vs = vs" by simp
      then show ?thesis using False True n z
        by (simp add: mask_size_loop.simps chunk_bytes.simps)
    next
      case d: False
      have l: "last (drop 8 vs) = last vs" using d by (simp add: last_drop)
      show ?thesis using 1(1) [OF False, of "b + 1" "if list_all txout_IsNull (take 8 vs) then acc else (b + 1, snd acc + 1)"]
          1(2) False d z by (simp add: mask_size_loop.simps [of b] chunk_bytes.simps [of vs] l) (auto simp: chunk_bytes.simps)
    qed
  qed (simp add: mask_size_loop.simps chunk_bytes.simps)
qed

lemma read_mask_bytes:
  "(bs \<noteq> [] \<Longrightarrow> last bs \<noteq> 0) \<Longrightarrow>
    read_mask (length (filter (\<lambda>x. x \<noteq> 0) bs)) (bs @ s) = Inr (concat (map byte_bits bs), s)"
proof (induction bs)
  case (Cons x bs)
  show ?case
  proof (cases "bs = []")
    case True
    then show ?thesis using Cons by simp
  next
    case False
    then have "last bs \<noteq> 0" using Cons(2) by simp
    then have "\<exists>k. length (filter (\<lambda>x. x \<noteq> 0) bs) = Suc k" using False
      by (metis (mono_tags, lifting) filter_empty_conv last_in_set length_0_conv not0_implies_Suc)
    then show ?thesis using Cons(1) \<open>last bs \<noteq> 0\<close> by (auto split: sum.splits)
  qed
qed simp

lemma concat_byte_bits:
  "\<exists>m. concat (map byte_bits (chunk_bytes vs)) = map (\<lambda>v. \<not> txout_IsNull v) vs @ replicate m False"
proof (induction vs rule: chunk_bytes.induct)
  case (1 vs)
  show ?case
  proof (cases "vs = []")
    case False
    obtain m where m: "concat (map byte_bits (chunk_bytes (drop 8 vs))) = map (\<lambda>v. \<not> txout_IsNull v) (drop 8 vs) @ replicate m False"
      using 1 False by blast
    have t: "byte_bits (avail_bits 0 (take 8 vs)) = map (\<lambda>v. \<not> txout_IsNull v) (take 8 vs) @ replicate (8 - length (take 8 vs)) False"
      by (rule byte_bits_avail) simp
    have v: "map (\<lambda>v. \<not> txout_IsNull v) (take 8 vs) @ map (\<lambda>v. \<not> txout_IsNull v) (drop 8 vs) = map (\<lambda>v. \<not> txout_IsNull v) vs"
      by (simp flip: map_append)
    show ?thesis
    proof (cases "8 \<le> length vs")
      case True
      then have "concat (map byte_bits (chunk_bytes vs)) = map (\<lambda>v. \<not> txout_IsNull v) vs @ replicate m False"
        using False t m v by (simp add: chunk_bytes.simps [of vs] flip: append_assoc)
      then show ?thesis by blast
    next
      case s: False
      then have "drop 8 vs = []" "take 8 vs = vs" by simp_all
      then have "concat (map byte_bits (chunk_bytes vs)) = map (\<lambda>v. \<not> txout_IsNull v) vs @ replicate (8 - length vs) False"
        using False t by (simp add: chunk_bytes.simps [of vs] chunk_bytes.simps [of "[]"])
      then show ?thesis by blast
    qed
  qed (auto simp: chunk_bytes.simps)
qed

section \<open>Coins and undo records read back\<close>

definition txout_fits :: "CTxOut \<Rightarrow> bool" where
  "txout_fits v \<longleftrightarrow> unat (t_nValue v) < 2 ^ 60 \<and> length (t_scriptPubKey v) + 6 < 2 ^ 32"

lemma txout_compressed_codec:
  assumes "key_compression c" shows "codec (ser_txout_compressed c) (unser_txout_compressed c v0) txout_fits"
proof
  fix v s assume "txout_fits v"
  then have "unser_script c s0 (ser_script c (t_scriptPubKey v) @ s) = Inr (t_scriptPubKey v, s)"
    "DecompressAmount (CompressAmount (t_nValue v)) = t_nValue v" for s0
    using script_compact [OF assms] amount_compact by (simp_all add: txout_fits_def)
  then show "unser_txout_compressed c v0 (ser_txout_compressed c v @ s) = Inr (v, s)"
    by (simp add: ser_txout_compressed_def unser_txout_compressed_def rd_bind_def varint64.unser_ser)
qed

definition coins_clean :: "CCoins \<Rightarrow> bool" where
  "coins_clean co \<longleftrightarrow> (co_vout co \<noteq> [] \<longrightarrow> \<not> txout_IsNull (last (co_vout co)))
     \<and> list_all (\<lambda>v. txout_IsNull v \<longrightarrow> v = txout_SetNull) (co_vout co)"

definition coins_fit :: "CCoins \<Rightarrow> bool" where
  "coins_fit co \<longleftrightarrow> coins_clean co \<and> co_vout co \<noteq> [] \<and> length (co_vout co) < 2 ^ 28 \<and> 0 \<le> sint (co_nHeight co)
     \<and> 0 \<le> sint (co_nVersion co) \<and> list_all (\<lambda>v. txout_IsNull v \<or> txout_fits v) (co_vout co)"

lemma read_outputs_ser:
  assumes "key_compression c" "list_all (\<lambda>v. txout_IsNull v \<longrightarrow> v = txout_SetNull) vs"
    "list_all (\<lambda>v. txout_IsNull v \<or> txout_fits v) vs"
  shows "read_outputs c (map (\<lambda>v. \<not> txout_IsNull v) vs @ replicate m False)
      (concat (map (\<lambda>v. if txout_IsNull v then [] else ser_txout_compressed c v) vs) @ s) = Inr (vs @ replicate m txout_SetNull, s)"
  using assms(2,3)
proof (induction vs)
  case Nil
  have "read_outputs c (replicate m False) s = Inr (replicate m txout_SetNull, s)"
    by (induction m) (simp_all add: rd_bind_def)
  then show ?case by simp
next
  case (Cons v vs)
  note tx = codec.unser_bind [OF txout_compressed_codec [OF assms(1)]]
  have o: "rd_bind (read_outputs c (map (\<lambda>v. \<not> txout_IsNull v) vs @ replicate m False)) f
      (concat (map (\<lambda>v. if txout_IsNull v then [] else ser_txout_compressed c v) vs) @ s) = f (vs @ replicate m txout_SetNull) s" for f
    using Cons by (simp add: rd_bind_def)
  show ?case using Cons by (auto simp: tx o)
qed

lemma strip_spent_replicate: "strip_spent (vs @ replicate m txout_SetNull) = strip_spent vs"
proof -
  have "dropWhile txout_IsNull (replicate m txout_SetNull @ r) = dropWhile txout_IsNull r" for r
    by (induction m) (simp_all add: txout_IsNull_def txout_SetNull_def)
  then show ?thesis by (simp add: strip_spent_def)
qed

lemma strip_spent_clean: "vs \<noteq> [] \<longrightarrow> \<not> txout_IsNull (last vs) \<Longrightarrow> strip_spent vs = vs"
  by (cases vs rule: rev_cases) (simp_all add: strip_spent_def)

lemma code_bits:
  assumes "8 * n + 7 < 2 ^ 32" "m < 8" "w = (of_nat (8 * n + m) :: u32)"
  shows "unat (w div 8) = n" "w AND 1 \<noteq> 0 \<longleftrightarrow> odd m" "w AND 2 \<noteq> 0 \<longleftrightarrow> odd (m div 2)" "w AND 4 \<noteq> 0 \<longleftrightarrow> odd (m div 4)"
    "w AND 6 \<noteq> 0 \<longleftrightarrow> odd (m div 2) \<or> odd (m div 4)"
proof -
  have u: "unat w = 8 * n + m" unfolding assms(3) unat_of_nat using assms(1,2) by simp
  then show "unat (w div 8) = n" using assms(2) by (simp add: unat_div)
  have b: "bit w k \<longleftrightarrow> bit m k" if "k < 3" for k
  proof -
    have "bit w k \<longleftrightarrow> bit (take_bit 3 (unat w)) k" using that by (simp add: bit_take_bit_iff bit_unsigned_iff)
    also have "take_bit 3 (unat w) = m" unfolding u using assms(2) by (simp add: take_bit_eq_mod)
    finally show ?thesis .
  qed
  have c: "w AND 1 \<noteq> 0 \<longleftrightarrow> bit w 0" "w AND 2 \<noteq> 0 \<longleftrightarrow> bit w 1" "w AND 4 \<noteq> 0 \<longleftrightarrow> bit w 2"
    "w AND 6 \<noteq> 0 \<longleftrightarrow> bit w 1 \<or> bit w 2"
  proof -
    have p: "w AND push_bit k 1 \<noteq> 0 \<longleftrightarrow> bit w k" if "k < 32" for k
      using that by (auto simp: bit_eq_iff [where 'a = u32] bit_and_iff bit_exp_iff)
    show "w AND 1 \<noteq> 0 \<longleftrightarrow> bit w 0" "w AND 2 \<noteq> 0 \<longleftrightarrow> bit w 1" "w AND 4 \<noteq> 0 \<longleftrightarrow> bit w 2"
      using p [of 0] p [of 1] p [of 2] by simp_all
    have "w AND 6 = w AND 2 OR w AND 4" by (simp flip: bit.conj_disj_distrib)
    then show "w AND 6 \<noteq> 0 \<longleftrightarrow> bit w 1 \<or> bit w 2"
      using p [of 1] p [of 2] by (simp add: or_eq_0_iff)
  qed
  show "w AND 1 \<noteq> 0 \<longleftrightarrow> odd m" "w AND 2 \<noteq> 0 \<longleftrightarrow> odd (m div 2)" "w AND 4 \<noteq> 0 \<longleftrightarrow> odd (m div 4)"
    "w AND 6 \<noteq> 0 \<longleftrightarrow> odd (m div 2) \<or> odd (m div 4)"
    unfolding c using b [of 0] b [of 1] b [of 2] by (simp_all add: bit_iff_odd)
qed

lemma header_code_bits:
  assumes "coins_fit co"
  obtains n m nCode where "header_code co = Some nCode" "nCode = of_nat (8 * n + m)" "m < 8" "8 * n + 7 < 2 ^ 32"
    "odd m \<longleftrightarrow> co_fCoinBase co" "odd (m div 2) \<longleftrightarrow> \<not> txout_IsNull (co_vout co ! 0)"
    "odd (m div 4) \<longleftrightarrow> length (co_vout co) > 1 \<and> \<not> txout_IsNull (co_vout co ! 1)"
    "n + (if odd (m div 2) \<or> odd (m div 4) then 0 else 1) = length (filter (\<lambda>x. x \<noteq> 0) (chunk_bytes (drop 2 (co_vout co))))"
proof -
  define vout where "vout = co_vout co"
  define k where "k = length (filter (\<lambda>x. x \<noteq> 0) (chunk_bytes (drop 2 vout)))"
  define fF fS where "fF \<longleftrightarrow> \<not> txout_IsNull (vout ! 0)" and "fS \<longleftrightarrow> length vout > 1 \<and> \<not> txout_IsNull (vout ! 1)"
  define m where "m = (if co_fCoinBase co then 1 else 0 :: nat) + (if fF then 2 else 0) + (if fS then 4 else 0)"
  define n where "n = k - (if fF \<or> fS then 0 else 1)"
  have v: "vout \<noteq> []" "\<not> txout_IsNull (last vout)" "length vout < 2 ^ 28"
    using assms by (auto simp: coins_fit_def coins_clean_def vout_def)
  have last: "drop 2 vout \<noteq> [] \<Longrightarrow> \<not> txout_IsNull (last (drop 2 vout))" using v(2) by (simp add: last_drop)
  note ms = mask_size_chunks [OF last, of 0 "(0, 0)"]
  have kk: "snd (CalcMaskSize co) = k" using ms unfolding CalcMaskSize_def vout_def [symmetric] k_def by simp
  have k1: "k \<noteq> 0" if "\<not> (fF \<or> fS)"
  proof -
    have "drop 2 vout \<noteq> []"
    proof
      assume "drop 2 vout = []"
      then have "length vout = 1 \<or> length vout = 2" using v(1) by (cases vout) (auto simp: le_Suc_eq)
      then show False using that v(2) unfolding fF_def fS_def by (auto simp: last_conv_nth [OF v(1)])
    qed
    then have "chunk_bytes (drop 2 vout) \<noteq> []" "last (chunk_bytes (drop 2 vout)) \<noteq> 0"
      using ms length_chunk_bytes [of "drop 2 vout"] by (auto simp: chunk_bytes.simps [of "drop 2 vout"])
    then show ?thesis unfolding k_def by (metis (mono_tags, lifting) filter_empty_conv last_in_set length_0_conv)
  qed
  then have nk: "n + (if fF \<or> fS then 0 else 1) = k" by (auto simp: n_def)
  have "k \<le> length (chunk_bytes (drop 2 vout))" by (simp add: k_def)
  then have kb: "k \<le> length vout" unfolding length_chunk_bytes by auto
  have m: "m < 8" "odd m \<longleftrightarrow> co_fCoinBase co" "odd (m div 2) \<longleftrightarrow> fF" "odd (m div 4) \<longleftrightarrow> fS" by (auto simp: m_def)
  have "header_code co = Some (8 * (of_nat k - (if fF \<or> fS then 0 else 1)) + (if co_fCoinBase co then 1 else 0)
      + (if fF then 2 else 0) + (if fS then 4 else 0))"
    using k1 v(1) by (auto simp: header_code_def Let_def kk fF_def fS_def vout_def [symmetric])
  also have "of_nat k - (if fF \<or> fS then 0 else 1) = (of_nat n :: u32)" by (simp flip: nk)
  finally have "header_code co = Some (of_nat (8 * n + m))" by (simp add: m_def)
  moreover have "8 * n + 7 < 2 ^ 32" using kb v(3) nk by simp
  ultimately show ?thesis using m nk
    by (intro that [of "of_nat (8 * n + m)" n m]) (simp_all add: fF_def fS_def k_def vout_def)
qed

lemma first_two:
  assumes "vs \<noteq> []"
  obtains m where "[\<not> txout_IsNull (vs ! 0), length vs > 1 \<and> \<not> txout_IsNull (vs ! 1)] @ map (\<lambda>v. \<not> txout_IsNull v) (drop 2 vs)
    = map (\<lambda>v. \<not> txout_IsNull v) vs @ replicate m False"
proof (cases "tl vs")
  case Nil
  then show ?thesis using assms that [of 1] by (cases vs) simp_all
next
  case (Cons b r)
  then show ?thesis using assms that [of 0] by (cases vs) (simp_all add: numeral_2_eq_2)
qed

lemma length_ser_script: "length (ser_script c s) = size_script c s"
  by (simp add: ser_script_def size_script_def length_WriteVarInt split: option.split)

lemma coins_codec:
  assumes "key_compression c" "coins_fit co"
  shows "\<exists>bs. ser_coins c co = Some bs \<and> unser_coins c (bs @ s) = Inr (co, s) \<and> size_coins c co = Some (length bs)"
proof -
  define vout where "vout = co_vout co"
  obtain n m nCode where h: "header_code co = Some nCode" "nCode = of_nat (8 * n + m)" "m < 8" "8 * n + 7 < 2 ^ 32"
    "odd m \<longleftrightarrow> co_fCoinBase co" "odd (m div 2) \<longleftrightarrow> \<not> txout_IsNull (vout ! 0)"
    "odd (m div 4) \<longleftrightarrow> length vout > 1 \<and> \<not> txout_IsNull (vout ! 1)"
    "n + (if odd (m div 2) \<or> odd (m div 4) then 0 else 1) = length (filter (\<lambda>x. x \<noteq> 0) (chunk_bytes (drop 2 vout)))"
    using header_code_bits [OF assms(2)] unfolding vout_def by metis
  note b = code_bits [OF h(4,3,2)]
  have v: "vout \<noteq> []" "\<not> txout_IsNull (last vout)" "list_all (\<lambda>v. txout_IsNull v \<longrightarrow> v = txout_SetNull) vout"
    "list_all (\<lambda>v. txout_IsNull v \<or> txout_fits v) vout" "0 \<le> sint (co_nHeight co)" "0 \<le> sint (co_nVersion co)"
    using assms(2) by (auto simp: coins_fit_def coins_clean_def vout_def)
  have last: "drop 2 vout \<noteq> [] \<Longrightarrow> \<not> txout_IsNull (last (drop 2 vout))" using v(2) by (simp add: last_drop)
  note ms = mask_size_chunks [OF last, of 0 "(0, 0)"]
  define bs where "bs = chunk_bytes (drop 2 vout)"
  have fst: "fst (CalcMaskSize co) = length bs" using ms
    unfolding CalcMaskSize_def vout_def [symmetric] bs_def by (simp add: chunk_bytes.simps [of "[]"])
  have last0: "bs \<noteq> [] \<Longrightarrow> last bs \<noteq> 0" using ms by (auto simp: bs_def chunk_bytes.simps [of "[]"])
  have "unat (nCode div 8 + (if nCode AND 6 \<noteq> 0 then 0 else 1)) = length (filter (\<lambda>x. x \<noteq> 0) bs)"
  proof -
    have "unat (nCode div 8) + 1 < 2 ^ 32" using b(1) h(4) by simp
    then have "unat (nCode div 8 + 1) = n + 1" using b(1) by (subst unat_add_lem [THEN iffD1]) simp_all
    then show ?thesis using b(1,5) h(8) by (auto simp: bs_def)
  qed
  then have mask: "read_mask (unat (nCode div 8 + (if nCode AND 6 \<noteq> 0 then 0 else 1))) (bs @ t) = Inr (concat (map byte_bits bs), t)" for t
    using read_mask_bytes [OF last0, of t] by simp
  obtain p q where "concat (map byte_bits bs) = map (\<lambda>v. \<not> txout_IsNull v) (drop 2 vout) @ replicate p False"
    "[\<not> txout_IsNull (vout ! 0), length vout > 1 \<and> \<not> txout_IsNull (vout ! 1)] @ map (\<lambda>v. \<not> txout_IsNull v) (drop 2 vout)
      = map (\<lambda>v. \<not> txout_IsNull v) vout @ replicate q False"
    using concat_byte_bits [of "drop 2 vout"] first_two [OF v(1)] unfolding bs_def by metis
  then have avail: "[nCode AND 2 \<noteq> 0, nCode AND 4 \<noteq> 0] @ concat (map byte_bits bs)
      = map (\<lambda>v. \<not> txout_IsNull v) vout @ replicate (q + p) False"
    unfolding b h(6,7) by (simp add: replicate_add)
  note outs = read_outputs_ser [OF assms(1) v(3,4), of "q + p", folded avail]
  define out where "out = concat (map (\<lambda>v. if txout_IsNull v then [] else ser_txout_compressed c v) vout)"
  have s: "ser_coins c co = Some (WriteVarInt_int (co_nVersion co) @ WriteVarInt nCode @ bs @ out @ WriteVarInt_int (co_nHeight co))"
    unfolding ser_coins_def h(1) fst vout_def [symmetric] bs_def mask_bytes_chunks out_def by simp
  have u: "unser_coins c ((WriteVarInt_int (co_nVersion co) @ WriteVarInt nCode @ bs @ out @ WriteVarInt_int (co_nHeight co)) @ s)
      = Inr (co, s)"
  proof -
    have cl: "coins_Cleanup \<lparr> co_fCoinBase = (nCode AND 1 \<noteq> 0), co_vout = vout @ replicate (q + p) txout_SetNull,
        co_nHeight = co_nHeight co, co_nVersion = co_nVersion co \<rparr> = co"
      using v(2) b(2) h(5) by (simp add: coins_Cleanup_def strip_spent_replicate strip_spent_clean vout_def)
    have rb: "rd_bind (read_mask (unat (nCode div 8 + (if nCode AND 6 \<noteq> 0 then 0 else 1)))) f (bs @ t) = f (concat (map byte_bits bs)) t"
      "rd_bind (read_outputs c ([nCode AND 2 \<noteq> 0, nCode AND 4 \<noteq> 0] @ concat (map byte_bits bs))) g (out @ t)
        = g (vout @ replicate (q + p) txout_SetNull) t" for f g t
      unfolding rd_bind_def mask out_def outs by simp_all
    show ?thesis unfolding unser_coins_def Let_def
      using cl v(5,6) by (simp only: append_assoc varint_int.unser_bind varint32.unser_bind rb simp_thms) simp
  qed
  have "length (concat (map (\<lambda>v. if txout_IsNull v then [] else ser_txout_compressed c v) xs)) =
      sum_list (map (\<lambda>v. if txout_IsNull v then 0
        else GetSizeOfVarInt (CompressAmount (t_nValue v)) + size_script c (t_scriptPubKey v)) xs)" for xs
    by (induction xs) (simp_all add: ser_txout_compressed_def length_WriteVarInt length_ser_script)
  then show ?thesis unfolding s size_coins_def h(1) fst vout_def [symmetric] out_def using u [unfolded out_def]
    by (simp add: length_WriteVarInt)
qed

interpretation coins: codec "\<lambda>co. the (ser_coins c co)" "unser_coins c" "\<lambda>co. key_compression c \<and> coins_fit co" for c
  by unfold_locales (use coins_codec in fastforce)

definition undo_fits :: "CTxInUndo \<Rightarrow> bool" where
  "undo_fits u \<longleftrightarrow> txout_fits (un_txout u) \<and> unat (un_nHeight u) < 2 ^ 31 \<and>
     (if un_nHeight u = 0 then un_nVersion u = 0 else 0 \<le> sint (un_nVersion u))"

lemma undo_code_fields:
  assumes "unat (un_nHeight u) < 2 ^ 31"
  shows "undo_code u div 2 = un_nHeight u" "undo_code u AND 1 \<noteq> 0 \<longleftrightarrow> un_fCoinBase u"
proof -
  define k where "k = unat (un_nHeight u) * 2 + of_bool (un_fCoinBase u)"
  have c: "undo_code u = of_nat k" by (simp add: undo_code_def k_def)
  moreover have "k < 2 ^ 32" using assms by (simp add: k_def)
  ultimately have k: "unat (undo_code u) = k" by (simp only: unat_of_nat) simp
  show "undo_code u div 2 = un_nHeight u" by (simp add: word_unat_eq_iff unat_div k) (simp add: k_def)
  have "undo_code u AND 1 \<noteq> 0 \<longleftrightarrow> odd (undo_code u)" by (simp add: and_one_eq mod2_eq_if)
  also have "\<dots> \<longleftrightarrow> un_fCoinBase u" unfolding c even_of_nat by (simp add: k_def)
  finally show "undo_code u AND 1 \<noteq> 0 \<longleftrightarrow> un_fCoinBase u" .
qed

lemma undo_codec:
  assumes "key_compression c" "un_nVersion u0 = 0" shows "codec (ser_undo c) (unser_undo c u0) undo_fits"
proof
  fix u s assume u: "undo_fits u"
  note tx = codec.unser_bind [OF txout_compressed_codec [OF assms(1)]]
  have "unat (un_nHeight u) < 2 ^ 31" "txout_fits (un_txout u)" using u by (simp_all add: undo_fits_def)
  then show "unser_undo c u0 (ser_undo c u @ s) = Inr (u, s)"
    using u assms(2) undo_code_fields [of u]
    by (cases "un_nHeight u = 0")
      (simp_all add: ser_undo_def unser_undo_def undo_fits_def varint32.unser_bind varint_int.unser_bind tx word_neq_0_conv)
qed

interpretation txundo: codec "ser_txundo c" "unser_txundo c"
  "\<lambda>v. key_compression c \<and> length v \<le> 2 ^ 25 \<and> list_all undo_fits v" for c
proof
  fix v s assume v: "key_compression c \<and> length v \<le> 2 ^ 25 \<and> list_all undo_fits v"
  then have "codec (ser_undo c) (unser_undo c undo_empty) undo_fits"
    by (intro undo_codec) (simp_all add: undo_empty_def undo_new_def)
  note vec = codec.vec_codec [OF this]
  show "unser_txundo c (ser_txundo c v @ s) = Inr (v, s)"
    unfolding unser_txundo_def ser_txundo_def using v by (intro codec.unser_ser [OF vec]) (simp_all add: sizeof_CTxInUndo_def)
qed

text \<open>C13: The record of the coin database is lossless: a record with at least one unspent output, its
  spent outputs cleared and none of them at the end, with a nonnegative height and version,
  is read back from its compact form, exactly its bytes, and their number is the one
  computed beforehand.\<close>

theorem coins_roundtrip:
  assumes "key_compression c" "coins_fit co"
  shows "\<exists>bs. ser_coins c co = Some bs \<and> unser_coins c (bs @ s) = Inr (co, s) \<and> size_coins c co = Some (length bs)"
  using assms by (rule coins_codec)

text \<open>The example of the comment in \<open>src/src/coins.h\<close>.\<close>

definition example_coins :: CCoins where
  "example_coins = \<lparr> co_fCoinBase = False,
     co_vout = [txout_SetNull, \<lparr> t_nValue = 60000000000, t_scriptPubKey = [OP_DUP, OP_HASH160, 20,
       0x81, 0x61, 0x15, 0x94, 0x4e, 0x07, 0x7f, 0xe7, 0xc8, 0x03, 0xcf, 0xa5, 0x7f, 0x29, 0xb3, 0x6b, 0xf8, 0x7c, 0x1d, 0x35,
       OP_EQUALVERIFY, OP_CHECKSIG] \<rparr>], co_nHeight = 203998, co_nVersion = 1 \<rparr>"

lemma example_coins_ser:
  "ser_coins toy_crypto example_coins = Some [0x01, 0x04, 0x83, 0x58, 0x00, 0x81, 0x61, 0x15, 0x94, 0x4e, 0x07, 0x7f, 0xe7, 0xc8,
     0x03, 0xcf, 0xa5, 0x7f, 0x29, 0xb3, 0x6b, 0xf8, 0x7c, 0x1d, 0x35, 0x8b, 0xb8, 0x5e]"
  by code_simp

theorem coins_roundtrip_witness:
  "unser_coins toy_crypto ([0x01, 0x04, 0x83, 0x58, 0x00, 0x81, 0x61, 0x15, 0x94, 0x4e, 0x07, 0x7f, 0xe7, 0xc8,
     0x03, 0xcf, 0xa5, 0x7f, 0x29, 0xb3, 0x6b, 0xf8, 0x7c, 0x1d, 0x35, 0x8b, 0xb8, 0x5e] @ [7]) = Inr (example_coins, [7])"
proof -
  have "coins_fit example_coins"
    by (simp add: coins_fit_def coins_clean_def example_coins_def txout_fits_def txout_IsNull_def txout_SetNull_def sint_eq_uint)
  from coins_roundtrip [OF toy_key_compression this, of "[7]"] show ?thesis unfolding example_coins_ser by blast
qed

end
