(* ===== verification/View.thy ===== *)
theory View imports Main Prelude Tx Coins begin

text \<open>
  Views on the set of unspent outputs (\<open>src/src/coins.cpp\<close>, \<open>src/src/txdb.cpp\<close>): the interface of
  \<open>CCoinsView\<close> as a record of operations, the database as a map of keys to the bytes of the
  compact form, and the cache \<open>CCoinsViewCache\<close> in front of any view. The contract of a view
  is the locale \<open>coins_view\<close>; the database satisfies it, and a cache in front of a view that
  satisfies it does.
\<close>

section \<open>The interface\<close>

record 'b view_ops =
  vw_GetCoins :: "'b \<Rightarrow> u256 \<Rightarrow> CCoins option \<times> 'b"
  vw_SetCoins :: "'b \<Rightarrow> u256 \<Rightarrow> CCoins \<Rightarrow> bool \<times> 'b"
  vw_HaveCoins :: "'b \<Rightarrow> u256 \<Rightarrow> bool \<times> 'b"
  vw_GetBestBlock :: "'b \<Rightarrow> u256 \<times> 'b"
  vw_SetBestBlock :: "'b \<Rightarrow> u256 \<Rightarrow> bool \<times> 'b"
  vw_BatchWrite :: "'b \<Rightarrow> (u256 \<rightharpoonup> CCoins) \<Rightarrow> u256 \<Rightarrow> bool \<times> 'b"

text \<open>The base class, a view without coins that refuses to be written.\<close>

definition null_view :: "'b view_ops" where
  "null_view =
     \<lparr> vw_GetCoins = (\<lambda>s txid. (None, s)), vw_SetCoins = (\<lambda>s txid coins. (False, s)),
       vw_HaveCoins = (\<lambda>s txid. (False, s)), vw_GetBestBlock = (\<lambda>s. (0, s)),
       vw_SetBestBlock = (\<lambda>s hashBlock. (False, s)), vw_BatchWrite = (\<lambda>s mapCoins hashBlock. (False, s)) \<rparr>"

section \<open>The database\<close>

text \<open>The store keeps bytes: the entries under \<open>'c'\<close> and a hash, and the one under \<open>'B'\<close>.\<close>

record coins_db =
  db_c :: "u256 \<rightharpoonup> bytes"
  db_B :: "bytes option"

definition db_GetCoins :: "crypto \<Rightarrow> coins_db \<Rightarrow> u256 \<Rightarrow> CCoins option \<times> coins_db" where
  "db_GetCoins c s txid =
     (case db_c s txid of None \<Rightarrow> (None, s)
      | Some bs \<Rightarrow> (case unser_coins c bs of Inl e \<Rightarrow> (None, s) | Inr (coins, r) \<Rightarrow> (Some coins, s)))"

definition db_BatchWriteCoins :: "crypto \<Rightarrow> (u256 \<rightharpoonup> bytes) \<Rightarrow> u256 \<Rightarrow> CCoins \<Rightarrow> (u256 \<rightharpoonup> bytes)" where
  "db_BatchWriteCoins c batch hash coins = batch(hash := if coins_IsPruned coins then None else ser_coins c coins)"

definition db_SetCoins :: "crypto \<Rightarrow> coins_db \<Rightarrow> u256 \<Rightarrow> CCoins \<Rightarrow> bool \<times> coins_db" where
  "db_SetCoins c s txid coins = (True, s\<lparr>db_c := db_BatchWriteCoins c (db_c s) txid coins\<rparr>)"

definition db_HaveCoins :: "coins_db \<Rightarrow> u256 \<Rightarrow> bool \<times> coins_db" where
  "db_HaveCoins s txid = (db_c s txid \<noteq> None, s)"

definition db_GetBestBlock :: "coins_db \<Rightarrow> u256 \<times> coins_db" where
  "db_GetBestBlock s =
     (case db_B s of None \<Rightarrow> (0, s)
      | Some bs \<Rightarrow> (case READDATA bs of Inl e \<Rightarrow> (0, s) | Inr (hash, r) \<Rightarrow> (hash, s)))"

definition db_SetBestBlock :: "coins_db \<Rightarrow> u256 \<Rightarrow> bool \<times> coins_db" where
  "db_SetBestBlock s hashBlock = (True, s\<lparr>db_B := Some (WRITEDATA hashBlock)\<rparr>)"

text \<open>One batch with all entries of the map, each key once.\<close>

definition db_BatchWrite :: "crypto \<Rightarrow> coins_db \<Rightarrow> (u256 \<rightharpoonup> CCoins) \<Rightarrow> u256 \<Rightarrow> bool \<times> coins_db" where
  "db_BatchWrite c s mapCoins hashBlock =
     (let s = s\<lparr>db_c := (\<lambda>hash. case mapCoins hash of None \<Rightarrow> db_c s hash
            | Some coins \<Rightarrow> db_BatchWriteCoins c (db_c s) hash coins hash)\<rparr>
      in (True, if hashBlock \<noteq> 0 then s\<lparr>db_B := Some (WRITEDATA hashBlock)\<rparr> else s))"

definition db_ops :: "crypto \<Rightarrow> coins_db view_ops" where
  "db_ops c =
     \<lparr> vw_GetCoins = db_GetCoins c, vw_SetCoins = db_SetCoins c, vw_HaveCoins = db_HaveCoins,
       vw_GetBestBlock = db_GetBestBlock, vw_SetBestBlock = db_SetBestBlock, vw_BatchWrite = db_BatchWrite c \<rparr>"

section \<open>The cache\<close>

record 'b coins_cache =
  ch_base :: 'b
  ch_hashBlock :: u256
  ch_cacheCoins :: "u256 \<rightharpoonup> CCoins"

definition cache_new :: "'b \<Rightarrow> 'b coins_cache" where
  "cache_new baseIn = \<lparr> ch_base = baseIn, ch_hashBlock = 0, ch_cacheCoins = (\<lambda>_. None) \<rparr>"

text \<open>\<open>FetchCoins\<close> brings the record into the cache; \<open>None\<close> is the end iterator. \<open>GetCoins\<close> into a copy
  does the same to the cache.\<close>

definition FetchCoins :: "'b view_ops \<Rightarrow> 'b coins_cache \<Rightarrow> u256 \<Rightarrow> CCoins option \<times> 'b coins_cache" where
  "FetchCoins V s txid =
     (case ch_cacheCoins s txid of Some coins \<Rightarrow> (Some coins, s)
      | None \<Rightarrow>
        (case vw_GetCoins V (ch_base s) txid of
           (None, b) \<Rightarrow> (None, s\<lparr>ch_base := b\<rparr>)
         | (Some tmp, b) \<Rightarrow> (Some tmp, s\<lparr>ch_base := b, ch_cacheCoins := (ch_cacheCoins s)(txid \<mapsto> tmp)\<rparr>)))"

definition cache_GetCoins :: "'b view_ops \<Rightarrow> 'b coins_cache \<Rightarrow> u256 \<Rightarrow> CCoins option \<times> 'b coins_cache" where
  "cache_GetCoins V s txid =
     (if ch_cacheCoins s txid \<noteq> None then (ch_cacheCoins s txid, s)
      else case vw_GetCoins V (ch_base s) txid of
        (Some coins, b) \<Rightarrow> (Some coins, s\<lparr>ch_base := b, ch_cacheCoins := (ch_cacheCoins s)(txid \<mapsto> coins)\<rparr>)
      | (None, b) \<Rightarrow> (None, s\<lparr>ch_base := b\<rparr>))"

text \<open>The reference that \<open>GetCoins\<close> returns: the record, to be written back with \<open>cache_put\<close>; \<open>None\<close>
  is the failed assertion.\<close>

definition GetCoins_ref :: "'b view_ops \<Rightarrow> 'b coins_cache \<Rightarrow> u256 \<Rightarrow> (CCoins \<times> 'b coins_cache) option" where
  "GetCoins_ref V s txid = (case FetchCoins V s txid of (None, s) \<Rightarrow> None | (Some coins, s) \<Rightarrow> Some (coins, s))"

definition cache_put :: "'b coins_cache \<Rightarrow> u256 \<Rightarrow> CCoins \<Rightarrow> 'b coins_cache" where
  "cache_put s txid coins = s\<lparr>ch_cacheCoins := (ch_cacheCoins s)(txid \<mapsto> coins)\<rparr>"

definition cache_SetCoins :: "'b coins_cache \<Rightarrow> u256 \<Rightarrow> CCoins \<Rightarrow> bool \<times> 'b coins_cache" where
  "cache_SetCoins s txid coins = (True, cache_put s txid coins)"

definition cache_HaveCoins :: "'b view_ops \<Rightarrow> 'b coins_cache \<Rightarrow> u256 \<Rightarrow> bool \<times> 'b coins_cache" where
  "cache_HaveCoins V s txid = (case FetchCoins V s txid of (r, s) \<Rightarrow> (r \<noteq> None, s))"

definition cache_GetBestBlock :: "'b view_ops \<Rightarrow> 'b coins_cache \<Rightarrow> u256 \<times> 'b coins_cache" where
  "cache_GetBestBlock V s =
     (if ch_hashBlock s = 0 then
        (case vw_GetBestBlock V (ch_base s) of (h, b) \<Rightarrow> (h, s\<lparr>ch_base := b, ch_hashBlock := h\<rparr>))
      else (ch_hashBlock s, s))"

definition cache_SetBestBlock :: "'b coins_cache \<Rightarrow> u256 \<Rightarrow> bool \<times> 'b coins_cache" where
  "cache_SetBestBlock s hashBlockIn = (True, s\<lparr>ch_hashBlock := hashBlockIn\<rparr>)"

definition cache_BatchWrite :: "'b coins_cache \<Rightarrow> (u256 \<rightharpoonup> CCoins) \<Rightarrow> u256 \<Rightarrow> bool \<times> 'b coins_cache" where
  "cache_BatchWrite s mapCoins hashBlockIn =
     (True, s\<lparr>ch_cacheCoins := ch_cacheCoins s ++ mapCoins, ch_hashBlock := hashBlockIn\<rparr>)"

definition cache_Flush :: "'b view_ops \<Rightarrow> 'b coins_cache \<Rightarrow> bool \<times> 'b coins_cache" where
  "cache_Flush V s =
     (case vw_BatchWrite V (ch_base s) (ch_cacheCoins s) (ch_hashBlock s) of
        (fOk, b) \<Rightarrow> (fOk, if fOk then s\<lparr>ch_base := b, ch_cacheCoins := (\<lambda>_. None)\<rparr> else s\<lparr>ch_base := b\<rparr>))"

definition cache_ops :: "'b view_ops \<Rightarrow> 'b coins_cache view_ops" where
  "cache_ops V =
     \<lparr> vw_GetCoins = cache_GetCoins V, vw_SetCoins = cache_SetCoins, vw_HaveCoins = cache_HaveCoins V,
       vw_GetBestBlock = cache_GetBestBlock V, vw_SetBestBlock = cache_SetBestBlock, vw_BatchWrite = cache_BatchWrite \<rparr>"

section \<open>Operations of the cache on transactions\<close>

text \<open>\<open>None\<close> is a failed assertion.\<close>

definition GetOutputFor :: "'b view_ops \<Rightarrow> 'b coins_cache \<Rightarrow> CTxIn \<Rightarrow> (CTxOut \<times> 'b coins_cache) option" where
  "GetOutputFor V s input =
     (case GetCoins_ref V s (o_hash (i_prevout input)) of None \<Rightarrow> None
      | Some (coins, s) \<Rightarrow>
        if IsAvailable coins (o_n (i_prevout input)) then Some (co_vout coins ! unat (o_n (i_prevout input)), s) else None)"

fun value_in_loop :: "'b view_ops \<Rightarrow> u64 \<Rightarrow> 'b coins_cache \<Rightarrow> CTxIn list \<Rightarrow> (u64 \<times> 'b coins_cache) option" where
  "value_in_loop V nResult s [] = Some (nResult, s)"
| "value_in_loop V nResult s (txin # vin) =
     (case GetOutputFor V s txin of None \<Rightarrow> None
      | Some (txout, s) \<Rightarrow> value_in_loop V (nResult + t_nValue txout) s vin)"

definition GetValueIn :: "'b view_ops \<Rightarrow> 'b coins_cache \<Rightarrow> CTransaction \<Rightarrow> (u64 \<times> 'b coins_cache) option" where
  "GetValueIn V s tx = (if IsCoinBase tx then Some (0, s) else value_in_loop V 0 s (tx_vin tx))"

fun have_hashes :: "'b view_ops \<Rightarrow> 'b coins_cache \<Rightarrow> CTxIn list \<Rightarrow> bool \<times> 'b coins_cache" where
  "have_hashes V s [] = (True, s)"
| "have_hashes V s (txin # vin) =
     (case cache_HaveCoins V s (o_hash (i_prevout txin)) of
        (False, s) \<Rightarrow> (False, s) | (True, s) \<Rightarrow> have_hashes V s vin)"

fun have_outputs :: "'b view_ops \<Rightarrow> 'b coins_cache \<Rightarrow> CTxIn list \<Rightarrow> (bool \<times> 'b coins_cache) option" where
  "have_outputs V s [] = Some (True, s)"
| "have_outputs V s (txin # vin) =
     (case GetCoins_ref V s (o_hash (i_prevout txin)) of None \<Rightarrow> None
      | Some (coins, s) \<Rightarrow>
        if IsAvailable coins (o_n (i_prevout txin)) then have_outputs V s vin else Some (False, s))"

definition HaveInputs :: "'b view_ops \<Rightarrow> 'b coins_cache \<Rightarrow> CTransaction \<Rightarrow> (bool \<times> 'b coins_cache) option" where
  "HaveInputs V s tx =
     (if IsCoinBase tx then Some (True, s)
      else case have_hashes V s (tx_vin tx) of
        (False, s) \<Rightarrow> Some (False, s) | (True, s) \<Rightarrow> have_outputs V s (tx_vin tx))"

section \<open>The contract of a view\<close>

definition prune :: "CCoins \<Rightarrow> CCoins" where
  "prune c = (if coins_IsPruned c then coins_empty else c)"

definition live :: "CCoins option \<Rightarrow> CCoins" where
  "live r = (case r of None \<Rightarrow> coins_empty | Some c \<Rightarrow> prune c)"

text \<open>A program of operations on a cache, and the same program on a plain map with a best block,
  which is what the cache stands for.\<close>

datatype view_op = GetOp u256 | HaveOp u256 | SetOp u256 CCoins | BestOp | SetBestOp u256 | FlushOp

datatype view_answer = Coins_are CCoins | Have_is bool | Best_is u256 | Done bool

fun view_step :: "'b view_ops \<Rightarrow> 'b coins_cache \<Rightarrow> view_op \<Rightarrow> view_answer \<times> 'b coins_cache" where
  "view_step V s (GetOp k) = (case cache_GetCoins V s k of (r, s) \<Rightarrow> (Coins_are (live r), s))"
| "view_step V s (HaveOp k) = (case cache_HaveCoins V s k of (b, s) \<Rightarrow> (Have_is b, s))"
| "view_step V s (SetOp k c) = (case cache_SetCoins s k c of (b, s) \<Rightarrow> (Done b, s))"
| "view_step V s BestOp = (case cache_GetBestBlock V s of (h, s) \<Rightarrow> (Best_is h, s))"
| "view_step V s (SetBestOp h) = (case cache_SetBestBlock s h of (b, s) \<Rightarrow> (Done b, s))"
| "view_step V s FlushOp = (case cache_Flush V s of (b, s) \<Rightarrow> (Done b, s))"

fun view_run :: "'b view_ops \<Rightarrow> 'b coins_cache \<Rightarrow> view_op list \<Rightarrow> view_answer list \<times> 'b coins_cache" where
  "view_run V s [] = ([], s)"
| "view_run V s (p # ps) =
     (case view_step V s p of (a, s) \<Rightarrow> case view_run V s ps of (l, s) \<Rightarrow> (a # l, s))"

fun map_step :: "(u256 \<Rightarrow> CCoins) \<times> u256 \<Rightarrow> view_op \<Rightarrow> (u256 \<Rightarrow> CCoins) \<times> u256" where
  "map_step (m, h) (SetOp k c) = (m(k := prune c), h)"
| "map_step (m, h) (SetBestOp g) = (m, g)"
| "map_step (m, h) p = (m, h)"

fun map_answer :: "(u256 \<Rightarrow> CCoins) \<times> u256 \<Rightarrow> view_op \<Rightarrow> view_answer \<Rightarrow> bool" where
  "map_answer (m, h) (GetOp k) a = (a = Coins_are (m k))"
| "map_answer (m, h) (HaveOp k) a = (\<exists>b. a = Have_is b \<and> (m k \<noteq> coins_empty \<longrightarrow> b))"
| "map_answer (m, h) BestOp a = (a = Best_is h)"
| "map_answer (m, h) p a = (a = Done True)"

fun map_answers :: "(u256 \<Rightarrow> CCoins) \<times> u256 \<Rightarrow> view_op list \<Rightarrow> view_answer list \<Rightarrow> bool" where
  "map_answers m [] l \<longleftrightarrow> l = []"
| "map_answers m (p # ps) l \<longleftrightarrow> (\<exists>a r. l = a # r \<and> map_answer m p a \<and> map_answers (map_step m p) ps r)"

definition view_op_ok :: "(CCoins \<Rightarrow> bool) \<Rightarrow> view_op \<Rightarrow> bool" where
  "view_op_ok ok p = (case p of SetOp k c \<Rightarrow> ok c | SetBestOp h \<Rightarrow> h \<noteq> 0 | _ \<Rightarrow> True)"

locale coins_view =
  fixes V :: "'b view_ops" and inv :: "'b \<Rightarrow> bool" and coins :: "'b \<Rightarrow> u256 \<Rightarrow> CCoins" and best :: "'b \<Rightarrow> u256"
    and ok :: "CCoins \<Rightarrow> bool"
  assumes get_coins: "inv s \<Longrightarrow> vw_GetCoins V s k = (r, s') \<Longrightarrow>
      inv s' \<and> coins s' = coins s \<and> best s' = best s \<and> live r = coins s k \<and> (\<forall>c. r = Some c \<longrightarrow> ok c)"
    and have_coins: "inv s \<Longrightarrow> vw_HaveCoins V s k = (b, s') \<Longrightarrow>
      inv s' \<and> coins s' = coins s \<and> best s' = best s \<and> (coins s k \<noteq> coins_empty \<longrightarrow> b)"
    and set_coins: "inv s \<Longrightarrow> ok c \<Longrightarrow> vw_SetCoins V s k c = (b, s') \<Longrightarrow>
      b \<and> inv s' \<and> coins s' = (coins s)(k := prune c) \<and> best s' = best s"
    and get_best: "inv s \<Longrightarrow> vw_GetBestBlock V s = (h, s') \<Longrightarrow>
      inv s' \<and> coins s' = coins s \<and> best s' = best s \<and> h = best s"
    and set_best: "inv s \<Longrightarrow> h \<noteq> 0 \<Longrightarrow> vw_SetBestBlock V s h = (b, s') \<Longrightarrow>
      b \<and> inv s' \<and> coins s' = coins s \<and> best s' = h"
    and batch: "inv s \<Longrightarrow> (\<And>k c. m k = Some c \<Longrightarrow> ok c) \<Longrightarrow> vw_BatchWrite V s m h = (b, s') \<Longrightarrow>
      b \<and> inv s' \<and> coins s' = (\<lambda>k. case m k of None \<Rightarrow> coins s k | Some c \<Rightarrow> prune c) \<and> (h \<noteq> 0 \<longrightarrow> best s' = h)"
    and coins_ok: "inv s \<Longrightarrow> ok (coins s k)"
    and ok_clean: "ok c \<Longrightarrow> coins_clean c"
    and ok_empty: "ok coins_empty"
    and ok_size: "ok c \<Longrightarrow> length (co_vout c) < 2 ^ 32"
    and ok_spend: "ok c \<Longrightarrow> coins_Spend c out = Some (undo, c') \<Longrightarrow> ok c'"
begin

text \<open>The state of a cache in front of the view: what it shows, over what it keeps.\<close>

definition cache_inv :: "'b coins_cache \<Rightarrow> bool" where
  "cache_inv s \<longleftrightarrow> inv (ch_base s) \<and> (\<forall>k c. ch_cacheCoins s k = Some c \<longrightarrow> ok c)"

definition cache_coins :: "'b coins_cache \<Rightarrow> u256 \<Rightarrow> CCoins" where
  "cache_coins s k = (case ch_cacheCoins s k of None \<Rightarrow> coins (ch_base s) k | Some c \<Rightarrow> prune c)"

definition cache_best :: "'b coins_cache \<Rightarrow> u256" where
  "cache_best s = (if ch_hashBlock s = 0 then best (ch_base s) else ch_hashBlock s)"

lemmas cache_defs = cache_inv_def cache_coins_def cache_best_def

lemma ok_prune: "ok c \<Longrightarrow> ok (prune c)" by (simp add: prune_def ok_empty)

lemma FetchCoins_spec:
  assumes "cache_inv s" "FetchCoins V s k = (r, s')"
  shows "cache_inv s' \<and> cache_coins s' = cache_coins s \<and> cache_best s' = cache_best s \<and> live r = cache_coins s k
    \<and> (\<forall>c. r = Some c \<longrightarrow> ok c) \<and> r = ch_cacheCoins s' k"
proof (cases "ch_cacheCoins s k")
  case (Some c)
  then show ?thesis using assms by (auto simp: FetchCoins_def cache_defs live_def split: option.split)
next
  case None
  obtain r1 b where g: "vw_GetCoins V (ch_base s) k = (r1, b)" by fastforce
  note get_coins [OF _ g]
  then show ?thesis using assms None g
    by (cases r1) (auto simp: FetchCoins_def cache_defs live_def fun_eq_iff split: option.split if_splits)
qed

lemma cache_GetCoins_Fetch: "cache_GetCoins V s k = FetchCoins V s k"
  by (auto simp: cache_GetCoins_def FetchCoins_def split: option.splits prod.splits)

lemma cache_put_spec:
  assumes "cache_inv s" "ok c"
  shows "cache_inv (cache_put s k c)" "cache_coins (cache_put s k c) = (cache_coins s)(k := prune c)"
    "cache_best (cache_put s k c) = cache_best s"
  using assms by (auto simp: cache_put_def cache_defs fun_eq_iff split: option.split)

text \<open>A cache in front of a view is a view.\<close>

theorem cache_is_view: "coins_view (cache_ops V) cache_inv cache_coins cache_best ok"
proof
  fix s k r s' assume "cache_inv s" "vw_GetCoins (cache_ops V) s k = (r, s')"
  then show "cache_inv s' \<and> cache_coins s' = cache_coins s \<and> cache_best s' = cache_best s \<and> live r = cache_coins s k
      \<and> (\<forall>c. r = Some c \<longrightarrow> ok c)"
    using FetchCoins_spec by (simp add: cache_ops_def cache_GetCoins_Fetch)
next
  fix s k b s' assume s: "cache_inv s" "vw_HaveCoins (cache_ops V) s k = (b, s')"
  obtain r where "FetchCoins V s k = (r, s')" "b = (r \<noteq> None)"
    using s(2) by (auto simp: cache_ops_def cache_HaveCoins_def split: prod.splits)
  then show "cache_inv s' \<and> cache_coins s' = cache_coins s \<and> cache_best s' = cache_best s \<and> (cache_coins s k \<noteq> coins_empty \<longrightarrow> b)"
    using FetchCoins_spec [OF s(1), of k r s'] by (cases r) (auto simp: live_def)
next
  fix s k c b s' assume "cache_inv s" "ok c" "vw_SetCoins (cache_ops V) s k c = (b, s')"
  then show "b \<and> cache_inv s' \<and> cache_coins s' = (cache_coins s)(k := prune c) \<and> cache_best s' = cache_best s"
    using cache_put_spec by (auto simp: cache_ops_def cache_SetCoins_def)
next
  fix s h s' assume s: "cache_inv s" "vw_GetBestBlock (cache_ops V) s = (h, s')"
  obtain g b where "vw_GetBestBlock V (ch_base s) = (g, b)" by fastforce
  with get_best [OF _ this] s
  show "cache_inv s' \<and> cache_coins s' = cache_coins s \<and> cache_best s' = cache_best s \<and> h = cache_best s"
    by (auto simp: cache_ops_def cache_GetBestBlock_def cache_defs fun_eq_iff split: if_split_asm option.split)
next
  fix s h b s' assume "cache_inv s" "h \<noteq> 0" "vw_SetBestBlock (cache_ops V) s h = (b, s')"
  then show "b \<and> cache_inv s' \<and> cache_coins s' = cache_coins s \<and> cache_best s' = h"
    by (auto simp: cache_ops_def cache_SetBestBlock_def cache_defs fun_eq_iff split: option.split)
next
  fix s m h b s' assume "cache_inv s" "\<And>k c. m k = Some c \<Longrightarrow> ok c" "vw_BatchWrite (cache_ops V) s m h = (b, s')"
  then show "b \<and> cache_inv s' \<and> cache_coins s' = (\<lambda>k. case m k of None \<Rightarrow> cache_coins s k | Some c \<Rightarrow> prune c)
      \<and> (h \<noteq> 0 \<longrightarrow> cache_best s' = h)"
    by (auto simp: cache_ops_def cache_BatchWrite_def cache_defs fun_eq_iff map_add_Some_iff map_add_def split: option.splits)
next
  fix s k assume "cache_inv s"
  then show "ok (cache_coins s k)" using coins_ok ok_prune by (auto simp: cache_defs split: option.split)
qed (use ok_clean ok_empty ok_size ok_spend in auto)

text \<open>Writing the cache back changes nothing that it shows, provided it knows its best block.\<close>

lemma Flush_spec:
  assumes "cache_inv s" "ch_hashBlock s \<noteq> 0" "cache_Flush V s = (fOk, s')"
  shows "fOk \<and> cache_inv s' \<and> cache_coins s' = cache_coins s \<and> cache_best s' = cache_best s
    \<and> coins (ch_base s') = cache_coins s \<and> best (ch_base s') = cache_best s \<and> ch_cacheCoins s' = (\<lambda>_. None)"
proof -
  obtain b base where b: "vw_BatchWrite V (ch_base s) (ch_cacheCoins s) (ch_hashBlock s) = (b, base)" by fastforce
  have "b \<and> inv base \<and> coins base = (\<lambda>k. case ch_cacheCoins s k of None \<Rightarrow> coins (ch_base s) k | Some c \<Rightarrow> prune c)
      \<and> (ch_hashBlock s \<noteq> 0 \<longrightarrow> best base = ch_hashBlock s)"
    by (rule batch [OF _ _ b]) (use assms(1) in \<open>auto simp: cache_inv_def\<close>)
  then show ?thesis using assms b by (auto simp: cache_Flush_def cache_defs fun_eq_iff)
qed

text \<open>The queries on transactions read what the cache shows.\<close>

definition avail :: "'b coins_cache \<Rightarrow> COutPoint \<Rightarrow> bool" where
  "avail s out \<longleftrightarrow> IsAvailable (cache_coins s (o_hash out)) (o_n out)"

lemma IsAvailable_prune: "IsAvailable (prune c) n = IsAvailable c n"
  by (auto simp: prune_def IsAvailable_def coins_empty_def coins_IsPruned_def list_all_length)

lemma IsAvailable_live: "IsAvailable (live r) n \<Longrightarrow> \<exists>c. r = Some c \<and> live r = c"
  by (auto simp: live_def prune_def IsAvailable_def coins_empty_def split: option.splits if_split_asm)

lemma not_avail_empty: "\<not> IsAvailable coins_empty n"
  by (simp add: IsAvailable_def coins_empty_def)

definition same :: "'b coins_cache \<Rightarrow> 'b coins_cache \<Rightarrow> bool" where
  "same s s' \<longleftrightarrow> cache_inv s' \<and> cache_coins s' = cache_coins s \<and> cache_best s' = cache_best s"

lemma same_refl: "cache_inv s \<Longrightarrow> same s s" by (simp add: same_def)
lemma same_trans: "same s t \<Longrightarrow> same t u \<Longrightarrow> same s u" by (simp add: same_def)
lemma same_inv: "same s t \<Longrightarrow> cache_inv t" by (simp add: same_def)
lemma same_avail: "same s t \<Longrightarrow> avail t = avail s" by (auto simp: same_def avail_def)

lemma Fetch_cached: "ch_cacheCoins s k = Some c \<Longrightarrow> FetchCoins V s k = (Some c, s)" by (simp add: FetchCoins_def)

lemma Fetch_keeps: "FetchCoins V s k = (r, s') \<Longrightarrow> ch_cacheCoins s j \<noteq> None \<Longrightarrow> ch_cacheCoins s' j \<noteq> None"
  by (auto simp: FetchCoins_def split: option.splits prod.splits)

lemma GetCoins_ref_cached:
  "ch_cacheCoins s k = Some c \<Longrightarrow> GetCoins_ref V s k = Some (c, s)" by (simp add: GetCoins_ref_def Fetch_cached)

lemma GetCoins_ref_avail:
  assumes "cache_inv s" "IsAvailable (cache_coins s k) n"
  obtains s' where "GetCoins_ref V s k = Some (cache_coins s k, s')" "same s s'" "ok (cache_coins s k)"
proof -
  obtain r s' where f: "FetchCoins V s k = (r, s')" by fastforce
  note p = FetchCoins_spec [OF assms(1) f]
  then obtain c where "r = Some c" "cache_coins s k = c" using IsAvailable_live [of r n] assms(2) by auto
  then show ?thesis using f p that by (auto simp: GetCoins_ref_def same_def)
qed

lemma have_hashes_spec:
  assumes "cache_inv s" "have_hashes V s vin = (b, s')"
  shows "same s s' \<and> (b \<longrightarrow> (\<forall>t\<in>set vin. ch_cacheCoins s' (o_hash (i_prevout t)) \<noteq> None))
    \<and> (\<not> b \<longrightarrow> (\<exists>t\<in>set vin. \<not> avail s (i_prevout t))) \<and> (\<forall>j. ch_cacheCoins s j \<noteq> None \<longrightarrow> ch_cacheCoins s' j \<noteq> None)"
  using assms
proof (induction vin arbitrary: s)
  case Nil
  then show ?case by (simp add: same_refl)
next
  case (Cons t vin)
  obtain r s1 where f: "FetchCoins V s (o_hash (i_prevout t)) = (r, s1)" by fastforce
  note p = FetchCoins_spec [OF Cons.prems(1) f]
  have s1: "same s s1" using p by (simp add: same_def)
  show ?case
  proof (cases r)
    case None
    then have "\<not> avail s (i_prevout t)" using p not_avail_empty by (auto simp: avail_def live_def)
    then show ?thesis using None Cons.prems(2) f s1 Fetch_keeps [OF f] by (auto simp: cache_HaveCoins_def)
  next
    case (Some c)
    then have h: "have_hashes V s1 vin = (b, s')" using Cons.prems(2) f by (simp add: cache_HaveCoins_def)
    note q = Cons.IH [OF same_inv [OF s1] h]
    have "ch_cacheCoins s1 (o_hash (i_prevout t)) = Some c" using p Some by simp
    then have "ch_cacheCoins s' (o_hash (i_prevout t)) \<noteq> None" using q by blast
    then show ?thesis using q s1 same_trans same_avail [OF s1] Fetch_keeps [OF f] by auto
  qed
qed

lemma have_outputs_spec:
  assumes "\<forall>t\<in>set vin. ch_cacheCoins s (o_hash (i_prevout t)) \<noteq> None"
  shows "have_outputs V s vin = Some (\<forall>t\<in>set vin. avail s (i_prevout t), s)"
  using assms
proof (induction vin)
  case (Cons t vin)
  then obtain c where c: "ch_cacheCoins s (o_hash (i_prevout t)) = Some c" by auto
  then have "avail s (i_prevout t) = IsAvailable c (o_n (i_prevout t))"
    by (simp add: avail_def cache_coins_def IsAvailable_prune)
  then show ?case using Cons c by (simp add: GetCoins_ref_cached)
qed simp

text \<open>\<open>HaveInputs\<close> never fails an assertion and tells whether all outputs spent are there.\<close>

lemma HaveInputs_spec:
  assumes "cache_inv s"
  obtains s' where "HaveInputs V s tx = Some (IsCoinBase tx \<or> (\<forall>t\<in>set (tx_vin tx). avail s (i_prevout t)), s')" "same s s'"
proof (cases "IsCoinBase tx")
  case True
  then show ?thesis using that [of s] same_refl [OF assms] by (simp add: HaveInputs_def)
next
  case False
  obtain b s' where h: "have_hashes V s (tx_vin tx) = (b, s')" by fastforce
  note p = have_hashes_spec [OF assms h]
  then have "same s s'" by simp
  moreover have "HaveInputs V s tx = Some (\<forall>t\<in>set (tx_vin tx). avail s (i_prevout t), s')"
    using False h p have_outputs_spec [of "tx_vin tx" s'] same_avail [of s s']
    by (cases b) (auto simp: HaveInputs_def)
  ultimately show ?thesis using that False by simp
qed

definition coin_at :: "'b coins_cache \<Rightarrow> COutPoint \<Rightarrow> CTxOut" where
  "coin_at s out = co_vout (cache_coins s (o_hash out)) ! unat (o_n out)"

lemma value_in_loop_spec:
  assumes "cache_inv s" "\<forall>t\<in>set vin. avail s (i_prevout t)"
  shows "\<exists>s'. value_in_loop V n s vin = Some (n + sum_list (map (\<lambda>t. t_nValue (coin_at s (i_prevout t))) vin), s') \<and> same s s'"
  using assms
proof (induction vin arbitrary: n s)
  case Nil
  then show ?case by (simp add: same_refl)
next
  case (Cons t vin)
  obtain s1 where g: "GetCoins_ref V s (o_hash (i_prevout t)) = Some (cache_coins s (o_hash (i_prevout t)), s1)" "same s s1"
    using GetCoins_ref_avail [OF Cons.prems(1), of "o_hash (i_prevout t)" "o_n (i_prevout t)"] Cons.prems(2)
    by (auto simp: avail_def)
  have o: "GetOutputFor V s t = Some (coin_at s (i_prevout t), s1)"
    using g(1) Cons.prems(2) by (simp add: GetOutputFor_def coin_at_def avail_def)
  have "coin_at s1 = coin_at s" using g(2) by (simp add: coin_at_def same_def fun_eq_iff)
  then show ?case using Cons.IH [OF same_inv [OF g(2)], of "n + t_nValue (coin_at s (i_prevout t))"]
      same_avail [OF g(2)] Cons.prems(2) same_trans [OF g(2)] by (auto simp: o add.assoc)
qed

lemma GetValueIn_spec:
  assumes "cache_inv s" "\<forall>t\<in>set (tx_vin tx). avail s (i_prevout t)"
  shows "\<exists>s'. GetValueIn V s tx = Some (if IsCoinBase tx then 0
      else sum_list (map (\<lambda>t. t_nValue (coin_at s (i_prevout t))) (tx_vin tx)), s') \<and> same s s'"
  using value_in_loop_spec [OF assms, of 0] same_refl [OF assms(1)] by (simp add: GetValueIn_def)

text \<open>One step, and a program, on a cache that knows its best block.\<close>

lemma Fetch_best: "FetchCoins V s k = (r, s') \<Longrightarrow> ch_hashBlock s' = ch_hashBlock s"
  by (auto simp: FetchCoins_def split: option.splits prod.splits)

lemma Flush_best: "cache_Flush V s = (b, s') \<Longrightarrow> ch_hashBlock s' = ch_hashBlock s"
  by (auto simp: cache_Flush_def split: prod.splits if_splits)

lemma view_step_spec:
  assumes "cache_inv s" "ch_hashBlock s \<noteq> 0" "view_op_ok ok p" "view_step V s p = (a, s')"
  shows "cache_inv s' \<and> ch_hashBlock s' \<noteq> 0 \<and> map_answer (cache_coins s, cache_best s) p a
    \<and> (cache_coins s', cache_best s') = map_step (cache_coins s, cache_best s) p"
proof (cases p)
  case (GetOp k)
  obtain r where f: "FetchCoins V s k = (r, s')" "a = Coins_are (live r)"
    using assms(4) by (simp add: GetOp cache_GetCoins_Fetch split: prod.splits)
  have "live r = cache_coins s k" using FetchCoins_spec [OF assms(1) f(1)] by blast
  then show ?thesis using FetchCoins_spec [OF assms(1) f(1)] Fetch_best [OF f(1)] assms(2) by (simp add: GetOp f(2))
next
  case (HaveOp k)
  obtain r where f: "FetchCoins V s k = (r, s')" "a = Have_is (r \<noteq> None)"
    using assms(4) by (auto simp: HaveOp cache_HaveCoins_def split: prod.splits)
  have "cache_coins s k \<noteq> coins_empty \<longrightarrow> r \<noteq> None"
    using FetchCoins_spec [OF assms(1) f(1), THEN conjunct2, THEN conjunct2, THEN conjunct2, THEN conjunct1]
    by (cases r) (simp_all add: live_def)
  then have "map_answer (cache_coins s, cache_best s) p a" unfolding HaveOp f(2) map_answer.simps by blast
  then show ?thesis using FetchCoins_spec [OF assms(1) f(1)] Fetch_best [OF f(1)] assms(2) by (simp add: HaveOp)
next
  case (SetOp k c)
  have "s' = cache_put s k c" "a = Done True" using assms(4) by (auto simp: SetOp cache_SetCoins_def)
  moreover have "ch_hashBlock (cache_put s k c) = ch_hashBlock s" by (simp add: cache_put_def)
  ultimately show ?thesis using cache_put_spec [OF assms(1), of c k] assms(2,3) by (simp add: SetOp view_op_ok_def)
next
  case BestOp
  have "s' = s" "a = Best_is (ch_hashBlock s)" using assms(2,4) by (auto simp: BestOp cache_GetBestBlock_def)
  then show ?thesis using assms(1,2) by (simp add: BestOp cache_best_def)
next
  case (SetBestOp h)
  have "s' = s\<lparr>ch_hashBlock := h\<rparr>" "a = Done True" using assms(4) by (auto simp: SetBestOp cache_SetBestBlock_def)
  moreover have "h \<noteq> 0" using assms(3) by (simp add: SetBestOp view_op_ok_def)
  moreover have "cache_coins (s\<lparr>ch_hashBlock := h\<rparr>) = cache_coins s"
    by (auto simp: cache_coins_def fun_eq_iff split: option.split)
  ultimately show ?thesis using assms(1) by (simp add: SetBestOp cache_best_def cache_inv_def)
next
  case FlushOp
  obtain b where f: "cache_Flush V s = (b, s')" "a = Done b" using assms(4) by (simp add: FlushOp split: prod.splits)
  show ?thesis using Flush_spec [OF assms(1,2) f(1)] Flush_best [OF f(1)] assms(2) by (simp add: FlushOp f(2))
qed

lemma view_run_spec:
  assumes "cache_inv s" "ch_hashBlock s \<noteq> 0" "list_all (view_op_ok ok) ps" "view_run V s ps = (l, s')"
  shows "cache_inv s' \<and> ch_hashBlock s' \<noteq> 0 \<and> map_answers (cache_coins s, cache_best s) ps l
    \<and> (cache_coins s', cache_best s') = foldl map_step (cache_coins s, cache_best s) ps"
  using assms
proof (induction ps arbitrary: s l)
  case (Cons p ps)
  obtain a s1 where p: "view_step V s p = (a, s1)" by fastforce
  obtain r where r: "view_run V s1 ps = (r, s')" "l = a # r" using Cons.prems(4) p by (auto split: prod.splits)
  have q: "cache_inv s1 \<and> ch_hashBlock s1 \<noteq> 0 \<and> map_answer (cache_coins s, cache_best s) p a
      \<and> (cache_coins s1, cache_best s1) = map_step (cache_coins s, cache_best s) p"
    using view_step_spec [OF Cons.prems(1,2) _ p] Cons.prems(3) by simp
  then show ?case using Cons.IH [OF _ _ _ r(1)] Cons.prems(3) by (simp add: r(2))
qed simp

lemma view_run_flushed:
  assumes "cache_inv s" "h \<noteq> 0" "list_all (view_op_ok ok) ps" "view_run V s (SetBestOp h # ps) = (l, s1)"
    "cache_Flush V s1 = (b, s2)"
  shows "map_answers (cache_coins s, cache_best s) (SetBestOp h # ps) l \<and> b
    \<and> (coins (ch_base s2), best (ch_base s2)) = foldl map_step (cache_coins s, cache_best s) (SetBestOp h # ps)"
proof -
  define t where "t = s\<lparr>ch_hashBlock := h\<rparr>"
  have t: "cache_inv t" "ch_hashBlock t \<noteq> 0" "cache_coins t = cache_coins s" "cache_best t = h"
    using assms(1,2) by (auto simp: t_def cache_defs fun_eq_iff split: option.split)
  obtain r where r: "view_run V t ps = (r, s1)" "l = Done True # r"
    using assms(4) by (auto simp: cache_SetBestBlock_def t_def split: prod.splits)
  note q = view_run_spec [OF t(1,2) assms(3) r(1)]
  then have "cache_inv s1" "ch_hashBlock s1 \<noteq> 0" by auto
  from Flush_spec [OF this assms(5)] q show ?thesis using r(2) t by auto
qed

end

section \<open>The database and the caches in front of it\<close>

definition db_ok :: "CCoins \<Rightarrow> bool" where
  "db_ok co \<longleftrightarrow> coins_clean co \<and> (co_vout co = [] \<or> coins_fit co)"

definition db_inv :: "crypto \<Rightarrow> coins_db \<Rightarrow> bool" where
  "db_inv c s \<longleftrightarrow> key_compression c \<and> (\<forall>k bs. db_c s k = Some bs \<longrightarrow> (\<exists>co. coins_fit co \<and> ser_coins c co = Some bs))
     \<and> (\<forall>bs. db_B s = Some bs \<longrightarrow> length bs = 32)"

definition db_coins :: "crypto \<Rightarrow> coins_db \<Rightarrow> u256 \<Rightarrow> CCoins" where
  "db_coins c s k = live (fst (db_GetCoins c s k))"

definition db_best :: "coins_db \<Rightarrow> u256" where "db_best s = fst (db_GetBestBlock s)"

lemma clean_pruned: "coins_clean co \<Longrightarrow> coins_IsPruned co \<longleftrightarrow> co_vout co = []"
  by (cases "co_vout co" rule: rev_cases) (auto simp: coins_clean_def coins_IsPruned_def)

lemma fit_prune: "coins_fit co \<Longrightarrow> prune co = co"
  using clean_pruned by (auto simp: coins_fit_def prune_def)

lemma empty_clean: "coins_clean coins_empty" by (simp add: coins_clean_def coins_empty_def)

lemma strip_spent_prefix: "\<exists>zs. xs = strip_spent xs @ zs \<and> list_all txout_IsNull zs"
proof (induction xs rule: rev_induct)
  case (snoc x xs)
  show ?case
  proof (cases "txout_IsNull x")
    case True
    obtain zs where "xs = strip_spent xs @ zs" "list_all txout_IsNull zs" using snoc by blast
    then show ?thesis using True by (intro exI [of _ "zs @ [x]"]) (simp add: strip_spent_def)
  qed (simp add: strip_spent_def)
qed (simp add: strip_spent_def)

lemma strip_spent_last: "strip_spent xs \<noteq> [] \<Longrightarrow> \<not> txout_IsNull (last (strip_spent xs))"
  using hd_dropWhile [of txout_IsNull "rev xs"] by (auto simp: strip_spent_def last_rev)

lemma strip_spent_set: "set (strip_spent xs) \<subseteq> set xs"
  using set_dropWhileD [of _ txout_IsNull "rev xs"] by (auto simp: strip_spent_def)

lemma coins_Spend_ok:
  assumes "db_ok co" "coins_Spend co out = Some (undo, co')"
  shows "db_ok co'"
proof -
  let ?v = "(co_vout co)[unat (o_n out) := txout_SetNull]"
  have c': "co' = co\<lparr>co_vout := strip_spent ?v\<rparr>" and n: "co_vout co \<noteq> []"
    using assms(2) by (auto simp: coins_Spend_def coins_Cleanup_def Let_def split: if_split_asm)
  have null: "txout_IsNull txout_SetNull" by (simp add: txout_IsNull_def txout_SetNull_def)
  have s: "v \<in> set (strip_spent ?v) \<Longrightarrow> v = txout_SetNull \<or> v \<in> set (co_vout co)" for v
    using strip_spent_set [of ?v] set_update_subset_insert [of "co_vout co" "unat (o_n out)" txout_SetNull] by auto
  have "coins_clean co'" using assms(1) strip_spent_last [of ?v] s
    by (auto simp: c' db_ok_def coins_clean_def list_all_iff)
  moreover obtain zs where "?v = strip_spent ?v @ zs" using strip_spent_prefix by blast
  then have "length (strip_spent ?v) \<le> length (co_vout co)" by (metis le_add1 length_append length_list_update)
  ultimately show ?thesis using assms(1) n null s by (auto simp: db_ok_def coins_fit_def c' list_all_iff)
qed

lemma db_read:
  assumes "db_inv c s"
  shows "db_GetCoins c s k = (r, s') \<Longrightarrow> s' = s \<and> (case db_c s k of None \<Rightarrow> r = None
    | Some bs \<Rightarrow> (\<exists>co. coins_fit co \<and> ser_coins c co = Some bs \<and> r = Some co))"
proof (cases "db_c s k")
  case (Some bs)
  then obtain co where "coins_fit co" "ser_coins c co = Some bs" using assms unfolding db_inv_def by blast
  moreover have "unser_coins c bs = Inr (co, [])"
    using coins_codec [of c co "[]"] assms calculation by (auto simp: db_inv_def)
  ultimately show "db_GetCoins c s k = (r, s') \<Longrightarrow> ?thesis" using Some by (auto simp: db_GetCoins_def)
qed (simp add: db_GetCoins_def)

lemma db_write:
  assumes "db_inv c s" "db_ok co"
  shows "\<exists>bs. (if coins_IsPruned co then None else ser_coins c co) = bs
    \<and> live (case bs of None \<Rightarrow> None | Some bs \<Rightarrow> (case unser_coins c bs of Inl e \<Rightarrow> None | Inr (x, r) \<Rightarrow> Some x)) = prune co
    \<and> (\<forall>b. bs = Some b \<longrightarrow> (\<exists>co. coins_fit co \<and> ser_coins c co = Some b))"
proof (cases "coins_IsPruned co")
  case True
  then show ?thesis by (simp add: live_def prune_def)
next
  case False
  then have f: "coins_fit co" using assms(2) clean_pruned by (auto simp: db_ok_def)
  obtain bs where "ser_coins c co = Some bs" "unser_coins c bs = Inr (co, [])"
    using coins_codec [OF _ f, of c "[]"] assms(1) by (auto simp: db_inv_def)
  then show ?thesis using False f by (auto simp: live_def)
qed

lemma db_coins_eq: "db_coins c s k = live (case db_c s k of None \<Rightarrow> None
    | Some bs \<Rightarrow> (case unser_coins c bs of Inl e \<Rightarrow> None | Inr (x, r) \<Rightarrow> Some x))"
  by (auto simp: db_coins_def db_GetCoins_def split: option.split sum.split)

lemma db_best_write: "db_best (s\<lparr>db_B := Some (WRITEDATA h)\<rparr>) = h"
  using u256.unser_ser [of h "[]"] by (simp add: db_best_def db_GetBestBlock_def)

lemma db_best_other: "db_best (s\<lparr>db_c := m\<rparr>) = db_best s" by (simp add: db_best_def db_GetBestBlock_def split: option.split sum.split)

lemma db_GetBestBlock_eq: "db_GetBestBlock s = (db_best s, s)"
  by (auto simp: db_best_def db_GetBestBlock_def split: option.split sum.split)


interpretation db: coins_view "db_ops c" "db_inv c" "db_coins c" db_best db_ok for c
proof
  fix s k r s' assume s: "db_inv c s" "vw_GetCoins (db_ops c) s k = (r, s')"
  then have g: "db_GetCoins c s k = (r, s')" by (simp add: db_ops_def)
  show "db_inv c s' \<and> db_coins c s' = db_coins c s \<and> db_best s' = db_best s \<and> live r = db_coins c s k \<and> (\<forall>x. r = Some x \<longrightarrow> db_ok x)"
    using db_read [OF s(1) g] s(1) g by (auto simp: db_coins_def db_ok_def coins_fit_def split: option.splits)
next
  fix s k b s' assume "db_inv c s" "vw_HaveCoins (db_ops c) s k = (b, s')"
  then show "db_inv c s' \<and> db_coins c s' = db_coins c s \<and> db_best s' = db_best s \<and> (db_coins c s k \<noteq> coins_empty \<longrightarrow> b)"
    by (auto simp: db_ops_def db_HaveCoins_def db_coins_eq live_def)
next
  fix s k co b s' assume s: "db_inv c s" "db_ok co" "vw_SetCoins (db_ops c) s k co = (b, s')"
  note w = db_write [OF s(1,2)]
  have "s' = s\<lparr>db_c := (db_c s)(k := if coins_IsPruned co then None else ser_coins c co)\<rparr>" "b"
    using s(3) by (auto simp: db_ops_def db_SetCoins_def db_BatchWriteCoins_def)
  then show "b \<and> db_inv c s' \<and> db_coins c s' = (db_coins c s)(k := prune co) \<and> db_best s' = db_best s"
    using w s(1) by (auto simp: db_inv_def db_coins_eq fun_eq_iff db_best_other split: if_splits)
next
  fix s h s' assume "db_inv c s" "vw_GetBestBlock (db_ops c) s = (h, s')"
  then show "db_inv c s' \<and> db_coins c s' = db_coins c s \<and> db_best s' = db_best s \<and> h = db_best s"
    by (auto simp: db_ops_def db_GetBestBlock_eq)
next
  fix s h b s' assume "db_inv c s" "h \<noteq> 0" "vw_SetBestBlock (db_ops c) s h = (b, s')"
  then show "b \<and> db_inv c s' \<and> db_coins c s' = db_coins c s \<and> db_best s' = h"
    by (auto simp: db_ops_def db_SetBestBlock_def db_best_write db_inv_def db_coins_eq fun_eq_iff)
next
  fix s m h b s'
  assume s: "db_inv c s" "\<And>k co. m k = Some co \<Longrightarrow> db_ok co" "vw_BatchWrite (db_ops c) s m h = (b, s')"
  define t where "t = s\<lparr>db_c := (\<lambda>k. case m k of None \<Rightarrow> db_c s k
    | Some co \<Rightarrow> db_BatchWriteCoins c (db_c s) k co k)\<rparr>"
  have s': "s' = (if h \<noteq> 0 then t\<lparr>db_B := Some (WRITEDATA h)\<rparr> else t)" "b"
    using s(3) by (auto simp: db_ops_def db_BatchWrite_def t_def Let_def)
  have "db_coins c t k = (case m k of None \<Rightarrow> db_coins c s k | Some co \<Rightarrow> prune co)" for k
    using db_write [OF s(1)] s(2) by (auto simp: t_def db_BatchWriteCoins_def db_coins_eq split: option.split)
  moreover have "\<exists>co. coins_fit co \<and> ser_coins c co = Some bs" if "db_c t k = Some bs" for k bs
    using that db_write [OF s(1)] s(1,2) unfolding t_def db_inv_def by (auto simp: db_BatchWriteCoins_def split: option.splits)
  then have "db_inv c t" using s(1) by (auto simp: db_inv_def t_def)
  ultimately show "b \<and> db_inv c s' \<and> db_coins c s' = (\<lambda>k. case m k of None \<Rightarrow> db_coins c s k | Some co \<Rightarrow> prune co)
      \<and> (h \<noteq> 0 \<longrightarrow> db_best s' = h)"
    using s'(2) unfolding s'(1) by (auto simp: db_best_write db_inv_def db_coins_eq fun_eq_iff)
next
  fix s k assume s: "db_inv c s"
  obtain r s' where g: "db_GetCoins c s k = (r, s')" by fastforce
  show "db_ok (db_coins c s k)" using db_read [OF s g] g
    by (auto simp: db_coins_def live_def db_ok_def fit_prune coins_empty_def coins_clean_def coins_fit_def split: option.splits)
next
  fix co out undo co' assume "db_ok co" "coins_Spend co out = Some (undo, co')"
  then show "db_ok co'" by (rule coins_Spend_ok)
qed (auto simp: db_ok_def empty_clean coins_empty_def coins_clean_def coins_fit_def)

text \<open>The cache of the tip in front of the database, and a temporary cache in front of it.\<close>

interpretation tip: coins_view "cache_ops (db_ops c)" "db.cache_inv c" "db.cache_coins c" db.cache_best db_ok for c
  by (rule db.cache_is_view)

interpretation tmp: coins_view "cache_ops (cache_ops (db_ops c))" "tip.cache_inv c" "tip.cache_coins c" tip.cache_best db_ok for c
  by (rule tip.cache_is_view)

text \<open>C12: The cache of the tip in front of the database behaves as a map from transaction hashes to
  unspent outputs with a best block: whatever sequence of reads, writes and flushes is run on it
  after a block was set, each read answers what the map holds, and a final flush leaves exactly
  the map in the bytes of the database.\<close>

theorem tip_cache_refines_map:
  assumes "db.cache_inv c s" "h \<noteq> 0" "list_all (view_op_ok db_ok) ps"
    "view_run (db_ops c) s (SetBestOp h # ps) = (l, s1)" "cache_Flush (db_ops c) s1 = (b, s2)"
  shows "map_answers (db.cache_coins c s, db.cache_best s) (SetBestOp h # ps) l \<and> b
    \<and> (db_coins c (ch_base s2), db_best (ch_base s2))
      = foldl map_step (db.cache_coins c s, db.cache_best s) (SetBestOp h # ps)"
  using assms by (rule db.view_run_flushed)

lemma example_db_ok: "db_ok example_coins"
  by (simp add: db_ok_def coins_fit_def coins_clean_def example_coins_def txout_fits_def txout_IsNull_def txout_SetNull_def sint_eq_uint)

theorem tip_cache_refines_map_witness:
  "\<exists>l s1 b s2. view_run (db_ops toy_crypto) (cache_new \<lparr> db_c = (\<lambda>_. None), db_B = None \<rparr>)
      [SetBestOp 9, SetOp 5 example_coins, FlushOp, SetOp 6 coins_empty, GetOp 5] = (l, s1)
    \<and> cache_Flush (db_ops toy_crypto) s1 = (b, s2) \<and> db_best (ch_base s2) = 9
    \<and> db_coins toy_crypto (ch_base s2) 5 = example_coins \<and> map_answers (\<lambda>k. coins_empty, 0)
        [SetBestOp 9, SetOp 5 example_coins, FlushOp, SetOp 6 coins_empty, GetOp 5] l"
proof -
  let ?s = "cache_new \<lparr> db_c = (\<lambda>_. None), db_B = None \<rparr>"
    and ?ps = "[SetOp 5 example_coins, FlushOp, SetOp 6 coins_empty, GetOp 5]"
  obtain l s1 b s2 where r: "view_run (db_ops toy_crypto) ?s (SetBestOp 9 # ?ps) = (l, s1)"
      "cache_Flush (db_ops toy_crypto) s1 = (b, s2)"
    by fastforce
  have e: "db.cache_coins toy_crypto ?s = (\<lambda>k. coins_empty)" "db.cache_best ?s = 0"
    by (auto simp: db.cache_defs cache_new_def db_coins_eq db_best_def db_GetBestBlock_def live_def)
  have "db.cache_inv toy_crypto ?s"
    using toy_key_compression by (simp add: db.cache_inv_def cache_new_def db_inv_def)
  moreover have "list_all (view_op_ok db_ok) ?ps"
    using example_db_ok db.ok_empty by (simp add: view_op_ok_def)
  ultimately have "map_answers (\<lambda>k. coins_empty, 0) (SetBestOp 9 # ?ps) l \<and> b
    \<and> (db_coins toy_crypto (ch_base s2), db_best (ch_base s2)) = foldl map_step (\<lambda>k. coins_empty, 0) (SetBestOp 9 # ?ps)"
    using tip_cache_refines_map [OF _ _ _ r] unfolding e by simp
  moreover have "prune example_coins = example_coins"
    using example_db_ok by (auto simp: db_ok_def fit_prune example_coins_def)
  ultimately show ?thesis using r by (intro exI conjI) auto
qed

end
