(* ===== verification/Connect.thy ===== *)
theory Connect imports Main Prelude View Block Interp Subsidy begin

text \<open>
  Connecting a block to the set of unspent outputs (\<open>src/src/main.cpp\<close>): the checks of the inputs of a
  transaction, \<open>UpdateCoins\<close>, and \<open>ConnectBlock\<close>, on a cache in front of any view. The block
  files and the block tree database are parameters, by the answers they give. The lemmas relate
  \<open>ConnectBlock\<close> to the effect of the transactions on a plain map of unspent outputs.
\<close>

unbundle bit_operations_syntax

section \<open>Signature operations of pay-to-script-hash inputs\<close>

fun p2sh_loop :: "'b view_ops \<Rightarrow> nat \<Rightarrow> 'b coins_cache \<Rightarrow> CTxIn list \<Rightarrow> (nat \<times> 'b coins_cache) option" where
  "p2sh_loop V nSigOps s [] = Some (nSigOps, s)"
| "p2sh_loop V nSigOps s (txin # vin) =
     (case GetOutputFor V s txin of None \<Rightarrow> None
      | Some (prevout, s) \<Rightarrow>
        p2sh_loop V (if IsPayToScriptHash (t_scriptPubKey prevout)
          then nSigOps + GetSigOpCountP2SH (t_scriptPubKey prevout) (i_scriptSig txin) else nSigOps) s vin)"

definition GetP2SHSigOpCount :: "'b view_ops \<Rightarrow> 'b coins_cache \<Rightarrow> CTransaction \<Rightarrow> (nat \<times> 'b coins_cache) option" where
  "GetP2SHSigOpCount V s tx = (if IsCoinBase tx then Some (0, s) else p2sh_loop V 0 s (tx_vin tx))"

section \<open>Spending\<close>

text \<open>\<open>None\<close> is a failed assertion.\<close>

fun spend_inputs :: "'b view_ops \<Rightarrow> 'b coins_cache \<Rightarrow> CTxIn list \<Rightarrow> (CTxUndo \<times> 'b coins_cache) option" where
  "spend_inputs V s [] = Some ([], s)"
| "spend_inputs V s (txin # vin) =
     (case GetCoins_ref V s (o_hash (i_prevout txin)) of None \<Rightarrow> None
      | Some (coins, s) \<Rightarrow>
        (case coins_Spend coins (i_prevout txin) of None \<Rightarrow> None
         | Some (undo, coins) \<Rightarrow>
           (case spend_inputs V (cache_put s (o_hash (i_prevout txin)) coins) vin of None \<Rightarrow> None
            | Some (txundo, s) \<Rightarrow> Some (undo # txundo, s))))"

definition UpdateCoins ::
  "'b view_ops \<Rightarrow> 'b coins_cache \<Rightarrow> CTransaction \<Rightarrow> CTxUndo \<Rightarrow> u32 \<Rightarrow> u256 \<Rightarrow> (CTxUndo \<times> 'b coins_cache) option" where
  "UpdateCoins V s tx txundo nHeight txhash =
     (case (if IsCoinBase tx then Some ([], s) else spend_inputs V s (tx_vin tx)) of None \<Rightarrow> None
      | Some (undos, s) \<Rightarrow>
        (case cache_SetCoins s txhash (coins_of_tx tx nHeight) of
           (False, s) \<Rightarrow> None | (True, s) \<Rightarrow> Some (txundo @ undos, s)))"

section \<open>Script checks\<close>

record CScriptCheck =
  sc_scriptPubKey :: CScript
  sc_txTo :: CTransaction
  sc_nIn :: nat
  sc_nFlags :: u32
  sc_nHashType :: u32

definition script_check_new :: "CCoins \<Rightarrow> CTransaction \<Rightarrow> nat \<Rightarrow> u32 \<Rightarrow> u32 \<Rightarrow> CScriptCheck" where
  "script_check_new txFrom txTo nIn nFlags nHashType =
     \<lparr> sc_scriptPubKey = t_scriptPubKey (co_vout txFrom ! unat (o_n (i_prevout (tx_vin txTo ! nIn)))),
       sc_txTo = txTo, sc_nIn = nIn, sc_nFlags = nFlags, sc_nHashType = nHashType \<rparr>"

text \<open>Running a check; \<open>None\<close> is an aborted process.\<close>

definition run_check :: "crypto \<Rightarrow> CScriptCheck \<Rightarrow> bool option" where
  "run_check c k =
     VerifyScript (eval_env.make c (sc_txTo k) (sc_nIn k) (sc_nFlags k) (sc_nHashType k))
       (i_scriptSig (tx_vin (sc_txTo k) ! sc_nIn k)) (sc_scriptPubKey k)"

definition VerifySignature :: "crypto \<Rightarrow> CCoins \<Rightarrow> CTransaction \<Rightarrow> nat \<Rightarrow> u32 \<Rightarrow> u32 \<Rightarrow> bool option" where
  "VerifySignature c txFrom txTo nIn flags nHashType = run_check c (script_check_new txFrom txTo nIn flags nHashType)"

definition inline_check :: "crypto \<Rightarrow> CCoins \<Rightarrow> CTransaction \<Rightarrow> nat \<Rightarrow> u32 \<Rightarrow> verdict + unit" where
  "inline_check c coins tx i flags =
     (case run_check c (script_check_new coins tx i flags 0) of None \<Rightarrow> Inl Aborted | Some True \<Rightarrow> Inr ()
      | Some False \<Rightarrow>
        if flags AND SCRIPT_VERIFY_STRICTENC \<noteq> 0 then
          (case run_check c (script_check_new coins tx i (flags AND NOT SCRIPT_VERIFY_STRICTENC) 0) of
             None \<Rightarrow> Inl Aborted
           | Some True \<Rightarrow> Inl (Invalid REJECT_NONSTANDARD ''non-canonical'')
           | Some False \<Rightarrow> Inl (DoS 100 REJECT_NONSTANDARD ''non-canonical'' False))
        else Inl (DoS 100 REJECT_NONSTANDARD ''non-canonical'' False))"

text \<open>The second loop of \<open>CheckInputs\<close>: \<open>par\<close> tells whether the checks are collected for the queue.\<close>

fun script_checks ::
  "crypto \<Rightarrow> bool \<Rightarrow> 'b view_ops \<Rightarrow> CTransaction \<Rightarrow> u32 \<Rightarrow> nat \<Rightarrow> 'b coins_cache \<Rightarrow> CTxIn list
     \<Rightarrow> (verdict + CScriptCheck list) \<times> 'b coins_cache" where
  "script_checks c par V tx flags i s [] = (Inr [], s)"
| "script_checks c par V tx flags i s (txin # vin) =
     (case GetCoins_ref V s (o_hash (i_prevout txin)) of None \<Rightarrow> (Inl Aborted, s)
      | Some (coins, s) \<Rightarrow>
        if par then
          (case script_checks c par V tx flags (Suc i) s vin of (Inl v, s) \<Rightarrow> (Inl v, s)
           | (Inr vChecks, s) \<Rightarrow> (Inr (script_check_new coins tx i flags 0 # vChecks), s))
        else
          (case inline_check c coins tx i flags of Inl v \<Rightarrow> (Inl v, s)
           | Inr _ \<Rightarrow> script_checks c par V tx flags (Suc i) s vin))"

section \<open>The inputs of a transaction\<close>

definition COINBASE_MATURITY :: int where "COINBASE_MATURITY = 720"

fun input_values ::
  "'b view_ops \<Rightarrow> int \<Rightarrow> u64 \<Rightarrow> 'b coins_cache \<Rightarrow> CTxIn list \<Rightarrow> (verdict + u64) \<times> 'b coins_cache" where
  "input_values V nSpendHeight nValueIn s [] = (Inr nValueIn, s)"
| "input_values V nSpendHeight nValueIn s (txin # vin) =
     (case GetCoins_ref V s (o_hash (i_prevout txin)) of None \<Rightarrow> (Inl Aborted, s)
      | Some (coins, s) \<Rightarrow>
        if co_fCoinBase coins \<and> nSpendHeight - sint (co_nHeight coins) < COINBASE_MATURITY
        then (Inl (Invalid REJECT_INVALID ''bad-txns-premature-spend-of-coinbase''), s)
        else
          let v = t_nValue (co_vout coins ! unat (o_n (i_prevout txin))); nValueIn = nValueIn + v in
          if \<not> MoneyRange v \<or> \<not> MoneyRange nValueIn
          then (Inl (DoS 100 REJECT_INVALID ''bad-txns-inputvalues-outofrange'' False), s)
          else input_values V nSpendHeight nValueIn s vin)"

text \<open>The fee checks; \<open>GetValueOut\<close> may throw.\<close>

definition fee_checks :: "CTransaction \<Rightarrow> u64 \<Rightarrow> verdict + unit" where
  "fee_checks tx nValueIn =
     (case GetValueOut tx of None \<Rightarrow> Inl Threw
      | Some nValueOut \<Rightarrow>
        if sint nValueIn < sint nValueOut then Inl (DoS 100 REJECT_INVALID ''bad-txns-in-belowout'' False)
        else
          let nTxFee = nValueIn - nValueOut; nFees = 0 + nTxFee in
          if sint nTxFee < 0 then Inl (DoS 100 REJECT_INVALID ''bad-txns-fee-negative'' False)
          else if \<not> MoneyRange nFees then Inl (DoS 100 REJECT_INVALID ''bad-txns-fee-outofrange'' False)
          else Inr ())"

definition CheckInputs ::
  "crypto \<Rightarrow> (u256 \<rightharpoonup> block_ptr) \<Rightarrow> 'b view_ops \<Rightarrow> CTransaction \<Rightarrow> 'b coins_cache \<Rightarrow> bool \<Rightarrow> u32 \<Rightarrow> bool
     \<Rightarrow> (verdict + CScriptCheck list) \<times> 'b coins_cache" where
  "CheckInputs c mapBlockIndex V tx s fScriptChecks flags par =
     (if IsCoinBase tx then (Inr [], s)
      else case HaveInputs V s tx of None \<Rightarrow> (Inl Aborted, s)
      | Some (False, s) \<Rightarrow> (Inl (Invalid 0 []), s)
      | Some (True, s) \<Rightarrow>
        (case cache_GetBestBlock V s of (h, s) \<Rightarrow>
         case mapBlockIndex h of None \<Rightarrow> (Inl Aborted, s)
         | Some pindexPrev \<Rightarrow>
           if pindexPrev = [] then (Inl Aborted, s)
           else case input_values V (height (hd pindexPrev) + 1) 0 s (tx_vin tx) of (Inl v, s) \<Rightarrow> (Inl v, s)
           | (Inr nValueIn, s) \<Rightarrow>
             (case fee_checks tx nValueIn of Inl v \<Rightarrow> (Inl v, s)
              | Inr _ \<Rightarrow> if fScriptChecks then script_checks c par V tx flags 0 s (tx_vin tx) else (Inr [], s))))"

section \<open>The transactions of a block\<close>

record connect_state =
  cs_nSigOps :: nat
  cs_nFees :: u64
  cs_vChecks :: "CScriptCheck list"
  cs_vtxundo :: "CTxUndo list"

text \<open>What the checks of a block depend on besides the block.\<close>

record connect_env =
  ce_crypto :: crypto
  ce_pow :: pow_env
  ce_params :: CChainParams
  ce_hashGenesis :: u256
  ce_mapBlockIndex :: "u256 \<rightharpoonup> block_ptr"
  ce_fEnabled :: bool
  ce_nScriptCheckThreads :: bool
  ce_fTxIndex :: bool

definition too_many_sigops :: verdict where
  "too_many_sigops = DoS 100 REJECT_INVALID ''bad-blk-sigops'' False"

definition connect_tx ::
  "connect_env \<Rightarrow> 'b view_ops \<Rightarrow> bool \<Rightarrow> u32 \<Rightarrow> u32 \<Rightarrow> connect_state \<Rightarrow> 'b coins_cache \<Rightarrow> CTransaction \<Rightarrow> u256
     \<Rightarrow> (verdict + connect_state) \<times> 'b coins_cache" where
  "connect_tx e V fScriptChecks flags nHeight st s tx hash =
     (let nSigOps = cs_nSigOps st + GetLegacySigOpCount tx; st = st\<lparr>cs_nSigOps := nSigOps\<rparr> in
      if nSigOps > MAX_BLOCK_SIGOPS then (Inl too_many_sigops, s)
      else if IsCoinBase tx then
        (case UpdateCoins V s tx [] nHeight hash of None \<Rightarrow> (Inl Aborted, s) | Some (txundo, s) \<Rightarrow> (Inr st, s))
      else case HaveInputs V s tx of None \<Rightarrow> (Inl Aborted, s)
      | Some (False, s) \<Rightarrow> (Inl (DoS 100 REJECT_INVALID ''bad-txns-inputs-missingorspent'' False), s)
      | Some (True, s) \<Rightarrow>
        (case GetP2SHSigOpCount V s tx of None \<Rightarrow> (Inl Aborted, s)
         | Some (n, s) \<Rightarrow>
           let nSigOps = nSigOps + n; st = st\<lparr>cs_nSigOps := nSigOps\<rparr> in
           if nSigOps > MAX_BLOCK_SIGOPS then (Inl too_many_sigops, s)
           else case GetValueIn V s tx of None \<Rightarrow> (Inl Aborted, s)
           | Some (nValueIn, s) \<Rightarrow>
             (case GetValueOut tx of None \<Rightarrow> (Inl Threw, s)
              | Some nValueOut \<Rightarrow>
                (case CheckInputs (ce_crypto e) (ce_mapBlockIndex e) V tx s fScriptChecks flags (ce_nScriptCheckThreads e) of
                   (Inl v, s) \<Rightarrow> (Inl v, s)
                 | (Inr vChecks, s) \<Rightarrow>
                   (case UpdateCoins V s tx [] nHeight hash of None \<Rightarrow> (Inl Aborted, s)
                    | Some (txundo, s) \<Rightarrow>
                      (Inr (st\<lparr>cs_nFees := cs_nFees st + (nValueIn - nValueOut), cs_vChecks := cs_vChecks st @ vChecks,
                         cs_vtxundo := cs_vtxundo st @ [txundo]\<rparr>), s))))))"

fun connect_txs ::
  "connect_env \<Rightarrow> 'b view_ops \<Rightarrow> bool \<Rightarrow> u32 \<Rightarrow> u32 \<Rightarrow> connect_state \<Rightarrow> 'b coins_cache \<Rightarrow> (CTransaction \<times> u256) list
     \<Rightarrow> (verdict + connect_state) \<times> 'b coins_cache" where
  "connect_txs e V fScriptChecks flags nHeight st s [] = (Inr st, s)"
| "connect_txs e V fScriptChecks flags nHeight st s ((tx, hash) # vtx) =
     (case connect_tx e V fScriptChecks flags nHeight st s tx hash of (Inl v, s) \<Rightarrow> (Inl v, s)
      | (Inr st, s) \<Rightarrow> connect_txs e V fScriptChecks flags nHeight st s vtx)"

text \<open>No transaction of the block may overwrite coins.\<close>

fun overwrites :: "'b view_ops \<Rightarrow> 'b coins_cache \<Rightarrow> u256 list \<Rightarrow> (bool \<times> 'b coins_cache) option" where
  "overwrites V s [] = Some (False, s)"
| "overwrites V s (hash # hashes) =
     (case cache_HaveCoins V s hash of
        (False, s) \<Rightarrow> overwrites V s hashes
      | (True, s) \<Rightarrow>
        (case GetCoins_ref V s hash of None \<Rightarrow> None
         | Some (coins, s) \<Rightarrow> if coins_IsPruned coins then overwrites V s hashes else Some (True, s)))"

section \<open>Connecting a block\<close>

definition BLOCK_VALID_SCRIPTS :: u32 where "BLOCK_VALID_SCRIPTS = 5"

record CDiskTxPos = CDiskBlockPos +
  pos_nTxOffset :: u32

fun tx_positions :: "CDiskTxPos \<Rightarrow> (CTransaction \<times> u256) list \<Rightarrow> (u256 \<times> CDiskTxPos) list" where
  "tx_positions pos [] = []"
| "tx_positions pos ((tx, hash) # vtx) =
     (hash, pos) # tx_positions (pos\<lparr>pos_nTxOffset := pos_nTxOffset pos + of_nat (size_tx tx)\<rparr>) vtx"

text \<open>The answers of the undo file and of the block tree database.\<close>

record disk_env =
  dk_FindUndoPos :: "u32 \<Rightarrow> u32 \<Rightarrow> CDiskBlockPos option"
  dk_WriteToDisk :: "CTxUndo list \<Rightarrow> CDiskBlockPos \<Rightarrow> u256 \<Rightarrow> CDiskBlockPos option"
  dk_WriteBlockIndex :: "CBlockIndex \<Rightarrow> bool"
  dk_WriteTxIndex :: "(u256 \<times> CDiskTxPos) list \<Rightarrow> bool"

definition size_blockundo :: "crypto \<Rightarrow> CTxUndo list \<Rightarrow> nat" where
  "size_blockundo c vtxundo = size_vec (size_vec (size_undo c)) vtxundo"

definition version_rules_ok :: "block_ptr \<Rightarrow> u32 \<Rightarrow> bool" where
  "version_rules_ok p nVersion \<longleftrightarrow> \<not> (onFork p \<and> sint nVersion < 4)
     \<and> \<not> (onFork2 p \<and> (GetBlockVersion nVersion < 4 \<or> \<not> GetBlockVariant nVersion \<and> \<not> GetBlockVariant2 nVersion))
     \<and> \<not> (onFork3 p \<and> (GetBlockVersion nVersion < 4 \<or> \<not> GetBlockVariant2 nVersion))"

definition connect_flags :: "block_ptr \<Rightarrow> u32 \<Rightarrow> u32" where
  "connect_flags p nVersion =
     (let flags = SCRIPT_VERIFY_NOCACHE OR SCRIPT_VERIFY_P2SH;
          flags = (if sint nVersion \<ge> 3 \<and> IsSuperMajority 3 (tl p) 750 1000
                   then flags OR SCRIPT_VERIFY_CHECKLOCKTIMEVERIFY else flags)
      in if onFork p then flags OR SCRIPT_VERIFY_DERSIG else flags)"

text \<open>The amount of the coinbase against the value of the block.\<close>

definition coinbase_check :: "CChainParams \<Rightarrow> block_ptr \<Rightarrow> int \<Rightarrow> int \<Rightarrow> verdict + block_ptr" where
  "coinbase_check pr p out nFees =
     (case GetBlockValue pr p nFees False of (block_value_needed, p) \<Rightarrow>
      if out > block_value_needed then Inl (DoS 100 REJECT_INVALID ''bad-cb-amount'' False)
      else if out < block_value_needed \<and> onFork3 p then
        (case GetBlockValue pr p 0 False of (block_subsidy_needed, p) \<Rightarrow>
         if out < block_subsidy_needed then Inl (DoS 100 REJECT_INVALID ''low-cb-amount'' False) else Inr p)
      else Inr p)"

text \<open>Running the checks of the queue to the end.\<close>

definition wait_checks :: "crypto \<Rightarrow> CScriptCheck list \<Rightarrow> bool" where
  "wait_checks c vChecks = list_all (\<lambda>k. run_check c k = Some True) vChecks"

text \<open>The undo data and the entry of the index on disk.\<close>

definition write_undo :: "disk_env \<Rightarrow> crypto \<Rightarrow> CTxUndo list \<Rightarrow> u256 \<Rightarrow> CBlockIndex \<Rightarrow> verdict + CBlockIndex" where
  "write_undo d c blockundo hashPrevBlock b =
     (if pos_IsNull (GetUndoPos b) \<or> b_nStatus b AND BLOCK_VALID_MASK < BLOCK_VALID_SCRIPTS then
        (case
          (if pos_IsNull (GetUndoPos b) then
             (case dk_FindUndoPos d (b_nFile b) (of_nat (size_blockundo c blockundo) + 40) of None \<Rightarrow> Inl Failed
              | Some pos \<Rightarrow>
                (case dk_WriteToDisk d blockundo pos hashPrevBlock of None \<Rightarrow> Inl Failed
                 | Some pos \<Rightarrow> Inr (b\<lparr>b_nUndoPos := pos_nPos pos, b_nStatus := b_nStatus b OR BLOCK_HAVE_UNDO\<rparr>)))
           else Inr b) of
         Inl v \<Rightarrow> Inl v
       | Inr b \<Rightarrow>
         let b = b\<lparr>b_nStatus := (b_nStatus b AND NOT BLOCK_VALID_MASK) OR BLOCK_VALID_SCRIPTS\<rparr> in
         if dk_WriteBlockIndex d b then Inr b else Inl Failed)
      else Inr b)"

text \<open>The result is the entry of the block, with its predecessors, and the undo data.\<close>

definition connect_finish ::
  "connect_env \<Rightarrow> disk_env \<Rightarrow> u256 \<Rightarrow> block_ptr \<Rightarrow> int \<Rightarrow> (CTransaction \<times> u256) list \<Rightarrow> connect_state \<Rightarrow> 'b coins_cache
     \<Rightarrow> (verdict + block_ptr \<times> CTxUndo list) \<times> 'b coins_cache" where
  "connect_finish e d hashPrevBlock p out vtx st s =
     (let p = (hd p)\<lparr>b_nMoneySupply := word_of_int (money_supply p out (sint (cs_nFees st)))\<rparr> # tl p in
      case write_undo d (ce_crypto e) (cs_vtxundo st) hashPrevBlock (hd p) of Inl v \<Rightarrow> (Inl v, s)
      | Inr b \<Rightarrow>
        let pos = \<lparr> pos_nFile = pos_nFile (GetBlockPos b), pos_nPos = pos_nPos (GetBlockPos b),
              pos_nTxOffset = of_nat (GetSizeOfCompactSize (of_nat (length vtx))) \<rparr> in
        if ce_fTxIndex e \<and> \<not> dk_WriteTxIndex d (tx_positions pos vtx) then (Inl Failed, s)
        else case cache_SetBestBlock s (b_hashBlock b) of
          (False, s) \<Rightarrow> (Inl Aborted, s) | (True, s) \<Rightarrow> (Inr (b # tl p, cs_vtxundo st), s))"

definition connect_checked ::
  "connect_env \<Rightarrow> disk_env \<Rightarrow> 'b view_ops \<Rightarrow> CBlock \<Rightarrow> block_ptr \<Rightarrow> bool \<Rightarrow> u256 \<Rightarrow> 'b coins_cache
     \<Rightarrow> (verdict + block_ptr \<times> CTxUndo list) \<times> 'b coins_cache" where
  "connect_checked e d V block p fJustCheck hashPrevBlock s =
     (let fScriptChecks = height (hd p) \<ge> GetTotalBlocksEstimate (ce_fEnabled e) (ce_params e);
          nVersion = h_nVersion (bh_pure (bk_header block));
          vtx = zip (bk_vtx block) (bk_vMerkleTree block) in
      case overwrites V s (map snd vtx) of None \<Rightarrow> (Inl Aborted, s)
      | Some (True, s) \<Rightarrow> (Inl (DoS 100 REJECT_INVALID ''bad-txns-BIP30'' False), s)
      | Some (False, s) \<Rightarrow>
        (case connect_txs e V fScriptChecks (connect_flags p nVersion) (b_nHeight (hd p))
            \<lparr> cs_nSigOps = 0, cs_nFees = 0, cs_vChecks = [], cs_vtxundo = [] \<rparr> s vtx of (Inl v, s) \<Rightarrow> (Inl v, s)
         | (Inr st, s) \<Rightarrow>
           (case GetValueOut (bk_vtx block ! 0) of None \<Rightarrow> (Inl Threw, s)
            | Some out \<Rightarrow>
              (case coinbase_check (ce_params e) (if fJustCheck then p else connect_factor p) (sint out) (sint (cs_nFees st)) of
                 Inl v \<Rightarrow> (Inl v, s)
               | Inr p \<Rightarrow>
                 if \<not> wait_checks (ce_crypto e) (cs_vChecks st) then (Inl (DoS 100 0 [] False), s)
                 else if fJustCheck then (Inr (p, cs_vtxundo st), s)
                 else connect_finish e d hashPrevBlock p (sint out) vtx st s))))"

definition ConnectBlock ::
  "connect_env \<Rightarrow> disk_env \<Rightarrow> int \<Rightarrow> int \<Rightarrow> 'b view_ops \<Rightarrow> CBlock \<Rightarrow> block_ptr \<Rightarrow> bool \<Rightarrow> future_flags \<Rightarrow> 'b coins_cache
     \<Rightarrow> (verdict + block_ptr \<times> CTxUndo list) \<times> 'b coins_cache" where
  "ConnectBlock e d nNow adjusted_time V block p fJustCheck ff s =
     (case fst (CheckBlock (ce_pow e) (ce_params e) nNow adjusted_time block (\<not> fJustCheck) (\<not> fJustCheck) ff) of
        Inl v \<Rightarrow> (Inl v, s)
      | Inr block \<Rightarrow>
        let hashPrevBlock = (if tl p = [] then 0 else b_hashBlock (hd (tl p))) in
        if \<not> version_rules_ok p (h_nVersion (bh_pure (bk_header block))) then (Inl Failed, s)
        else if onFork p \<and> \<not> check_ssf_flag p then (Inl Failed, s)
        else case cache_GetBestBlock V s of (h, s) \<Rightarrow>
          if hashPrevBlock \<noteq> h then (Inl Aborted, s)
          else if header_GetHash (pe_hf (ce_pow e)) (bh_pure (bk_header block)) = ce_hashGenesis e then
            (Inr ((hd p)\<lparr>b_nMoneySupply := 2000000000\<rparr> # tl p, []), snd (cache_SetBestBlock s (b_hashBlock (hd p))))
          else connect_checked e d V block p fJustCheck hashPrevBlock s)"

section \<open>Disconnecting a block\<close>

text \<open>The restoring of one output: the coins, and whether it was clean.\<close>

definition restore_coins :: "CCoins \<Rightarrow> u32 \<Rightarrow> CTxInUndo \<Rightarrow> CCoins \<times> bool" where
  "restore_coins coins n undo =
     (let (coins, ok) =
        (if un_nHeight undo \<noteq> 0 then
           (coins_empty\<lparr>co_fCoinBase := un_fCoinBase undo, co_nHeight := un_nHeight undo, co_nVersion := un_nVersion undo\<rparr>,
            coins_IsPruned coins)
         else (coins, \<not> coins_IsPruned coins));
        ok = (ok \<and> \<not> IsAvailable coins n);
        vout = (if length (co_vout coins) < unat (n + 1)
          then co_vout coins @ replicate (unat (n + 1) - length (co_vout coins)) txout_SetNull else co_vout coins)
      in (coins\<lparr>co_vout := vout[unat n := un_txout undo]\<rparr>, ok))"

text \<open>The inputs of a transaction from the last to the first: a list of inputs with their undo
  records, in this order. \<open>None\<close> is a refused write.\<close>

fun restore_inputs ::
  "'b view_ops \<Rightarrow> bool \<Rightarrow> 'b coins_cache \<Rightarrow> (CTxIn \<times> CTxInUndo) list \<Rightarrow> (bool \<times> 'b coins_cache) option" where
  "restore_inputs V fClean s [] = Some (fClean, s)"
| "restore_inputs V fClean s ((txin, undo) # l) =
     (case cache_GetCoins V s (o_hash (i_prevout txin)) of (r, s) \<Rightarrow>
      case restore_coins (case r of None \<Rightarrow> coins_empty | Some coins \<Rightarrow> coins) (o_n (i_prevout txin)) undo of
        (coins, ok) \<Rightarrow>
      case cache_SetCoins s (o_hash (i_prevout txin)) coins of
        (False, s) \<Rightarrow> None | (True, s) \<Rightarrow> restore_inputs V (fClean \<and> ok) s l)"

text \<open>The outputs of a transaction: compared with those of the block and removed.\<close>

definition remove_outputs :: "'b view_ops \<Rightarrow> u32 \<Rightarrow> 'b coins_cache \<Rightarrow> CTransaction \<Rightarrow> u256 \<Rightarrow> (bool \<times> 'b coins_cache) option" where
  "remove_outputs V nHeight s tx hash =
     (case cache_HaveCoins V s hash of (have_it, s) \<Rightarrow>
      case (if have_it then GetCoins_ref V s hash else Some (coins_empty, s)) of None \<Rightarrow> None
      | Some (outs, s) \<Rightarrow>
        let outs = ClearUnspendable outs; outsBlock = coins_of_tx tx nHeight;
            outs = (if sint (co_nVersion outsBlock) < 0 then outs\<lparr>co_nVersion := co_nVersion outsBlock\<rparr> else outs)
        in Some (coins_eq outs outsBlock, if have_it then cache_put s hash coins_empty else s))"

text \<open>The transactions from the last to the first, with the undo records, which the coinbase
  lacks. \<open>Failed\<close> is a return of \<open>false\<close> before the end.\<close>

fun disconnect_txs ::
  "'b view_ops \<Rightarrow> u32 \<Rightarrow> bool \<Rightarrow> 'b coins_cache \<Rightarrow> ((CTransaction \<times> u256) \<times> CTxUndo option) list
     \<Rightarrow> (verdict + bool) \<times> 'b coins_cache" where
  "disconnect_txs V nHeight fClean s [] = (Inr fClean, s)"
| "disconnect_txs V nHeight fClean s (((tx, hash), u) # l) =
     (case remove_outputs V nHeight s tx hash of None \<Rightarrow> (Inl Aborted, s)
      | Some (ok, s) \<Rightarrow>
        let fClean = (fClean \<and> ok) in
        (case u of None \<Rightarrow> disconnect_txs V nHeight fClean s l
         | Some txundo \<Rightarrow>
           if length txundo \<noteq> length (tx_vin tx) then (Inl Failed, s)
           else
             (case restore_inputs V fClean s (rev (zip (tx_vin tx) txundo)) of None \<Rightarrow> (Inl Failed, s)
              | Some (fClean, s) \<Rightarrow> disconnect_txs V nHeight fClean s l)))"

text \<open>\<open>ReadFromDisk\<close> is the content of the undo file; the flag is the value of \<open>fClean\<close>.\<close>

definition DisconnectBlock ::
  "'b view_ops \<Rightarrow> tx_hashes \<Rightarrow> (CDiskBlockPos \<Rightarrow> u256 \<Rightarrow> CTxUndo list option) \<Rightarrow> CBlock \<Rightarrow> block_ptr \<Rightarrow> 'b coins_cache
     \<Rightarrow> (verdict + bool) \<times> 'b coins_cache" where
  "DisconnectBlock V hs ReadFromDisk block p s =
     (case cache_GetBestBlock V s of (h, s) \<Rightarrow>
      if b_hashBlock (hd p) \<noteq> h then (Inl Aborted, s)
      else if pos_IsNull (GetUndoPos (hd p)) then (Inl Failed, s)
      else if tl p = [] then (Inl Aborted, s)
      else case ReadFromDisk (GetUndoPos (hd p)) (b_hashBlock (hd (tl p))) of None \<Rightarrow> (Inl Failed, s)
      | Some vtxundo \<Rightarrow>
        if length vtxundo + 1 \<noteq> length (bk_vtx block) then (Inl Failed, s)
        else
          (case disconnect_txs V (b_nHeight (hd p)) True s
              (rev (zip (map (\<lambda>tx. (tx, tx_GetHash hs tx)) (bk_vtx block)) (None # map Some vtxundo))) of
             (Inl v, s) \<Rightarrow> (Inl v, s)
           | (Inr fClean, s) \<Rightarrow> (Inr fClean, snd (cache_SetBestBlock s (b_hashBlock (hd (tl p)))))))"

text \<open>What the function returns, and what it stores through the pointer when one is given.\<close>

definition disconnect_result :: "bool \<Rightarrow> verdict + bool \<Rightarrow> bool \<times> bool" where
  "disconnect_result pfClean r =
     (case r of Inl _ \<Rightarrow> (False, False) | Inr fClean \<Rightarrow> if pfClean then (True, fClean) else (fClean, False))"

end
