(* ===== verification/Ledger.thy ===== *)
theory Ledger imports Main Prelude Connect begin

text \<open>
  The ledger that a block acts on: the unspent outputs as a plain map from transaction hashes to
  coins. Spending, adding and restoring on the map, the lemma that restoring with the undo data
  inverts spending, and the refinement: \<open>UpdateCoins\<close>, \<open>ConnectBlock\<close> and \<open>DisconnectBlock\<close> of
  \<open>src/src/main.cpp\<close> act on a cache as the functions of this theory act on the map it shows.
\<close>

section \<open>Transactions on a map\<close>

type_synonym ledger = "u256 \<Rightarrow> CCoins"

fun spend_map :: "ledger \<Rightarrow> CTxIn list \<Rightarrow> (CTxUndo \<times> ledger) option" where
  "spend_map m [] = Some ([], m)"
| "spend_map m (txin # vin) =
     (case coins_Spend (m (o_hash (i_prevout txin))) (i_prevout txin) of None \<Rightarrow> None
      | Some (undo, coins) \<Rightarrow>
        (case spend_map (m(o_hash (i_prevout txin) := prune coins)) vin of None \<Rightarrow> None
         | Some (txundo, m) \<Rightarrow> Some (undo # txundo, m)))"

definition apply_tx :: "u32 \<Rightarrow> ledger \<Rightarrow> CTransaction \<times> u256 \<Rightarrow> (CTxUndo \<times> ledger) option" where
  "apply_tx nHeight m t =
     (case (if IsCoinBase (fst t) then Some ([], m) else spend_map m (tx_vin (fst t))) of None \<Rightarrow> None
      | Some (txundo, m) \<Rightarrow> Some (txundo, m(snd t := prune (coins_of_tx (fst t) nHeight))))"

fun apply_txs :: "u32 \<Rightarrow> ledger \<Rightarrow> (CTransaction \<times> u256) list \<Rightarrow> (CTxUndo list \<times> ledger) option" where
  "apply_txs nHeight m [] = Some ([], m)"
| "apply_txs nHeight m (t # ts) =
     (case apply_tx nHeight m t of None \<Rightarrow> None
      | Some (txundo, m) \<Rightarrow>
        (case apply_txs nHeight m ts of None \<Rightarrow> None
         | Some (l, m) \<Rightarrow> Some (txundo # l, m)))"

text \<open>Restoring, which stops at anything that is not clean.\<close>

fun restore_map :: "(CCoins \<Rightarrow> bool) \<Rightarrow> ledger \<Rightarrow> (CTxIn \<times> CTxInUndo) list \<Rightarrow> ledger option" where
  "restore_map ok m [] = Some m"
| "restore_map ok m ((txin, undo) # l) =
     (case restore_coins (m (o_hash (i_prevout txin))) (o_n (i_prevout txin)) undo of
        (coins, clean) \<Rightarrow>
      if clean \<and> ok coins then restore_map ok (m(o_hash (i_prevout txin) := prune coins)) l else None)"

section \<open>Restoring inverts spending\<close>

lemma null_SetNull [simp]: "txout_IsNull txout_SetNull" by (simp add: txout_IsNull_def txout_SetNull_def)

lemma prune_spendable: "coins_Spend c out = Some r \<Longrightarrow> prune c = c"
  by (auto simp: prune_def coins_Spend_def coins_IsPruned_def list_all_length Let_def split: if_split_asm)

lemma restore_Spend:
  assumes "coins_Spend c out = Some (undo, c')" "coins_clean c" "length (co_vout c) < 2 ^ 32" "co_nHeight c \<noteq> 0"
  shows "restore_coins (prune c') (o_n out) undo = (c, True)"
proof -
  define n where "n = unat (o_n out)"
  define v where "v = co_vout c"
  define w where "w = v[n := txout_SetNull]"
  have n: "n < length v" "\<not> txout_IsNull (v ! n)"
    and c': "c' = c\<lparr>co_vout := strip_spent w\<rparr>"
    and u: "undo = (if strip_spent w = [] then (undo_new (v ! n))\<lparr>un_nHeight := co_nHeight c, un_fCoinBase := co_fCoinBase c, un_nVersion := co_nVersion c\<rparr>
           else undo_new (v ! n))"
    using assms(1) by (auto simp: coins_Spend_def coins_Cleanup_def Let_def n_def v_def w_def split: if_split_asm)
  have null: "x \<in> set v \<Longrightarrow> txout_IsNull x \<Longrightarrow> x = txout_SetNull" for x
    using assms(2) by (auto simp: coins_clean_def v_def list_all_iff)
  have last: "\<not> txout_IsNull (last v)" using assms(2) n(1) by (auto simp: coins_clean_def v_def)
  have n1: "unat (o_n out + 1) = n + 1"
    using n(1) assms(3) by (simp add: n_def v_def unat_word_ariths)
  obtain zs where zs: "w = strip_spent w @ zs" "list_all txout_IsNull zs" using strip_spent_prefix by blast
  have len: "length w = length v" by (simp add: w_def)
  have wnull: "x \<in> set w \<Longrightarrow> txout_IsNull x \<Longrightarrow> x = txout_SetNull" for x
    using null set_update_subset_insert [of v n txout_SetNull] by (auto simp: w_def)
  moreover have "set zs \<subseteq> set w" using zs(1) by (metis set_append sup_ge2)
  ultimately have "\<forall>x\<in>set zs. x = txout_SetNull" using zs(2) by (auto simp: list_all_iff)
  then have zrep: "zs = replicate (length zs) txout_SetNull" by (rule replicate_length_same [symmetric])
  have ln: "zs \<noteq> [] \<Longrightarrow> length v = n + 1"
  proof (rule ccontr)
    assume z: "zs \<noteq> []" "length v \<noteq> n + 1"
    then have "last w = last v" using n(1) last_list_update [of v n txout_SetNull] by (cases "v = []") (auto simp: w_def)
    moreover have "last w = last zs" using z(1) zs(1) by (metis last_appendR)
    then have "txout_IsNull (last w)" using zs(2) z(1) by (simp add: list_all_iff)
    ultimately show False using last by simp
  qed
  have refill: "w[n := v ! n] = v" by (simp add: w_def)
  have cv: "c\<lparr>co_vout := v\<rparr> = c" by (simp add: v_def)
  have resize: "(if length (strip_spent w) < Suc n then strip_spent w @ replicate (Suc n - length (strip_spent w)) txout_SetNull
      else strip_spent w) = w"
  proof (cases "zs = []")
    case True
    then show ?thesis using zs(1) len n(1) by auto
  next
    case False
    then have "length (strip_spent w) + length zs = n + 1" using ln len zs(1) by (metis length_append)
    moreover have "length zs > 0" using False by simp
    ultimately have "length (strip_spent w) < Suc n" "Suc n - length (strip_spent w) = length zs" by linarith+
    then show ?thesis by (simp only: zrep [symmetric] zs(1) [symmetric] if_True)
  qed
  show ?thesis
  proof (cases "strip_spent w = []")
    case True
    then have p: "prune c' = coins_empty" by (simp add: c' prune_def coins_IsPruned_def)
    have "replicate (n + 1) txout_SetNull = w" using resize True by simp
    then show ?thesis using assms(4) refill True n1
      by (simp add: p u restore_coins_def Let_def undo_new_def coins_empty_def coins_IsPruned_def IsAvailable_def v_def n_def)
  next
    case False
    then have np: "\<not> coins_IsPruned c'" using strip_spent_last [OF False]
      by (auto simp: c' coins_IsPruned_def list_all_iff)
    moreover have "\<not> IsAvailable c' (o_n out)"
    proof
      assume "IsAvailable c' (o_n out)"
      then have "n < length (strip_spent w)" "\<not> txout_IsNull (strip_spent w ! n)" by (simp_all add: IsAvailable_def c' n_def)
      moreover from this have "strip_spent w ! n = w ! n" using zs(1) by (metis nth_append)
      ultimately show False using n(1) by (simp add: w_def)
    qed
    ultimately show ?thesis using resize refill n1 False cv
      by (simp add: prune_def u restore_coins_def Let_def undo_new_def c' n_def [symmetric] split del: if_split cong: if_cong)
  qed
qed

definition heights_ok :: "ledger \<Rightarrow> bool" where
  "heights_ok m \<longleftrightarrow> (\<forall>k. m k \<noteq> coins_empty \<longrightarrow> co_nHeight (m k) \<noteq> 0)"

lemma Spend_empty [simp]: "coins_Spend coins_empty out = None"
  by (simp add: coins_Spend_def coins_empty_def)

lemma Spend_height: "coins_Spend c out = Some (undo, c') \<Longrightarrow> co_nHeight c' = co_nHeight c"
  by (auto simp: coins_Spend_def coins_Cleanup_def Let_def split: if_split_asm)

lemma prune_height: "prune c \<noteq> coins_empty \<Longrightarrow> co_nHeight (prune c) = co_nHeight c"
  by (simp add: prune_def split: if_splits)

lemma strip_spent_id: "(xs \<noteq> [] \<Longrightarrow> \<not> txout_IsNull (last xs)) \<Longrightarrow> strip_spent xs = xs"
  by (cases xs rule: rev_cases) (auto simp: strip_spent_def)

lemma strip_idem: "strip_spent (strip_spent xs) = strip_spent xs"
  by (rule strip_spent_id [OF strip_spent_last])

lemma strip_spent_pruned: "list_all txout_IsNull xs \<Longrightarrow> strip_spent xs = []"
  by (simp add: strip_spent_def list_all_iff)

definition null_unspendable :: "CTxOut \<Rightarrow> CTxOut" where
  "null_unspendable txout = (if IsUnspendable (t_scriptPubKey txout) then txout_SetNull else txout)"

lemma ClearUnspendable_vout: "ClearUnspendable c = c\<lparr>co_vout := strip_spent (map null_unspendable (co_vout c))\<rparr>"
  unfolding ClearUnspendable_def coins_Cleanup_def null_unspendable_def by simp

lemma null_unspendable_idem: "null_unspendable (null_unspendable y) = null_unspendable y"
  by (simp add: null_unspendable_def)

lemma ClearUnspendable_twice: "ClearUnspendable (ClearUnspendable c) = ClearUnspendable c"
proof -
  have "map null_unspendable (strip_spent (map null_unspendable v)) = strip_spent (map null_unspendable v)" for v
  proof (rule map_idI)
    fix x assume "x \<in> set (strip_spent (map null_unspendable v))"
    then obtain y where "x = null_unspendable y" using strip_spent_set [of "map null_unspendable v"] by auto
    then show "null_unspendable x = x" by (simp add: null_unspendable_idem)
  qed
  then show ?thesis by (simp add: ClearUnspendable_vout strip_idem)
qed

lemma ClearUnspendable_idem: "ClearUnspendable (coins_of_tx tx h) = coins_of_tx tx h"
  unfolding coins_of_tx_def by (rule ClearUnspendable_twice)

lemma ClearUnspendable_pruned: "coins_IsPruned c \<Longrightarrow> coins_IsPruned (ClearUnspendable c)"
proof -
  assume "coins_IsPruned c"
  then have "list_all txout_IsNull (map null_unspendable (co_vout c))"
    by (auto simp: coins_IsPruned_def list_all_iff null_unspendable_def)
  from strip_spent_pruned [OF this] show ?thesis
    by (simp add: ClearUnspendable_vout coins_IsPruned_def)
qed

lemma coins_of_tx_height [simp]: "co_nHeight (coins_of_tx tx h) = h"
  by (simp add: coins_of_tx_def ClearUnspendable_def coins_Cleanup_def)

lemma restore_map_append:
  "restore_map ok m (xs @ ys) = (case restore_map ok m xs of None \<Rightarrow> None | Some m \<Rightarrow> restore_map ok m ys)"
proof (induction xs arbitrary: m)
  case (Cons x xs)
  then show ?case by (cases x) (simp del: fun_upd_apply split: prod.split)
qed simp

section \<open>The entry of the block\<close>

text \<open>Connecting changes the scaling factor, the money supply, the status and the undo position only.\<close>

definition same_entry :: "block_ptr \<Rightarrow> block_ptr \<Rightarrow> bool" where
  "same_entry p q \<longleftrightarrow> tl q = tl p \<and> (\<exists>x. hd q = (hd p)\<lparr>b_subsidyScalingFactor := x\<rparr>)"

lemma same_entry_refl: "same_entry p p"
  unfolding same_entry_def by (intro conjI exI [of _ "b_subsidyScalingFactor (hd p)"]) simp_all

lemma same_entry_trans: "same_entry p q \<Longrightarrow> same_entry q r \<Longrightarrow> same_entry p r"
  by (auto simp: same_entry_def)

lemma same_entry_upd: "same_entry p ((hd p)\<lparr>b_subsidyScalingFactor := x\<rparr> # tl p)"
  by (auto simp: same_entry_def)

lemma GetBlockValue_entry: "GetBlockValue pr p f ns = (v, q) \<Longrightarrow> same_entry p q"
  by (auto simp: GetBlockValue_def Let_def same_entry_refl same_entry_upd split: if_split_asm)

lemma connect_factor_entry: "same_entry p (connect_factor p)"
  by (simp add: connect_factor_def same_entry_refl same_entry_upd)

lemma coinbase_check_entry: "coinbase_check pr p out f = Inr q \<Longrightarrow> same_entry p q"
  by (auto simp: coinbase_check_def dest: GetBlockValue_entry intro: same_entry_trans split: prod.splits if_split_asm)

lemma valid_mask_undo: "((x AND NOT BLOCK_VALID_MASK) OR BLOCK_VALID_SCRIPTS) AND BLOCK_HAVE_UNDO = x AND BLOCK_HAVE_UNDO"
proof -
  have "NOT BLOCK_VALID_MASK AND BLOCK_HAVE_UNDO = BLOCK_HAVE_UNDO" "BLOCK_VALID_SCRIPTS AND BLOCK_HAVE_UNDO = 0"
    by (simp_all add: BLOCK_VALID_MASK_def BLOCK_HAVE_UNDO_def BLOCK_VALID_SCRIPTS_def)
  then show ?thesis by (simp add: bit.conj_disj_distrib2 and.assoc)
qed

lemma write_undo_entry:
  assumes "write_undo d c us h b = Inr b'" "b_nFile b \<noteq> - 1"
  shows "b_hashBlock b' = b_hashBlock b" "b_nHeight b' = b_nHeight b" "\<not> pos_IsNull (GetUndoPos b')"
proof -
  have set_undo: "(x OR BLOCK_HAVE_UNDO) AND BLOCK_HAVE_UNDO = BLOCK_HAVE_UNDO" "BLOCK_HAVE_UNDO \<noteq> 0" for x
    by (simp_all add: BLOCK_HAVE_UNDO_def bit.conj_disj_distrib2)
  show "b_hashBlock b' = b_hashBlock b" "b_nHeight b' = b_nHeight b"
    using assms(1) by (auto simp: write_undo_def Let_def split: if_split_asm option.splits sum.splits)
  show "\<not> pos_IsNull (GetUndoPos b')"
    using assms set_undo
    by (auto simp: write_undo_def Let_def GetUndoPos_def pos_IsNull_def pos_SetNull_def valid_mask_undo
        split: if_split_asm option.splits sum.splits)
qed

lemma zip_ids: "take (length xs) ys = map f xs \<Longrightarrow> zip xs ys = map (\<lambda>x. (x, f x)) xs"
proof (induction xs arbitrary: ys)
  case (Cons x xs)
  then show ?case by (cases ys) auto
qed simp

lemma connect_checked_cases:
  assumes "connect_checked e d V block p False hp s = (Inr r, s')"
  obtains st s2 s3 out q where "overwrites V s (map snd (zip (bk_vtx block) (bk_vMerkleTree block))) = Some (False, s2)"
    "connect_txs e V (height (hd p) \<ge> GetTotalBlocksEstimate (ce_fEnabled e) (ce_params e))
      (connect_flags p (h_nVersion (bh_pure (bk_header block)))) (b_nHeight (hd p))
      \<lparr> cs_nSigOps = 0, cs_nFees = 0, cs_vChecks = [], cs_vtxundo = [] \<rparr> s2 (zip (bk_vtx block) (bk_vMerkleTree block)) = (Inr st, s3)"
    "GetValueOut (bk_vtx block ! 0) = Some out"
    "coinbase_check (ce_params e) (connect_factor p) (sint out) (sint (cs_nFees st)) = Inr q"
    "wait_checks (ce_crypto e) (cs_vChecks st)"
    "connect_finish e d hp q (sint out) (zip (bk_vtx block) (bk_vMerkleTree block)) st s3 = (Inr r, s')"
  using assms unfolding connect_checked_def Let_def
  by (auto split: option.splits bool.splits prod.splits sum.splits if_split_asm)

lemma connect_finish_cases:
  assumes "connect_finish e d hp q out vtx st s = (Inr (p', us), s')"
  obtains b0 b' where "write_undo d (ce_crypto e) (cs_vtxundo st) hp b0 = Inr b'" "p' = b' # tl q" "us = cs_vtxundo st"
    "s' = s\<lparr>ch_hashBlock := b_hashBlock b'\<rparr>" "b_hashBlock b0 = b_hashBlock (hd q)" "b_nHeight b0 = b_nHeight (hd q)"
    "b_nFile b0 = b_nFile (hd q)"
proof -
  define b0 where "b0 = (hd q)\<lparr>b_nMoneySupply := word_of_int (money_supply q out (sint (cs_nFees st)))\<rparr>"
  obtain b' where b': "write_undo d (ce_crypto e) (cs_vtxundo st) hp b0 = Inr b'"
    using assms by (cases "write_undo d (ce_crypto e) (cs_vtxundo st) hp b0") (simp_all add: connect_finish_def b0_def)
  have "p' = b' # tl q" "us = cs_vtxundo st" "s' = s\<lparr>ch_hashBlock := b_hashBlock b'\<rparr>"
    using assms b' by (simp_all add: connect_finish_def b0_def [symmetric] cache_SetBestBlock_def Let_def split: if_split_asm)
  from that [OF b' this] show ?thesis by (simp add: b0_def)
qed

context coins_view
begin

definition ledger_ok :: "ledger \<Rightarrow> bool" where
  "ledger_ok m \<longleftrightarrow> (\<forall>k. ok (m k)) \<and> heights_ok m"

lemma ledger_spend:
  assumes "ledger_ok m" "coins_Spend (m k) out = Some (undo, c)"
  shows "ledger_ok (m(k := prune c))"
proof -
  have "m k \<noteq> coins_empty" using assms(2) by auto
  then have "co_nHeight c \<noteq> 0" using assms(1) Spend_height [OF assms(2)] by (simp add: ledger_ok_def heights_ok_def)
  then show ?thesis using assms(1) ok_prune [OF ok_spend [OF _ assms(2)]] prune_height [of c]
    by (auto simp: ledger_ok_def heights_ok_def)
qed

text \<open>Restoring the inputs in reverse order inverts spending them.\<close>

lemma restore_spend_map:
  assumes "ledger_ok m" "spend_map m vin = Some (us, m')"
  shows "restore_map ok m' (rev (zip vin us)) = Some m \<and> length us = length vin \<and> ledger_ok m'
    \<and> (\<forall>k. m k = coins_empty \<longrightarrow> m' k = coins_empty)"
  using assms
proof (induction vin arbitrary: m us)
  case (Cons t vin)
  let ?k = "o_hash (i_prevout t)"
  obtain u c vs where u: "coins_Spend (m ?k) (i_prevout t) = Some (u, c)"
      and r: "spend_map (m(?k := prune c)) vin = Some (vs, m')" "us = u # vs"
    using Cons.prems(2) by (auto split: option.splits prod.splits)
  note l = ledger_spend [OF Cons.prems(1) u]
  note IH = Cons.IH [OF l r(1)]
  have k: "ok (m ?k)" "m ?k \<noteq> coins_empty" using Cons.prems(1) u by (auto simp: ledger_ok_def)
  then have "restore_coins (prune c) (o_n (i_prevout t)) u = (m ?k, True)"
    using restore_Spend [OF u ok_clean ok_size] Cons.prems(1) by (simp add: ledger_ok_def heights_ok_def)
  moreover have "prune (m ?k) = m ?k" by (rule prune_spendable [OF u])
  ultimately have "restore_map ok m' (rev (zip (t # vin) us)) = Some ((m(?k := prune c))(?k := m ?k))"
    using IH k(1) r(2) by (simp add: restore_map_append fun_upd_same del: fun_upd_apply)
  moreover have "m j = coins_empty \<longrightarrow> m' j = coins_empty" for j using IH k(2) by (auto split: if_splits)
  ultimately show ?case using IH r(2) by simp
qed auto

lemma apply_tx_keeps:
  assumes "ledger_ok m" "apply_tx h m t = Some (u, m')" "h \<noteq> 0" "ok (coins_of_tx (fst t) h)"
  shows "ledger_ok m' \<and> (\<forall>k. k \<noteq> snd t \<longrightarrow> m k = coins_empty \<longrightarrow> m' k = coins_empty)"
proof -
  obtain m1 where m1: "(if IsCoinBase (fst t) then Some ([], m) else spend_map m (tx_vin (fst t))) = Some (u, m1)"
      and m': "m' = m1(snd t := prune (coins_of_tx (fst t) h))"
    using assms(2) by (auto simp: apply_tx_def split: option.splits prod.splits)
  have "ledger_ok m1 \<and> (\<forall>k. m k = coins_empty \<longrightarrow> m1 k = coins_empty)"
    using m1 assms(1) restore_spend_map [OF assms(1)] by (auto split: if_splits)
  then show ?thesis using assms(3) ok_prune [OF assms(4)] prune_height [of "coins_of_tx (fst t) h"]
    by (auto simp: m' ledger_ok_def heights_ok_def)
qed

section \<open>The cache and the map\<close>

lemma cache_coins_ok: "cache_inv s \<Longrightarrow> ok (cache_coins s k)"
  using coins_ok ok_prune by (auto simp: cache_defs split: option.split)

lemma Spend_prune: "ok c \<Longrightarrow> coins_Spend (prune c) out = coins_Spend c out"
  by (auto simp: prune_def coins_IsPruned_def coins_Spend_def list_all_length coins_empty_def Let_def not_less)

lemma ref_live: "cache_inv s \<Longrightarrow> GetCoins_ref V s k = Some (c, s') \<Longrightarrow> same s s' \<and> prune c = cache_coins s k \<and> ok c"
  using FetchCoins_spec [of s k] by (auto simp: GetCoins_ref_def same_def live_def split: prod.splits option.splits)

lemma spend_inputs_refines:
  assumes "cache_inv s" "spend_inputs V s vin = Some (us, s')"
  shows "spend_map (cache_coins s) vin = Some (us, cache_coins s') \<and> cache_inv s' \<and> cache_best s' = cache_best s"
  using assms
proof (induction vin arbitrary: s us)
  case (Cons t vin)
  let ?k = "o_hash (i_prevout t)"
  obtain c s1 u c1 vs where g: "GetCoins_ref V s ?k = Some (c, s1)" and u: "coins_Spend c (i_prevout t) = Some (u, c1)"
      and r: "spend_inputs V (cache_put s1 ?k c1) vin = Some (vs, s')" "us = u # vs"
    using Cons.prems(2) by (auto split: option.splits prod.splits)
  note p = ref_live [OF Cons.prems(1) g]
  have s1: "cache_inv s1" "ok c1" using p ok_spend [OF _ u] same_inv by auto
  note q = cache_put_spec [OF s1, of ?k]
  note IH = Cons.IH [OF q(1) r(1)]
  have "ok c" "cache_coins s ?k = prune c" using p by simp_all
  then have "coins_Spend (cache_coins s ?k) (i_prevout t) = Some (u, c1)" using u by (simp add: Spend_prune)
  moreover have "cache_coins (cache_put s1 ?k c1) = (cache_coins s)(?k := prune c1)" "cache_best (cache_put s1 ?k c1) = cache_best s"
    using q p by (simp_all add: same_def)
  ultimately show ?case using IH r(2) by (simp del: fun_upd_apply)
qed simp

lemma UpdateCoins_refines:
  assumes "cache_inv s" "UpdateCoins V s tx [] h hash = Some (u, s')" "ok (coins_of_tx tx h)"
  shows "apply_tx h (cache_coins s) (tx, hash) = Some (u, cache_coins s') \<and> cache_inv s' \<and> cache_best s' = cache_best s"
proof -
  obtain s1 where s1: "(if IsCoinBase tx then Some ([], s) else spend_inputs V s (tx_vin tx)) = Some (u, s1)"
      and s': "s' = cache_put s1 hash (coins_of_tx tx h)"
    using assms(2) by (auto simp: UpdateCoins_def cache_SetCoins_def split: option.splits prod.splits)
  have "(if IsCoinBase tx then Some ([], cache_coins s) else spend_map (cache_coins s) (tx_vin tx)) = Some (u, cache_coins s1)
      \<and> cache_inv s1 \<and> cache_best s1 = cache_best s"
    using s1 assms(1) spend_inputs_refines [OF assms(1)] by (cases "IsCoinBase tx") auto
  then show ?thesis using cache_put_spec [OF _ assms(3), of s1 hash]
    unfolding apply_tx_def s' fst_conv snd_conv by (auto split: if_splits)
qed

text \<open>Queries leave what the cache shows as it is.\<close>

lemma GetOutputFor_same: "cache_inv s \<Longrightarrow> GetOutputFor V s t = Some (v, s') \<Longrightarrow> same s s'"
  by (auto simp: GetOutputFor_def dest: ref_live split: option.splits prod.splits if_splits)

lemma p2sh_loop_same: "cache_inv s \<Longrightarrow> p2sh_loop V n s vin = Some (k, s') \<Longrightarrow> same s s'"
proof (induction vin arbitrary: n s)
  case (Cons t vin)
  obtain v s1 where g: "GetOutputFor V s t = Some (v, s1)"
    using Cons.prems(2) by (cases "GetOutputFor V s t") auto
  have s1: "same s s1" by (rule GetOutputFor_same [OF Cons.prems(1) g])
  have "same s1 s'" using Cons.prems(2) g Cons.IH [OF same_inv [OF s1]] by auto
  then show ?case by (rule same_trans [OF s1])
qed (simp add: same_refl)

lemma P2SH_same: "cache_inv s \<Longrightarrow> GetP2SHSigOpCount V s tx = Some (k, s') \<Longrightarrow> same s s'"
  by (auto simp: GetP2SHSigOpCount_def same_refl p2sh_loop_same split: if_splits)

lemma value_in_same: "cache_inv s \<Longrightarrow> value_in_loop V n s vin = Some (k, s') \<Longrightarrow> same s s'"
proof (induction vin arbitrary: n s)
  case (Cons t vin)
  obtain v s1 where g: "GetOutputFor V s t = Some (v, s1)"
    using Cons.prems(2) by (cases "GetOutputFor V s t") auto
  have s1: "same s s1" by (rule GetOutputFor_same [OF Cons.prems(1) g])
  have "same s1 s'" using Cons.prems(2) g Cons.IH [OF same_inv [OF s1]] by auto
  then show ?case by (rule same_trans [OF s1])
qed (simp add: same_refl)

lemma GetValueIn_same: "cache_inv s \<Longrightarrow> GetValueIn V s tx = Some (k, s') \<Longrightarrow> same s s'"
  by (auto simp: GetValueIn_def same_refl value_in_same split: if_splits)

lemma HaveInputs_same: "cache_inv s \<Longrightarrow> HaveInputs V s tx = Some (b, s') \<Longrightarrow> same s s'"
  using HaveInputs_spec [of s tx] by (metis option.inject prod.inject)

lemma best_same: "cache_inv s \<Longrightarrow> cache_GetBestBlock V s = (h, s') \<Longrightarrow> same s s' \<and> h = cache_best s"
  using coins_view.get_best [OF cache_is_view, of s h s'] by (simp add: cache_ops_def same_def)

lemma input_values_same: "cache_inv s \<Longrightarrow> input_values V n v s vin = (r, s') \<Longrightarrow> same s s'"
proof (induction vin arbitrary: v s)
  case (Cons t vin)
  show ?case
  proof (cases "GetCoins_ref V s (o_hash (i_prevout t))")
    case None
    then show ?thesis using Cons.prems by (simp add: same_refl)
  next
    case (Some x)
    obtain c s1 where x: "x = (c, s1)" by fastforce
    have s1: "same s s1" using ref_live [OF Cons.prems(1)] Some x by simp
    then show ?thesis using Cons.prems(2) Some x same_trans [OF s1] Cons.IH [OF same_inv [OF s1]]
      by (auto simp: Let_def split: if_splits)
  qed
qed (simp add: same_refl)

lemma script_checks_same: "cache_inv s \<Longrightarrow> script_checks c par V tx flags i s vin = (r, s') \<Longrightarrow> same s s'"
proof (induction vin arbitrary: i s r)
  case (Cons t vin)
  show ?case
  proof (cases "GetCoins_ref V s (o_hash (i_prevout t))")
    case None
    then show ?thesis using Cons.prems by (simp add: same_refl)
  next
    case (Some x)
    obtain co s1 where x: "x = (co, s1)" by fastforce
    have s1: "same s s1" using ref_live [OF Cons.prems(1)] Some x by simp
    show ?thesis using Cons.prems(2) Some x s1 same_trans [OF s1] Cons.IH [OF same_inv [OF s1]]
      by (auto split: if_splits sum.splits prod.splits)
  qed
qed (simp add: same_refl)

lemma CheckInputs_same:
  assumes "cache_inv s" "CheckInputs c mp V tx s fs flags par = (r, s')"
  shows "same s s'"
proof (cases "IsCoinBase tx")
  case True
  then show ?thesis using assms by (simp add: CheckInputs_def same_refl)
next
  case False
  obtain b s1 where h: "HaveInputs V s tx = Some (b, s1)" using HaveInputs_spec [OF assms(1)] by blast
  have s1: "same s s1" by (rule HaveInputs_same [OF assms(1) h])
  obtain g s2 where g: "cache_GetBestBlock V s1 = (g, s2)" by fastforce
  have s2: "same s s2" using best_same [OF same_inv [OF s1] g] same_trans [OF s1] by simp
  obtain v s3 where iv: "input_values V (height (hd (the (mp g))) + 1) 0 s2 (tx_vin tx) = (v, s3)" by fastforce
  have s3: "same s s3" by (rule same_trans [OF s2 input_values_same [OF same_inv [OF s2] iv]])
  obtain x s4 where sc: "script_checks c par V tx flags 0 s3 (tx_vin tx) = (x, s4)" by fastforce
  have s4: "same s s4" by (rule same_trans [OF s3 script_checks_same [OF same_inv [OF s3] sc]])
  have "s' \<in> {s1, s2, s3, s4}"
  proof (cases "b \<and> mp g \<noteq> None \<and> the (mp g) \<noteq> []")
    case True
    then have "(r, s') = (case v of Inl v \<Rightarrow> (Inl v, s3) | Inr nValueIn \<Rightarrow>
        (case fee_checks tx nValueIn of Inl v \<Rightarrow> (Inl v, s3) | Inr _ \<Rightarrow> if fs then (x, s4) else (Inr [], s3)))"
      using assms(2) False h g iv sc by (auto simp: CheckInputs_def split: sum.split)
    then show ?thesis by (auto split: sum.splits if_splits)
  qed (use assms(2) False h g in \<open>auto simp: CheckInputs_def split: option.splits bool.splits\<close>)
  then show ?thesis using s1 s2 s3 s4 by auto
qed

lemma overwrites_spec:
  "cache_inv s \<Longrightarrow> overwrites V s hs = Some (b, s') \<Longrightarrow>
     same s s' \<and> (\<not> b \<longrightarrow> (\<forall>h\<in>set hs. cache_coins s h = coins_empty))"
proof (induction hs arbitrary: s)
  case (Cons k hs)
  obtain r s1 where f: "FetchCoins V s k = (r, s1)" by fastforce
  note p = FetchCoins_spec [OF Cons.prems(1) f]
  have s1: "same s s1" using p by (simp add: same_def)
  have hv: "cache_HaveCoins V s k = (r \<noteq> None, s1)" using f by (simp add: cache_HaveCoins_def)
  have same1: "cache_coins s1 = cache_coins s" using s1 by (simp add: same_def)
  show ?case
  proof (cases r)
    case None
    then show ?thesis using Cons.prems(2) hv p Cons.IH [OF same_inv [OF s1]] same_trans [OF s1] same1 by (auto simp: live_def)
  next
    case (Some c)
    have g: "GetCoins_ref V s1 k = Some (c, s1)" using p Some by (simp add: GetCoins_ref_cached)
    show ?thesis
    proof (cases "coins_IsPruned c")
      case True
      then have "cache_coins s k = coins_empty" using p Some by (simp add: live_def prune_def)
      then show ?thesis using Cons.prems(2) hv g True Some Cons.IH [OF same_inv [OF s1]] same_trans [OF s1] same1 by auto
    qed (use Cons.prems(2) hv g Some s1 in auto)
  qed
qed (simp add: same_refl)

section \<open>Connecting\<close>

text \<open>What a transaction that is not a coinbase went through.\<close>

lemma connect_tx_cases:
  assumes "cache_inv s" "connect_tx e V fs flags h st s tx hash = (Inr st', s')" "\<not> IsCoinBase tx"
  obtains s1 k s2 a s3 b vChecks s4 u where "HaveInputs V s tx = Some (True, s1)" "GetP2SHSigOpCount V s1 tx = Some (k, s2)"
    "GetValueIn V s2 tx = Some (a, s3)" "GetValueOut tx = Some b"
    "CheckInputs (ce_crypto e) (ce_mapBlockIndex e) V tx s3 fs flags (ce_nScriptCheckThreads e) = (Inr vChecks, s4)"
    "UpdateCoins V s4 tx [] h hash = Some (u, s')" "same s s4"
    "cs_nSigOps st + GetLegacySigOpCount tx + k \<le> MAX_BLOCK_SIGOPS"
    "st' = \<lparr> cs_nSigOps = cs_nSigOps st + GetLegacySigOpCount tx + k, cs_nFees = cs_nFees st + (a - b),
        cs_vChecks = cs_vChecks st @ vChecks, cs_vtxundo = cs_vtxundo st @ [u] \<rparr>"
proof -
  have big: "\<not> cs_nSigOps st + GetLegacySigOpCount tx > MAX_BLOCK_SIGOPS" using assms(2) by (simp add: connect_tx_def Let_def split: if_splits)
  obtain hv s1 where hv: "HaveInputs V s tx = Some (hv, s1)" using HaveInputs_spec [OF assms(1)] by blast
  have h: "HaveInputs V s tx = Some (True, s1)" using assms(2,3) big hv by (cases hv) (simp_all add: connect_tx_def Let_def)
  have "GetP2SHSigOpCount V s1 tx \<noteq> None"
  proof
    assume "GetP2SHSigOpCount V s1 tx = None"
    then show False using assms(2,3) big h by (simp add: connect_tx_def Let_def)
  qed
  then obtain k s2 where p: "GetP2SHSigOpCount V s1 tx = Some (k, s2)" by auto
  have k: "\<not> cs_nSigOps st + GetLegacySigOpCount tx + k > MAX_BLOCK_SIGOPS"
  proof
    assume "cs_nSigOps st + GetLegacySigOpCount tx + k > MAX_BLOCK_SIGOPS"
    then show False using assms(2,3) big h p by (simp add: connect_tx_def Let_def)
  qed
  have "GetValueIn V s2 tx \<noteq> None"
  proof
    assume "GetValueIn V s2 tx = None"
    then show False using assms(2,3) big h p k by (simp add: connect_tx_def Let_def)
  qed
  then obtain a s3 where a: "GetValueIn V s2 tx = Some (a, s3)" by auto
  obtain b where b: "GetValueOut tx = Some b"
    using assms(2,3) big h p k a by (cases "GetValueOut tx") (simp_all add: connect_tx_def Let_def)
  obtain r s4 where c: "CheckInputs (ce_crypto e) (ce_mapBlockIndex e) V tx s3 fs flags (ce_nScriptCheckThreads e) = (r, s4)" by fastforce
  obtain vChecks where r: "r = Inr vChecks"
    using assms(2,3) big h p k a b c by (cases r) (simp_all add: connect_tx_def Let_def)
  have "UpdateCoins V s4 tx [] h hash \<noteq> None"
  proof
    assume "UpdateCoins V s4 tx [] h hash = None"
    then show False using assms(2,3) big h p k a b c r by (simp add: connect_tx_def Let_def)
  qed
  then obtain u s5 where u5: "UpdateCoins V s4 tx [] h hash = Some (u, s5)" by auto
  have u: "UpdateCoins V s4 tx [] h hash = Some (u, s')" using assms(2,3) big h p k a b c r u5 by (simp add: connect_tx_def Let_def)
  have st': "st' = \<lparr> cs_nSigOps = cs_nSigOps st + GetLegacySigOpCount tx + k, cs_nFees = cs_nFees st + (a - b),
        cs_vChecks = cs_vChecks st @ vChecks, cs_vtxundo = cs_vtxundo st @ [u] \<rparr>"
    using assms(2,3) big h p k a b c r u by (cases st) (simp add: connect_tx_def Let_def eq_commute [of _ st'])
  have "same s s1" by (rule HaveInputs_same [OF assms(1) h])
  moreover from this have "same s s2" using P2SH_same [OF same_inv p] same_trans by blast
  moreover from this have "same s s3" using GetValueIn_same [OF same_inv a] same_trans by blast
  moreover from this have "same s s4" using CheckInputs_same [OF same_inv c] same_trans by blast
  ultimately show ?thesis using that [OF h p a b c [unfolded r] u _ _ st'] k by simp
qed

lemma connect_tx_refines:
  assumes "cache_inv s" "connect_tx e V fs flags h st s tx hash = (Inr st', s')" "ok (coins_of_tx tx h)"
  shows "\<exists>u. apply_tx h (cache_coins s) (tx, hash) = Some (u, cache_coins s') \<and> cache_inv s' \<and> cache_best s' = cache_best s
    \<and> cs_vtxundo st' = cs_vtxundo st @ (if IsCoinBase tx then [] else [u])"
proof (cases "IsCoinBase tx")
  case True
  have big: "\<not> cs_nSigOps st + GetLegacySigOpCount tx > MAX_BLOCK_SIGOPS" using assms(2) by (simp add: connect_tx_def Let_def split: if_splits)
  obtain u where u: "UpdateCoins V s tx [] h hash = Some (u, s')" and "cs_vtxundo st' = cs_vtxundo st"
    using assms(2) True big by (cases "UpdateCoins V s tx [] h hash") (auto simp: connect_tx_def Let_def)
  then show ?thesis using UpdateCoins_refines [OF assms(1) u assms(3)] True by auto
next
  case False
  obtain s4 u where u: "UpdateCoins V s4 tx [] h hash = Some (u, s')" and "same s s4" "cs_vtxundo st' = cs_vtxundo st @ [u]"
    by (rule connect_tx_cases [OF assms(1,2) False]) auto
  then show ?thesis using UpdateCoins_refines [OF same_inv u assms(3)] False by (auto simp: same_def)
qed

definition kept_undo :: "(CTransaction \<times> u256) list \<Rightarrow> CTxUndo list \<Rightarrow> CTxUndo list" where
  "kept_undo ts us = map snd (filter (\<lambda>(t, u). \<not> IsCoinBase (fst t)) (zip ts us))"

lemma connect_txs_refines:
  assumes "cache_inv s" "connect_txs e V fs flags h st s ts = (Inr st', s')" "\<forall>t\<in>set ts. ok (coins_of_tx (fst t) h)"
  shows "\<exists>us. apply_txs h (cache_coins s) ts = Some (us, cache_coins s') \<and> length us = length ts \<and> cache_inv s'
    \<and> cache_best s' = cache_best s \<and> cs_vtxundo st' = cs_vtxundo st @ kept_undo ts us"
  using assms
proof (induction ts arbitrary: s st)
  case (Cons t ts)
  obtain tx hash where t: "t = (tx, hash)" by fastforce
  obtain st1 s1 where c: "connect_tx e V fs flags h st s tx hash = (Inr st1, s1)"
      and r: "connect_txs e V fs flags h st1 s1 ts = (Inr st', s')"
    using Cons.prems(2) t by (auto split: prod.splits sum.splits)
  obtain u where u: "apply_tx h (cache_coins s) (tx, hash) = Some (u, cache_coins s1)" "cache_inv s1" "cache_best s1 = cache_best s"
      "cs_vtxundo st1 = cs_vtxundo st @ (if IsCoinBase tx then [] else [u])"
    using connect_tx_refines [OF Cons.prems(1) c] Cons.prems(3) t by auto
  obtain us where "apply_txs h (cache_coins s1) ts = Some (us, cache_coins s')" "length us = length ts" "cache_inv s'"
      "cache_best s' = cache_best s1" "cs_vtxundo st' = cs_vtxundo st1 @ kept_undo ts us"
    using Cons.IH [OF u(2) r] Cons.prems(3) by auto
  then show ?case using u t by (intro exI [of _ "u # us"]) (simp add: kept_undo_def)
qed (simp add: kept_undo_def)

section \<open>Disconnecting\<close>

lemma restore_same:
  assumes "ok c" "restore_coins (prune c) n undo = (c', True)"
  shows "restore_coins c n undo = (c', True)"
proof (cases "coins_IsPruned c")
  case True
  then have p: "prune c = coins_empty" by (simp add: prune_def)
  show ?thesis using assms(2) True unfolding p
    by (cases "un_nHeight undo = 0") (auto simp: restore_coins_def Let_def coins_empty_def coins_IsPruned_def)
qed (use assms(2) in \<open>simp add: prune_def\<close>)

lemma restore_inputs_refines:
  assumes "cache_inv s" "restore_map ok (cache_coins s) l = Some m"
  shows "\<exists>s'. restore_inputs V True s l = Some (True, s') \<and> cache_inv s' \<and> cache_coins s' = m \<and> cache_best s' = cache_best s"
  using assms
proof (induction l arbitrary: s)
  case (Cons x l)
  obtain t u where x: "x = (t, u)" by fastforce
  let ?k = "o_hash (i_prevout t)"
  obtain c where c: "restore_coins (cache_coins s ?k) (o_n (i_prevout t)) u = (c, True)" "ok c"
      and r: "restore_map ok ((cache_coins s)(?k := prune c)) l = Some m"
    using Cons.prems(2) x by (auto split: prod.splits if_splits)
  obtain r1 s1 where f: "FetchCoins V s ?k = (r1, s1)" by fastforce
  note p = FetchCoins_spec [OF Cons.prems(1) f]
  have s1: "same s s1" using p by (simp add: same_def)
  define c0 where "c0 = (case r1 of None \<Rightarrow> coins_empty | Some coins \<Rightarrow> coins)"
  have c0: "ok c0" "prune c0 = cache_coins s ?k"
    using p ok_empty by (auto simp: c0_def live_def prune_def split: option.splits)
  then have rc: "restore_coins c0 (o_n (i_prevout t)) u = (c, True)" using restore_same c(1) by simp
  note q = cache_put_spec [OF same_inv [OF s1] c(2), of ?k]
  have e: "cache_coins (cache_put s1 ?k c) = (cache_coins s)(?k := prune c)" "cache_best (cache_put s1 ?k c) = cache_best s"
    using q s1 by (simp_all add: same_def)
  have "restore_inputs V True s (x # l) = restore_inputs V True (cache_put s1 ?k c) l"
    using f rc x by (simp add: cache_GetCoins_Fetch c0_def cache_SetCoins_def)
  moreover have "\<exists>s'. restore_inputs V True (cache_put s1 ?k c) l = Some (True, s') \<and> cache_inv s' \<and> cache_coins s' = m
      \<and> cache_best s' = cache_best s"
    using Cons.IH [OF q(1), unfolded e, OF r] .
  ultimately show ?case by simp
qed simp

lemma remove_outputs_refines:
  assumes "cache_inv s" "cache_coins s hash = prune (coins_of_tx tx h)" "ok (coins_of_tx tx h)"
  shows "\<exists>s'. remove_outputs V h s tx hash = Some (True, s') \<and> cache_inv s' \<and> cache_coins s' = (cache_coins s)(hash := coins_empty)
    \<and> cache_best s' = cache_best s"
proof -
  obtain r s1 where f: "FetchCoins V s hash = (r, s1)" by fastforce
  note p = FetchCoins_spec [OF assms(1) f]
  have s1: "same s s1" using p by (simp add: same_def)
  define outs where "outs = (case r of None \<Rightarrow> coins_empty | Some coins \<Rightarrow> coins)"
  have out: "ok outs" "prune outs = prune (coins_of_tx tx h)"
    using p ok_empty assms(2) by (auto simp: outs_def live_def prune_def split: option.splits)
  have idem: "ClearUnspendable (coins_of_tx tx h) = coins_of_tx tx h" by (rule ClearUnspendable_idem)
  have eq: "coins_eq (let v = ClearUnspendable outs in
      if sint (co_nVersion (coins_of_tx tx h)) < 0 then v\<lparr>co_nVersion := co_nVersion (coins_of_tx tx h)\<rparr> else v) (coins_of_tx tx h)"
  proof (cases "coins_IsPruned (coins_of_tx tx h)")
    case True
    then have "prune outs = coins_empty" using out(2) by (simp add: prune_def)
    then have "coins_IsPruned outs" by (auto simp: prune_def coins_IsPruned_def coins_empty_def split: if_splits)
    then have "coins_IsPruned (ClearUnspendable outs)" by (rule ClearUnspendable_pruned)
    then show ?thesis using True by (simp add: coins_eq_def coins_IsPruned_def Let_def)
  next
    case False
    then have "outs = coins_of_tx tx h" using out(2)
      by (auto simp: prune_def coins_empty_def coins_IsPruned_def split: if_splits)
    then show ?thesis by (simp add: idem coins_eq_def Let_def)
  qed
  show ?thesis
  proof (cases r)
    case None
    then have e: "cache_coins s hash = coins_empty" using out(2) assms(2) by (simp add: outs_def prune_def split: if_splits)
    have "remove_outputs V h s tx hash = Some (True, s1)"
      using eq None f by (simp add: remove_outputs_def cache_HaveCoins_def outs_def Let_def)
    then show ?thesis using s1 e by (auto simp: same_def fun_eq_iff)
  next
    case (Some c)
    then have "remove_outputs V h s tx hash = Some (True, cache_put s1 hash coins_empty)"
      using eq f p by (simp add: remove_outputs_def cache_HaveCoins_def outs_def Let_def GetCoins_ref_cached)
    moreover have "prune coins_empty = coins_empty" by (simp add: prune_def)
    ultimately show ?thesis using cache_put_spec [OF same_inv [OF s1] ok_empty, of hash] s1 by (auto simp: same_def)
  qed
qed

lemma disconnect_txs_append:
  "disconnect_txs V h fl s (xs @ ys) =
     (case disconnect_txs V h fl s xs of (Inl v, s) \<Rightarrow> (Inl v, s) | (Inr fl, s) \<Rightarrow> disconnect_txs V h fl s ys)"
proof (induction xs arbitrary: fl s)
  case (Cons x xs)
  obtain tx hash u where "x = ((tx, hash), u)" by (metis surj_pair)
  with Cons show ?case by (simp add: Let_def split: option.split prod.split)
qed simp

text \<open>One transaction.\<close>

lemma disconnect_tx:
  assumes "ledger_ok m" "apply_tx h m (tx, hash) = Some (u, cache_coins s)" "cache_inv s" "m hash = coins_empty"
    "ok (coins_of_tx tx h)"
  shows "\<exists>s'. disconnect_txs V h True s [((tx, hash), if IsCoinBase tx then None else Some u)] = (Inr True, s')
    \<and> cache_inv s' \<and> cache_coins s' = m \<and> cache_best s' = cache_best s"
proof -
  obtain m1 where m1: "(if IsCoinBase tx then Some ([], m) else spend_map m (tx_vin tx)) = Some (u, m1)"
      and c: "cache_coins s = m1(hash := prune (coins_of_tx tx h))"
    using assms(2) unfolding apply_tx_def fst_conv snd_conv by (auto split: option.splits)
  obtain s1 where s1: "remove_outputs V h s tx hash = Some (True, s1)" "cache_inv s1"
      "cache_coins s1 = (cache_coins s)(hash := coins_empty)" "cache_best s1 = cache_best s"
    using remove_outputs_refines [OF assms(3) _ assms(5), of hash] c by auto
  have e: "m1 hash = coins_empty"
    using m1 assms(4) restore_spend_map [OF assms(1)] by (auto split: if_splits)
  then have "cache_coins s1 = m1" unfolding s1(3) c by auto
  show ?thesis
  proof (cases "IsCoinBase tx")
    case True
    then show ?thesis using s1 m1 \<open>cache_coins s1 = m1\<close> by simp
  next
    case False
    then have r: "restore_map ok (cache_coins s1) (rev (zip (tx_vin tx) u)) = Some m" "length u = length (tx_vin tx)"
      using restore_spend_map [OF assms(1)] m1 \<open>cache_coins s1 = m1\<close> by auto
    obtain s2 where "restore_inputs V True s1 (rev (zip (tx_vin tx) u)) = Some (True, s2)" "cache_inv s2" "cache_coins s2 = m"
        "cache_best s2 = cache_best s1"
      using restore_inputs_refines [OF s1(2) r(1)] by blast
    then show ?thesis using False s1 r(2) by simp
  qed
qed

definition undo_pairs :: "(CTransaction \<times> u256) list \<Rightarrow> CTxUndo list \<Rightarrow> ((CTransaction \<times> u256) \<times> CTxUndo option) list" where
  "undo_pairs ts us = map (\<lambda>(t, u). (t, if IsCoinBase (fst t) then None else Some u)) (zip ts us)"

lemma disconnect_apply_txs:
  assumes "ledger_ok m" "apply_txs h m ts = Some (us, cache_coins s)" "cache_inv s" "distinct (map snd ts)"
    "\<forall>t\<in>set ts. m (snd t) = coins_empty \<and> ok (coins_of_tx (fst t) h)" "h \<noteq> 0"
  shows "\<exists>s'. disconnect_txs V h True s (rev (undo_pairs ts us)) = (Inr True, s') \<and> cache_inv s' \<and> cache_coins s' = m
    \<and> cache_best s' = cache_best s"
  using assms
proof (induction ts arbitrary: m us)
  case (Cons t ts)
  obtain tx hash where t: "t = (tx, hash)" by fastforce
  obtain u m1 vs where a: "apply_tx h m (tx, hash) = Some (u, m1)" and r: "apply_txs h m1 ts = Some (vs, cache_coins s)"
      "us = u # vs"
    using Cons.prems(2) t by (auto split: option.splits prod.splits)
  have k: "ledger_ok m1" "\<forall>k. k \<noteq> hash \<longrightarrow> m k = coins_empty \<longrightarrow> m1 k = coins_empty"
    using apply_tx_keeps [OF Cons.prems(1) a Cons.prems(6)] Cons.prems(5) t by auto
  have "\<forall>x\<in>set ts. m1 (snd x) = coins_empty \<and> ok (coins_of_tx (fst x) h)"
    using Cons.prems(4,5) k(2) t by force
  then obtain s1 where s1: "disconnect_txs V h True s (rev (undo_pairs ts vs)) = (Inr True, s1)" "cache_inv s1"
      "cache_coins s1 = m1" "cache_best s1 = cache_best s"
    using Cons.IH [OF k(1) r(1) Cons.prems(3)] Cons.prems(4,6) by auto
  obtain s2 where "disconnect_txs V h True s1 [((tx, hash), if IsCoinBase tx then None else Some u)] = (Inr True, s2)"
      "cache_inv s2" "cache_coins s2 = m" "cache_best s2 = cache_best s1"
    using disconnect_tx [of m h tx hash u s1] Cons.prems(1,5) a s1 t by auto
  then show ?case using s1 t r(2) by (simp add: undo_pairs_def disconnect_txs_append)
qed (simp add: undo_pairs_def)

section \<open>Blocks\<close>

text \<open>The effect of a block that connects: its transactions, each with its own hash, are applied to
  the map; none of the hashes had coins before.\<close>

lemma ConnectBlock_effect:
  assumes "cache_inv s" "ConnectBlock e d nNow adj V block (b # q) False ff s = (Inr (p', us), s')"
    "header_GetHash (pe_hf (ce_pow e)) (bh_pure (bk_header block)) \<noteq> ce_hashGenesis e"
    "\<forall>tx\<in>set (bk_vtx block). ok (coins_of_tx tx (b_nHeight b))" "b_hashBlock b \<noteq> 0" "b_nFile b \<noteq> - 1"
    "ts = map (\<lambda>tx. (tx, tx_GetHash (pe_hs (ce_pow e)) tx)) (bk_vtx block)"
  obtains vs b' st s0 s1 out q' where "apply_txs (b_nHeight b) (cache_coins s) ts = Some (vs, cache_coins s')" "us = kept_undo ts vs"
    "length vs = length ts" "cache_inv s'" "cache_best s' = b_hashBlock b" "cache_best s = (if q = [] then 0 else b_hashBlock (hd q))"
    "p' = b' # q" "b_hashBlock b' = b_hashBlock b" "b_nHeight b' = b_nHeight b" "\<not> pos_IsNull (GetUndoPos b')"
    "distinct (map snd ts)" "\<forall>t\<in>set ts. cache_coins s (snd t) = coins_empty"
    "bk_vtx block \<noteq> []" "IsCoinBase (hd (bk_vtx block))" "\<not> list_ex IsCoinBase (tl (bk_vtx block))"
    "cache_inv s0" "cache_coins s0 = cache_coins s" "cache_best s0 = cache_best s"
    "connect_txs e V (height b \<ge> GetTotalBlocksEstimate (ce_fEnabled e) (ce_params e)) (connect_flags (b # q) (h_nVersion (bh_pure (bk_header block))))
      (b_nHeight b) \<lparr> cs_nSigOps = 0, cs_nFees = 0, cs_vChecks = [], cs_vtxundo = [] \<rparr> s0 ts = (Inr st, s1)"
    "cache_coins s' = cache_coins s1" "wait_checks (ce_crypto e) (cs_vChecks st)"
    "GetValueOut (hd (bk_vtx block)) = Some out"
    "coinbase_check (ce_params e) (connect_factor (b # q)) (sint out) (sint (cs_nFees st)) = Inr q'"
proof -
  obtain block' where cb: "fst (CheckBlock (ce_pow e) (ce_params e) nNow adj block True True ff) = Inr block'"
    using assms(2) by (cases "fst (CheckBlock (ce_pow e) (ce_params e) nNow adj block True True ff)") (simp_all add: ConnectBlock_def)
  note acc = CheckBlock_accepted [OF cb]
  define ids where "ids = map (tx_GetHash (pe_hs (ce_pow e))) (bk_vtx block)"
  have hdr: "bk_header block' = bk_header block" "bk_vtx block' = bk_vtx block" by (simp_all add: acc(4))
  have "take (length ids) (bk_vMerkleTree block') = ids"
    using length_tree [of ids] by (simp add: acc(4) ids_def)
  then have zip: "zip (bk_vtx block') (bk_vMerkleTree block') = ts"
    unfolding assms(7) hdr(2) by (intro zip_ids) (simp add: ids_def)
  define hp where "hp = (if q = [] then 0 else b_hashBlock (hd q))"
  obtain h s0 where g: "cache_GetBestBlock V s = (h, s0)" by fastforce
  have s0: "same s s0" "h = cache_best s" using best_same [OF assms(1) g] by auto
  have c: "connect_checked e d V block' (b # q) False hp s0 = (Inr (p', us), s')" "hp = h"
    using assms(2,3) cb g hdr by (auto simp: ConnectBlock_def Let_def hp_def split: if_split_asm)
  obtain st s2 s3 out q' where f: "overwrites V s0 (map snd ts) = Some (False, s2)"
      "connect_txs e V (height b \<ge> GetTotalBlocksEstimate (ce_fEnabled e) (ce_params e)) (connect_flags (b # q) (h_nVersion (bh_pure (bk_header block))))
        (b_nHeight b) \<lparr> cs_nSigOps = 0, cs_nFees = 0, cs_vChecks = [], cs_vtxundo = [] \<rparr> s2 ts = (Inr st, s3)"
      "GetValueOut (bk_vtx block ! 0) = Some out"
      "coinbase_check (ce_params e) (connect_factor (b # q)) (sint out) (sint (cs_nFees st)) = Inr q'"
      "wait_checks (ce_crypto e) (cs_vChecks st)" "connect_finish e d hp q' (sint out) ts st s3 = (Inr (p', us), s')"
    by (rule connect_checked_cases [OF c(1), unfolded hdr zip [unfolded hdr] list.sel]) blast
  have ov: "same s0 s2" "\<forall>h\<in>set (map snd ts). cache_coins s0 h = coins_empty"
    using overwrites_spec [OF same_inv [OF s0(1)] f(1)] by auto
  have s2: "same s s2" by (rule same_trans [OF s0(1) ov(1)])
  have "\<forall>t\<in>set ts. ok (coins_of_tx (fst t) (b_nHeight b))" using assms(4,7) by auto
  from connect_txs_refines [OF same_inv [OF s2] f(2) this] obtain vs where
    vs: "apply_txs (b_nHeight b) (cache_coins s2) ts = Some (vs, cache_coins s3)" "length vs = length ts" "cache_inv s3"
      "cache_best s3 = cache_best s2" "cs_vtxundo st = kept_undo ts vs" by auto
  have e: "same_entry (b # q) q'" by (rule same_entry_trans [OF connect_factor_entry coinbase_check_entry [OF f(4)]])
  obtain b0 b' where b': "write_undo d (ce_crypto e) (cs_vtxundo st) hp b0 = Inr b'" "p' = b' # q" "us = cs_vtxundo st"
      "s' = s3\<lparr>ch_hashBlock := b_hashBlock b'\<rparr>" "b_hashBlock b0 = b_hashBlock b" "b_nHeight b0 = b_nHeight b" "b_nFile b0 = b_nFile b"
  proof (rule connect_finish_cases [OF f(6)])
    fix b0 b'
    assume w: "write_undo d (ce_crypto e) (cs_vtxundo st) hp b0 = Inr b'" "p' = b' # tl q'" "us = cs_vtxundo st"
      "s' = s3\<lparr>ch_hashBlock := b_hashBlock b'\<rparr>" "b_hashBlock b0 = b_hashBlock (hd q')"
      "b_nHeight b0 = b_nHeight (hd q')" "b_nFile b0 = b_nFile (hd q')"
    then show thesis using e by (intro that [of b0 b']) (auto simp: same_entry_def)
  qed
  have b0: "b_hashBlock b' = b_hashBlock b" "b_nHeight b' = b_nHeight b" "\<not> pos_IsNull (GetUndoPos b')"
    using write_undo_entry [OF b'(1)] b'(5-7) assms(6) by auto
  have s': "cache_inv s'" "cache_coins s' = cache_coins s3" "cache_best s' = b_hashBlock b"
    using vs(3) b0(1) assms(5) by (auto simp: b'(4) cache_defs fun_eq_iff split: option.split)
  show ?thesis
  proof (rule that [OF _ _ vs(2) s'(1) s'(3) _ b'(2) b0 _ _ acc(2) acc(5) acc(6) same_inv [OF s2] _ _ f(2) s'(2) f(5) _ f(4)])
    show "apply_txs (b_nHeight b) (cache_coins s) ts = Some (vs, cache_coins s')" "cache_coins s2 = cache_coins s"
      "cache_best s2 = cache_best s"
      using vs(1) s2 s'(2) by (simp_all add: same_def)
    show "us = kept_undo ts vs" using b'(3) vs(5) by simp
    show "cache_best s = (if q = [] then 0 else b_hashBlock (hd q))" using s0(2) c(2) by (simp add: hp_def)
    show "distinct (map snd ts)" using acc(1) by (simp add: assms(7) comp_def)
    show "\<forall>t\<in>set ts. cache_coins s (snd t) = coins_empty" using ov(2) s0(1) by (auto simp: same_def)
    show "GetValueOut (hd (bk_vtx block)) = Some out" using f(3) acc(2) by (simp add: hd_conv_nth)
  qed
qed

lemma undo_pairs_block:
  assumes "length vs = length ts" "ts \<noteq> []" "IsCoinBase (fst (hd ts))" "\<not> list_ex (\<lambda>t. IsCoinBase (fst t)) (tl ts)"
  shows "kept_undo ts vs = tl vs" "undo_pairs ts vs = zip ts (None # map Some (tl vs))"
proof -
  have rest: "\<forall>t\<in>set xs. \<not> IsCoinBase (fst t) \<Longrightarrow> length ys = length xs \<Longrightarrow>
      kept_undo xs ys = ys \<and> undo_pairs xs ys = zip xs (map Some ys)" for xs ys
  proof (induction xs arbitrary: ys)
    case (Cons x xs)
    then show ?case by (cases ys) (auto simp: kept_undo_def undo_pairs_def)
  qed (simp add: kept_undo_def undo_pairs_def)
  obtain t ts' v vs' where e: "ts = t # ts'" "vs = v # vs'" using assms(1,2) by (cases ts; cases vs) auto
  have "\<forall>t\<in>set ts'. \<not> IsCoinBase (fst t)" using assms(4) e by (auto simp: list_ex_iff)
  from rest [OF this, of vs'] show "kept_undo ts vs = tl vs" "undo_pairs ts vs = zip ts (None # map Some (tl vs))"
    using assms(1,3) e by (simp_all add: kept_undo_def undo_pairs_def)
qed

text \<open>Disconnecting the block that was just connected restores the map, and finds nothing unclean.\<close>

lemma Disconnect_Connect_at:
  assumes "cache_inv s" "ConnectBlock e d nNow adj V block (b # q) False ff s = (Inr (p', us), s')"
    "header_GetHash (pe_hf (ce_pow e)) (bh_pure (bk_header block)) \<noteq> ce_hashGenesis e"
    "\<forall>tx\<in>set (bk_vtx block). ok (coins_of_tx tx (b_nHeight b))" "b_hashBlock b \<noteq> 0" "b_nFile b \<noteq> - 1"
    "q \<noteq> []" "b_hashBlock (hd q) \<noteq> 0" "b_nHeight b \<noteq> 0" "heights_ok (cache_coins s)"
    "ReadFromDisk (GetUndoPos (hd p')) (b_hashBlock (hd q)) = Some us"
    and at: "cache_inv t" "cache_coins t = cache_coins s'" "cache_best t = cache_best s'"
  shows "\<exists>s''. DisconnectBlock V (pe_hs (ce_pow e)) ReadFromDisk block p' t = (Inr True, s'') \<and> cache_inv s''
    \<and> cache_coins s'' = cache_coins s \<and> cache_best s'' = cache_best s"
proof -
  define ts where "ts = map (\<lambda>tx. (tx, tx_GetHash (pe_hs (ce_pow e)) tx)) (bk_vtx block)"
  obtain vs b' where a: "apply_txs (b_nHeight b) (cache_coins s) ts = Some (vs, cache_coins s')" "us = kept_undo ts vs"
      "length vs = length ts" "cache_inv s'" "cache_best s' = b_hashBlock b" "cache_best s = (if q = [] then 0 else b_hashBlock (hd q))"
      "p' = b' # q" "b_hashBlock b' = b_hashBlock b" "b_nHeight b' = b_nHeight b" "\<not> pos_IsNull (GetUndoPos b')"
      "distinct (map snd ts)" "\<forall>t\<in>set ts. cache_coins s (snd t) = coins_empty" "bk_vtx block \<noteq> []"
      "IsCoinBase (hd (bk_vtx block))" "\<not> list_ex IsCoinBase (tl (bk_vtx block))"
    by (rule ConnectBlock_effect [OF assms(1-6) ts_def]) blast
  have us: "us = tl vs" "undo_pairs ts vs = zip ts (None # map Some us)"
    using undo_pairs_block [OF a(3)] a(2,13-15) by (auto simp: ts_def hd_map map_tl [symmetric] list_ex_iff)
  obtain h s1 where g: "cache_GetBestBlock V t = (h, s1)" by fastforce
  have s1: "same t s1" "h = b_hashBlock b" using best_same [OF at(1) g] at(3) a(5) by auto
  have "ledger_ok (cache_coins s)" using assms(1,10) cache_coins_ok by (simp add: ledger_ok_def)
  from disconnect_apply_txs [OF this _ same_inv [OF s1(1)] a(11) _ assms(9)] a(1,12) assms(4) s1(1) at(2)
  obtain s2 where s2: "disconnect_txs V (b_nHeight b) True s1 (rev (undo_pairs ts vs)) = (Inr True, s2)" "cache_inv s2"
      "cache_coins s2 = cache_coins s" "cache_best s2 = cache_best s1"
    by (auto simp: same_def ts_def)
  have len: "length us + 1 = length (bk_vtx block)" using us(1) a(3,13) by (simp add: ts_def)
  have "DisconnectBlock V (pe_hs (ce_pow e)) ReadFromDisk block p' t = (Inr True, snd (cache_SetBestBlock s2 (b_hashBlock (hd q))))"
    using g s1(2) a(7-10) assms(7,11) len s2(1) us(2) by (simp add: DisconnectBlock_def ts_def [symmetric])
  moreover have "cache_inv (s2\<lparr>ch_hashBlock := x\<rparr>) \<and> cache_coins (s2\<lparr>ch_hashBlock := x\<rparr>) = cache_coins s2" for x
    using s2(2) by (auto simp: cache_defs fun_eq_iff split: option.split)
  ultimately show ?thesis using s2(3) a(6) assms(7,8) by (simp add: cache_SetBestBlock_def cache_best_def)
qed

lemma Disconnect_Connect:
  assumes "cache_inv s" "ConnectBlock e d nNow adj V block (b # q) False ff s = (Inr (p', us), s')"
    "header_GetHash (pe_hf (ce_pow e)) (bh_pure (bk_header block)) \<noteq> ce_hashGenesis e"
    "\<forall>tx\<in>set (bk_vtx block). ok (coins_of_tx tx (b_nHeight b))" "b_hashBlock b \<noteq> 0" "b_nFile b \<noteq> - 1"
    "q \<noteq> []" "b_hashBlock (hd q) \<noteq> 0" "b_nHeight b \<noteq> 0" "heights_ok (cache_coins s)"
    "ReadFromDisk (GetUndoPos (hd p')) (b_hashBlock (hd q)) = Some us"
  shows "\<exists>s''. DisconnectBlock V (pe_hs (ce_pow e)) ReadFromDisk block p' s' = (Inr True, s'') \<and> cache_inv s''
    \<and> cache_coins s'' = cache_coins s \<and> cache_best s'' = cache_best s"
proof -
  obtain vs where "cache_inv s'"
    by (rule ConnectBlock_effect [OF assms(1-6) refl]) blast
  then show ?thesis using Disconnect_Connect_at [where ReadFromDisk = ReadFromDisk and t = s', OF assms] by simp
qed

end

end
