(* ===== verification/Supply.thy ===== *)
theory Supply imports Main Prelude Ledger begin

text \<open>
  The value of the ledger (\<open>src/src/main.cpp\<close>): the sum of the unspent outputs, which no block
  raises by more than its subsidy, and the values that \<open>CheckInputs\<close> and \<open>ConnectBlock\<close> add up.
\<close>

section \<open>The value of the unspent outputs\<close>

definition coin_value :: "CTxOut \<Rightarrow> int" where
  "coin_value v = (if txout_IsNull v then 0 else sint (t_nValue v))"

definition coins_value :: "CCoins \<Rightarrow> int" where
  "coins_value c = sum_list (map coin_value (co_vout c))"

definition ledger_value :: "ledger \<Rightarrow> int" where
  "ledger_value m = (\<Sum>k\<in>UNIV. coins_value (m k))"

definition coins_ranged :: "CCoins \<Rightarrow> bool" where
  "coins_ranged c \<longleftrightarrow> list_all (\<lambda>v. 0 \<le> coin_value v) (co_vout c)"

definition values_ok :: "ledger \<Rightarrow> bool" where
  "values_ok m \<longleftrightarrow> (\<forall>k. coins_ranged (m k))"

lemma value_upd: "ledger_value (m(k := c)) = ledger_value m - coins_value (m k) + coins_value c"
proof -
  have "(\<Sum>j\<in>UNIV. coins_value ((m(k := c)) j)) = coins_value c + (\<Sum>j\<in>UNIV - {k}. coins_value (m j))"
    by (subst sum.remove [of UNIV k]) (auto intro!: sum.cong)
  moreover have "(\<Sum>j\<in>UNIV. coins_value (m j)) = coins_value (m k) + (\<Sum>j\<in>UNIV - {k}. coins_value (m j))"
    by (rule sum.remove) auto
  ultimately show ?thesis by (simp add: ledger_value_def)
qed

lemma value_empty [simp]: "coins_value coins_empty = 0" by (simp add: coins_value_def coins_empty_def)

lemma nulls_value: "list_all txout_IsNull vs \<Longrightarrow> sum_list (map coin_value vs) = 0"
  by (induction vs) (simp_all add: coin_value_def)

lemma prune_value: "coins_value (prune c) = coins_value c"
  by (simp add: prune_def coins_IsPruned_def) (simp add: coins_value_def nulls_value)

lemma strip_value: "sum_list (map coin_value (strip_spent vs)) = sum_list (map coin_value vs)"
proof -
  obtain zs where "vs = strip_spent vs @ zs" "list_all txout_IsNull zs" using strip_spent_prefix by blast
  then show ?thesis by (metis add.right_neutral map_append nulls_value sum_list_append)
qed

lemma sum_list_update_int: "n < length xs \<Longrightarrow> sum_list (xs[n := x]) = sum_list xs - xs ! n + (x :: int)"
  by (induction xs arbitrary: n) (auto split: nat.split)

lemma Spend_value:
  assumes "coins_Spend c out = Some (undo, c')"
  shows "coins_value c = coins_value c' + sint (t_nValue (un_txout undo))" "un_txout undo = co_vout c ! unat (o_n out)"
    "IsAvailable c (o_n out)"
proof -
  let ?n = "unat (o_n out)"
  have n: "?n < length (co_vout c)" "\<not> txout_IsNull (co_vout c ! ?n)" and u: "un_txout undo = co_vout c ! ?n"
    and c': "co_vout c' = strip_spent ((co_vout c)[?n := txout_SetNull])"
    using assms by (auto simp: coins_Spend_def coins_Cleanup_def undo_new_def Let_def split: if_split_asm)
  show "un_txout undo = co_vout c ! unat (o_n out)" by (rule u)
  show "IsAvailable c (o_n out)" using n by (simp add: IsAvailable_def)
  have "coins_value c' = coins_value c - coin_value (co_vout c ! ?n) + coin_value txout_SetNull"
    using n(1) by (simp add: coins_value_def c' strip_value map_update sum_list_update_int)
  then show "coins_value c = coins_value c' + sint (t_nValue (un_txout undo))"
    using n(2) u by (simp add: coin_value_def)
qed

lemma Spend_ranged: "coins_ranged c \<Longrightarrow> coins_Spend c out = Some (undo, c') \<Longrightarrow> coins_ranged c'"
proof -
  assume a: "coins_ranged c" "coins_Spend c out = Some (undo, c')"
  then have "co_vout c' = strip_spent ((co_vout c)[unat (o_n out) := txout_SetNull])"
    by (auto simp: coins_Spend_def coins_Cleanup_def Let_def split: if_split_asm)
  then have "set (co_vout c') \<subseteq> insert txout_SetNull (set (co_vout c))"
    using strip_spent_set set_update_subset_insert by (metis subset_trans)
  then have "v \<in> set (co_vout c') \<Longrightarrow> v = txout_SetNull \<or> v \<in> set (co_vout c)" for v by auto
  moreover have "coin_value txout_SetNull = 0" by (simp add: coin_value_def)
  ultimately show ?thesis using a(1) by (fastforce simp: coins_ranged_def list_all_iff)
qed

lemma prune_ranged: "coins_ranged c \<Longrightarrow> coins_ranged (prune c)"
  by (simp add: prune_def coins_ranged_def coins_empty_def)

text \<open>The outputs that the undo data records are those of the map before the transaction.\<close>

definition out_at :: "ledger \<Rightarrow> COutPoint \<Rightarrow> CTxOut" where
  "out_at m out = co_vout (m (o_hash out)) ! unat (o_n out)"

lemma out_at_spent:
  assumes "coins_Spend (m k) out = Some (u, c)" "IsAvailable ((m(k := prune c)) (o_hash p)) (o_n p)"
  shows "out_at (m(k := prune c)) p = out_at m p" "IsAvailable (m (o_hash p)) (o_n p)"
proof -
  have "out_at (m(k := prune c)) p = out_at m p \<and> IsAvailable (m (o_hash p)) (o_n p)"
  proof (cases "o_hash p = k")
    case True
    define n where "n = unat (o_n out)"
    define j where "j = unat (o_n p)"
    have c: "co_vout c = strip_spent ((co_vout (m k))[n := txout_SetNull])"
      using assms(1) by (auto simp: coins_Spend_def coins_Cleanup_def Let_def n_def split: if_split_asm)
    have av: "IsAvailable (prune c) (o_n p)" using assms(2) True by simp
    then have pr: "prune c = c" by (auto simp: prune_def IsAvailable_def coins_empty_def split: if_splits)
    have j: "j < length (co_vout c)" "\<not> txout_IsNull (co_vout c ! j)" using av unfolding pr by (simp_all add: IsAvailable_def j_def)
    obtain zs where zs: "(co_vout (m k))[n := txout_SetNull] = co_vout c @ zs" using strip_spent_prefix c by metis
    then have e: "(co_vout (m k))[n := txout_SetNull] ! j = co_vout c ! j" using j(1) by (simp add: nth_append)
    have "j < length (co_vout (m k))" using zs j(1) by (metis length_append length_list_update trans_less_add1)
    moreover have "j \<noteq> n" using e j(2) calculation by auto
    ultimately have "co_vout (m k) ! j = co_vout c ! j" "j < length (co_vout (m k))" using e by simp_all
    then show ?thesis using True pr j(2) by (simp add: out_at_def j_def IsAvailable_def)
  qed (use assms(2) in \<open>simp add: out_at_def\<close>)
  then show "out_at (m(k := prune c)) p = out_at m p" "IsAvailable (m (o_hash p)) (o_n p)" by auto
qed

lemma spend_map_avail: "spend_map m vin = Some (us, m') \<Longrightarrow> t \<in> set vin \<Longrightarrow> IsAvailable (m (o_hash (i_prevout t))) (o_n (i_prevout t))"
proof (induction vin arbitrary: m us)
  case (Cons x vin)
  let ?k = "o_hash (i_prevout x)"
  obtain u c vs where u: "coins_Spend (m ?k) (i_prevout x) = Some (u, c)"
      and r: "spend_map (m(?k := prune c)) vin = Some (vs, m')"
    using Cons.prems(1) by (auto split: option.splits prod.splits)
  show ?case
  proof (cases "t = x")
    case True
    then show ?thesis using Spend_value(3) [OF u] by simp
  next
    case False
    then show ?thesis using Cons.IH [OF r] Cons.prems(2) out_at_spent(2) [where k = ?k and m = m, OF u] by simp
  qed
qed simp

lemma spend_map_value:
  assumes "spend_map m vin = Some (us, m')" "values_ok m"
  shows "ledger_value m = ledger_value m' + sum_list (map (\<lambda>t. sint (t_nValue (out_at m (i_prevout t)))) vin) \<and> values_ok m'"
  using assms
proof (induction vin arbitrary: m us)
  case (Cons t vin)
  let ?k = "o_hash (i_prevout t)"
  obtain u c vs where u: "coins_Spend (m ?k) (i_prevout t) = Some (u, c)"
      and r: "spend_map (m(?k := prune c)) vin = Some (vs, m')" "us = u # vs"
    using Cons.prems(1) by (auto split: option.splits prod.splits)
  let ?m = "m(?k := prune c)"
  have vok: "values_ok ?m"
    using Cons.prems(2) prune_ranged [OF Spend_ranged [OF _ u]] by (auto simp: values_ok_def)
  note IH = Cons.IH [OF r(1) vok]
  have "\<forall>x\<in>set vin. out_at ?m (i_prevout x) = out_at m (i_prevout x)"
    using spend_map_avail [OF r(1)] out_at_spent(1) [where k = ?k and m = m, OF u] by blast
  then have e: "map (\<lambda>x. sint (t_nValue (out_at ?m (i_prevout x)))) vin = map (\<lambda>x. sint (t_nValue (out_at m (i_prevout x)))) vin"
    by simp
  have "ledger_value ?m = ledger_value m - sint (t_nValue (out_at m (i_prevout t)))"
    using Spend_value [OF u] unfolding value_upd prune_value by (simp add: out_at_def)
  then show ?case using IH unfolding e by simp
qed simp


section \<open>The checks of the inputs\<close>

lemma CheckTransaction_totals:
  "map_option sint (GetValueOut tx) =
     (if values_in_range (tx_vout tx) \<and> value_sum (tx_vout tx) \<le> MAX_MONEY then Some (value_sum (tx_vout tx)) else None)"
  using value_out_loop_eq [of 0 "tx_vout tx"] by (simp add: GetValueOut_def MoneyRange_def MAX_MONEY_def COIN_def)

lemma fee_checks_ok:
  assumes "fee_checks tx a = Inr ()" "GetValueOut tx = Some b" "MoneyRange a"
  shows "sint (a - b) = sint a - sint b" "0 \<le> sint (a - b)" "sint b = value_sum (tx_vout tx)" "values_in_range (tx_vout tx)"
proof -
  have v: "values_in_range (tx_vout tx)" "sint b = value_sum (tx_vout tx)"
    using CheckTransaction_totals [of tx] assms(2) by (auto split: if_splits)
  then show "sint b = value_sum (tx_vout tx)" "values_in_range (tx_vout tx)" by auto
  have le: "sint b \<le> sint a" using assms(1,2) by (auto simp: fee_checks_def split: if_splits)
  have "0 \<le> sint b" using v value_sum_nonneg by simp
  then have "sint a - sint b < 2 ^ 63" "- (2 ^ 63) \<le> sint a - sint b"
    using le assms(3) by (simp_all add: MoneyRange_def MAX_MONEY_def COIN_def)
  then show "sint (a - b) = sint a - sint b" by (simp add: sint_word_diff signed_take_bit_int_eq_self)
  then show "0 \<le> sint (a - b)" using le by simp
qed

lemma coins_of_tx_value:
  assumes "values_in_range (tx_vout tx)"
  shows "coins_value (coins_of_tx tx h) \<le> value_sum (tx_vout tx)" "coins_ranged (coins_of_tx tx h)"
proof -
  have vout: "co_vout (coins_of_tx tx h) = strip_spent (map null_unspendable (tx_vout tx))"
    by (simp add: coins_of_tx_def ClearUnspendable_vout)
  have le: "values_in_range vs \<Longrightarrow> sum_list (map coin_value (map null_unspendable vs)) \<le> value_sum vs
      \<and> list_all (\<lambda>v. 0 \<le> coin_value v) (map null_unspendable vs)" for vs
    by (induction vs) (auto simp: value_sum_def values_in_range_def coin_value_def null_unspendable_def txout_IsNull_def txout_SetNull_def)
  show "coins_value (coins_of_tx tx h) \<le> value_sum (tx_vout tx)"
    using le [OF assms] by (simp add: coins_value_def vout strip_value)
  show "coins_ranged (coins_of_tx tx h)"
    using le [OF assms] strip_spent_set [of "map null_unspendable (tx_vout tx)"] by (auto simp: coins_ranged_def vout list_all_iff)
qed

lemma CheckTransaction_accepts:
  "CheckTransaction tx = Inr () \<Longrightarrow>
     values_in_range (tx_vout tx) \<and> size_tx tx \<le> MAX_BLOCK_SIZE"
  using check_values_eq [of 0 "tx_vout tx"]
  by (auto simp: CheckTransaction_def MoneyRange_def MAX_MONEY_def COIN_def split: if_split_asm sum.splits)

text \<open>The coinbase value of a list of transactions.\<close>

definition minted_by :: "(CTransaction \<times> u256) list \<Rightarrow> int" where
  "minted_by ts = sum_list (map (\<lambda>t. if IsCoinBase (fst t) then value_sum (tx_vout (fst t)) else 0) ts)"

context coins_view
begin

lemma coin_at_out: "coin_at s = out_at (cache_coins s)"
  by (simp add: coin_at_def out_at_def fun_eq_iff)

lemma input_values_sum:
  assumes "cache_inv s" "input_values V n v s vin = (Inr r, s')" "\<forall>t\<in>set vin. avail s (i_prevout t)" "MoneyRange v"
  shows "r = v + sum_list (map (\<lambda>t. t_nValue (coin_at s (i_prevout t))) vin) \<and> MoneyRange r
    \<and> sint r = sint v + sum_list (map (\<lambda>t. sint (t_nValue (coin_at s (i_prevout t)))) vin)"
  using assms
proof (induction vin arbitrary: v s)
  case (Cons t vin)
  let ?w = "t_nValue (coin_at s (i_prevout t))"
  obtain s1 where g: "GetCoins_ref V s (o_hash (i_prevout t)) = Some (cache_coins s (o_hash (i_prevout t)), s1)" "same s s1"
    using GetCoins_ref_avail [OF Cons.prems(1), of "o_hash (i_prevout t)" "o_n (i_prevout t)"] Cons.prems(3)
    by (auto simp: avail_def)
  have c: "MoneyRange ?w" "MoneyRange (v + ?w)" "input_values V n (v + ?w) s1 vin = (Inr r, s')"
    using Cons.prems(2) g(1) by (auto simp: Let_def coin_at_def split: if_split_asm)
  have s1: "coin_at s1 = coin_at s" "avail s1 = avail s"
    using g(2) same_avail by (simp_all add: coin_at_def same_def fun_eq_iff)
  have "sint (v + ?w) = sint v + sint ?w" using sint_add_range [OF Cons.prems(4)] c(1) by (simp add: MoneyRange_def)
  then show ?case using Cons.IH [OF same_inv [OF g(2)] c(3) _ c(2)] Cons.prems(3) unfolding s1 by (auto simp: add.assoc)
qed simp

text \<open>What is added to the fees is the sum of the inputs less the sum of the outputs.\<close>

lemma connect_tx_fee:
  assumes "cache_inv s" "connect_tx e V fs flags h st s tx hash = (Inr st', s')" "\<not> IsCoinBase tx"
  obtains f where "cs_nFees st' = cs_nFees st + f" "0 \<le> sint f" "values_in_range (tx_vout tx)"
    "sint f = sum_list (map (\<lambda>t. sint (t_nValue (out_at (cache_coins s) (i_prevout t)))) (tx_vin tx)) - value_sum (tx_vout tx)"
proof (rule connect_tx_cases [OF assms])
  fix s1 k s2 a s3 b vChecks s4 u
  assume h: "HaveInputs V s tx = Some (True, s1)" "GetP2SHSigOpCount V s1 tx = Some (k, s2)" "GetValueIn V s2 tx = Some (a, s3)"
    "GetValueOut tx = Some b" "CheckInputs (ce_crypto e) (ce_mapBlockIndex e) V tx s3 fs flags (ce_nScriptCheckThreads e) = (Inr vChecks, s4)"
    "st' = \<lparr> cs_nSigOps = cs_nSigOps st + GetLegacySigOpCount tx + k, cs_nFees = cs_nFees st + (a - b),
        cs_vChecks = cs_vChecks st @ vChecks, cs_vtxundo = cs_vtxundo st @ [u] \<rparr>"
  have s1: "same s s1" by (rule HaveInputs_same [OF assms(1) h(1)])
  have s2: "same s s2" by (rule same_trans [OF s1 P2SH_same [OF same_inv [OF s1] h(2)]])
  have s3: "same s s3" by (rule same_trans [OF s2 GetValueIn_same [OF same_inv [OF s2] h(3)]])
  have av: "\<forall>t\<in>set (tx_vin tx). avail s (i_prevout t)"
    using HaveInputs_spec [OF assms(1), of tx] h(1) assms(3) by (metis option.inject prod.inject)
  then have "\<forall>t\<in>set (tx_vin tx). avail s2 (i_prevout t)" using same_avail [OF s2] by simp
  from GetValueIn_spec [OF same_inv [OF s2] this] have "a = sum_list (map (\<lambda>t. t_nValue (coin_at s2 (i_prevout t))) (tx_vin tx))"
    using h(3) assms(3) by auto
  then have a: "a = sum_list (map (\<lambda>t. t_nValue (coin_at s (i_prevout t))) (tx_vin tx))"
    using s2 by (simp add: coin_at_out same_def)
  obtain s5 where s5: "HaveInputs V s3 tx = Some (True, s5)" "same s3 s5"
    using HaveInputs_spec [OF same_inv [OF s3], of tx] av same_avail [OF s3] by auto
  obtain h' s6 where s6: "cache_GetBestBlock V s5 = (h', s6)" by fastforce
  have same6: "same s s6" using best_same [OF same_inv [OF s5(2)] s6] same_trans [OF s3 s5(2)] same_trans by blast
  obtain n nValueIn s7 where iv: "input_values V n 0 s6 (tx_vin tx) = (Inr nValueIn, s7)" "fee_checks tx nValueIn = Inr ()"
    using h(5) assms(3) s5(1) s6 by (auto simp: CheckInputs_def split: option.splits if_split_asm prod.splits sum.splits)
  have z: "MoneyRange 0" by (simp add: MoneyRange_def MAX_MONEY_def COIN_def)
  have "\<forall>t\<in>set (tx_vin tx). avail s6 (i_prevout t)" using av same_avail [OF same6] by simp
  from input_values_sum [OF same_inv [OF same6] iv(1) this z] have r: "nValueIn = a" "MoneyRange a"
      "sint a = sum_list (map (\<lambda>t. sint (t_nValue (out_at (cache_coins s) (i_prevout t)))) (tx_vin tx))"
    using same6 by (auto simp: a coin_at_out same_def)
  note f = fee_checks_ok [OF iv(2) [unfolded r(1)] h(4) r(2)]
  show thesis by (rule that [of "a - b"]) (use f r(3) in \<open>simp_all add: h(6)\<close>)
qed

lemma connect_tx_value:
  assumes "cache_inv s" "connect_tx e V fs flags h st s tx hash = (Inr st', s')" "ok (coins_of_tx tx h)"
    "values_ok (cache_coins s)" "cache_coins s hash = coins_empty" "h \<noteq> 0" "heights_ok (cache_coins s)"
    "IsCoinBase tx \<Longrightarrow> values_in_range (tx_vout tx)"
  obtains f where "cs_nFees st' = cs_nFees st + f" "0 \<le> sint f" "values_ok (cache_coins s')"
    "ledger_value (cache_coins s') + sint f \<le> ledger_value (cache_coins s) + (if IsCoinBase tx then value_sum (tx_vout tx) else 0)"
    "0 \<le> (if IsCoinBase tx then value_sum (tx_vout tx) else 0)"
proof -
  obtain u where "apply_tx h (cache_coins s) (tx, hash) = Some (u, cache_coins s')"
    using connect_tx_refines [OF assms(1-3)] by blast
  then obtain m1 where m1: "(if IsCoinBase tx then Some ([], cache_coins s) else spend_map (cache_coins s) (tx_vin tx)) = Some (u, m1)"
      and c: "cache_coins s' = m1(hash := prune (coins_of_tx tx h))"
    unfolding apply_tx_def fst_conv snd_conv by (auto split: option.splits)
  have lok: "ledger_ok (cache_coins s)" using assms(1,7) cache_coins_ok by (simp add: ledger_ok_def)
  have e: "m1 hash = coins_empty" using m1 assms(5) restore_spend_map [OF lok] by (auto split: if_splits)
  show ?thesis
  proof (cases "IsCoinBase tx")
    case True
    have r: "values_in_range (tx_vout tx)" by (rule assms(8) [OF True])
    have big: "\<not> cs_nSigOps st + GetLegacySigOpCount tx > MAX_BLOCK_SIGOPS" using assms(2) by (simp add: connect_tx_def Let_def split: if_splits)
    then have "cs_nFees st' = cs_nFees st"
      using assms(2) True by (auto simp: connect_tx_def Let_def split: option.splits)
    moreover have "values_ok (cache_coins s')"
      using assms(4) m1 True prune_ranged [OF coins_of_tx_value(2) [OF r]] unfolding c by (simp add: values_ok_def)
    moreover have "ledger_value (cache_coins s') \<le> ledger_value (cache_coins s) + value_sum (tx_vout tx)"
      using coins_of_tx_value(1) [OF r, of h] m1 True e unfolding c value_upd prune_value by simp
    ultimately show ?thesis using that [of 0] True value_sum_nonneg [OF r] by simp
  next
    case False
    obtain f where f: "cs_nFees st' = cs_nFees st + f" "0 \<le> sint f" "values_in_range (tx_vout tx)"
        "sint f = sum_list (map (\<lambda>t. sint (t_nValue (out_at (cache_coins s) (i_prevout t)))) (tx_vin tx)) - value_sum (tx_vout tx)"
      by (rule connect_tx_fee [OF assms(1,2) False])
    have m: "ledger_value (cache_coins s) = ledger_value m1 + sum_list (map (\<lambda>t. sint (t_nValue (out_at (cache_coins s) (i_prevout t)))) (tx_vin tx))"
      "values_ok m1"
      using spend_map_value [of "cache_coins s" "tx_vin tx" u m1] m1 False assms(4) by auto
    have "values_ok (cache_coins s')"
      using m(2) prune_ranged [OF coins_of_tx_value(2) [OF f(3)]] unfolding c by (simp add: values_ok_def)
    moreover have "ledger_value (cache_coins s') + sint f \<le> ledger_value (cache_coins s)"
      using coins_of_tx_value(1) [OF f(3), of h] m(1) e f(4) unfolding c value_upd prune_value by simp
    ultimately show ?thesis using that [OF f(1,2)] False by simp
  qed
qed

lemma ledger_value_nonneg: "values_ok m \<Longrightarrow> 0 \<le> ledger_value m"
  unfolding ledger_value_def by (intro sum_nonneg) (auto simp: values_ok_def coins_ranged_def coins_value_def list_all_iff intro!: sum_list_nonneg)

text \<open>The fees never wrap around, and the value of the ledger and the fees together grow by the
  coinbase at most.\<close>

lemma connect_txs_value:
  assumes "cache_inv s" "connect_txs e V fs flags h st s ts = (Inr st', s')" "\<forall>t\<in>set ts. ok (coins_of_tx (fst t) h)"
    "values_ok (cache_coins s)" "\<forall>t\<in>set ts. cache_coins s (snd t) = coins_empty" "distinct (map snd ts)" "h \<noteq> 0"
    "heights_ok (cache_coins s)" "\<forall>t\<in>set ts. IsCoinBase (fst t) \<longrightarrow> values_in_range (tx_vout (fst t))"
    "0 \<le> sint (cs_nFees st)" "sint (cs_nFees st) + ledger_value (cache_coins s) + minted_by ts < 2 ^ 63"
  shows "0 \<le> sint (cs_nFees st') \<and> values_ok (cache_coins s') \<and>
    ledger_value (cache_coins s') + sint (cs_nFees st') \<le> ledger_value (cache_coins s) + sint (cs_nFees st) + minted_by ts"
  using assms
proof (induction ts arbitrary: s st)
  case (Cons t ts)
  obtain tx hash where t: "t = (tx, hash)" by fastforce
  obtain st1 s1 where c: "connect_tx e V fs flags h st s tx hash = (Inr st1, s1)"
      and r: "connect_txs e V fs flags h st1 s1 ts = (Inr st', s')"
    using Cons.prems(2) t by (auto split: prod.splits sum.splits)
  define cb where "cb = (if IsCoinBase tx then value_sum (tx_vout tx) else 0)"
  have okt: "ok (coins_of_tx tx h)" "cache_coins s hash = coins_empty" "IsCoinBase tx \<Longrightarrow> values_in_range (tx_vout tx)"
    using Cons.prems(3,5,9) t by auto
  obtain f where f: "cs_nFees st1 = cs_nFees st + f" "0 \<le> sint f" "values_ok (cache_coins s1)"
      "ledger_value (cache_coins s1) + sint f \<le> ledger_value (cache_coins s) + cb" "0 \<le> cb"
    using connect_tx_value [OF Cons.prems(1) c okt(1) Cons.prems(4) okt(2) Cons.prems(7,8) okt(3)] unfolding cb_def by blast
  obtain u where u: "apply_tx h (cache_coins s) (tx, hash) = Some (u, cache_coins s1)" "cache_inv s1"
    using connect_tx_refines [OF Cons.prems(1) c okt(1)] by blast
  have "ledger_ok (cache_coins s)" using Cons.prems(1,8) cache_coins_ok by (simp add: ledger_ok_def)
  from apply_tx_keeps [OF this u(1) Cons.prems(7)] okt(1)
  have k: "heights_ok (cache_coins s1)" "\<forall>k. k \<noteq> hash \<longrightarrow> cache_coins s k = coins_empty \<longrightarrow> cache_coins s1 k = coins_empty"
    by (auto simp: ledger_ok_def)
  have minted: "minted_by (t # ts) = cb + minted_by ts" by (simp add: minted_by_def cb_def t)
  have pos: "0 \<le> minted_by ts" unfolding minted_by_def
    using Cons.prems(9) value_sum_nonneg by (intro sum_list_nonneg) auto
  have "sint (cs_nFees st) + sint f < 2 ^ 63"
    using f(4) ledger_value_nonneg [OF f(3)] Cons.prems(11) pos unfolding minted by linarith
  then have s: "sint (cs_nFees st1) = sint (cs_nFees st) + sint f"
    using Cons.prems(10) f(1,2) by (simp add: sint_word_add signed_take_bit_int_eq_self)
  have "\<forall>x\<in>set ts. cache_coins s1 (snd x) = coins_empty" using Cons.prems(5,6) k(2) t by force
  from Cons.IH [OF u(2) r _ f(3) this _ Cons.prems(7) k(1)] Cons.prems(3,6,9,10,11) f(2,4) s
  show ?case unfolding minted by simp
qed (simp add: minted_by_def)

end

lemma GetBlockValue_fees: "fst (GetBlockValue pr p f ns) = f + fst (GetBlockValue pr p 0 ns)"
  by (simp add: GetBlockValue_def prefork_value_def scaled_value_def Let_def)

lemma coinbase_check_bound: "coinbase_check pr p out f = Inr q \<Longrightarrow> out - f \<le> fst (GetBlockValue pr p 0 False)"
  using GetBlockValue_fees [of pr p f False] by (auto simp: coinbase_check_def split: prod.splits if_split_asm)

section \<open>The transactions of an accepted block fit the database\<close>

lemma length_le_sizes: "(\<And>x. 1 \<le> f x) \<Longrightarrow> length xs \<le> sum_list (map f xs)" for f :: "'a \<Rightarrow> nat"
proof (induction xs)
  case (Cons x xs)
  from Cons.IH [OF Cons.prems] Cons.prems [of x] show ?case by simp
qed simp

lemma coins_of_tx_db_ok:
  assumes "CheckTransaction tx = Inr ()" "\<not> tx_vector_format tx" "0 \<le> sint (tx_nVersion tx)" "0 \<le> sint h"
  shows "db_ok (coins_of_tx tx h)"
proof -
  define vs where "vs = strip_spent (map null_unspendable (tx_vout tx))"
  have c: "coins_of_tx tx h = \<lparr> co_fCoinBase = IsCoinBase tx, co_vout = vs, co_nHeight = h, co_nVersion = tx_nVersion tx \<rparr>"
    by (simp add: coins_of_tx_def ClearUnspendable_vout vs_def)
  have r: "values_in_range (tx_vout tx)" and size: "size_tx tx \<le> MAX_BLOCK_SIZE"
    using CheckTransaction_accepts assms(1) by auto
  have "sum_list (map size_txout (tx_vout tx)) \<le> size_tx tx"
    using assms(2) by (simp add: size_tx_def size_vec_def foldl_add)
  then have sum: "sum_list (map size_txout (tx_vout tx)) \<le> 1000000" using size by (simp add: MAX_BLOCK_SIZE_def)
  have each: "size_txout v \<le> 1000000" if "v \<in> set (tx_vout tx)" for v
    using member_le_sum_list [of "size_txout v" "map size_txout (tx_vout tx)"] that sum by simp
  have "length (tx_vout tx) \<le> sum_list (map size_txout (tx_vout tx))"
    by (rule length_le_sizes) (simp add: size_txout_def)
  then have len: "length (tx_vout tx) \<le> 1000000" using sum by simp
  obtain zs where "map null_unspendable (tx_vout tx) = vs @ zs" using strip_spent_prefix vs_def by blast
  then have "length vs \<le> length (tx_vout tx)" by (metis length_append length_map le_add1)
  then have lv: "length vs < 2 ^ 28" using len by simp
  have fits: "txout_fits v" if "v \<in> set (tx_vout tx)" for v
  proof -
    have s: "0 \<le> sint (t_nValue v)" "sint (t_nValue v) \<le> MAX_MONEY" using r that by (auto simp: values_in_range_def list_all_iff)
    then have "uint (t_nValue v) < 2 ^ 60" using uint_eq_sint [OF s(1)] by (simp add: MAX_MONEY_def COIN_def)
    then have "unat (t_nValue v) < 2 ^ 60"
      by (metis of_nat_less_iff of_nat_numeral of_nat_power of_nat_unat)
    then show ?thesis using each [OF that] by (simp add: txout_fits_def size_txout_def size_string_def)
  qed
  have v: "v = txout_SetNull \<or> (\<not> txout_IsNull v \<and> txout_fits v)" if "v \<in> set vs" for v
  proof -
    have "v \<in> null_unspendable ` set (tx_vout tx)"
      using that strip_spent_set [of "map null_unspendable (tx_vout tx)"] unfolding vs_def by auto
    then obtain w where w: "w \<in> set (tx_vout tx)" "v = null_unspendable w" by auto
    moreover have "\<not> txout_IsNull w" using r w(1) by (auto simp: values_in_range_def list_all_iff txout_IsNull_def)
    ultimately show ?thesis using fits by (simp add: null_unspendable_def split: if_split)
  qed
  have "coins_clean (coins_of_tx tx h)"
    using strip_spent_last [of "map null_unspendable (tx_vout tx)"] v by (auto simp: coins_clean_def c vs_def list_all_iff)
  moreover have "txout_IsNull v \<or> txout_fits v" if "v \<in> set vs" for v using v [OF that] null_SetNull by blast
  ultimately show ?thesis using assms(3,4) lv by (auto simp: db_ok_def coins_fit_def c list_all_iff)
qed

lemma ConnectBlock_checked:
  assumes "ConnectBlock e d nNow adj V block p False ff s = (Inr r, s')"
  shows "\<forall>tx\<in>set (bk_vtx block). CheckTransaction tx = Inr ()"
proof -
  obtain block' where cb: "fst (CheckBlock (ce_pow e) (ce_params e) nNow adj block True True ff) = Inr block'"
    using assms by (cases "fst (CheckBlock (ce_pow e) (ce_params e) nNow adj block True True ff)") (simp_all add: ConnectBlock_def)
  have "check_txs vtx = Inr () \<Longrightarrow> \<forall>tx\<in>set vtx. CheckTransaction tx = Inr ()" for vtx
    by (induction vtx) (auto split: sum.splits)
  then show ?thesis using CheckBlock_accepted(7) [OF cb] by blast
qed

text \<open>The transactions of a block as it is read from the network, with versions that the database can
  hold.\<close>

definition block_plain :: "CBlock \<Rightarrow> bool" where
  "block_plain block \<longleftrightarrow> (\<forall>tx\<in>set (bk_vtx block). \<not> tx_vector_format tx \<and> 0 \<le> sint (tx_nVersion tx))"

lemma ConnectBlock_db_ok:
  assumes "ConnectBlock e d nNow adj V block p False ff s = (Inr r, s')" "block_plain block" "0 \<le> sint h"
  shows "\<forall>tx\<in>set (bk_vtx block). db_ok (coins_of_tx tx h)"
  using ConnectBlock_checked [OF assms(1)] assms(2,3) by (auto simp: block_plain_def intro: coins_of_tx_db_ok)

lemma minted_by_block:
  assumes "ts = map (\<lambda>tx. (tx, f tx)) vtx" "vtx \<noteq> []" "IsCoinBase (hd vtx)" "\<not> list_ex IsCoinBase (tl vtx)"
  shows "minted_by ts = value_sum (tx_vout (hd vtx))"
proof -
  obtain t r where v: "vtx = t # r" using assms(2) by (cases vtx) auto
  have "\<forall>tx\<in>set r. \<not> IsCoinBase tx" using assms(4) v by (simp add: list_ex_iff)
  then have "map (\<lambda>tx. if IsCoinBase tx then value_sum (tx_vout tx) else 0) r = map (\<lambda>_. 0) r" by simp
  then have "sum_list (map (\<lambda>tx. if IsCoinBase tx then value_sum (tx_vout tx) else 0) r) = 0"
    by (simp only: sum_list_triv mult_0_right)
  then show ?thesis using assms(3) v unfolding minted_by_def assms(1) map_map comp_def fst_conv by simp
qed

section \<open>A sample block\<close>

definition demo_env :: connect_env where
  "demo_env = \<lparr> ce_crypto = toy_crypto, ce_pow = block_env, ce_params = mainParams, ce_hashGenesis = 1,
     ce_mapBlockIndex = (\<lambda>h. if h = 8 then Some [sample_index 0 100 8] else None), ce_fEnabled = False,
     ce_nScriptCheckThreads = False, ce_fTxIndex = False \<rparr>"

definition demo_disk :: disk_env where
  "demo_disk = \<lparr> dk_FindUndoPos = (\<lambda>nFile nAddSize. Some \<lparr> pos_nFile = nFile, pos_nPos = 8 \<rparr>),
     dk_WriteToDisk = (\<lambda>vtxundo pos hash. Some (pos\<lparr>pos_nPos := 16\<rparr>)), dk_WriteBlockIndex = (\<lambda>b. True),
     dk_WriteTxIndex = (\<lambda>l. True) \<rparr>"

definition demo_coins :: CCoins where
  "demo_coins = \<lparr> co_fCoinBase = False, co_vout = [\<lparr> t_nValue = 50, t_scriptPubKey = [OP_1] \<rparr>], co_nHeight = 3, co_nVersion = 1 \<rparr>"

definition demo_view :: "coins_db coins_cache coins_cache" where
  "demo_view = cache_new \<lparr> ch_base = \<lparr> db_c = (\<lambda>_. None), db_B = None \<rparr>, ch_hashBlock = 8,
     ch_cacheCoins = (\<lambda>h. if h = 10 \<or> h = 11 then Some demo_coins else None) \<rparr>"

definition demo_block :: CBlock where
  "demo_block = (sample_block 5)\<lparr>bk_vMerkleTree := [2135, 1119, 1120, 194, 200, 394]\<rparr>"

text \<open>A block with a coinbase and two transactions, on top of a genesis block.\<close>

abbreviation demo_ops :: "coins_db coins_cache view_ops" where
  "demo_ops \<equiv> cache_ops (db_ops toy_crypto)"

abbreviation demo_chain :: block_ptr where
  "demo_chain \<equiv> [sample_index 1 200 7, sample_index 0 100 8]"

lemma demo_connect_checked:
  "\<not> isl (fst (connect_checked demo_env demo_disk demo_ops demo_block demo_chain False 8 (demo_view\<lparr>ch_hashBlock := 8\<rparr>)))"
  by code_simp

lemma demo_rules:
  "version_rules_ok demo_chain (h_nVersion (bh_pure (bk_header demo_block)))" "\<not> onFork demo_chain"
  "header_GetHash (pe_hf (ce_pow demo_env)) (bh_pure (bk_header (sample_block 5))) \<noteq> ce_hashGenesis demo_env"
  by code_simp+

lemma demo_connects_on:
  assumes "cache_GetBestBlock demo_ops s = (8, s1)"
    "\<not> isl (fst (connect_checked demo_env demo_disk demo_ops demo_block demo_chain False 8 s1))"
  shows "ConnectBlock demo_env demo_disk 1000 1000 demo_ops (sample_block 5) demo_chain False sample_flags s
      = connect_checked demo_env demo_disk demo_ops demo_block demo_chain False 8 s1"
    "\<exists>p' us s'. ConnectBlock demo_env demo_disk 1000 1000 demo_ops (sample_block 5) demo_chain False sample_flags s = (Inr (p', us), s')"
proof -
  have cb: "fst (CheckBlock (ce_pow demo_env) (ce_params demo_env) 1000 1000 (sample_block 5) True True sample_flags) = Inr demo_block"
    using sample_block_accepted [of 5] by (simp add: demo_env_def demo_block_def)
  have hash: "b_hashBlock (sample_index 0 100 8) = 8" by (simp add: sample_index_def)
  have hdr: "bk_header demo_block = bk_header (sample_block 5)" by (simp add: demo_block_def)
  show c: "ConnectBlock demo_env demo_disk 1000 1000 demo_ops (sample_block 5) demo_chain False sample_flags s
      = connect_checked demo_env demo_disk demo_ops demo_block demo_chain False 8 s1"
    using demo_rules hdr by (simp add: ConnectBlock_def cb assms(1) hash Let_def)
  show "\<exists>p' us s'. ConnectBlock demo_env demo_disk 1000 1000 demo_ops (sample_block 5) demo_chain False sample_flags s = (Inr (p', us), s')"
  proof -
    obtain r s' where "connect_checked demo_env demo_disk demo_ops demo_block demo_chain False 8 s1 = (Inr r, s')"
      using assms(2) by (cases "connect_checked demo_env demo_disk demo_ops demo_block demo_chain False 8 s1";
        cases "fst (connect_checked demo_env demo_disk demo_ops demo_block demo_chain False 8 s1)") auto
    then show ?thesis unfolding c by (cases r) simp
  qed
qed

lemma demo_connects:
  "\<exists>p' us s'. ConnectBlock demo_env demo_disk 1000 1000 demo_ops (sample_block 5) demo_chain False sample_flags demo_view = (Inr (p', us), s')"
  by (rule demo_connects_on(2) [OF _ demo_connect_checked]) (simp add: cache_GetBestBlock_def demo_view_def cache_new_def cache_ops_def)

lemma demo_coins_ok: "db_ok demo_coins" "coins_ranged demo_coins" "prune demo_coins = demo_coins" "coins_value demo_coins = 50"
  by (simp_all add: demo_coins_def db_ok_def coins_fit_def coins_clean_def txout_fits_def txout_IsNull_def coins_ranged_def
      coin_value_def coins_value_def prune_def coins_IsPruned_def)

lemma demo_view_ok: "tip.cache_inv toy_crypto demo_view"
  using toy_key_compression demo_coins_ok(1)
  by (auto simp: tip.cache_inv_def db.cache_inv_def db_inv_def demo_view_def cache_new_def)

lemma demo_ledger: "tip.cache_coins toy_crypto demo_view = (\<lambda>_. coins_empty)(10 := demo_coins, 11 := demo_coins)"
  using demo_coins_ok(3)
  by (auto simp: tip.cache_coins_def db.cache_coins_def demo_view_def cache_new_def db_coins_eq live_def fun_eq_iff)

lemma demo_value: "ledger_value (tip.cache_coins toy_crypto demo_view) = 100"
proof -
  have "ledger_value (\<lambda>_. coins_empty) = 0" by (simp add: ledger_value_def)
  then show ?thesis by (simp add: demo_ledger value_upd demo_coins_ok(4) del: fun_upd_apply) (simp add: demo_coins_ok(4))
qed

lemma demo_hyps:
  "block_plain (sample_block 5)" "heights_ok (tip.cache_coins toy_crypto demo_view)" "values_ok (tip.cache_coins toy_crypto demo_view)"
proof -
  have "list_all (\<lambda>tx. \<not> tx_vector_format tx \<and> 0 \<le> sint (tx_nVersion tx)) block_vtx" by code_simp
  then show "block_plain (sample_block 5)" by (simp add: block_plain_def sample_block_def list_all_iff)
  show "heights_ok (tip.cache_coins toy_crypto demo_view)" by (simp add: heights_ok_def demo_ledger demo_coins_def)
  show "values_ok (tip.cache_coins toy_crypto demo_view)"
    using demo_coins_ok(2) by (simp add: values_ok_def demo_ledger coins_ranged_def coins_empty_def)
qed

section \<open>No block mints more than its subsidy\<close>

text \<open>C1: A block that connects does not raise the sum of all unspent outputs by more than the subsidy
  of its height: the inputs are there and unspent, the fees are added up without wrapping around
  and the coinbase takes no more than fees and subsidy. The ledger stays free of negative
  values.\<close>

theorem ConnectBlock_no_inflation:
  assumes "tip.cache_inv c s" "ConnectBlock e d nNow adj (cache_ops (db_ops c)) block (b # q) False ff s = (Inr (p', us), s')"
    "header_GetHash (pe_hf (ce_pow e)) (bh_pure (bk_header block)) \<noteq> ce_hashGenesis e" "block_plain block"
    "b_hashBlock b \<noteq> 0" "b_nFile b \<noteq> - 1" "0 < sint (b_nHeight b)" "heights_ok (tip.cache_coins c s)"
    "values_ok (tip.cache_coins c s)" "ledger_value (tip.cache_coins c s) + MAX_MONEY < 2 ^ 63"
  shows "ledger_value (tip.cache_coins c s')
      \<le> ledger_value (tip.cache_coins c s) + fst (GetBlockValue (ce_params e) (connect_factor (b # q)) 0 False)
    \<and> values_ok (tip.cache_coins c s')"
proof -
  define ts where "ts = map (\<lambda>tx. (tx, tx_GetHash (pe_hs (ce_pow e)) tx)) (bk_vtx block)"
  have ok: "\<forall>tx\<in>set (bk_vtx block). db_ok (coins_of_tx tx (b_nHeight b))"
    using ConnectBlock_db_ok [OF assms(2,4)] assms(7) by simp
  have h: "b_nHeight b \<noteq> 0" using assms(7) by auto
  show ?thesis
  proof (rule tip.ConnectBlock_effect [OF assms(1-3) ok assms(5,6) ts_def])
    fix vs b' st s0 s1 out q'
    assume a: "distinct (map snd ts)" "\<forall>t\<in>set ts. tip.cache_coins c s (snd t) = coins_empty"
      "bk_vtx block \<noteq> []" "IsCoinBase (hd (bk_vtx block))" "\<not> list_ex IsCoinBase (tl (bk_vtx block))"
      "tip.cache_inv c s0" "tip.cache_coins c s0 = tip.cache_coins c s" "tip.cache_coins c s' = tip.cache_coins c s1"
      "GetValueOut (hd (bk_vtx block)) = Some out"
      "coinbase_check (ce_params e) (connect_factor (b # q)) (sint out) (sint (cs_nFees st)) = Inr q'"
      "connect_txs e (cache_ops (db_ops c)) (GetTotalBlocksEstimate (ce_fEnabled e) (ce_params e) \<le> height b)
        (connect_flags (b # q) (h_nVersion (bh_pure (bk_header block)))) (b_nHeight b)
        \<lparr> cs_nSigOps = 0, cs_nFees = 0, cs_vChecks = [], cs_vtxundo = [] \<rparr> s0 ts = (Inr st, s1)"
    have m: "minted_by ts = sint out" "sint out \<le> MAX_MONEY"
      using minted_by_block [OF ts_def a(3-5)] CheckTransaction_totals [of "hd (bk_vtx block)"] a(9) by (auto split: if_splits)
    have r: "\<forall>t\<in>set ts. IsCoinBase (fst t) \<longrightarrow> values_in_range (tx_vout (fst t))"
      using ConnectBlock_checked [OF assms(2)] CheckTransaction_accepts by (auto simp: ts_def)
    have k: "\<forall>t\<in>set ts. db_ok (coins_of_tx (fst t) (b_nHeight b))" using ok by (auto simp: ts_def)
    have "0 \<le> sint (cs_nFees st) \<and> values_ok (tip.cache_coins c s1) \<and>
        ledger_value (tip.cache_coins c s1) + sint (cs_nFees st) \<le> ledger_value (tip.cache_coins c s0) + 0 + minted_by ts"
      using tip.connect_txs_value [OF a(6,11) k _ _ a(1) _ _ r] a(2,7) h assms(8-10) m by auto
    then show ?thesis using coinbase_check_bound [OF a(10)] m(1) a(7,8) by simp
  qed
qed

theorem ConnectBlock_no_inflation_witness:
  "\<exists>p' us s'. ConnectBlock demo_env demo_disk 1000 1000 demo_ops (sample_block 5) demo_chain False sample_flags demo_view = (Inr (p', us), s')
    \<and> ledger_value (tip.cache_coins toy_crypto s')
      \<le> 100 + fst (GetBlockValue (ce_params demo_env) (connect_factor demo_chain) 0 False)"
proof -
  obtain p' us s' where c: "ConnectBlock demo_env demo_disk 1000 1000 demo_ops (sample_block 5) demo_chain False sample_flags demo_view = (Inr (p', us), s')"
    using demo_connects by blast
  have "ledger_value (tip.cache_coins toy_crypto s')
      \<le> ledger_value (tip.cache_coins toy_crypto demo_view) + fst (GetBlockValue (ce_params demo_env) (connect_factor demo_chain) 0 False)
    \<and> values_ok (tip.cache_coins toy_crypto s')"
    by (rule ConnectBlock_no_inflation [OF demo_view_ok c demo_rules(3) demo_hyps(1) _ _ _ demo_hyps(2,3)])
      (simp_all add: demo_value sample_index_def MAX_MONEY_def COIN_def)
  then show ?thesis using c unfolding demo_value by blast
qed

section \<open>The recorded supply\<close>

text \<open>\<open>ConnectBlock\<close> makes the chains of \<open>minted\<close>.\<close>

lemma coinbase_money:
  "coinbase_check pr (connect_factor p) out nFees = Inr q \<Longrightarrow>
    connect_money pr p out nFees = Some ((hd q)\<lparr>b_nMoneySupply := word_of_int (money_supply q out nFees)\<rparr> # tl q)"
  by (auto simp: coinbase_check_def connect_money_def Let_def split: prod.splits if_splits)

lemma write_undo_fields:
  "write_undo d c us hp b = Inr b' \<Longrightarrow> b' = b\<lparr>b_nUndoPos := b_nUndoPos b', b_nStatus := b_nStatus b'\<rparr>"
  by (auto simp: write_undo_def Let_def split: if_split_asm option.splits sum.splits)

lemma finish_money:
  assumes "connect_finish e d hp q out vtx st s = (Inr (p', us), s')"
  shows "\<exists>pos status. p' = (hd q)\<lparr>b_nMoneySupply := word_of_int (money_supply q out (sint (cs_nFees st))), b_nUndoPos := pos, b_nStatus := status\<rparr> # tl q"
proof -
  define b0 where "b0 = (hd q)\<lparr>b_nMoneySupply := word_of_int (money_supply q out (sint (cs_nFees st)))\<rparr>"
  obtain b' where b': "write_undo d (ce_crypto e) (cs_vtxundo st) hp b0 = Inr b'"
    using assms by (cases "write_undo d (ce_crypto e) (cs_vtxundo st) hp b0") (simp_all add: connect_finish_def b0_def)
  have "p' = b' # tl q"
    using assms b' by (simp_all add: connect_finish_def b0_def [symmetric] cache_SetBestBlock_def Let_def split: if_split_asm)
  then show ?thesis using write_undo_fields [OF b'] unfolding b0_def
    by (intro exI [of _ "b_nUndoPos b'"] exI [of _ "b_nStatus b'"]) simp
qed

lemma ConnectBlock_minted:
  assumes "minted p" "wf_ptr (b # p)" "ConnectBlock e d n adj V block (b # p) False ff s = (Inr (p', us), s')"
    "header_GetHash (pe_hf (ce_pow e)) (bh_pure (bk_header block)) \<noteq> ce_hashGenesis e" "ce_params e = mainParams"
  shows "\<exists>out nFees. connect_money mainParams (b # p) out nFees \<noteq> None
    \<and> (- (2 ^ 63) \<le> money_supply (b # p) out nFees \<longrightarrow> minted p')"
proof -
  obtain bl where cb: "fst (CheckBlock (ce_pow e) (ce_params e) n adj block True True ff) = Inr bl"
    using assms(3) by (cases "fst (CheckBlock (ce_pow e) (ce_params e) n adj block True True ff)") (simp_all add: ConnectBlock_def)
  have "bk_header bl = bk_header block" using CheckBlock_accepted(4) [OF cb] by simp
  then obtain hp s1 where "connect_checked e d V bl (b # p) False hp s1 = (Inr (p', us), s')"
    using assms(3,4) cb by (auto simp: ConnectBlock_def Let_def split: prod.splits if_split_asm)
  then obtain st s3 q and out :: u64 where q: "coinbase_check (ce_params e) (connect_factor (b # p)) (sint out) (sint (cs_nFees st)) = Inr q"
      "connect_finish e d hp q (sint out) (zip (bk_vtx bl) (bk_vMerkleTree bl)) st s3 = (Inr (p', us), s')"
    by (rule connect_checked_cases) blast
  let ?o = "sint out" and ?f = "sint (cs_nFees st)"
  define b1 where "b1 = (hd q)\<lparr>b_nMoneySupply := word_of_int (money_supply q ?o ?f)\<rparr>"
  have m: "connect_money mainParams (b # p) ?o ?f = Some (b1 # tl q)"
    using coinbase_money [OF q(1)] assms(5) by (simp add: b1_def)
  then have t: "tl q = p" using connect_money_bound(1) by fastforce
  obtain pos status where p': "p' = b1\<lparr>b_nUndoPos := pos, b_nStatus := status\<rparr> # p"
    using finish_money [OF q(2)] t by (auto simp: b1_def)
  show ?thesis unfolding p' using minted.connect [OF assms(1,2) m [unfolded t]] m
    by (intro exI [of _ ?o] exI [of _ ?f]) simp
qed

section \<open>Disconnecting undoes connecting\<close>

text \<open>C4: Disconnecting the block that was just connected, with the undo data that connecting it wrote,
  finds nothing unclean and gives back the unspent outputs and the best block from before, also when
  transactions of the block spend each other's outputs or exhaust the coins they spend.\<close>

theorem DisconnectBlock_undoes:
  assumes "tip.cache_inv c s" "ConnectBlock e d nNow adj (cache_ops (db_ops c)) block (b # q) False ff s = (Inr (p', us), s')"
    "header_GetHash (pe_hf (ce_pow e)) (bh_pure (bk_header block)) \<noteq> ce_hashGenesis e" "block_plain block"
    "b_hashBlock b \<noteq> 0" "b_nFile b \<noteq> - 1" "q \<noteq> []" "b_hashBlock (hd q) \<noteq> 0" "0 < sint (b_nHeight b)"
    "heights_ok (tip.cache_coins c s)" "ReadFromDisk (GetUndoPos (hd p')) (b_hashBlock (hd q)) = Some us"
  shows "\<exists>s''. DisconnectBlock (cache_ops (db_ops c)) (pe_hs (ce_pow e)) ReadFromDisk block p' s' = (Inr True, s'')
    \<and> tip.cache_coins c s'' = tip.cache_coins c s \<and> tip.cache_best s'' = tip.cache_best s"
proof -
  have "\<forall>tx\<in>set (bk_vtx block). db_ok (coins_of_tx tx (b_nHeight b))" "b_nHeight b \<noteq> 0"
    using ConnectBlock_db_ok [OF assms(2,4)] assms(9) by auto
  from tip.Disconnect_Connect [where c = c and s = s and s' = s' and p' = p' and us = us and block = block
        and e = e and b = b and q = q and ReadFromDisk = ReadFromDisk and ff = ff,
      OF assms(1-3) this(1) assms(5-8) this(2) assms(10,11)]
  show ?thesis by blast
qed

theorem DisconnectBlock_undoes_witness:
  "\<exists>p' us s' s''. ConnectBlock demo_env demo_disk 1000 1000 demo_ops (sample_block 5) demo_chain False sample_flags demo_view = (Inr (p', us), s')
    \<and> DisconnectBlock demo_ops (pe_hs (ce_pow demo_env)) (\<lambda>pos hash. Some us) (sample_block 5) p' s' = (Inr True, s'')
    \<and> tip.cache_coins toy_crypto s'' = tip.cache_coins toy_crypto demo_view"
proof -
  obtain p' us s' where c: "ConnectBlock demo_env demo_disk 1000 1000 demo_ops (sample_block 5) demo_chain False sample_flags demo_view = (Inr (p', us), s')"
    using demo_connects by blast
  have "\<exists>s''. DisconnectBlock demo_ops (pe_hs (ce_pow demo_env)) (\<lambda>pos hash. Some us) (sample_block 5) p' s' = (Inr True, s'')
    \<and> tip.cache_coins toy_crypto s'' = tip.cache_coins toy_crypto demo_view \<and> tip.cache_best s'' = tip.cache_best demo_view"
    by (rule DisconnectBlock_undoes [OF demo_view_ok c demo_rules(3) demo_hyps(1) _ _ _ _ _ demo_hyps(2)])
      (simp_all add: sample_index_def)
  then show ?thesis using c by blast
qed

end
