(* ===== verification/CheckQueue.thy ===== *)
theory CheckQueue imports Main Prelude begin

text \<open>
  The queue of script checks (\<open>src/src/checkqueue.h\<close>): a master thread adds batches of checks, worker
  threads and then the master run them. The state is that of the object and of the threads, the
  list of thread states, with the master first. Every section under the mutex is one step; a
  waiting thread wakes when it was notified, or spuriously. Code that reads the counters without
  the mutex, the assertions in the constructor of \<open>CCheckQueueControl\<close>, is not modelled: it can see
  them in the middle of a section.
\<close>

section \<open>The state\<close>

text \<open>A thread: not in \<open>Loop\<close>; outside the critical section with the rest of its batch, \<open>nNow\<close> and \<open>fOk\<close>;
  waiting on its condition, with a pending notification or not; returned.\<close>

datatype 'a cq_thread = Outside | Running "'a list" nat bool | Waiting bool | Returned bool

record 'a cq_state =
  q_queue :: "'a list"
  q_nIdle :: nat
  q_nTotal :: nat
  q_fAllOk :: bool
  q_nTodo :: nat
  q_fQuit :: bool
  q_nBatchSize :: nat
  q_threads :: "'a cq_thread list"

text \<open>A new queue with its threads, none of which has entered.\<close>

definition CCheckQueue :: "nat \<Rightarrow> nat \<Rightarrow> 'a cq_state" where
  "CCheckQueue nBatchSizeIn nThreads =
     \<lparr> q_queue = [], q_nIdle = 0, q_nTotal = 0, q_fAllOk = True, q_nTodo = 0, q_fQuit = False,
       q_nBatchSize = nBatchSizeIn, q_threads = replicate nThreads Outside \<rparr>"

section \<open>The loop\<close>

definition set_thread :: "nat \<Rightarrow> 'a cq_thread \<Rightarrow> 'a cq_state \<Rightarrow> 'a cq_state" where
  "set_thread t x s = s\<lparr>q_threads := (q_threads s)[t := x]\<rparr>"

definition batch_size :: "'a cq_state \<Rightarrow> nat" where
  "batch_size s = max 1 (min (q_nBatchSize s) (length (q_queue s) div (q_nTotal s + q_nIdle s + 1)))"

text \<open>From the test of the queue to the end of the critical section: thread 0 is the master.\<close>

definition loop_head :: "nat \<Rightarrow> 'a cq_state \<Rightarrow> 'a cq_state" where
  "loop_head t s =
     (if q_queue s = [] then
        (if (t = 0 \<or> q_fQuit s) \<and> q_nTodo s = 0 then
           set_thread t (Returned (q_fAllOk s))
             (s\<lparr>q_nTotal := q_nTotal s - 1, q_fAllOk := (if t = 0 then True else q_fAllOk s)\<rparr>)
         else set_thread t (Waiting False) (s\<lparr>q_nIdle := q_nIdle s + 1\<rparr>))
      else
        let nNow = batch_size s; n = length (q_queue s) - nNow in
        set_thread t (Running (rev (drop n (q_queue s))) nNow (q_fAllOk s)) (s\<lparr>q_queue := take n (q_queue s)\<rparr>))"

definition notify :: "nat \<Rightarrow> 'a cq_state \<Rightarrow> 'a cq_state" where
  "notify t s =
     (case q_threads s ! t of Waiting _ \<Rightarrow> set_thread t (Waiting True) s | _ \<Rightarrow> s)"

definition loop_enter :: "nat \<Rightarrow> 'a cq_state \<Rightarrow> 'a cq_state" where
  "loop_enter t s = loop_head t (s\<lparr>q_nTotal := q_nTotal s + 1\<rparr>)"

definition loop_finish :: "nat \<Rightarrow> nat \<Rightarrow> bool \<Rightarrow> 'a cq_state \<Rightarrow> 'a cq_state" where
  "loop_finish t nNow fOk s =
     (let s = s\<lparr>q_fAllOk := (q_fAllOk s \<and> fOk), q_nTodo := q_nTodo s - nNow\<rparr>;
          s = (if q_nTodo s = 0 \<and> t \<noteq> 0 then notify 0 s else s)
      in loop_head t s)"

definition loop_wake :: "nat \<Rightarrow> 'a cq_state \<Rightarrow> 'a cq_state" where
  "loop_wake t s = loop_head t (s\<lparr>q_nIdle := q_nIdle s - 1\<rparr>)"

text \<open>\<open>notify_all\<close> reaches every waiting worker, \<open>notify_one\<close> one of them, if there is one.\<close>

definition notify_all :: "'a cq_state \<Rightarrow> 'a cq_state" where
  "notify_all s = fold notify [1..<length (q_threads s)] s"

definition queue_add :: "nat \<Rightarrow> 'a list \<Rightarrow> 'a cq_state \<Rightarrow> 'a cq_state" where
  "queue_add t vChecks s =
     (let s = s\<lparr>q_queue := q_queue s @ vChecks, q_nTodo := q_nTodo s + length vChecks\<rparr> in
      if length vChecks = 1 then notify t s else if length vChecks > 1 then notify_all s else s)"

section \<open>Steps\<close>

text \<open>The flag is False for what a run of \<open>Wait\<close> does not depend on: an addition, a spurious wake-up, and
  a new round. The first component is the list of the checks added since the master last returned. A thread
  \<open>t\<close> other than the master is chosen by \<open>notify_one\<close>.\<close>

inductive cq_step :: "('a \<Rightarrow> bool) \<Rightarrow> bool \<Rightarrow> 'a list \<times> 'a cq_state \<Rightarrow> 'a list \<times> 'a cq_state \<Rightarrow> bool" for check where
  Add: "q_threads s ! 0 = Outside \<Longrightarrow> 0 < t \<Longrightarrow> t < length (q_threads s) \<Longrightarrow>
    cq_step check False (added, s) (added @ vChecks, queue_add t vChecks s)"
| Enter: "t < length (q_threads s) \<Longrightarrow> q_threads s ! t = Outside \<Longrightarrow>
    cq_step check True (added, s) (added, loop_enter t s)"
| Check: "t < length (q_threads s) \<Longrightarrow> q_threads s ! t = Running (k # ks) nNow fOk \<Longrightarrow>
    cq_step check True (added, s) (added, set_thread t (Running ks nNow (if fOk then check k else fOk)) s)"
| Finish: "t < length (q_threads s) \<Longrightarrow> q_threads s ! t = Running [] nNow fOk \<Longrightarrow>
    cq_step check True (added, s) (added, loop_finish t nNow fOk s)"
| Wake: "t < length (q_threads s) \<Longrightarrow> q_threads s ! t = Waiting notified \<Longrightarrow>
    cq_step check notified (added, s) (added, loop_wake t s)"
| Again: "q_threads s ! 0 = Returned fRet \<Longrightarrow>
    cq_step check False (added, s) ([], set_thread 0 Outside s)"


section \<open>The invariant\<close>

fun th_idle :: "'a cq_thread \<Rightarrow> nat" where
  "th_idle (Waiting b) = 1" | "th_idle Outside = 0" | "th_idle (Running ks n f) = 0" | "th_idle (Returned r) = 0"

fun th_inside :: "'a cq_thread \<Rightarrow> nat" where
  "th_inside (Waiting b) = 1" | "th_inside Outside = 0" | "th_inside (Running ks n f) = 1" | "th_inside (Returned r) = 0"

fun th_todo :: "'a cq_thread \<Rightarrow> nat" where
  "th_todo (Running ks n f) = n" | "th_todo Outside = 0" | "th_todo (Waiting b) = 0" | "th_todo (Returned r) = 0"

fun th_good :: "('a \<Rightarrow> bool) \<Rightarrow> 'a cq_thread \<Rightarrow> bool" where
  "th_good check (Running ks n f) \<longleftrightarrow> f \<and> list_all check ks" | "th_good check Outside \<longleftrightarrow> True"
| "th_good check (Waiting b) \<longleftrightarrow> True" | "th_good check (Returned r) \<longleftrightarrow> True"

fun th_busy :: "'a cq_thread \<Rightarrow> bool" where
  "th_busy (Running ks n f) \<longleftrightarrow> 1 \<le> n" | "th_busy Outside \<longleftrightarrow> True" | "th_busy (Waiting b) \<longleftrightarrow> True" | "th_busy (Returned r) \<longleftrightarrow> True"

text \<open>The counters count the threads and the checks that are not done; the checks added all hold when
  those left hold and no thread has seen one that fails; the master waits for a notification only
  while a check is not done.\<close>

definition cq_counts :: "'a list \<Rightarrow> 'a cq_state \<Rightarrow> bool" where
  "cq_counts added s \<longleftrightarrow> q_threads s \<noteq> [] \<and> \<not> q_fQuit s \<and> q_nIdle s = sum_list (map th_idle (q_threads s))
     \<and> q_nTotal s = sum_list (map th_inside (q_threads s))
     \<and> q_nTodo s = length (q_queue s) + sum_list (map th_todo (q_threads s)) \<and> q_nTodo s \<le> length added"

definition cq_verdict :: "('a \<Rightarrow> bool) \<Rightarrow> 'a list \<Rightarrow> 'a cq_state \<Rightarrow> bool" where
  "cq_verdict check added s \<longleftrightarrow>
     list_all check added = (q_fAllOk s \<and> list_all check (q_queue s) \<and> list_all (th_good check) (q_threads s))"

definition cq_master :: "('a \<Rightarrow> bool) \<Rightarrow> 'a list \<Rightarrow> 'a cq_state \<Rightarrow> bool" where
  "cq_master check added s \<longleftrightarrow>
     (case q_threads s ! 0 of
        Returned r \<Rightarrow> r = list_all check added \<and> q_nTodo s = 0 \<and> q_fAllOk s
      | Waiting b \<Rightarrow> q_queue s = [] \<and> (b \<or> q_nTodo s > 0) \<and> cq_verdict check added s
      | _ \<Rightarrow> cq_verdict check added s)"

definition cq_inv :: "('a \<Rightarrow> bool) \<Rightarrow> 'a list \<times> 'a cq_state \<Rightarrow> bool" where
  "cq_inv check x \<longleftrightarrow> (case x of (added, s) \<Rightarrow> cq_counts added s \<and> list_all th_busy (q_threads s) \<and> cq_master check added s)"

text \<open>The threads but one.\<close>

definition others :: "nat \<Rightarrow> 'a cq_state \<Rightarrow> 'a cq_thread list" where
  "others t s = take t (q_threads s) @ drop (Suc t) (q_threads s)"

lemma others_set [simp]: "t < length (q_threads s) \<Longrightarrow> others t (set_thread t x s) = others t s"
  by (simp add: others_def set_thread_def)

lemma others_fields [simp]: "others t (s\<lparr>q_queue := a\<rparr>) = others t s" "others t (s\<lparr>q_nIdle := b\<rparr>) = others t s"
  "others t (s\<lparr>q_nTotal := c\<rparr>) = others t s" "others t (s\<lparr>q_fAllOk := d\<rparr>) = others t s" "others t (s\<lparr>q_nTodo := e\<rparr>) = others t s"
  by (simp_all add: others_def)

lemma threads_set [simp]: "q_threads (set_thread t x s) = (q_threads s)[t := x]"
  by (simp add: set_thread_def)

lemma set_thread_fields [simp]: "q_queue (set_thread t x s) = q_queue s" "q_nIdle (set_thread t x s) = q_nIdle s"
  "q_nTotal (set_thread t x s) = q_nTotal s" "q_fAllOk (set_thread t x s) = q_fAllOk s" "q_nTodo (set_thread t x s) = q_nTodo s"
  "q_fQuit (set_thread t x s) = q_fQuit s"
  by (simp_all add: set_thread_def)

lemma sum_others: "t < length (q_threads s) \<Longrightarrow>
    sum_list (map f (q_threads s)) = (f (q_threads s ! t) :: nat) + sum_list (map f (others t s))"
  by (subst id_take_nth_drop [of t "q_threads s"]) (simp_all add: others_def)

lemma all_others: "t < length (q_threads s) \<Longrightarrow>
    list_all P (q_threads s) \<longleftrightarrow> P (q_threads s ! t) \<and> list_all P (others t s)"
  by (subst id_take_nth_drop [of t "q_threads s"]) (auto simp: others_def)

lemma all_set [simp]: "t < length (q_threads s) \<Longrightarrow>
    list_all P ((q_threads s)[t := x]) \<longleftrightarrow> P x \<and> list_all P (others t s)"
  by (simp add: upd_conv_take_nth_drop others_def conj_left_commute)

lemma counts_at: "t < length (q_threads s) \<Longrightarrow> cq_counts added s \<longleftrightarrow> \<not> q_fQuit s
     \<and> q_nIdle s = th_idle (q_threads s ! t) + sum_list (map th_idle (others t s))
     \<and> q_nTotal s = th_inside (q_threads s ! t) + sum_list (map th_inside (others t s))
     \<and> q_nTodo s = length (q_queue s) + (th_todo (q_threads s ! t) + sum_list (map th_todo (others t s)))
     \<and> q_nTodo s \<le> length added"
  by (auto simp: cq_counts_def sum_others [of t])

lemma verdict_at: "t < length (q_threads s) \<Longrightarrow> cq_verdict check added s \<longleftrightarrow>
     list_all check added = (q_fAllOk s \<and> list_all check (q_queue s) \<and> th_good check (q_threads s ! t)
       \<and> list_all (th_good check) (others t s))"
  by (simp add: cq_verdict_def all_others [of t])

lemma batch_pos: "1 \<le> batch_size s" by (simp add: batch_size_def)

lemma batch_le: "q_queue s \<noteq> [] \<Longrightarrow> batch_size s \<le> length (q_queue s)"
  by (cases "q_queue s") (auto simp: batch_size_def intro!: min.coboundedI2 order_trans [OF div_le_dividend])

lemma idle_good: "list_all th_busy xs \<Longrightarrow> sum_list (map th_todo xs) = 0 \<Longrightarrow> list_all (th_good check) xs"
  by (induction xs) (auto elim: th_busy.elims)

lemma batch_good: "n \<le> length q \<Longrightarrow> list_all check (rev (drop n q)) \<and> list_all check (take n q) \<longleftrightarrow> list_all check q"
  by (metis append_take_drop_id list_all_append list_all_rev)

text \<open>Inside the critical section thread \<open>t\<close> counts as running an empty batch.\<close>

definition held :: "('a \<Rightarrow> bool) \<Rightarrow> 'a list \<Rightarrow> nat \<Rightarrow> 'a cq_state \<Rightarrow> bool" where
  "held check added t s \<longleftrightarrow> t < length (q_threads s) \<and> cq_counts added (set_thread t (Running [] 0 True) s)
     \<and> list_all th_busy (others t s) \<and> cq_master check added (set_thread t (Running [] 0 True) s)"

lemma loop_head_inv:
  assumes "held check added t s"
  shows "cq_inv check (added, loop_head t s)"
proof -
  note h = assms [unfolded held_def]
  then have t: "t < length (q_threads s)" by simp
  have c: "cq_counts added (loop_head t s)"
    using h batch_le [of s] by (auto simp: counts_at [of t] loop_head_def Let_def)
  have b: "list_all th_busy (q_threads (loop_head t s))"
    using h batch_pos [of s] by (simp add: all_others [of t] loop_head_def Let_def)
  have "cq_master check added (loop_head t s)"
  proof (cases "t = 0")
    case True
    then show ?thesis
      using h idle_good [of "others 0 s" check] batch_le [of s] batch_good [of "length (q_queue s) - batch_size s" "q_queue s" check]
      by (auto simp: cq_master_def loop_head_def Let_def counts_at [of 0] verdict_at [of 0])
  next
    case False
    then show ?thesis
      using h batch_le [of s] batch_good [of "length (q_queue s) - batch_size s" "q_queue s" check]
      by (auto simp: cq_master_def loop_head_def Let_def counts_at [of t] verdict_at [of t] split: cq_thread.splits)
  qed
  then show ?thesis using c b by (simp add: cq_inv_def)
qed

text \<open>A notification only marks a waiting thread.\<close>

lemma notify_cases: "notify u s = s \<or> (\<exists>b. q_threads s ! u = Waiting b \<and> notify u s = set_thread u (Waiting True) s)"
  by (cases "q_threads s ! u") (simp_all add: notify_def)

lemma set_thread_out: "length (q_threads s) \<le> u \<Longrightarrow> set_thread u x s = s"
  by (simp add: set_thread_def list_update_beyond)

lemma notify_counts: "cq_counts added s \<Longrightarrow> cq_counts added (notify u s)"
  using notify_cases [of u s] by (cases "u < length (q_threads s)") (auto simp: set_thread_out counts_at [of u])

lemma notify_busy: "list_all th_busy (q_threads s) \<Longrightarrow> list_all th_busy (q_threads (notify u s))"
  using notify_cases [of u s] by (cases "u < length (q_threads s)") (auto simp: all_others [of u s] list_update_beyond)

lemma notify_verdict: "cq_verdict check added s \<Longrightarrow> cq_verdict check added (notify u s)"
  using notify_cases [of u s] by (cases "u < length (q_threads s)") (auto simp: set_thread_out verdict_at [of u])

lemma notify_fields [simp]: "q_queue (notify u s) = q_queue s" "q_nIdle (notify u s) = q_nIdle s"
  "q_nTotal (notify u s) = q_nTotal s" "q_fAllOk (notify u s) = q_fAllOk s" "q_nTodo (notify u s) = q_nTodo s"
  "q_fQuit (notify u s) = q_fQuit s" "length (q_threads (notify u s)) = length (q_threads s)"
  by (simp_all add: notify_def split: cq_thread.splits)

lemma notify_nth: "q_threads (notify u s) ! v = (if v = u \<and> u < length (q_threads s) then
    (case q_threads s ! u of Waiting b \<Rightarrow> Waiting True | x \<Rightarrow> x) else q_threads s ! v)"
  by (cases "u < length (q_threads s)") (auto simp: notify_def set_thread_out split: cq_thread.splits)

lemma notify_master: "cq_master check added s \<Longrightarrow> cq_master check added (notify u s)"
  using notify_verdict [of check added s u] by (auto simp: cq_master_def notify_nth split: cq_thread.splits if_splits)

lemma notify_inv: "cq_inv check (added, s) \<Longrightarrow> cq_inv check (added, notify u s)"
  by (simp add: cq_inv_def notify_counts notify_busy notify_master)

lemma notify_all_inv: "cq_inv check (added, s) \<Longrightarrow> cq_inv check (added, notify_all s)"
proof -
  have "cq_inv check (added, s) \<Longrightarrow> cq_inv check (added, fold notify us s)" for us
    by (induction us arbitrary: s) (auto intro: notify_inv)
  then show "cq_inv check (added, s) \<Longrightarrow> cq_inv check (added, notify_all s)" by (simp add: notify_all_def)
qed

lemma queue_add_inv:
  assumes "cq_inv check (added, s)" "q_threads s ! 0 = Outside"
  shows "cq_inv check (added @ vChecks, queue_add t vChecks s)"
proof -
  have "cq_inv check (added @ vChecks, s\<lparr>q_queue := q_queue s @ vChecks, q_nTodo := q_nTodo s + length vChecks\<rparr>)"
    using assms by (auto simp: cq_inv_def cq_counts_def cq_master_def cq_verdict_def)
  then show ?thesis by (auto simp: queue_add_def Let_def intro: notify_inv notify_all_inv)
qed

lemma notify_set_thread: "u \<noteq> t \<Longrightarrow> notify u (set_thread t x s) = set_thread t x (notify u s)"
  by (auto simp: notify_def set_thread_def list_update_swap split: cq_thread.splits)

lemma enter_held: "cq_inv check (added, s) \<Longrightarrow> t < length (q_threads s) \<Longrightarrow> q_threads s ! t = Outside \<Longrightarrow>
    held check added t (s\<lparr>q_nTotal := q_nTotal s + 1\<rparr>)"
  by (cases "t = 0") (auto simp: held_def cq_inv_def counts_at [of t] all_others [of t] cq_master_def verdict_at [of t] split: cq_thread.splits)

lemma wake_held: "cq_inv check (added, s) \<Longrightarrow> t < length (q_threads s) \<Longrightarrow> q_threads s ! t = Waiting b \<Longrightarrow>
    held check added t (s\<lparr>q_nIdle := q_nIdle s - 1\<rparr>)"
  by (cases "t = 0") (auto simp: held_def cq_inv_def counts_at [of t] all_others [of t] cq_master_def verdict_at [of t] split: cq_thread.splits)

lemma notify_others_busy:
  assumes "u \<noteq> t" "t < length (q_threads s)" "list_all th_busy (others t s)"
  shows "list_all th_busy (others t (notify u s))"
  using assms notify_busy [of "set_thread t Outside s" u] by (simp add: notify_set_thread)

lemma finish_counts: "cq_inv check (added, s) \<Longrightarrow> t < length (q_threads s) \<Longrightarrow> q_threads s ! t = Running [] nNow fOk \<Longrightarrow>
    cq_counts added (set_thread t (Running [] 0 True) (s\<lparr>q_fAllOk := f, q_nTodo := q_nTodo s - nNow\<rparr>))
    \<and> list_all th_busy (others t s)"
  by (auto simp: cq_inv_def counts_at [of t] all_others [of t])

lemma finish_held:
  assumes "cq_inv check (added, s)" "t < length (q_threads s)" "q_threads s ! t = Running [] nNow fOk"
    and s': "s' = s\<lparr>q_fAllOk := (q_fAllOk s \<and> fOk), q_nTodo := q_nTodo s - nNow\<rparr>"
  shows "held check added t (if q_nTodo s' = 0 \<and> t \<noteq> 0 then notify 0 s' else s')"
proof (cases "t = 0")
  case True
  then show ?thesis
    using assms finish_counts [OF assms(1-3)] by (auto simp: held_def cq_inv_def cq_master_def verdict_at [of 0])
next
  case False
  let ?h = "\<lambda>s. set_thread t (Running [] 0 True) s"
  note c = finish_counts [OF assms(1-3), of "q_fAllOk s \<and> fOk", folded s']
  have m: "cq_master check added (?h s')" if "q_nTodo s' \<noteq> 0"
    using assms that False by (auto simp: cq_inv_def cq_master_def verdict_at [of t] split: cq_thread.splits)
  have v: "cq_verdict check added (?h s')" if "cq_verdict check added s"
    using that assms(2,3) s' by (auto simp: verdict_at [of t])
  have r: "q_nTodo s \<noteq> 0" using assms(1-3) by (auto simp: cq_inv_def counts_at [of t] all_others [of t])
  have "cq_master check added (notify 0 (?h s'))"
  proof (cases "q_threads s ! 0")
    case (Returned x)
    then show ?thesis using r assms(1) by (simp add: cq_inv_def cq_master_def)
  qed (use assms(1,2) s' False in \<open>auto simp: cq_inv_def cq_master_def notify_nth intro!: notify_verdict v [unfolded s']\<close>)
  then have n: "cq_master check added (?h (notify 0 s'))" using False by (simp add: notify_set_thread)
  show ?thesis using c m n False assms(2) s'
    by (auto simp: held_def simp flip: notify_set_thread intro: notify_counts notify_others_busy)
qed

lemma cq_step_inv: "cq_step check p x y \<Longrightarrow> cq_inv check x \<Longrightarrow> cq_inv check y"
proof (induction rule: cq_step.induct)
  case (Add s t added vChecks)
  then show ?case by (intro queue_add_inv)
next
  case (Enter t s added)
  then show ?case unfolding loop_enter_def by (intro loop_head_inv enter_held)
next
  case (Check t s k ks nNow fOk added)
  then show ?case
    by (cases "t = 0") (auto simp: cq_inv_def counts_at [of t] all_others [of t] cq_master_def verdict_at [of t] split: cq_thread.splits)
next
  case (Wake t s notified added)
  then show ?case unfolding loop_wake_def by (intro loop_head_inv wake_held)
next
  case (Again s fRet added)
  then have "q_threads s \<noteq> []" by (simp add: cq_inv_def cq_counts_def)
  with Again show ?case
    using idle_good [of "others 0 s" check]
    by (auto simp: cq_inv_def counts_at [of 0] all_others [of 0] cq_master_def verdict_at [of 0])
next
  case (Finish t s nNow fOk added)
  then show ?case unfolding loop_finish_def Let_def by (intro loop_head_inv finish_held [OF _ _ _ refl])
qed

section \<open>Runs\<close>

text \<open>What any number of steps reaches.\<close>

definition cq_run :: "('a \<Rightarrow> bool) \<Rightarrow> 'a list \<times> 'a cq_state \<Rightarrow> 'a list \<times> 'a cq_state \<Rightarrow> bool" where
  "cq_run check = (\<lambda>x y. \<exists>p. cq_step check p x y)\<^sup>*\<^sup>*"

lemma cq_new_inv: "1 \<le> nThreads \<Longrightarrow> cq_inv check ([], CCheckQueue nBatchSize nThreads)"
  by (simp add: cq_inv_def cq_counts_def cq_master_def cq_verdict_def CCheckQueue_def list_all_length sum_list_replicate)

lemma cq_run_inv: "cq_run check x y \<Longrightarrow> cq_inv check x \<Longrightarrow> cq_inv check y"
  unfolding cq_run_def by (induction rule: rtranclp_induct) (auto intro: cq_step_inv)

lemma cq_reach_inv: "1 \<le> nThreads \<Longrightarrow> cq_run check ([], CCheckQueue nBatchSize nThreads) y \<Longrightarrow> cq_inv check y"
  by (rule cq_run_inv [OF _ cq_new_inv])

text \<open>The work left: a step of the code decreases it.\<close>

fun th_work :: "'a cq_thread \<Rightarrow> nat" where
  "th_work Outside = 2" | "th_work (Running ks n f) = 2 + length ks" | "th_work (Waiting b) = (if b then 1 else 0)"
| "th_work (Returned r) = 0"

definition cq_work :: "'a cq_state \<Rightarrow> nat" where
  "cq_work s = 4 * length (q_queue s) + sum_list (map th_work (q_threads s))"

lemma work_at: "t < length (q_threads s) \<Longrightarrow>
    cq_work s = 4 * length (q_queue s) + (th_work (q_threads s ! t) + sum_list (map th_work (others t s)))"
  by (simp add: cq_work_def sum_others [of t])

lemma loop_head_work:
  assumes "t < length (q_threads s)"
  shows "cq_work (loop_head t s) \<le> 4 * length (q_queue s) + sum_list (map th_work (others t s))"
  using assms batch_pos [of s] batch_le [of s]
  by (auto simp: work_at [of t] loop_head_def Let_def)

lemma notify_work: "cq_work (notify u s) \<le> cq_work s + 1"
  using notify_cases [of u s] by (cases "u < length (q_threads s)") (auto simp: set_thread_out work_at [of u])

lemma notify_others_work:
  assumes "u \<noteq> t" "t < length (q_threads s)"
  shows "sum_list (map th_work (others t (notify u s))) \<le> sum_list (map th_work (others t s)) + 1"
  using notify_work [of u "set_thread t (Returned True) s"] assms
  by (simp add: notify_set_thread work_at [of t])

lemma notify_maybe_work:
  "t < length (q_threads s) \<Longrightarrow>
    4 * length (q_queue (if c \<and> t \<noteq> 0 then notify 0 s else s))
      + sum_list (map th_work (others t (if c \<and> t \<noteq> 0 then notify 0 s else s)))
    \<le> 4 * length (q_queue s) + sum_list (map th_work (others t s)) + 1"
  using notify_others_work [of 0 t s] by auto

lemma finish_work:
  assumes "t < length (q_threads s)" "q_threads s ! t = Running [] nNow fOk"
  shows "cq_work (loop_finish t nNow fOk s) < cq_work s"
proof -
  let ?s = "s\<lparr>q_fAllOk := (q_fAllOk s \<and> fOk), q_nTodo := q_nTodo s - nNow\<rparr>"
  let ?n = "if q_nTodo ?s = 0 \<and> t \<noteq> 0 then notify 0 ?s else ?s"
  have "cq_work (loop_finish t nNow fOk s) \<le> 4 * length (q_queue ?n) + sum_list (map th_work (others t ?n))"
    unfolding loop_finish_def Let_def by (rule loop_head_work) (use assms(1) in simp)
  also have "\<dots> \<le> 4 * length (q_queue s) + sum_list (map th_work (others t s)) + 1"
    by (rule order_trans [OF notify_maybe_work]) (use assms(1) in simp_all)
  also have "\<dots> < cq_work s" using assms by (simp add: work_at [of t])
  finally show ?thesis .
qed

lemma cq_step_work: "cq_step check p x y \<Longrightarrow> p \<Longrightarrow> cq_work (snd y) < cq_work (snd x)"
proof (induction rule: cq_step.induct)
  case (Enter t s added)
  then show ?case
    using loop_head_work [of t "s\<lparr>q_nTotal := q_nTotal s + 1\<rparr>"] by (simp add: loop_enter_def work_at [of t s])
next
  case (Check t s k ks nNow fOk added)
  then show ?case by (simp add: work_at [of t])
next
  case (Finish t s nNow fOk added)
  then show ?case by (simp add: finish_work)
next
  case (Wake t s notified added)
  then show ?case
    using loop_head_work [of t "s\<lparr>q_nIdle := q_nIdle s - 1\<rparr>"] by (simp add: loop_wake_def work_at [of t s])
qed simp_all

lemma cq_steps_work: "(cq_step check True ^^ k) x y \<Longrightarrow> cq_work (snd y) + k \<le> cq_work (snd x)"
proof (induction k arbitrary: y)
  case (Suc k)
  then obtain z where "(cq_step check True ^^ k) x z" "cq_step check True z y" by auto
  with Suc.IH [of z] cq_step_work [of check True z y] show ?case by simp
qed simp

lemma cq_steps_inv: "(cq_step check True ^^ k) x y \<Longrightarrow> cq_inv check x \<Longrightarrow> cq_inv check y"
  by (induction k arbitrary: y) (auto intro: cq_step_inv)

lemma cq_step_added: "cq_step check p x y \<Longrightarrow> p \<Longrightarrow> fst y = fst x"
  by (induction rule: cq_step.induct) simp_all

lemma cq_steps_added: "(cq_step check True ^^ k) x y \<Longrightarrow> fst y = fst x"
  by (induction k arbitrary: y) (auto dest!: cq_step_added [OF _ TrueI])

text \<open>A queue in which no thread can go on has answered.\<close>

lemma cq_stuck:
  assumes inv: "cq_inv check (added, s)" and stuck: "\<And>z. \<not> cq_step check True (added, s) z"
  shows "q_threads s ! 0 = Returned (list_all check added)"
proof -
  have quiet: "q_threads s ! t = Waiting False \<or> (\<exists>r. q_threads s ! t = Returned r)"
    if "t < length (q_threads s)" for t
  proof (cases "q_threads s ! t")
    case Outside
    with that stuck Enter [of t s check added] show ?thesis by blast
  next
    case (Running ks n f)
    with that stuck Check [of t s _ _ n f check added] Finish [of t s n f check added] show ?thesis by (cases ks) blast+
  next
    case (Waiting b)
    with that stuck [of "(added, loop_wake t s)"] Wake [of t s b check added] show ?thesis by (cases b) simp_all
  next
    case (Returned r)
    then show ?thesis by simp
  qed
  then have "th_todo (q_threads s ! t) = 0" if "t < length (q_threads s)" for t
    using that by fastforce
  then have "sum_list (map th_todo (q_threads s)) = 0" by (auto simp: in_set_conv_nth)
  moreover have "0 < length (q_threads s)" using inv by (simp add: cq_inv_def cq_counts_def)
  ultimately show ?thesis
    using inv quiet [of 0] by (auto simp: cq_inv_def cq_counts_def cq_master_def simp del: sum_list_eq_0_iff)
qed

section \<open>What the queue promises\<close>

text \<open>A run with two threads and two checks, one of which fails: both threads take a check.\<close>

lemma cq_run_step: "cq_run check x y \<Longrightarrow> cq_step check p y z \<Longrightarrow> cq_run check x z"
  unfolding cq_run_def by (rule rtranclp.rtrancl_into_rtrancl) auto

definition sample_run :: "nat cq_state list" where
  "sample_run =
     (let s1 = loop_enter 1 (CCheckQueue 128 2); s2 = queue_add 1 [3, 7] s1; s3 = loop_wake 1 s2; s4 = loop_enter 0 s3;
          s5 = set_thread 1 (Running [] 1 False) s4; s6 = loop_finish 1 1 False s5;
          s7 = set_thread 0 (Running [] 1 True) s6; s8 = loop_finish 0 1 True s7
      in [s1, s2, s3, s4, s5, s6, s7, s8])"

lemma cq_stepI:
  "t < length (q_threads s) \<Longrightarrow> q_threads s ! t = Outside \<Longrightarrow> s' = loop_enter t s \<Longrightarrow>
    cq_step check True (added, s) (added, s')"
  "q_threads s ! 0 = Outside \<Longrightarrow> 0 < t \<Longrightarrow> t < length (q_threads s) \<Longrightarrow> s' = queue_add t vChecks s \<Longrightarrow>
    cq_step check False (added, s) (added @ vChecks, s')"
  "t < length (q_threads s) \<Longrightarrow> q_threads s ! t = Waiting notified \<Longrightarrow> s' = loop_wake t s \<Longrightarrow>
    cq_step check notified (added, s) (added, s')"
  "t < length (q_threads s) \<Longrightarrow> q_threads s ! t = Running (k # ks) nNow True \<Longrightarrow> s' = set_thread t (Running ks nNow (check k)) s \<Longrightarrow>
    cq_step check True (added, s) (added, s')"
  "t < length (q_threads s) \<Longrightarrow> q_threads s ! t = Running [] nNow fOk \<Longrightarrow> s' = loop_finish t nNow fOk s \<Longrightarrow>
    cq_step check True (added, s) (added, s')"
  using cq_step.Check [of t s k ks nNow True check added] by (auto intro: cq_step.intros)

lemma sample_run_reached:
  "cq_run (\<lambda>k. k < 5) ([], CCheckQueue 128 2) ([3, 7], sample_run ! 3)"
  "cq_run (\<lambda>k. k < 5) ([], CCheckQueue 128 2) ([3, 7], sample_run ! 7)"
  "(cq_step (\<lambda>k. k < 5) True ^^ 4) ([3, 7], sample_run ! 3) ([3, 7], sample_run ! 7)"
proof -
  let ?s = "\<lambda>i. sample_run ! i" and ?c = "\<lambda>k. k < (5::nat)"
  have four: "4 = Suc (Suc (Suc (Suc 0)))" by simp
  have r: "cq_run ?c ([], CCheckQueue 128 2) ([], CCheckQueue 128 2)" by (simp add: cq_run_def)
  have s1: "cq_step ?c True ([], CCheckQueue 128 2) ([], ?s 0)" by (rule cq_stepI(1) [of 1]) code_simp+
  have s2: "cq_step ?c False ([], ?s 0) ([] @ [3, 7], ?s 1)" by (rule cq_stepI(2) [of _ 1]) code_simp+
  have s3: "cq_step ?c True ([] @ [3, 7], ?s 1) ([] @ [3, 7], ?s 2)" by (rule cq_stepI(3) [of 1]) code_simp+
  have s4: "cq_step ?c True ([] @ [3, 7], ?s 2) ([] @ [3, 7], ?s 3)" by (rule cq_stepI(1) [of 0]) code_simp+
  have s5: "cq_step ?c True ([] @ [3, 7], ?s 3) ([] @ [3, 7], ?s 4)" by (rule cq_stepI(4) [of 1 _ 7 "[]" 1]) code_simp+
  have s6: "cq_step ?c True ([] @ [3, 7], ?s 4) ([] @ [3, 7], ?s 5)" by (rule cq_stepI(5) [of 1 _ 1 False]) code_simp+
  have s7: "cq_step ?c True ([] @ [3, 7], ?s 5) ([] @ [3, 7], ?s 6)" by (rule cq_stepI(4) [of 0 _ 3 "[]" 1]) code_simp+
  have s8: "cq_step ?c True ([] @ [3, 7], ?s 6) ([] @ [3, 7], ?s 7)" by (rule cq_stepI(5) [of 0 _ 1 True]) code_simp+
  note r = cq_run_step [OF cq_run_step [OF cq_run_step [OF cq_run_step [OF r s1] s2] s3] s4]
  from cq_run_step [OF cq_run_step [OF cq_run_step [OF cq_run_step [OF r s5] s6] s7] s8]
  show "cq_run ?c ([], CCheckQueue 128 2) ([3, 7], ?s 7)" by simp
  from r show "cq_run ?c ([], CCheckQueue 128 2) ([3, 7], ?s 3)" by simp
  show "(cq_step ?c True ^^ 4) ([3, 7], ?s 3) ([3, 7], ?s 7)"
    using relpowp_Suc_I [OF relpowp_Suc_I [OF relpowp_Suc_I [OF relpowp_Suc_I [where P = "cq_step ?c True", OF relpowp_0_I s5] s6] s7] s8]
    unfolding four append_Nil .
qed

text \<open>C6: In every state the queue can reach between two critical sections, whatever the interleaving of
  its threads, the batches and the wake-ups: when the master has returned from \<open>Wait\<close>, it carries the
  conjunction of all checks added since its last return, and the round is over: the queue is empty
  and no thread holds a check of it.\<close>

lemma CCheckQueue_result:
  assumes "1 \<le> nThreads" "cq_run check ([], CCheckQueue nBatchSize nThreads) (added, s)" "q_threads s ! 0 = Returned r"
  shows "r = list_all check added \<and> q_queue s = [] \<and> (\<nexists>ks nNow fOk. Running ks nNow fOk \<in> set (q_threads s))"
proof -
  have inv: "cq_inv check (added, s)" using cq_reach_inv [OF assms(1,2)] .
  then have z: "q_nTodo s = 0" "r = list_all check added" "list_all th_busy (q_threads s)" "cq_counts added s"
    using assms(3) by (auto simp: cq_inv_def cq_master_def)
  then have idle: "q_queue s = []" "sum_list (map th_todo (q_threads s)) = 0"
    by (simp_all add: cq_counts_def del: sum_list_eq_0_iff)
  have "\<nexists>ks nNow fOk. Running ks nNow fOk \<in> set (q_threads s)"
  proof
    assume "\<exists>ks nNow fOk. Running ks nNow fOk \<in> set (q_threads s)"
    then obtain ks nNow fOk where t: "Running ks nNow fOk \<in> set (q_threads s)" by blast
    then have "th_busy (Running ks nNow fOk)" "th_todo (Running ks nNow fOk) = 0"
      using z(3) idle(2) by (metis list_all_iff, force)
    then show False by simp
  qed
  then show ?thesis using z(2) idle(1) by blast
qed

lemma CCheckQueue_result_witness:
  "cq_run (\<lambda>k. k < 5) ([], CCheckQueue 128 2) ([3, 7], sample_run ! 7) \<and> q_threads (sample_run ! 7) ! 0 = Returned False
    \<and> \<not> list_all (\<lambda>k. k < 5) [3, 7 :: nat] \<and> q_queue (sample_run ! 7) = []"
proof -
  have r: "q_threads (sample_run ! 7) ! 0 = Returned False" by code_simp
  show ?thesis using r sample_run_reached(2) CCheckQueue_result [OF _ sample_run_reached(2) r] by simp
qed

text \<open>C5: \<open>Wait\<close> returns: from every state the queue can reach, the number of steps that its threads can
  take without another addition or a spurious wake-up is bounded by the work left, no wake-up is lost,
  and when no thread can go on the master has returned the conjunction of the checks added.\<close>

lemma CCheckQueue_Wait_returns:
  assumes "1 \<le> nThreads" "cq_run check ([], CCheckQueue nBatchSize nThreads) (added, s)"
    and "(cq_step check True ^^ k) (added, s) (added', s')"
  shows "k \<le> cq_work s \<and> ((\<forall>z. \<not> cq_step check True (added', s') z) \<longrightarrow>
      q_threads s' ! 0 = Returned (list_all check added))"
proof -
  have inv: "cq_inv check (added', s')" using cq_steps_inv [OF assms(3) cq_reach_inv [OF assms(1,2)]] .
  have "added' = added" using cq_steps_added [OF assms(3)] by simp
  then show ?thesis using cq_steps_work [OF assms(3)] cq_stuck [OF inv] by auto
qed

lemma CCheckQueue_Wait_returns_witness:
  "(cq_step (\<lambda>k. k < 5) True ^^ 4) ([3, 7], sample_run ! 3) ([3, 7], sample_run ! 7)
    \<and> (\<nexists>z. cq_step (\<lambda>k. k < 5) True ([3, 7], sample_run ! 7) z)
    \<and> 4 \<le> cq_work (sample_run ! 3) \<and> q_threads (sample_run ! 7) ! 0 = Returned (list_all (\<lambda>k. k < 5) [3, 7 :: nat])"
proof -
  have th: "q_threads (sample_run ! 7) = [Returned False, Waiting False]" by code_simp
  have stuck: "\<not> cq_step (\<lambda>k. k < 5) True ([3, 7], sample_run ! 7) z" for z
    by (auto elim!: cq_step.cases simp: th less_Suc_eq)
  show ?thesis
    using CCheckQueue_Wait_returns [OF _ sample_run_reached(1,3)] sample_run_reached(3) stuck by simp
qed

end
