(* ===== verification/Threads.thy ===== *)
theory Threads imports Main Prelude Connect CheckQueue begin

text \<open>
  The two ways \<open>ConnectBlock\<close> (\<open>src/src/main.cpp\<close>) runs the script checks: one after the other
  while the inputs are checked, or on the queue of \<open>CheckQueue\<close>, waited for at the end. They accept
  the same blocks, with the same coins and the same undo data.
\<close>

section \<open>The queue answers for the checks of a block\<close>

lemma queue_wait_checks:
  assumes "1 \<le> nThreads" "cq_run (\<lambda>k. run_check c k = Some True) ([], CCheckQueue nBatchSize nThreads) (added, s)"
    and "q_threads s ! 0 = Returned r"
  shows "r = wait_checks c added"
  using cq_reach_inv [OF assms(1,2)] assms(3) by (simp add: cq_inv_def cq_master_def wait_checks_def)

lemma wait_checks_append [simp]: "wait_checks c (ks @ ls) \<longleftrightarrow> wait_checks c ks \<and> wait_checks c ls"
  by (simp add: wait_checks_def)

lemma wait_checks_simps [simp]: "wait_checks c []" "wait_checks c (k # ks) \<longleftrightarrow> run_check c k = Some True \<and> wait_checks c ks"
  by (simp_all add: wait_checks_def)

section \<open>Checks in line and checks collected\<close>

lemma inline_check_accepts: "inline_check c coins tx i flags = Inr x \<longleftrightarrow> run_check c (script_check_new coins tx i flags 0) = Some True"
  by (auto simp: inline_check_def split: option.splits bool.splits)

lemma script_checks_par:
  "script_checks c False V tx flags i s vin = (Inr l, s') \<longleftrightarrow>
     l = [] \<and> (\<exists>ks. script_checks c True V tx flags i s vin = (Inr ks, s') \<and> wait_checks c ks)"
proof (induction vin arbitrary: i s l)
  case (Cons txin vin)
  show ?case
  proof (cases "GetCoins_ref V s (o_hash (i_prevout txin))")
    case (Some r)
    then obtain coins s1 where r: "GetCoins_ref V s (o_hash (i_prevout txin)) = Some (coins, s1)" by (cases r) auto
    show ?thesis
      using Cons.IH [of "Suc i" s1 l] inline_check_accepts [of c coins tx i flags]
      by (cases "inline_check c coins tx i flags") (auto simp: r split: prod.splits sum.splits)
  qed simp
qed auto

lemma CheckInputs_par:
  "CheckInputs c m V tx s f flags False = (Inr l, s') \<longleftrightarrow>
     l = [] \<and> (\<exists>ks. CheckInputs c m V tx s f flags True = (Inr ks, s') \<and> wait_checks c ks)"
  by (auto simp: CheckInputs_def script_checks_par split: option.splits prod.splits bool.splits sum.splits if_splits)

text \<open>The environment with and without threads; the state with the checks collected so far.\<close>

definition with_threads :: "bool \<Rightarrow> connect_env \<Rightarrow> connect_env" where
  "with_threads par e = e\<lparr>ce_nScriptCheckThreads := par\<rparr>"

lemma with_threads_simps [simp]: "ce_crypto (with_threads par e) = ce_crypto e" "ce_pow (with_threads par e) = ce_pow e"
  "ce_params (with_threads par e) = ce_params e" "ce_hashGenesis (with_threads par e) = ce_hashGenesis e"
  "ce_mapBlockIndex (with_threads par e) = ce_mapBlockIndex e" "ce_fEnabled (with_threads par e) = ce_fEnabled e"
  "ce_nScriptCheckThreads (with_threads par e) = par" "ce_fTxIndex (with_threads par e) = ce_fTxIndex e"
  by (simp_all add: with_threads_def)

text \<open>An accepted transaction, call by call.\<close>

lemma connect_tx_Inr:
  "connect_tx e V f flags h st s tx hash = (Inr st', s') \<longleftrightarrow>
     cs_nSigOps st + GetLegacySigOpCount tx \<le> MAX_BLOCK_SIGOPS
     \<and> (if IsCoinBase tx
        then (\<exists>u. UpdateCoins V s tx [] h hash = Some (u, s')) \<and> st' = st\<lparr>cs_nSigOps := cs_nSigOps st + GetLegacySigOpCount tx\<rparr>
        else (\<exists>s1 n s2 vin s3 vout ks s4 u. HaveInputs V s tx = Some (True, s1) \<and> GetP2SHSigOpCount V s1 tx = Some (n, s2)
          \<and> cs_nSigOps st + GetLegacySigOpCount tx + n \<le> MAX_BLOCK_SIGOPS \<and> GetValueIn V s2 tx = Some (vin, s3)
          \<and> GetValueOut tx = Some vout
          \<and> CheckInputs (ce_crypto e) (ce_mapBlockIndex e) V tx s3 f flags (ce_nScriptCheckThreads e) = (Inr ks, s4)
          \<and> UpdateCoins V s4 tx [] h hash = Some (u, s')
          \<and> st' = st\<lparr>cs_nSigOps := cs_nSigOps st + GetLegacySigOpCount tx + n, cs_nFees := cs_nFees st + (vin - vout),
              cs_vChecks := cs_vChecks st @ ks, cs_vtxundo := cs_vtxundo st @ [u]\<rparr>))"
  by (cases st) (auto simp: connect_tx_def Let_def split: option.splits prod.splits bool.splits sum.splits)

lemma connect_tx_wait: "connect_tx e V f flags h st s tx hash = (Inr st', s') \<Longrightarrow>
    wait_checks c (cs_vChecks st') \<Longrightarrow> wait_checks c (cs_vChecks st)"
  by (cases "IsCoinBase tx") (auto simp: connect_tx_Inr)

lemma connect_txs_Inr:
  "connect_txs e V f flags h st s ((tx, hash) # vtx) = (Inr st', s') \<longleftrightarrow>
     (\<exists>st1 s1. connect_tx e V f flags h st s tx hash = (Inr st1, s1) \<and> connect_txs e V f flags h st1 s1 vtx = (Inr st', s'))"
  by (auto split: prod.splits sum.splits)

lemma connect_txs_wait: "connect_txs e V f flags h st s vtx = (Inr st', s') \<Longrightarrow>
    wait_checks c (cs_vChecks st') \<Longrightarrow> wait_checks c (cs_vChecks st)"
proof (induction vtx arbitrary: st s)
  case (Cons x vtx)
  then show ?case by (cases x) (metis connect_txs_Inr connect_tx_wait)
qed simp

definition erase :: "connect_state \<Rightarrow> connect_state" where
  "erase st = st\<lparr>cs_vChecks := []\<rparr>"

lemma erase_simps [simp]: "cs_nSigOps (erase st) = cs_nSigOps st" "cs_nFees (erase st) = cs_nFees st"
  "cs_vChecks (erase st) = []" "cs_vtxundo (erase st) = cs_vtxundo st"
  "erase (st\<lparr>cs_vChecks := ks\<rparr>) = erase st" "erase (st\<lparr>cs_nSigOps := n\<rparr>) = (erase st)\<lparr>cs_nSigOps := n\<rparr>"
  "erase (st\<lparr>cs_nFees := m\<rparr>) = (erase st)\<lparr>cs_nFees := m\<rparr>" "erase (st\<lparr>cs_vtxundo := u\<rparr>) = (erase st)\<lparr>cs_vtxundo := u\<rparr>"
  "(erase st)\<lparr>cs_vChecks := []\<rparr> = erase st"
  by (cases st, simp add: erase_def)+

lemma connect_tx_par:
  assumes w: "wait_checks (ce_crypto e) (cs_vChecks st)"
  shows "connect_tx (with_threads False e) V f flags h (erase st) s tx hash = (Inr a, s') \<longleftrightarrow>
     (\<exists>b. connect_tx (with_threads True e) V f flags h st s tx hash = (Inr b, s') \<and> a = erase b
        \<and> wait_checks (ce_crypto e) (cs_vChecks b))"
proof (cases "IsCoinBase tx")
  case True
  then show ?thesis using w by (auto simp: connect_tx_Inr)
next
  case False
  show ?thesis (is "?l \<longleftrightarrow> ?r")
  proof
    assume ?l
    with False obtain s1 n s2 vin s3 vout ks s4 u where
      "cs_nSigOps st + GetLegacySigOpCount tx \<le> MAX_BLOCK_SIGOPS" "HaveInputs V s tx = Some (True, s1)"
      "GetP2SHSigOpCount V s1 tx = Some (n, s2)" "cs_nSigOps st + GetLegacySigOpCount tx + n \<le> MAX_BLOCK_SIGOPS"
      "GetValueIn V s2 tx = Some (vin, s3)" "GetValueOut tx = Some vout"
      "CheckInputs (ce_crypto e) (ce_mapBlockIndex e) V tx s3 f flags True = (Inr ks, s4)" "wait_checks (ce_crypto e) ks"
      "UpdateCoins V s4 tx [] h hash = Some (u, s')"
      "a = (erase st)\<lparr>cs_nSigOps := cs_nSigOps st + GetLegacySigOpCount tx + n, cs_nFees := cs_nFees st + (vin - vout),
              cs_vChecks := [], cs_vtxundo := cs_vtxundo st @ [u]\<rparr>"
      unfolding connect_tx_Inr CheckInputs_par with_threads_simps by (auto simp del: connect_state.update_convs)
    with False w show ?r
      unfolding connect_tx_Inr with_threads_simps
      by (intro exI [of _ "st\<lparr>cs_nSigOps := cs_nSigOps st + GetLegacySigOpCount tx + n, cs_nFees := cs_nFees st + (vin - vout),
              cs_vChecks := cs_vChecks st @ ks, cs_vtxundo := cs_vtxundo st @ [u]\<rparr>"]) (auto simp: erase_def)
  next
    assume ?r
    with False obtain s1 n s2 vin s3 vout ks s4 u where
      "cs_nSigOps st + GetLegacySigOpCount tx \<le> MAX_BLOCK_SIGOPS" "HaveInputs V s tx = Some (True, s1)"
      "GetP2SHSigOpCount V s1 tx = Some (n, s2)" "cs_nSigOps st + GetLegacySigOpCount tx + n \<le> MAX_BLOCK_SIGOPS"
      "GetValueIn V s2 tx = Some (vin, s3)" "GetValueOut tx = Some vout"
      "CheckInputs (ce_crypto e) (ce_mapBlockIndex e) V tx s3 f flags True = (Inr ks, s4)" "wait_checks (ce_crypto e) ks"
      "UpdateCoins V s4 tx [] h hash = Some (u, s')"
      "a = erase (st\<lparr>cs_nSigOps := cs_nSigOps st + GetLegacySigOpCount tx + n, cs_nFees := cs_nFees st + (vin - vout),
              cs_vChecks := cs_vChecks st @ ks, cs_vtxundo := cs_vtxundo st @ [u]\<rparr>)"
      unfolding connect_tx_Inr with_threads_simps by auto
    with False show ?l
      unfolding connect_tx_Inr CheckInputs_par with_threads_simps by (auto simp: erase_def)
  qed
qed

lemma connect_txs_par:
  "wait_checks (ce_crypto e) (cs_vChecks st) \<Longrightarrow>
   connect_txs (with_threads False e) V f flags h (erase st) s vtx = (Inr a, s') \<longleftrightarrow>
     (\<exists>b. connect_txs (with_threads True e) V f flags h st s vtx = (Inr b, s') \<and> a = erase b
        \<and> wait_checks (ce_crypto e) (cs_vChecks b))"
proof (induction vtx arbitrary: st s)
  case (Cons x vtx)
  obtain tx hash where x: "x = (tx, hash)" by (cases x)
  show ?case (is "?l \<longleftrightarrow> ?r")
  proof
    assume ?l
    then obtain b s1 where "connect_tx (with_threads True e) V f flags h st s tx hash = (Inr b, s1)"
        "wait_checks (ce_crypto e) (cs_vChecks b)" "connect_txs (with_threads False e) V f flags h (erase b) s1 vtx = (Inr a, s')"
      unfolding x connect_txs_Inr connect_tx_par [OF Cons.prems] by blast
    with Cons.IH [of b s1] show ?r unfolding x connect_txs_Inr by blast
  next
    assume ?r
    then obtain b s1 c where "connect_tx (with_threads True e) V f flags h st s tx hash = (Inr b, s1)"
        "connect_txs (with_threads True e) V f flags h b s1 vtx = (Inr c, s')" "a = erase c" "wait_checks (ce_crypto e) (cs_vChecks c)"
      unfolding x connect_txs_Inr by blast
    moreover from this have "wait_checks (ce_crypto e) (cs_vChecks b)" by (blast intro: connect_txs_wait)
    ultimately show ?l
      unfolding x connect_txs_Inr connect_tx_par [OF Cons.prems] using Cons.IH [of b s1] by blast
  qed
qed auto

section \<open>Blocks\<close>

lemma connect_finish_par: "connect_finish (with_threads par e) d h p out vtx (erase st) s = connect_finish (with_threads True e) d h p out vtx st s"
  unfolding connect_finish_def Let_def with_threads_simps erase_simps by (rule refl)

lemma connect_checked_par:
  "connect_checked (with_threads False e) d V block p fJustCheck h s = (Inr r, s') \<longleftrightarrow>
   connect_checked (with_threads True e) d V block p fJustCheck h s = (Inr r, s')"
proof -
  let ?st = "\<lparr> cs_nSigOps = 0, cs_nFees = 0, cs_vChecks = [], cs_vtxundo = [] \<rparr>"
  let ?vtx = "zip (bk_vtx block) (bk_vMerkleTree block)"
  have e: "erase ?st = ?st" by (simp add: erase_def)
  have par: "connect_txs (with_threads False e) V f flags h ?st s ?vtx = (Inr a, s1) \<longleftrightarrow>
     (\<exists>b. connect_txs (with_threads True e) V f flags h ?st s ?vtx = (Inr b, s1) \<and> a = erase b
        \<and> wait_checks (ce_crypto e) (cs_vChecks b))" for f flags h s a s1
    using connect_txs_par [of e ?st V f flags h s ?vtx a s1] unfolding e by simp
  show ?thesis
  proof (cases "overwrites V s (map snd ?vtx)")
    case (Some o1)
    obtain ow s0 where o1: "o1 = (ow, s0)" by (cases o1)
    let ?T = "\<lambda>b. connect_txs (with_threads b e) V (height (hd p) \<ge> GetTotalBlocksEstimate (ce_fEnabled e) (ce_params e))
      (connect_flags p (h_nVersion (bh_pure (bk_header block)))) (b_nHeight (hd p)) ?st s0 ?vtx"
    show ?thesis
    proof (cases ow)
      case False
      show ?thesis
      proof (cases "\<exists>b s1. ?T True = (Inr b, s1)")
        case True
        then obtain b s1 where b: "?T True = (Inr b, s1)" by blast
        show ?thesis
        proof (cases "wait_checks (ce_crypto e) (cs_vChecks b)")
          case True
          then have "?T False = (Inr (erase b), s1)" using b par by auto
          then show ?thesis using b True False Some o1
            by (simp add: connect_checked_def Let_def connect_finish_par split: option.split sum.split)
        next
          case w: False
          then have "\<nexists>a s1. ?T False = (Inr a, s1)" using b by (auto simp: par)
          then obtain v s2 where "?T False = (Inl v, s2)" by (metis sumE surj_pair)
          then show ?thesis using b w False Some o1
            by (auto simp: connect_checked_def Let_def split: option.split sum.split)
        qed
      next
        case nt: False
        then have "\<nexists>a s1. ?T False = (Inr a, s1)" by (auto simp: par)
        with nt obtain v s2 v' s3 where "?T False = (Inl v, s2)" "?T True = (Inl v', s3)" by (metis sumE surj_pair)
        then show ?thesis using False Some o1 by (simp add: connect_checked_def Let_def)
      qed
    qed (use Some o1 in \<open>simp add: connect_checked_def Let_def\<close>)
  qed (simp add: connect_checked_def Let_def)
qed

text \<open>C7: Whether the script checks run one after the other while the inputs are checked, or are collected
  for the queue and waited for at the end, \<open>ConnectBlock\<close> accepts the same blocks, and then the coins, the
  entry of the index and the undo data are the same.\<close>

theorem ConnectBlock_threads:
  "(ConnectBlock (with_threads False e) d nNow adjusted_time V block p fJustCheck ff s = (Inr r, s') \<longleftrightarrow>
    ConnectBlock (with_threads True e) d nNow adjusted_time V block p fJustCheck ff s = (Inr r, s'))"
  by (auto simp: ConnectBlock_def Let_def connect_checked_par split: sum.splits prod.splits if_splits)

end
