(* ===== verification/Assoc.thy ===== *)
theory Assoc imports Main Prelude begin

text \<open>
  \<open>std::map\<close> as the list of its entries in the order of the keys, as an iterator meets them: insertion,
  removal, \<open>lower_bound\<close>. The lemmas relate them to maps.
\<close>

named_theorems smap_simps \<open>reading a sorted map after an operation\<close>

type_synonym ('k, 'v) smap = "('k \<times> 'v) list"

fun smap_put :: "'k::linorder \<Rightarrow> 'v \<Rightarrow> ('k, 'v) smap \<Rightarrow> ('k, 'v) smap" where
  "smap_put k v [] = [(k, v)]"
| "smap_put k v ((k', v') # m) =
     (if k < k' then (k, v) # (k', v') # m else if k = k' then (k, v) # m else (k', v') # smap_put k v m)"

definition smap_erase :: "'k \<Rightarrow> ('k, 'v) smap \<Rightarrow> ('k, 'v) smap" where
  "smap_erase k m = filter (\<lambda>x. fst x \<noteq> k) m"

text \<open>The entries from the first key that is not less than \<open>k\<close>.\<close>

definition lower_bound :: "'k::linorder \<Rightarrow> ('k, 'v) smap \<Rightarrow> ('k, 'v) smap" where
  "lower_bound k m = dropWhile (\<lambda>x. fst x < k) m"

definition smap_ok :: "('k::linorder, 'v) smap \<Rightarrow> bool" where
  "smap_ok m \<longleftrightarrow> sorted_wrt (<) (map fst m)"

lemma smap_ok_Nil [simp]: "smap_ok []" by (simp add: smap_ok_def)

lemma smap_ok_Cons: "smap_ok (x # m) \<longleftrightarrow> smap_ok m \<and> (\<forall>y\<in>set m. fst x < fst y)"
  by (auto simp: smap_ok_def)

lemma smap_put_set: "smap_ok m \<Longrightarrow> set (smap_put k v m) = insert (k, v) {x \<in> set m. fst x \<noteq> k}"
proof (induction m)
  case (Cons x m)
  then show ?case by (cases x) (force simp: smap_ok_Cons)
qed simp

lemma smap_put_ok [simp]: "smap_ok m \<Longrightarrow> smap_ok (smap_put k v m)"
proof (induction m)
  case (Cons x m)
  then show ?case by (cases x) (force simp: smap_ok_Cons smap_put_set)
qed (simp add: smap_ok_def)

lemma smap_filter_ok [simp]: "smap_ok m \<Longrightarrow> smap_ok (filter P m)"
  by (simp add: smap_ok_def sorted_wrt_filter sorted_wrt_map)

lemma smap_erase_ok [simp]: "smap_ok m \<Longrightarrow> smap_ok (smap_erase k m)"
  by (simp add: smap_erase_def)

lemma smap_ok_distinct: "smap_ok m \<Longrightarrow> distinct (map fst m)"
  by (induction m) (auto simp: smap_ok_Cons)

lemma smap_get_put [smap_simps]: "map_of (smap_put k v m) = (map_of m)(k \<mapsto> v)"
  by (induction k v m rule: smap_put.induct) (auto simp: fun_eq_iff)

lemma smap_get_erase [smap_simps]: "map_of (smap_erase k m) = (map_of m)(k := None)"
  by (induction m) (auto simp: smap_erase_def fun_eq_iff)

lemma smap_in: "smap_ok m \<Longrightarrow> map_of m k = Some v \<longleftrightarrow> (k, v) \<in> set m"
  by (simp add: smap_ok_distinct map_of_eq_Some_iff)

lemma smap_get_filter: "smap_ok m \<Longrightarrow>
    map_of (filter (\<lambda>(k, v). P k v) m) k = (case map_of m k of None \<Rightarrow> None | Some v \<Rightarrow> if P k v then Some v else None)"
  using smap_in [of "filter (\<lambda>(k, v). P k v) m" k] smap_in [of m k]
  by (cases "map_of (filter (\<lambda>(k, v). P k v) m) k") (fastforce split: option.split)+

lemma smap_eqI:
  assumes "smap_ok m" "smap_ok n" "map_of m = map_of n"
  shows "m = n"
proof -
  have "set m = set n" using assms smap_in [OF assms(1)] smap_in [OF assms(2)] by auto
  moreover have "sorted_wrt (\<lambda>x y. fst x < fst y) m" "sorted_wrt (\<lambda>x y. fst x < fst y) n"
    using assms(1,2) by (simp_all add: smap_ok_def sorted_wrt_map)
  ultimately show ?thesis
  proof (induction m arbitrary: n)
    case (Cons x m)
    then obtain y n' where n: "n = y # n'" by (cases n) auto
    have "x = y"
    proof (rule ccontr)
      assume "x \<noteq> y"
      then have "x \<in> set n'" "y \<in> set m" using Cons.prems(1) n by auto
      then have "fst y < fst x" "fst x < fst y" using Cons.prems(2,3) n by auto
      then show False by simp
    qed
    moreover have "x \<notin> set m" "y \<notin> set n'" using Cons.prems(2,3) n by auto
    ultimately have "set m = set n'" using Cons.prems(1) n insert_ident [of x "set m" "set n'"] by simp
    then show ?case using Cons.IH [of n'] Cons.prems(2,3) n \<open>x = y\<close> by simp
  qed simp
qed

end
