(* ===== verification/Mempool.thy ===== *)
theory Mempool imports Main Prelude Assoc View begin

text \<open>
  The memory pool (\<open>src/src/txmempool.h\<close>, \<open>src/src/txmempool.cpp\<close>). \<open>CInPoint\<close> points into the entry
  of the map that holds the spending transaction; the pointer is the key of that entry, and it dangles
  when there is none. The recursion of \<open>remove\<close> takes fuel; \<open>None\<close> is no fuel left or a read through a
  dangling pointer. The priority of an entry, a floating point number, is left out.
\<close>

section \<open>Data\<close>

instantiation COutPoint_ext :: (linorder) linorder
begin

definition less_COutPoint_ext :: "'a COutPoint_scheme \<Rightarrow> 'a COutPoint_scheme \<Rightarrow> bool" where
  "less_COutPoint_ext a b \<longleftrightarrow> o_hash a < o_hash b \<or> (o_hash a = o_hash b \<and>
     (o_n a < o_n b \<or> (o_n a = o_n b \<and> COutPoint.more a < COutPoint.more b)))"

definition less_eq_COutPoint_ext :: "'a COutPoint_scheme \<Rightarrow> 'a COutPoint_scheme \<Rightarrow> bool" where
  "less_eq_COutPoint_ext a b \<longleftrightarrow> a < b \<or> a = b"

instance
  by intro_classes (auto simp: less_COutPoint_ext_def less_eq_COutPoint_ext_def intro: COutPoint.equality)

end

lemma outpoint_less_order: "outpoint_less a b \<longleftrightarrow> a < b"
  by (auto simp: outpoint_less_def less_COutPoint_ext_def)

definition MEMPOOL_HEIGHT :: u32 where "MEMPOOL_HEIGHT = 0x7FFFFFFF"

record CTxMemPoolEntry =
  me_tx :: CTransaction
  me_nFee :: u64
  me_nTxSize :: nat
  me_nTime :: u64
  me_nHeight :: u32

definition entry_new :: "CTransaction \<Rightarrow> u64 \<Rightarrow> u64 \<Rightarrow> u32 \<Rightarrow> CTxMemPoolEntry" where
  "entry_new tx nFee nTime nHeight =
     \<lparr> me_tx = tx, me_nFee = nFee, me_nTxSize = size_tx tx, me_nTime = nTime, me_nHeight = nHeight \<rparr>"

record CInPoint =
  ip_ptx :: u256
  ip_n :: u32

record CTxMemPool =
  mp_fSanityCheck :: bool
  mp_nTransactionsUpdated :: u32
  mp_mapTx :: "(u256, CTxMemPoolEntry) smap"
  mp_mapNextTx :: "(COutPoint, CInPoint) smap"

definition tx_eq :: "CTransaction \<Rightarrow> CTransaction \<Rightarrow> bool" where
  "tx_eq a b \<longleftrightarrow> tx_nVersion a = tx_nVersion b \<and> tx_vin a = tx_vin b \<and> tx_vout a = tx_vout b
     \<and> tx_nLockTime a = tx_nLockTime b"

section \<open>Operations\<close>

definition pool_new :: CTxMemPool where
  "pool_new = \<lparr> mp_fSanityCheck = False, mp_nTransactionsUpdated = 0, mp_mapTx = [], mp_mapNextTx = [] \<rparr>"

definition setSanityCheck :: "bool \<Rightarrow> CTxMemPool \<Rightarrow> CTxMemPool" where
  "setSanityCheck b p = p\<lparr>mp_fSanityCheck := b\<rparr>"

definition AddTransactionsUpdated :: "u32 \<Rightarrow> CTxMemPool \<Rightarrow> CTxMemPool" where
  "AddTransactionsUpdated n p = p\<lparr>mp_nTransactionsUpdated := mp_nTransactionsUpdated p + n\<rparr>"

definition pool_size :: "CTxMemPool \<Rightarrow> nat" where "pool_size p = length (mp_mapTx p)"

definition pool_exists :: "CTxMemPool \<Rightarrow> u256 \<Rightarrow> bool" where
  "pool_exists p hash \<longleftrightarrow> map_of (mp_mapTx p) hash \<noteq> None"

definition pool_lookup :: "CTxMemPool \<Rightarrow> u256 \<Rightarrow> CTransaction option" where
  "pool_lookup p hash = map_option me_tx (map_of (mp_mapTx p) hash)"

definition queryHashes :: "CTxMemPool \<Rightarrow> u256 list" where
  "queryHashes p = map fst (mp_mapTx p)"

definition pool_clear :: "CTxMemPool \<Rightarrow> CTxMemPool" where
  "pool_clear p = p\<lparr>mp_mapTx := [], mp_mapNextTx := [], mp_nTransactionsUpdated := 1 + mp_nTransactionsUpdated p\<rparr>"

text \<open>The inputs of a transaction with their positions.\<close>

definition vin_positions :: "CTransaction \<Rightarrow> (nat \<times> CTxIn) list" where
  "vin_positions tx = zip [0..<length (tx_vin tx)] (tx_vin tx)"

definition addUnchecked :: "u256 \<Rightarrow> CTxMemPoolEntry \<Rightarrow> CTxMemPool \<Rightarrow> CTxMemPool" where
  "addUnchecked hash e p =
     p\<lparr>mp_mapTx := smap_put hash e (mp_mapTx p),
       mp_mapNextTx := fold (\<lambda>(i, txin). smap_put (i_prevout txin) \<lparr> ip_ptx = hash, ip_n = of_nat i \<rparr>)
         (vin_positions (me_tx e)) (mp_mapNextTx p),
       mp_nTransactionsUpdated := mp_nTransactionsUpdated p + 1\<rparr>"

text \<open>The part of \<open>remove\<close> after the recursion.\<close>

definition remove_self :: "tx_hashes \<Rightarrow> CTransaction \<Rightarrow> CTxMemPool \<times> CTransaction list \<Rightarrow> CTxMemPool \<times> CTransaction list" where
  "remove_self hs tx s =
     (case s of (p, removed) \<Rightarrow>
      let hash = tx_GetHash hs tx in
      if map_of (mp_mapTx p) hash \<noteq> None then
        (p\<lparr>mp_mapNextTx := fold (\<lambda>txin. smap_erase (i_prevout txin)) (tx_vin tx) (mp_mapNextTx p),
           mp_mapTx := smap_erase hash (mp_mapTx p),
           mp_nTransactionsUpdated := mp_nTransactionsUpdated p + 1\<rparr>, tx # removed)
      else (p, removed))"

function pool_remove ::
    "tx_hashes \<Rightarrow> nat \<Rightarrow> CTransaction \<Rightarrow> bool \<Rightarrow> CTxMemPool \<times> CTransaction list \<Rightarrow> (CTxMemPool \<times> CTransaction list) option"
and remove_children ::
    "tx_hashes \<Rightarrow> nat \<Rightarrow> u256 \<Rightarrow> nat list \<Rightarrow> CTxMemPool \<times> CTransaction list \<Rightarrow> (CTxMemPool \<times> CTransaction list) option" where
  "pool_remove hs fuel tx fRecursive s =
     map_option (remove_self hs tx)
       (if fRecursive then remove_children hs fuel (tx_GetHash hs tx) [0..<length (tx_vout tx)] s else Some s)"
| "remove_children hs fuel hash [] s = Some s"
| "remove_children hs fuel hash (i # is) s =
     (case map_of (mp_mapNextTx (fst s)) \<lparr> o_hash = hash, o_n = of_nat i \<rparr> of
        None \<Rightarrow> remove_children hs fuel hash is s
      | Some it \<Rightarrow>
        (case map_of (mp_mapTx (fst s)) (ip_ptx it) of None \<Rightarrow> None
         | Some e \<Rightarrow>
           (case fuel of 0 \<Rightarrow> None
            | Suc f \<Rightarrow>
              (case pool_remove hs f (me_tx e) True s of None \<Rightarrow> None
               | Some s \<Rightarrow> remove_children hs fuel hash is s))))"
  by pat_completeness auto

termination
  by (relation "measures [\<lambda>x. case x of Inl (hs, f, _) \<Rightarrow> 2 * f + 1 | Inr (hs, f, _) \<Rightarrow> 2 * f,
      \<lambda>x. case x of Inl _ \<Rightarrow> 0 | Inr (hs, f, h, is, _) \<Rightarrow> length is]") auto

fun removeConflicts ::
    "tx_hashes \<Rightarrow> nat \<Rightarrow> CTransaction \<Rightarrow> CTxIn list \<Rightarrow> CTxMemPool \<times> CTransaction list \<Rightarrow> (CTxMemPool \<times> CTransaction list) option" where
  "removeConflicts hs fuel tx [] s = Some s"
| "removeConflicts hs fuel tx (txin # vin) s =
     (case map_of (mp_mapNextTx (fst s)) (i_prevout txin) of None \<Rightarrow> removeConflicts hs fuel tx vin s
      | Some it \<Rightarrow>
        (case map_of (mp_mapTx (fst s)) (ip_ptx it) of None \<Rightarrow> None
         | Some e \<Rightarrow>
           if \<not> tx_eq (me_tx e) tx then
             (case pool_remove hs fuel (me_tx e) True s of None \<Rightarrow> None
              | Some s \<Rightarrow> removeConflicts hs fuel tx vin s)
           else removeConflicts hs fuel tx vin s))"

definition pruneSpent :: "CTxMemPool \<Rightarrow> u256 \<Rightarrow> CCoins \<Rightarrow> CCoins" where
  "pruneSpent p hashTx coins =
     fold (\<lambda>it coins. case coins_SpendPos coins (o_n (fst it)) of None \<Rightarrow> coins | Some (_, coins) \<Rightarrow> coins)
       (takeWhile (\<lambda>it. o_hash (fst it) = hashTx) (lower_bound \<lparr> o_hash = hashTx, o_n = 0 \<rparr> (mp_mapNextTx p))) coins"

section \<open>The consistency check\<close>

text \<open>\<open>None\<close> is a failed assertion or a read through a dangling pointer.\<close>

fun check_inputs ::
    "'b view_ops \<Rightarrow> CTxMemPool \<Rightarrow> u256 \<Rightarrow> nat \<Rightarrow> 'b coins_cache \<Rightarrow> CTxIn list \<Rightarrow> 'b coins_cache option" where
  "check_inputs V p hash i s [] = Some s"
| "check_inputs V p hash i s (txin # vin) =
     (case (case map_of (mp_mapTx p) (o_hash (i_prevout txin)) of
          Some e \<Rightarrow> if unat (o_n (i_prevout txin)) < length (tx_vout (me_tx e))
              \<and> \<not> txout_IsNull (tx_vout (me_tx e) ! unat (o_n (i_prevout txin))) then Some s else None
        | None \<Rightarrow>
          (case GetCoins_ref V s (o_hash (i_prevout txin)) of None \<Rightarrow> None
           | Some (coins, s) \<Rightarrow> if IsAvailable coins (o_n (i_prevout txin)) then Some s else None)) of
        None \<Rightarrow> None
      | Some s \<Rightarrow>
        if map_of (mp_mapNextTx p) (i_prevout txin) = Some \<lparr> ip_ptx = hash, ip_n = of_nat i \<rparr>
        then check_inputs V p hash (Suc i) s vin else None)"

fun check_entries ::
    "'b view_ops \<Rightarrow> CTxMemPool \<Rightarrow> 'b coins_cache \<Rightarrow> (u256, CTxMemPoolEntry) smap \<Rightarrow> 'b coins_cache option" where
  "check_entries V p s [] = Some s"
| "check_entries V p s ((hash, e) # m) =
     (case check_inputs V p hash 0 s (tx_vin (me_tx e)) of None \<Rightarrow> None | Some s \<Rightarrow> check_entries V p s m)"

definition check_next :: "tx_hashes \<Rightarrow> CTxMemPool \<Rightarrow> COutPoint \<times> CInPoint \<Rightarrow> bool" where
  "check_next hs p x =
     (case x of (out, it) \<Rightarrow>
      case map_of (mp_mapTx p) (ip_ptx it) of None \<Rightarrow> False
      | Some e \<Rightarrow>
        let hash = tx_GetHash hs (me_tx e) in
        map_of (mp_mapTx p) hash \<noteq> None \<and> hash = ip_ptx it \<and> unat (ip_n it) < length (tx_vin (me_tx e))
          \<and> out = i_prevout (tx_vin (me_tx e) ! unat (ip_n it)))"

definition pool_check :: "tx_hashes \<Rightarrow> 'b view_ops \<Rightarrow> CTxMemPool \<Rightarrow> 'b coins_cache \<Rightarrow> 'b coins_cache option" where
  "pool_check hs V p s =
     (if \<not> mp_fSanityCheck p then Some s
      else case check_entries V p s (mp_mapTx p) of None \<Rightarrow> None
      | Some s \<Rightarrow> if list_all (check_next hs p) (mp_mapNextTx p) then Some s else None)"

section \<open>The invariant\<close>

text \<open>Every transaction is filed under its hash and each of its inputs is indexed; every index entry belongs
  to a transaction of the pool.\<close>

definition entry_ok :: "tx_hashes \<Rightarrow> CTxMemPool \<Rightarrow> u256 \<Rightarrow> CTxMemPoolEntry \<Rightarrow> bool" where
  "entry_ok hs p h e \<longleftrightarrow> tx_GetHash hs (me_tx e) = h \<and> length (tx_vin (me_tx e)) < 2 ^ 32 \<and>
     (\<forall>i<length (tx_vin (me_tx e)). map_of (mp_mapNextTx p) (i_prevout (tx_vin (me_tx e) ! i)) = Some \<lparr> ip_ptx = h, ip_n = of_nat i \<rparr>)"

definition next_ok :: "CTxMemPool \<Rightarrow> COutPoint \<Rightarrow> CInPoint \<Rightarrow> bool" where
  "next_ok p out it \<longleftrightarrow> (\<exists>e. map_of (mp_mapTx p) (ip_ptx it) = Some e \<and> unat (ip_n it) < length (tx_vin (me_tx e))
     \<and> i_prevout (tx_vin (me_tx e) ! unat (ip_n it)) = out)"

definition pool_ok :: "tx_hashes \<Rightarrow> CTxMemPool \<Rightarrow> bool" where
  "pool_ok hs p \<longleftrightarrow> smap_ok (mp_mapTx p) \<and> smap_ok (mp_mapNextTx p)
     \<and> (\<forall>h e. map_of (mp_mapTx p) h = Some e \<longrightarrow> entry_ok hs p h e)
     \<and> (\<forall>out it. map_of (mp_mapNextTx p) out = Some it \<longrightarrow> next_ok p out it)"

lemma pool_okD:
  assumes "pool_ok hs p"
  shows "smap_ok (mp_mapTx p)" "smap_ok (mp_mapNextTx p)"
    "map_of (mp_mapTx p) h = Some e \<Longrightarrow> entry_ok hs p h e"
    "map_of (mp_mapNextTx p) out = Some it \<Longrightarrow> next_ok p out it"
  using assms by (simp_all add: pool_ok_def)

text \<open>An outpoint is spent by at most one input of the pool.\<close>

lemma pool_spender:
  assumes "pool_ok hs p" "map_of (mp_mapTx p) h = Some e" "txin \<in> set (tx_vin (me_tx e))"
  shows "\<exists>n. map_of (mp_mapNextTx p) (i_prevout txin) = Some \<lparr> ip_ptx = h, ip_n = n \<rparr>"
  using pool_okD(3) [OF assms(1,2)] assms(3) by (auto simp: entry_ok_def in_set_conv_nth)

text \<open>The pool without a set of transactions.\<close>

definition drop_txs :: "u256 set \<Rightarrow> nat \<Rightarrow> CTxMemPool \<Rightarrow> CTxMemPool" where
  "drop_txs R n p = p\<lparr>mp_mapTx := filter (\<lambda>(h, e). h \<notin> R) (mp_mapTx p),
     mp_mapNextTx := filter (\<lambda>(out, it). ip_ptx it \<notin> R) (mp_mapNextTx p),
     mp_nTransactionsUpdated := mp_nTransactionsUpdated p + of_nat n\<rparr>"

lemma drop_txs_empty: "drop_txs {} 0 p = p"
  by (simp add: drop_txs_def)

lemma drop_txs_drop_txs: "drop_txs S n (drop_txs R m p) = drop_txs (R \<union> S) (m + n) p"
  by (auto simp: drop_txs_def case_prod_unfold algebra_simps intro!: filter_cong)

lemma drop_txs_get: "pool_ok hs p \<Longrightarrow> map_of (mp_mapTx (drop_txs R n p)) h = (if h \<in> R then None else map_of (mp_mapTx p) h)"
  using smap_get_filter [of "mp_mapTx p" "\<lambda>h e. h \<notin> R" h]
  by (auto simp: drop_txs_def dest: pool_okD(1) split: option.splits)

lemma drop_txs_next: "pool_ok hs p \<Longrightarrow> map_of (mp_mapNextTx (drop_txs R n p)) out =
    (case map_of (mp_mapNextTx p) out of None \<Rightarrow> None | Some it \<Rightarrow> if ip_ptx it \<in> R then None else Some it)"
  using smap_get_filter [of "mp_mapNextTx p" "\<lambda>out it. ip_ptx it \<notin> R" out]
  by (auto simp: drop_txs_def dest: pool_okD(2) split: option.splits)

lemma drop_txs_ok: "pool_ok hs p \<Longrightarrow> pool_ok hs (drop_txs R n p)"
proof -
  assume p: "pool_ok hs p"
  have "smap_ok (mp_mapTx (drop_txs R n p))" "smap_ok (mp_mapNextTx (drop_txs R n p))"
    using pool_okD(1,2) [OF p] by (simp_all add: drop_txs_def)
  moreover have "entry_ok hs (drop_txs R n p) h e" if "map_of (mp_mapTx (drop_txs R n p)) h = Some e" for h e
    using that pool_okD(3) [OF p, of h e] by (auto simp: drop_txs_get [OF p] drop_txs_next [OF p] entry_ok_def split: if_splits)
  moreover have "next_ok (drop_txs R n p) out it" if "map_of (mp_mapNextTx (drop_txs R n p)) out = Some it" for out it
    using that pool_okD(4) [OF p, of out it]
    by (auto simp: drop_txs_get [OF p] drop_txs_next [OF p] next_ok_def split: option.splits if_splits)
  ultimately show ?thesis by (simp add: pool_ok_def)
qed

lemma fold_smap_erase: "fold (\<lambda>x. smap_erase (f x)) xs m = filter (\<lambda>(k, v). k \<notin> f ` set xs) m"
  by (induction xs arbitrary: m) (auto simp: smap_erase_def case_prod_unfold intro!: filter_cong)

lemma remove_self_pool:
  assumes p: "pool_ok hs p" and e: "map_of (mp_mapTx p) (tx_GetHash hs tx) = Some e" "tx_vin (me_tx e) = tx_vin tx"
  shows "remove_self hs tx (p, l) = (drop_txs {tx_GetHash hs tx} 1 p, tx # l)"
proof -
  let ?h = "tx_GetHash hs tx"
  have "out \<in> i_prevout ` set (tx_vin tx) \<longleftrightarrow> ip_ptx it = ?h" if m: "(out, it) \<in> set (mp_mapNextTx p)" for out it
  proof -
    have o: "map_of (mp_mapNextTx p) out = Some it" using m pool_okD(2) [OF p] by (simp add: smap_in)
    show ?thesis
    proof
      assume "out \<in> i_prevout ` set (tx_vin tx)"
      then obtain txin where "txin \<in> set (tx_vin (me_tx e))" "out = i_prevout txin" using e(2) by auto
      then show "ip_ptx it = ?h" using pool_spender [OF p e(1), of txin] o by auto
    next
      assume "ip_ptx it = ?h"
      then show "out \<in> i_prevout ` set (tx_vin tx)" using pool_okD(4) [OF p o] e by (auto simp: next_ok_def)
    qed
  qed
  then have "filter (\<lambda>(out, it). out \<notin> i_prevout ` set (tx_vin tx)) (mp_mapNextTx p) = filter (\<lambda>(out, it). ip_ptx it \<noteq> ?h) (mp_mapNextTx p)"
    by (intro filter_cong) auto
  then show ?thesis using e(1)
    by (simp add: remove_self_def Let_def drop_txs_def fold_smap_erase smap_erase_def case_prod_unfold)
qed

section \<open>Descendants\<close>

text \<open>The transactions of the pool that spend an output of a transaction, with its number of outputs; the
  step to them from a transaction of the pool; what is reached.\<close>

definition children :: "CTxMemPool \<Rightarrow> u256 \<Rightarrow> nat set \<Rightarrow> u256 set" where
  "children p h is = {ip_ptx it |it i. i \<in> is \<and> map_of (mp_mapNextTx p) \<lparr> o_hash = h, o_n = of_nat i \<rparr> = Some it}"

definition outputs :: "CTxMemPool \<Rightarrow> u256 \<Rightarrow> nat set" where
  "outputs p h = (case map_of (mp_mapTx p) h of None \<Rightarrow> {} | Some e \<Rightarrow> {..<length (tx_vout (me_tx e))})"

definition spent_by :: "CTxMemPool \<Rightarrow> u256 \<Rightarrow> u256 \<Rightarrow> bool" where
  "spent_by p a b \<longleftrightarrow> b \<in> children p a (outputs p a)"

definition desc :: "CTxMemPool \<Rightarrow> u256 \<Rightarrow> u256 set" where
  "desc p h = {b. (spent_by p)\<^sup>*\<^sup>* h b}"

lemma desc_refl [simp]: "h \<in> desc p h" by (simp add: desc_def)

lemma desc_trans: "b \<in> desc p a \<Longrightarrow> desc p b \<subseteq> desc p a" by (auto simp: desc_def)

lemma desc_unfold: "desc p h = insert h (\<Union>c\<in>children p h (outputs p h). desc p c)"
  by (auto simp: desc_def spent_by_def elim: converse_rtranclpE intro: converse_rtranclp_into_rtranclp)

lemma children_pool: "pool_ok hs p \<Longrightarrow> c \<in> children p h is \<Longrightarrow> \<exists>e. map_of (mp_mapTx p) c = Some e"
  using pool_okD(4) by (fastforce simp: children_def next_ok_def)

lemma children_drop: "pool_ok hs p \<Longrightarrow> children (drop_txs R n p) h is = children p h is - R"
  by (fastforce simp: children_def drop_txs_next split: option.splits if_splits)

lemma outputs_drop: "pool_ok hs p \<Longrightarrow> h \<notin> R \<Longrightarrow> outputs (drop_txs R n p) h = outputs p h"
  by (simp add: outputs_def drop_txs_get)

text \<open>Dropping a set that is closed under descendants cuts exactly that set from what is reached.\<close>

lemma spent_by_drop: "pool_ok hs p \<Longrightarrow> a \<notin> R \<Longrightarrow> spent_by (drop_txs R n p) a b \<longleftrightarrow> spent_by p a b \<and> b \<notin> R"
  by (simp add: spent_by_def outputs_drop children_drop)

lemma desc_drop:
  assumes p: "pool_ok hs p" and closed: "\<And>a. a \<in> R \<Longrightarrow> desc p a \<subseteq> R" and h: "h \<notin> R"
  shows "desc (drop_txs R n p) h = desc p h - R"
proof -
  have "b \<in> desc p h \<and> b \<notin> R" if "(spent_by (drop_txs R n p))\<^sup>*\<^sup>* h b" for b
    using that h by (induction rule: rtranclp_induct)
      (auto simp: desc_def spent_by_drop [OF p] intro: rtranclp.rtrancl_into_rtrancl)
  moreover have "b \<notin> R \<longrightarrow> (spent_by (drop_txs R n p))\<^sup>*\<^sup>* h b" if "(spent_by p)\<^sup>*\<^sup>* h b" for b
    using that
  proof (induction rule: rtranclp_induct)
    case (step b c)
    have "b \<notin> R \<or> c \<in> R" using closed [of b] step.hyps(2) by (auto simp: desc_def)
    then show ?case using step spent_by_drop [OF p, of b R n c] by (auto intro: rtranclp.rtrancl_into_rtrancl)
  qed simp
  ultimately show ?thesis by (auto simp: desc_def)
qed

text \<open>No transaction spends, through others, an output of its own: a rank that grows from a
  transaction of the pool to those that spend it, below a bound.\<close>

definition ranked :: "(u256 \<Rightarrow> nat) \<Rightarrow> nat \<Rightarrow> CTxMemPool \<Rightarrow> bool" where
  "ranked r N p \<longleftrightarrow> (\<forall>h e. map_of (mp_mapTx p) h = Some e \<longrightarrow> r h \<le> N \<and>
     (\<forall>txin\<in>set (tx_vin (me_tx e)). r (o_hash (i_prevout txin)) < r h))"

lemma ranked_child:
  assumes "pool_ok hs p" "ranked r N p" "c \<in> children p h is"
  shows "r h < r c \<and> r c \<le> N"
proof -
  obtain i it where it: "map_of (mp_mapNextTx p) \<lparr> o_hash = h, o_n = of_nat i \<rparr> = Some it" "c = ip_ptx it"
    using assms(3) by (auto simp: children_def)
  then obtain e where e: "map_of (mp_mapTx p) c = Some e" "unat (ip_n it) < length (tx_vin (me_tx e))"
      "i_prevout (tx_vin (me_tx e) ! unat (ip_n it)) = \<lparr> o_hash = h, o_n = of_nat i \<rparr>"
    using pool_okD(4) [OF assms(1) it(1)] by (auto simp: next_ok_def)
  then have "tx_vin (me_tx e) ! unat (ip_n it) \<in> set (tx_vin (me_tx e))" by simp
  then show ?thesis using assms(2) e unfolding ranked_def by (metis COutPoint.select_convs(1))
qed

lemma ranked_desc: "(spent_by p)\<^sup>+\<^sup>+ a b \<Longrightarrow> pool_ok hs p \<Longrightarrow> ranked r N p \<Longrightarrow> r a < r b"
  by (induction rule: tranclp_induct) (auto simp: spent_by_def dest: ranked_child intro: less_trans)

lemma ranked_drop: "pool_ok hs p \<Longrightarrow> ranked r N p \<Longrightarrow> ranked r N (drop_txs R n p)"
  by (auto simp: ranked_def drop_txs_get split: if_splits)

lemma desc_pool: "pool_ok hs p \<Longrightarrow> map_of (mp_mapTx p) h = Some e \<Longrightarrow> b \<in> desc p h \<Longrightarrow> \<exists>e. map_of (mp_mapTx p) b = Some e"
  unfolding desc_def mem_Collect_eq by (erule rtranclp_induct) (auto simp: spent_by_def dest: children_pool)

lemma child_desc_self: "pool_ok hs p \<Longrightarrow> ranked r N p \<Longrightarrow> c \<in> children p h is \<Longrightarrow> h \<notin> desc p c"
proof
  assume p: "pool_ok hs p" "ranked r N p" "c \<in> children p h is" "h \<in> desc p c"
  have "r h < r c" using ranked_child [OF p(1-3)] by simp
  moreover have "r c \<le> r h"
    using p(4) ranked_desc [OF _ p(1,2), of c h] by (auto simp: desc_def dest: rtranclpD)
  ultimately show False by simp
qed

text \<open>A result of \<open>remove\<close>: the transactions of \<open>R\<close> are gone and prepended to the list, each once.\<close>

definition removes where
  "removes hs p l R res \<longleftrightarrow> (\<exists>rem. res = Some (drop_txs R (length rem) p, rem @ l)
     \<and> distinct (map (tx_GetHash hs) rem) \<and> tx_GetHash hs ` set rem = R)"

lemma removes_empty: "removes hs p l {} (Some (p, l))"
  by (auto simp: removes_def drop_txs_empty intro: exI [of _ "[]"])

lemma removes_then:
  assumes "removes hs p l R (Some (q, l'))" "removes hs q l' S res" "R \<inter> S = {}"
  shows "removes hs p l (R \<union> S) res"
proof -
  obtain r1 where r1: "q = drop_txs R (length r1) p" "l' = r1 @ l" "distinct (map (tx_GetHash hs) r1)" "tx_GetHash hs ` set r1 = R"
    using assms(1) by (auto simp: removes_def)
  obtain r2 where r2: "res = Some (drop_txs S (length r2) q, r2 @ l')" "distinct (map (tx_GetHash hs) r2)" "tx_GetHash hs ` set r2 = S"
    using assms(2) by (auto simp: removes_def)
  show ?thesis unfolding removes_def
    using r1 r2 assms(3) by (intro exI [of _ "r2 @ r1"]) (auto simp: drop_txs_drop_txs add.commute)
qed

lemma removes_desc:
  assumes "removes hs p l (desc p c) (Some (q, l'))" "pool_ok hs p" "ranked r N p"
  shows "pool_ok hs q" "ranked r N q" "\<exists>n. q = drop_txs (desc p c) n p"
    "d \<notin> desc p c \<Longrightarrow> desc q d = desc p d - desc p c"
proof -
  show q: "\<exists>n. q = drop_txs (desc p c) n p" using assms(1) by (auto simp: removes_def)
  then show "pool_ok hs q" "ranked r N q" using assms(2,3) drop_txs_ok ranked_drop by auto
  show "d \<notin> desc p c \<Longrightarrow> desc q d = desc p d - desc p c"
    using q desc_drop [OF assms(2), of "desc p c" d] desc_trans by blast
qed

text \<open>The loop over the outputs, when the recursive calls remove what they should.\<close>

lemma remove_children_spec:
  assumes calls: "\<And>f' p l c e. fuel = Suc f' \<Longrightarrow> pool_ok hs p \<Longrightarrow> ranked r N p \<Longrightarrow> map_of (mp_mapTx p) c = Some e \<Longrightarrow>
      N \<le> r c + f' \<Longrightarrow> removes hs p l (desc p c) (pool_remove hs f' (me_tx e) True (p, l))"
    and "pool_ok hs p" "ranked r N p" "N \<le> r h + fuel"
  shows "removes hs p l (\<Union>c\<in>children p h (set idx). desc p c) (remove_children hs fuel h idx (p, l))"
  using assms(2-4)
proof (induction idx arbitrary: p l)
  case Nil
  then show ?case by (simp add: children_def removes_empty)
next
  case (Cons i idx)
  show ?case
  proof (cases "map_of (mp_mapNextTx p) \<lparr> o_hash = h, o_n = of_nat i \<rparr>")
    case None
    then have "children p h (set (i # idx)) = children p h (set idx)" by (auto simp: children_def)
    then show ?thesis using Cons None by simp
  next
    case (Some it)
    let ?c = "ip_ptx it"
    have ch: "children p h (set (i # idx)) = insert ?c (children p h (set idx))" using Some by (auto simp: children_def)
    then have c: "?c \<in> children p h (set (i # idx))" by simp
    obtain e where e: "map_of (mp_mapTx p) ?c = Some e" using children_pool [OF Cons.prems(1) c] by blast
    have rk: "r h < r ?c" "r ?c \<le> N" using ranked_child [OF Cons.prems(1,2) c] by auto
    then obtain f' where f': "fuel = Suc f'" using Cons.prems(3) by (cases fuel) auto
    have rc: "removes hs p l (desc p ?c) (pool_remove hs f' (me_tx e) True (p, l))"
      using calls [OF f' Cons.prems(1,2) e] rk f' Cons.prems(3) by simp
    then obtain q l' where q: "pool_remove hs f' (me_tx e) True (p, l) = Some (q, l')"
      by (auto simp: removes_def)
    note rd = removes_desc [OF rc [unfolded q] Cons.prems(1,2)]
    note ok = rd(1,2) and qd = rd(3) and dq = rd(4)
    have cq: "children q h (set idx) = children p h (set idx) - desc p ?c" using qd children_drop [OF Cons.prems(1)] by auto
    have u: "(\<Union>c\<in>children p h (set (i # idx)). desc p c) = desc p ?c \<union> (\<Union>d\<in>children q h (set idx). desc q d)"
      unfolding ch cq using dq desc_trans by fastforce
    have "removes hs q l' (\<Union>d\<in>children q h (set idx). desc q d) (remove_children hs fuel h idx (q, l'))"
      by (rule Cons.IH [OF ok Cons.prems(3)])
    moreover have "desc p ?c \<inter> (\<Union>d\<in>children q h (set idx). desc q d) = {}" using dq cq by auto
    moreover have "remove_children hs fuel h (i # idx) (p, l) = remove_children hs fuel h idx (q, l')"
      using Some e f' q by (simp del: pool_remove.simps)
    ultimately show ?thesis using removes_then rc q u by metis
  qed
qed

lemma pool_remove_spec:
  "pool_ok hs p \<Longrightarrow> ranked r N p \<Longrightarrow> map_of (mp_mapTx p) h = Some e \<Longrightarrow> N \<le> r h + fuel \<Longrightarrow>
     removes hs p l (desc p h) (pool_remove hs fuel (me_tx e) True (p, l))"
proof (induction fuel arbitrary: p l h e rule: less_induct)
  case (less fuel)
  let ?n = "length (tx_vout (me_tx e))" and ?C = "\<Union>c\<in>children p h (outputs p h). desc p c"
  have h: "tx_GetHash hs (me_tx e) = h" using pool_okD(3) [OF less.prems(1,3)] by (simp add: entry_ok_def)
  have o: "outputs p h = set [0..<?n]" using less.prems(3) by (auto simp: outputs_def)
  have "removes hs p l ?C (remove_children hs fuel h [0..<?n] (p, l))"
    unfolding o by (rule remove_children_spec [OF _ less.prems(1,2,4)], rule less.IH) simp_all
  then obtain rem where rem: "remove_children hs fuel h [0..<?n] (p, l) = Some (drop_txs ?C (length rem) p, rem @ l)"
      "distinct (map (tx_GetHash hs) rem)" "tx_GetHash hs ` set rem = ?C"
    by (auto simp: removes_def)
  have hC: "h \<notin> ?C" using child_desc_self [OF less.prems(1,2)] by blast
  have "remove_self hs (me_tx e) (drop_txs ?C (length rem) p, rem @ l) = (drop_txs {h} 1 (drop_txs ?C (length rem) p), me_tx e # rem @ l)"
    using remove_self_pool [where p = "drop_txs ?C (length rem) p" and tx = "me_tx e" and e = e and l = "rem @ l", OF drop_txs_ok [OF less.prems(1)]] hC h less.prems(3)
    by (simp add: drop_txs_get [OF less.prems(1)])
  then have "pool_remove hs fuel (me_tx e) True (p, l) = Some (drop_txs (desc p h) (length (me_tx e # rem)) p, (me_tx e # rem) @ l)"
    using rem(1) h desc_unfold [of p h] by (simp add: drop_txs_drop_txs)
  moreover have "tx_GetHash hs ` set (me_tx e # rem) = desc p h" using rem(3) h desc_unfold [of p h] by simp
  moreover have "distinct (map (tx_GetHash hs) (me_tx e # rem))"
    using rem(2,3) h hC by auto
  ultimately show ?case unfolding removes_def by blast
qed

text \<open>A transaction that need not be in the pool: what it takes with it.\<close>

definition remove_set :: "CTxMemPool \<Rightarrow> u256 \<Rightarrow> nat \<Rightarrow> u256 set" where
  "remove_set p h n = (if map_of (mp_mapTx p) h = None then {} else {h}) \<union> (\<Union>c\<in>children p h {..<n}. desc p c)"

lemma remove_set_pool: "map_of (mp_mapTx p) h = Some e \<Longrightarrow> remove_set p h (length (tx_vout (me_tx e))) = desc p h"
  using desc_unfold [of p h] by (simp add: remove_set_def outputs_def)

lemma pool_remove_any:
  assumes p: "pool_ok hs p" "ranked r N p" "N \<le> fuel"
    and tx: "\<And>e. map_of (mp_mapTx p) (tx_GetHash hs tx) = Some e \<Longrightarrow> tx_vin (me_tx e) = tx_vin tx"
  shows "removes hs p l (remove_set p (tx_GetHash hs tx) (length (tx_vout tx))) (pool_remove hs fuel tx True (p, l))"
proof -
  let ?h = "tx_GetHash hs tx" let ?C = "\<Union>c\<in>children p ?h {..<length (tx_vout tx)}. desc p c"
  have o: "{..<length (tx_vout tx)} = set [0..<length (tx_vout tx)]" by (auto simp: lessThan_atLeast0)
  have "removes hs p l ?C (remove_children hs fuel ?h [0..<length (tx_vout tx)] (p, l))"
    unfolding o by (rule remove_children_spec [OF _ p(1,2)], rule pool_remove_spec) (use p(3) in simp_all)
  then obtain rem where rem: "remove_children hs fuel ?h [0..<length (tx_vout tx)] (p, l) = Some (drop_txs ?C (length rem) p, rem @ l)"
      "distinct (map (tx_GetHash hs) rem)" "tx_GetHash hs ` set rem = ?C"
    by (auto simp: removes_def)
  have hC: "?h \<notin> ?C" using child_desc_self [OF p(1,2)] by blast
  show ?thesis
  proof (cases "map_of (mp_mapTx p) ?h")
    case None
    then show ?thesis using rem
      by (auto simp: removes_def remove_set_def remove_self_def Let_def drop_txs_get [OF p(1)] intro!: exI [of _ rem])
  next
    case (Some e)
    have "remove_self hs tx (drop_txs ?C (length rem) p, rem @ l) = (drop_txs {?h} 1 (drop_txs ?C (length rem) p), tx # rem @ l)"
      using remove_self_pool [where p = "drop_txs ?C (length rem) p" and tx = tx and e = e and l = "rem @ l", OF drop_txs_ok [OF p(1)]] hC Some tx
      by (simp add: drop_txs_get [OF p(1)])
    then show ?thesis using rem hC Some unfolding removes_def
      by (intro exI [of _ "tx # rem"]) (auto simp: remove_set_def drop_txs_drop_txs)
  qed
qed

section \<open>Conflicts\<close>

definition conflicts :: "CTxMemPool \<Rightarrow> CTransaction \<Rightarrow> CTxIn set \<Rightarrow> u256 set" where
  "conflicts p tx vin = {ip_ptx it |it txin e. txin \<in> vin \<and> map_of (mp_mapNextTx p) (i_prevout txin) = Some it
     \<and> map_of (mp_mapTx p) (ip_ptx it) = Some e \<and> \<not> tx_eq (me_tx e) tx}"

lemma conflicts_drop: "pool_ok hs p \<Longrightarrow> conflicts (drop_txs R n p) tx vin = conflicts p tx vin - R"
  by (fastforce simp: conflicts_def drop_txs_next drop_txs_get split: option.splits if_splits)

lemma conflicts_pool: "c \<in> conflicts p tx vin \<Longrightarrow> \<exists>e. map_of (mp_mapTx p) c = Some e"
  by (auto simp: conflicts_def)

lemma removeConflicts_spec:
  "pool_ok hs p \<Longrightarrow> ranked r N p \<Longrightarrow> N \<le> fuel \<Longrightarrow>
     removes hs p l (\<Union>c\<in>conflicts p tx (set vin). desc p c) (removeConflicts hs fuel tx vin (p, l))"
proof (induction vin arbitrary: p l)
  case Nil
  then show ?case by (simp add: conflicts_def removes_empty)
next
  case (Cons txin vin)
  show ?case
  proof (cases "map_of (mp_mapNextTx p) (i_prevout txin)")
    case None
    then have "conflicts p tx (set (txin # vin)) = conflicts p tx (set vin)" by (auto simp: conflicts_def)
    then show ?thesis using Cons None by simp
  next
    case (Some it)
    let ?c = "ip_ptx it"
    obtain e where e: "map_of (mp_mapTx p) ?c = Some e"
      using pool_okD(4) [OF Cons.prems(1) Some] by (auto simp: next_ok_def)
    show ?thesis
    proof (cases "tx_eq (me_tx e) tx")
      case True
      then have "conflicts p tx (set (txin # vin)) = conflicts p tx (set vin)" using Some e by (auto simp: conflicts_def)
      then show ?thesis using Cons Some e True by simp
    next
      case False
      have ch: "conflicts p tx (set (txin # vin)) = insert ?c (conflicts p tx (set vin))"
        using Some e False by (auto simp: conflicts_def)
      have rc: "removes hs p l (desc p ?c) (pool_remove hs fuel (me_tx e) True (p, l))"
        using pool_remove_spec [OF Cons.prems(1,2) e] Cons.prems(3) by simp
      then obtain q l' where q: "pool_remove hs fuel (me_tx e) True (p, l) = Some (q, l')" by (auto simp: removes_def)
      note rd = removes_desc [OF rc [unfolded q] Cons.prems(1,2)]
      have cq: "conflicts q tx (set vin) = conflicts p tx (set vin) - desc p ?c" using rd(3) conflicts_drop [OF Cons.prems(1)] by auto
      have u: "(\<Union>c\<in>conflicts p tx (set (txin # vin)). desc p c) = desc p ?c \<union> (\<Union>d\<in>conflicts q tx (set vin). desc q d)"
        unfolding ch cq using rd(4) desc_trans by fastforce
      have "removes hs q l' (\<Union>d\<in>conflicts q tx (set vin). desc q d) (removeConflicts hs fuel tx vin (q, l'))"
        by (rule Cons.IH [OF rd(1,2) Cons.prems(3)])
      moreover have "desc p ?c \<inter> (\<Union>d\<in>conflicts q tx (set vin). desc q d) = {}" using rd(4) cq by auto
      moreover have "removeConflicts hs fuel tx (txin # vin) (p, l) = removeConflicts hs fuel tx vin (q, l')"
        using Some e False q by (simp del: pool_remove.simps)
      ultimately show ?thesis using removes_then rc q u by metis
    qed
  qed
qed

section \<open>Adding\<close>

definition put_inputs :: "u256 \<Rightarrow> (nat \<times> CTxIn) list \<Rightarrow> (COutPoint, CInPoint) smap \<Rightarrow> (COutPoint, CInPoint) smap" where
  "put_inputs h xs m = fold (\<lambda>(i, txin). smap_put (i_prevout txin) \<lparr> ip_ptx = h, ip_n = of_nat i \<rparr>) xs m"

lemma zip_from: "zip [a..<a + length (x # xs)] (x # xs) = (a, x) # zip [Suc a..<Suc a + length xs] xs"
  by (simp add: upt_rec)

lemma put_inputs_ok: "smap_ok m \<Longrightarrow> smap_ok (put_inputs h xs m)"
  by (induction xs arbitrary: m) (auto simp: put_inputs_def)

lemma put_inputs_other: "out \<notin> i_prevout ` snd ` set xs \<Longrightarrow> map_of (put_inputs h xs m) out = map_of m out"
  by (induction xs arbitrary: m) (auto simp: put_inputs_def smap_simps)

lemma put_inputs_at:
  "distinct (map i_prevout vin) \<Longrightarrow> i < length vin \<Longrightarrow>
     map_of (put_inputs h (zip [a..<a + length vin] vin) m) (i_prevout (vin ! i)) = Some \<lparr> ip_ptx = h, ip_n = of_nat (a + i) \<rparr>"
proof (induction vin arbitrary: i a m)
  case (Cons x vin)
  let ?m = "smap_put (i_prevout x) \<lparr> ip_ptx = h, ip_n = of_nat a \<rparr> m"
  have s: "put_inputs h (zip [a..<a + length (x # vin)] (x # vin)) m = put_inputs h (zip [Suc a..<Suc a + length vin] vin) ?m"
    unfolding zip_from by (simp add: put_inputs_def)
  show ?case
  proof (cases i)
    case 0
    have "i_prevout x \<notin> i_prevout ` snd ` set (zip [Suc a..<Suc a + length vin] vin)"
      using Cons.prems(1) by (auto dest: set_zip_rightD)
    then show ?thesis unfolding s using 0 by (simp add: put_inputs_other smap_simps)
  next
    case (Suc j)
    then show ?thesis unfolding s using Cons.IH [of j "Suc a" ?m] Cons.prems by simp
  qed
qed simp

lemma addUnchecked_next: "mp_mapNextTx (addUnchecked h e p) = put_inputs h (vin_positions (me_tx e)) (mp_mapNextTx p)"
  by (simp add: addUnchecked_def put_inputs_def)

lemma addUnchecked_ok:
  assumes p: "pool_ok hs p" and new: "map_of (mp_mapTx p) h = None" "tx_GetHash hs (me_tx e) = h"
    and vin: "distinct (map i_prevout (tx_vin (me_tx e)))" "length (tx_vin (me_tx e)) < 2 ^ 32"
    and free: "\<forall>txin\<in>set (tx_vin (me_tx e)). map_of (mp_mapNextTx p) (i_prevout txin) = None"
  shows "pool_ok hs (addUnchecked h e p)"
proof -
  let ?q = "addUnchecked h e p" let ?v = "tx_vin (me_tx e)"
  have z: "snd ` set (zip [0..<length ?v] ?v) = set ?v" by (simp flip: set_map)
  have tx: "map_of (mp_mapTx ?q) = (map_of (mp_mapTx p))(h \<mapsto> e)" by (simp add: addUnchecked_def smap_simps)
  have at: "i < length ?v \<Longrightarrow> map_of (mp_mapNextTx ?q) (i_prevout (?v ! i)) = Some \<lparr> ip_ptx = h, ip_n = of_nat i \<rparr>" for i
    using put_inputs_at [OF vin(1), of i h 0 "mp_mapNextTx p"] by (simp add: addUnchecked_next vin_positions_def)
  have other: "out \<notin> i_prevout ` set ?v \<Longrightarrow> map_of (mp_mapNextTx ?q) out = map_of (mp_mapNextTx p) out" for out
    using put_inputs_other [of out "vin_positions (me_tx e)" h "mp_mapNextTx p"]
    by (simp add: addUnchecked_next vin_positions_def z)
  have "entry_ok hs ?q h' e'" if "map_of (mp_mapTx ?q) h' = Some e'" for h' e'
  proof (cases "h' = h")
    case True
    then show ?thesis using that tx at new vin by (simp add: entry_ok_def)
  next
    case False
    then have old: "map_of (mp_mapTx p) h' = Some e'" using that tx by simp
    have "map_of (mp_mapNextTx ?q) (i_prevout (tx_vin (me_tx e') ! i)) = map_of (mp_mapNextTx p) (i_prevout (tx_vin (me_tx e') ! i))"
      if i: "i < length (tx_vin (me_tx e'))" for i
      using pool_spender [OF p old nth_mem [OF i]] free by (intro other) fastforce
    then show ?thesis using pool_okD(3) [OF p old] by (simp add: entry_ok_def)
  qed
  moreover have "next_ok ?q out it" if "map_of (mp_mapNextTx ?q) out = Some it" for out it
  proof (cases "out \<in> i_prevout ` set ?v")
    case True
    then obtain i where i: "i < length ?v" "out = i_prevout (?v ! i)" by (auto simp: in_set_conv_nth)
    then have "unat (of_nat i :: u32) = i" using vin(2) by (simp add: unsigned_of_nat take_bit_nat_eq_self)
    then show ?thesis using that at i tx by (auto simp: next_ok_def)
  next
    case False
    then have "next_ok p out it" using that other pool_okD(4) [OF p] by simp
    then show ?thesis using tx new(1) by (auto simp: next_ok_def)
  qed
  moreover have "smap_ok (mp_mapTx ?q)" "smap_ok (mp_mapNextTx ?q)"
    using pool_okD(1,2) [OF p] by (simp_all add: addUnchecked_next put_inputs_ok) (simp add: addUnchecked_def)
  ultimately show ?thesis by (simp add: pool_ok_def)
qed

end
