(* ===== verification/Policy.thy ===== *)
theory Policy imports Main Prelude Mempool Connect begin

text \<open>
  Relay policy and the way into the memory pool (\<open>src/src/main.cpp\<close>): standard transactions and inputs,
  the minimum fee, \<open>AcceptToMemoryPool\<close> on a view of the coins with the pool behind it, and what a
  connected block does to the pool. The rate limiter of free transactions, a decaying floating
  point count, is a parameter that tells whether a transaction of a size is refused.
\<close>

unbundle bit_operations_syntax

section \<open>Policy\<close>

datatype GetMinFee_mode = GMF_RELAY | GMF_SEND

definition DEFAULT_BLOCK_PRIORITY_SIZE :: nat where "DEFAULT_BLOCK_PRIORITY_SIZE = 50000"
definition MAX_STANDARD_TX_SIZE :: nat where "MAX_STANDARD_TX_SIZE = 100000"
definition CENT :: int where "CENT = 1000000"

record accept_env =
  ae_crypto :: crypto
  ae_hashes :: tx_hashes
  ae_mapBlockIndex :: "u256 \<rightharpoonup> block_ptr"
  ae_main :: bool
  ae_height :: int
  ae_adjusted_time :: int
  ae_now :: u64
  ae_nMinTxFee :: int
  ae_nMinRelayTxFee :: int
  ae_rate_limited :: "nat \<Rightarrow> bool"

definition GetMinFee :: "accept_env \<Rightarrow> CTransaction \<Rightarrow> nat \<Rightarrow> bool \<Rightarrow> GetMinFee_mode \<Rightarrow> int" where
  "GetMinFee e tx nBytes fAllowFree mode =
     (let nBaseFee = (if mode = GMF_RELAY then ae_nMinRelayTxFee e else ae_nMinTxFee e);
          nMinFee = (1 + int nBytes div 1000) * nBaseFee;
          nMinFee = (if fAllowFree \<and> nBytes < (if mode = GMF_SEND then 1000 else DEFAULT_BLOCK_PRIORITY_SIZE - 1000)
            then 0 else nMinFee);
          nMinFee = (if nMinFee < nBaseFee \<and> mode = GMF_SEND \<and> list_ex (\<lambda>txout. sint (t_nValue txout) < CENT) (tx_vout tx)
            then nBaseFee else nMinFee)
      in if \<not> (0 \<le> nMinFee \<and> nMinFee \<le> MAX_MONEY) then MAX_MONEY else nMinFee)"

fun standard_inputs :: "CTxIn list \<Rightarrow> string + unit" where
  "standard_inputs [] = Inr ()"
| "standard_inputs (txin # vin) =
     (if length (i_scriptSig txin) > 1650 then Inl ''scriptsig-size''
      else if \<not> IsPushOnly (i_scriptSig txin) then Inl ''scriptsig-not-pushonly''
      else if \<not> HasCanonicalPushes (i_scriptSig txin) then Inl ''scriptsig-non-canonical-push''
      else standard_inputs vin)"

text \<open>The outputs: the number of data outputs.\<close>

fun standard_outputs :: "int \<Rightarrow> nat \<Rightarrow> CTxOut list \<Rightarrow> string + nat" where
  "standard_outputs fee nDataOut [] = Inr nDataOut"
| "standard_outputs fee nDataOut (txout # vout) =
     (case IsStandard (t_scriptPubKey txout) of (ok, whichType) \<Rightarrow>
      if \<not> ok then Inl ''scriptpubkey''
      else if whichType = TX_NULL_DATA then standard_outputs fee (nDataOut + 1) vout
      else if IsDust txout fee then Inl ''dust''
      else standard_outputs fee nDataOut vout)"

definition IsStandardTx :: "accept_env \<Rightarrow> CTransaction \<Rightarrow> string + unit" where
  "IsStandardTx e tx =
     (if sint (tx_nVersion tx) > 1 \<or> sint (tx_nVersion tx) < 1 then Inl ''version''
      else if \<not> IsFinalTx (ae_height e) (ae_adjusted_time e) tx (ae_height e + 1) 0 then Inl ''non-final''
      else if size_tx tx \<ge> MAX_STANDARD_TX_SIZE then Inl ''tx-size''
      else case standard_inputs (tx_vin tx) of Inl r \<Rightarrow> Inl r
      | Inr _ \<Rightarrow>
        (case standard_outputs (ae_nMinRelayTxFee e) 0 (tx_vout tx) of Inl r \<Rightarrow> Inl r
         | Inr nDataOut \<Rightarrow> if nDataOut > 1 then Inl ''multi-op-return'' else Inr ()))"

text \<open>One input against the output it spends; \<open>None\<close> is an aborted process.\<close>

definition input_standard :: "crypto \<Rightarrow> CTransaction \<Rightarrow> nat \<Rightarrow> CScript \<Rightarrow> bool option" where
  "input_standard c tx i prevScript =
     (case script_Solver prevScript of (ok, whichType, vSolutions) \<Rightarrow>
      if \<not> ok then Some False
      else
        let nArgsExpected = ScriptSigArgsExpected whichType vSolutions in
        if nArgsExpected < 0 then Some False
        else case EvalScript (eval_env.make c tx i 0 0) [] (i_scriptSig (tx_vin tx ! i)) of
          Abort \<Rightarrow> None | Fail \<Rightarrow> Some False
        | Ret stack \<Rightarrow>
          if whichType = TX_SCRIPTHASH then
            if stack = [] then Some False
            else case script_Solver (hd stack) of (ok2, whichType2, vSolutions2) \<Rightarrow>
              if \<not> ok2 then Some False
              else if whichType2 = TX_SCRIPTHASH then Some False
              else
                let tmpExpected = ScriptSigArgsExpected whichType2 vSolutions2 in
                if tmpExpected < 0 then Some False
                else Some (int (length stack) = nArgsExpected + tmpExpected)
          else Some (int (length stack) = nArgsExpected))"

fun inputs_standard ::
    "crypto \<Rightarrow> 'b view_ops \<Rightarrow> CTransaction \<Rightarrow> nat \<Rightarrow> 'b coins_cache \<Rightarrow> CTxIn list \<Rightarrow> (bool \<times> 'b coins_cache) option" where
  "inputs_standard c V tx i s [] = Some (True, s)"
| "inputs_standard c V tx i s (txin # vin) =
     (case GetOutputFor V s txin of None \<Rightarrow> None
      | Some (prev, s) \<Rightarrow>
        (case input_standard c tx i (t_scriptPubKey prev) of None \<Rightarrow> None
         | Some False \<Rightarrow> Some (False, s)
         | Some True \<Rightarrow> inputs_standard c V tx (Suc i) s vin))"

definition AreInputsStandard :: "crypto \<Rightarrow> 'b view_ops \<Rightarrow> CTransaction \<Rightarrow> 'b coins_cache \<Rightarrow> (bool \<times> 'b coins_cache) option" where
  "AreInputsStandard c V tx s = (if IsCoinBase tx then Some (True, s) else inputs_standard c V tx 0 s (tx_vin tx))"

section \<open>The pool behind the coins\<close>

definition mempool_GetCoins :: "'b view_ops \<Rightarrow> CTxMemPool \<Rightarrow> 'b \<Rightarrow> u256 \<Rightarrow> CCoins option \<times> 'b" where
  "mempool_GetCoins V p b txid =
     (case vw_GetCoins V b txid of
        (Some coins, b) \<Rightarrow> (Some coins, b)
      | (None, b) \<Rightarrow> (map_option (\<lambda>tx. coins_of_tx tx MEMPOOL_HEIGHT) (pool_lookup p txid), b))"

definition mempool_HaveCoins :: "'b view_ops \<Rightarrow> CTxMemPool \<Rightarrow> 'b \<Rightarrow> u256 \<Rightarrow> bool \<times> 'b" where
  "mempool_HaveCoins V p b txid = (if pool_exists p txid then (True, b) else vw_HaveCoins V b txid)"

definition mempool_view :: "'b view_ops \<Rightarrow> CTxMemPool \<Rightarrow> 'b view_ops" where
  "mempool_view V p = V\<lparr>vw_GetCoins := mempool_GetCoins V p, vw_HaveCoins := mempool_HaveCoins V p\<rparr>"

section \<open>Acceptance\<close>

text \<open>The look-ups behind the pool: \<open>Inl\<close> with the flag for missing inputs, or the cached coins.\<close>

definition accept_lookup ::
    "'b view_ops \<Rightarrow> CTransaction \<Rightarrow> u256 \<Rightarrow> 'b coins_cache \<Rightarrow> ((verdict \<times> bool) + unit) \<times> 'b coins_cache" where
  "accept_lookup V tx hash s =
     (case cache_HaveCoins V s hash of
        (True, s) \<Rightarrow> (Inl (Failed, False), s)
      | (False, s) \<Rightarrow>
        (case have_hashes V s (tx_vin tx) of
           (False, s) \<Rightarrow> (Inl (Failed, True), s)
         | (True, s) \<Rightarrow>
           (case HaveInputs V s tx of None \<Rightarrow> (Inl (Aborted, False), s)
            | Some (False, s) \<Rightarrow> (Inl (Invalid REJECT_DUPLICATE ''bad-txns-inputs-spent'', False), s)
            | Some (True, s) \<Rightarrow> (Inr (), snd (cache_GetBestBlock V s)))))"

text \<open>The checks on the cached coins: the fee.\<close>

definition accept_fee :: "accept_env \<Rightarrow> CTransaction \<Rightarrow> bool \<Rightarrow> bool \<Rightarrow> u64 \<Rightarrow> verdict + unit" where
  "accept_fee e tx fLimitFree fRejectInsaneFee nFees =
     (if fLimitFree \<and> sint nFees < GetMinFee e tx (size_tx tx) True GMF_RELAY
      then Inl (DoS 0 REJECT_INSUFFICIENTFEE ''insufficient fee'' False)
      else if fLimitFree \<and> sint nFees < ae_nMinRelayTxFee e \<and> ae_rate_limited e (size_tx tx)
      then Inl (DoS 0 REJECT_INSUFFICIENTFEE ''insufficient priority'' False)
      else if fRejectInsaneFee \<and> sint nFees > ae_nMinRelayTxFee e * 10000 then Inl Failed
      else Inr ())"

definition accept_flags :: u32 where
  "accept_flags = SCRIPT_VERIFY_P2SH OR SCRIPT_VERIFY_STRICTENC OR SCRIPT_VERIFY_CHECKLOCKTIMEVERIFY"

definition accept_checks ::
    "accept_env \<Rightarrow> CTransaction \<Rightarrow> bool \<Rightarrow> bool \<Rightarrow> 'b coins_cache \<Rightarrow> verdict + CTxMemPoolEntry" where
  "accept_checks e tx fLimitFree fRejectInsaneFee s =
     (case (if ae_main e then AreInputsStandard (ae_crypto e) null_view tx s else Some (True, s)) of None \<Rightarrow> Inl Aborted
      | Some (False, s) \<Rightarrow> Inl Failed
      | Some (True, s) \<Rightarrow>
        (case GetValueIn null_view s tx of None \<Rightarrow> Inl Aborted
         | Some (nValueIn, s) \<Rightarrow>
           (case GetValueOut tx of None \<Rightarrow> Inl Threw
            | Some nValueOut \<Rightarrow>
              let nFees = nValueIn - nValueOut; entry = entry_new tx nFees (ae_now e) (word_of_int (ae_height e)) in
              (case accept_fee e tx fLimitFree fRejectInsaneFee nFees of Inl v \<Rightarrow> Inl v
               | Inr _ \<Rightarrow>
                 (case fst (CheckInputs (ae_crypto e) (ae_mapBlockIndex e) null_view tx s True accept_flags False) of
                    Inl v \<Rightarrow> Inl v | Inr _ \<Rightarrow> Inr entry)))))"

text \<open>The result, whether inputs are missing, and the cache of the tip, which the look-ups fill.\<close>

definition AcceptToMemoryPool ::
    "accept_env \<Rightarrow> 'b view_ops \<Rightarrow> CTxMemPool \<Rightarrow> 'b \<Rightarrow> CTransaction \<Rightarrow> bool \<Rightarrow> bool \<Rightarrow> (verdict + CTxMemPool) \<times> bool \<times> 'b" where
  "AcceptToMemoryPool e V pool b tx fLimitFree fRejectInsaneFee =
     (let hash = tx_GetHash (ae_hashes e) tx in
      case CheckTransaction tx of Inl (lvl, reason) \<Rightarrow> (Inl (DoS lvl REJECT_INVALID reason False), False, b)
      | Inr _ \<Rightarrow>
        if IsCoinBase tx then (Inl (DoS 100 REJECT_INVALID ''coinbase'' False), False, b)
        else case (if ae_main e then IsStandardTx e tx else Inr ()) of
          Inl reason \<Rightarrow> (Inl (DoS 0 REJECT_NONSTANDARD reason False), False, b)
        | Inr _ \<Rightarrow>
          if pool_exists pool hash then (Inl Failed, False, b)
          else if list_ex (\<lambda>txin. map_of (mp_mapNextTx pool) (i_prevout txin) \<noteq> None) (tx_vin tx) then (Inl Failed, False, b)
          else case accept_lookup (mempool_view V pool) tx hash (cache_new b) of
            (Inl (v, fMissing), s) \<Rightarrow> (Inl v, fMissing, ch_base s)
          | (Inr _, s) \<Rightarrow>
            (case accept_checks e tx fLimitFree fRejectInsaneFee s of
               Inl v \<Rightarrow> (Inl v, False, ch_base s)
             | Inr entry \<Rightarrow> (Inr (addUnchecked hash entry pool), False, ch_base s)))"

section \<open>A connected block and the pool\<close>

fun pool_block :: "tx_hashes \<Rightarrow> nat \<Rightarrow> CTransaction list \<Rightarrow> CTxMemPool \<times> CTransaction list \<Rightarrow> (CTxMemPool \<times> CTransaction list) option" where
  "pool_block hs fuel [] s = Some s"
| "pool_block hs fuel (tx # vtx) (pool, txConflicted) =
     (case pool_remove hs fuel tx False (pool, []) of None \<Rightarrow> None
      | Some (pool, unused) \<Rightarrow>
        (case removeConflicts hs fuel tx (tx_vin tx) (pool, txConflicted) of None \<Rightarrow> None
         | Some s \<Rightarrow> pool_block hs fuel vtx s))"

end
