(* ===== verification/PoolChain.thy ===== *)
theory PoolChain imports Main Prelude Policy Ledger begin

text \<open>
  The memory pool against the coins of the tip (\<open>src/src/txmempool.cpp\<close>, \<open>src/src/main.cpp\<close>): what
  \<open>AcceptToMemoryPool\<close> and a connected block keep of it. A pool is good for a ledger when its index
  is consistent, every input spends an output that is there, no transaction of the pool is also in
  the ledger, and no transaction spends its own outputs through others; then the assertions of
  \<open>CTxMemPool::check\<close> hold.
\<close>

section \<open>Good pools\<close>

definition input_ok :: "CTxMemPool \<Rightarrow> ledger \<Rightarrow> CTxIn \<Rightarrow> bool" where
  "input_ok p m txin \<longleftrightarrow>
     (case map_of (mp_mapTx p) (o_hash (i_prevout txin)) of
        Some e \<Rightarrow> IsAvailable (coins_of_tx (me_tx e) MEMPOOL_HEIGHT) (o_n (i_prevout txin))
      | None \<Rightarrow> IsAvailable (m (o_hash (i_prevout txin))) (o_n (i_prevout txin)))"

definition pool_good :: "tx_hashes \<Rightarrow> ledger \<Rightarrow> CTxMemPool \<Rightarrow> bool" where
  "pool_good hs m p \<longleftrightarrow> pool_ok hs p
     \<and> (\<forall>h e. map_of (mp_mapTx p) h = Some e \<longrightarrow> \<not> tx_vector_format (me_tx e) \<and> m h = coins_empty \<and> (\<forall>txin\<in>set (tx_vin (me_tx e)). input_ok p m txin))
     \<and> (\<exists>r N. ranked r N p)"

lemma pool_goodD:
  assumes "pool_good hs m p"
  shows "pool_ok hs p" "map_of (mp_mapTx p) h = Some e \<Longrightarrow> m h = coins_empty"
    "map_of (mp_mapTx p) h = Some e \<Longrightarrow> txin \<in> set (tx_vin (me_tx e)) \<Longrightarrow> input_ok p m txin" "\<exists>r N. ranked r N p"
    "map_of (mp_mapTx p) h = Some e \<Longrightarrow> \<not> tx_vector_format (me_tx e)"
  using assms by (auto simp: pool_good_def)

lemma coins_of_tx_avail: "IsAvailable (coins_of_tx tx h) n \<Longrightarrow> unat n < length (tx_vout tx) \<and> \<not> txout_IsNull (tx_vout tx ! unat n)"
proof -
  assume a: "IsAvailable (coins_of_tx tx h) n"
  let ?w = "map null_unspendable (tx_vout tx)"
  obtain zs where z: "?w = strip_spent ?w @ zs" using strip_spent_prefix [of ?w] by blast
  have n: "unat n < length (strip_spent ?w)" "\<not> txout_IsNull (strip_spent ?w ! unat n)"
    using a by (simp_all add: IsAvailable_def coins_of_tx_def ClearUnspendable_vout)
  then have "strip_spent ?w ! unat n = ?w ! unat n" using z by (metis nth_append)
  moreover have "length (strip_spent ?w) \<le> length ?w" using z by (metis length_append le_add1)
  ultimately show ?thesis using n by (auto simp: null_unspendable_def split: if_splits)
qed

lemma coins_of_tx_avail_height: "IsAvailable (coins_of_tx tx h) n \<longleftrightarrow> IsAvailable (coins_of_tx tx h') n"
  by (simp add: IsAvailable_def coins_of_tx_def ClearUnspendable_vout)

section \<open>The assertions of the check\<close>

lemma pool_ok_next: "pool_ok hs p \<Longrightarrow> x \<in> set (mp_mapNextTx p) \<Longrightarrow> check_next hs p x"
proof -
  assume p: "pool_ok hs p" and x: "x \<in> set (mp_mapNextTx p)"
  obtain out it where xo: "x = (out, it)" by (cases x)
  then have "next_ok p out it" using pool_okD(2,4) [OF p] x by (simp add: smap_in)
  then obtain e where e: "map_of (mp_mapTx p) (ip_ptx it) = Some e" "unat (ip_n it) < length (tx_vin (me_tx e))"
      "i_prevout (tx_vin (me_tx e) ! unat (ip_n it)) = out" by (auto simp: next_ok_def)
  then show ?thesis using pool_okD(3) [OF p e(1)] by (simp add: xo check_next_def Let_def entry_ok_def)
qed

context coins_view
begin

lemma check_inputs_passes:
  assumes "cache_inv s" "\<forall>i<length vin. input_ok p (cache_coins s) (vin ! i)
      \<and> map_of (mp_mapNextTx p) (i_prevout (vin ! i)) = Some \<lparr> ip_ptx = h, ip_n = of_nat (a + i) \<rparr>"
  shows "\<exists>s'. check_inputs V p h a s vin = Some s' \<and> same s s'"
  using assms
proof (induction vin arbitrary: s a)
  case Nil
  then show ?case by (simp add: same_refl)
next
  case (Cons txin vin)
  have x: "input_ok p (cache_coins s) txin" "map_of (mp_mapNextTx p) (i_prevout txin) = Some \<lparr> ip_ptx = h, ip_n = of_nat a \<rparr>"
    using Cons.prems(2) by (auto dest: spec [of _ 0])
  have rest: "\<forall>i<length vin. input_ok p (cache_coins s) (vin ! i)
      \<and> map_of (mp_mapNextTx p) (i_prevout (vin ! i)) = Some \<lparr> ip_ptx = h, ip_n = of_nat (Suc a + i) \<rparr>"
    using Cons.prems(2) by (auto dest: spec [of _ "Suc _"])
  show ?case
  proof (cases "map_of (mp_mapTx p) (o_hash (i_prevout txin))")
    case (Some e)
    then have "unat (o_n (i_prevout txin)) < length (tx_vout (me_tx e)) \<and> \<not> txout_IsNull (tx_vout (me_tx e) ! unat (o_n (i_prevout txin)))"
      using x(1) coins_of_tx_avail by (auto simp: input_ok_def)
    then show ?thesis using Cons.IH [OF Cons.prems(1) rest] Some x(2) by simp
  next
    case None
    then have "IsAvailable (cache_coins s (o_hash (i_prevout txin))) (o_n (i_prevout txin))" using x(1) by (simp add: input_ok_def)
    then obtain s1 where s1: "GetCoins_ref V s (o_hash (i_prevout txin)) = Some (cache_coins s (o_hash (i_prevout txin)), s1)" "same s s1"
        "IsAvailable (cache_coins s (o_hash (i_prevout txin))) (o_n (i_prevout txin))"
      using GetCoins_ref_avail [OF Cons.prems(1)] by metis
    have "\<exists>s'. check_inputs V p h (Suc a) s1 vin = Some s' \<and> same s1 s'"
      using Cons.IH [OF same_inv [OF s1(2)], of "Suc a"] rest s1(2) by (simp add: same_def)
    then show ?thesis using None s1 x(2) same_trans by auto
  qed
qed

lemma check_entries_passes:
  assumes "cache_inv s" "pool_good hs (cache_coins s) p" "set m \<subseteq> set (mp_mapTx p)"
  shows "\<exists>s'. check_entries V p s m = Some s' \<and> same s s'"
  using assms
proof (induction m arbitrary: s)
  case Nil
  then show ?case by (simp add: same_refl)
next
  case (Cons x m)
  obtain h e where x: "x = (h, e)" by (cases x)
  note p = pool_goodD [OF Cons.prems(2)]
  have e: "map_of (mp_mapTx p) h = Some e" using Cons.prems(3) pool_okD(1) [OF p(1)] by (simp add: x smap_in)
  have "\<forall>i<length (tx_vin (me_tx e)). input_ok p (cache_coins s) (tx_vin (me_tx e) ! i)
      \<and> map_of (mp_mapNextTx p) (i_prevout (tx_vin (me_tx e) ! i)) = Some \<lparr> ip_ptx = h, ip_n = of_nat (0 + i) \<rparr>"
    using p(3) [OF e] pool_okD(3) [OF p(1) e] by (auto simp: entry_ok_def)
  from check_inputs_passes [OF Cons.prems(1) this] obtain s1
    where s1: "check_inputs V p h 0 s (tx_vin (me_tx e)) = Some s1" "same s s1" by blast
  have "\<exists>s'. check_entries V p s1 m = Some s' \<and> same s1 s'"
    using Cons.IH [OF same_inv [OF s1(2)]] Cons.prems(2,3) s1(2) by (simp add: same_def)
  then show ?case using s1 x same_trans by auto
qed

lemma pool_check_passes:
  assumes "cache_inv s" "pool_good hs (cache_coins s) p"
  shows "\<exists>s'. pool_check hs V p s = Some s' \<and> same s s'"
  using check_entries_passes [OF assms order_refl] pool_ok_next [OF pool_goodD(1) [OF assms(2)]] same_refl [OF assms(1)]
  by (auto simp: pool_check_def list_all_iff)

end

section \<open>Acceptance\<close>

text \<open>The cache in front of any view: a record that is cached stays, and inputs that are there are cached.\<close>

lemma Fetch_cases:
  assumes "FetchCoins W s k = (r, s')"
  shows "r = ch_cacheCoins s' k \<or> r = None"
    "ch_cacheCoins s j = Some c \<Longrightarrow> ch_cacheCoins s' j = Some c"
  using assms by (auto simp: FetchCoins_def split: option.splits prod.splits)

lemma have_hashes_cached:
  "have_hashes W s vin = (True, s') \<Longrightarrow>
     (\<forall>t\<in>set vin. ch_cacheCoins s' (o_hash (i_prevout t)) \<noteq> None) \<and> (\<forall>j c. ch_cacheCoins s j = Some c \<longrightarrow> ch_cacheCoins s' j = Some c)"
proof (induction vin arbitrary: s)
  case (Cons t vin)
  obtain r s1 where f: "FetchCoins W s (o_hash (i_prevout t)) = (r, s1)" by fastforce
  with Cons.prems obtain c where r: "r = Some c" "have_hashes W s1 vin = (True, s')"
    by (cases r) (auto simp: cache_HaveCoins_def)
  have k: "ch_cacheCoins s1 (o_hash (i_prevout t)) = Some c" using Fetch_cases(1) [OF f] r(1) by auto
  have "ch_cacheCoins s' (o_hash (i_prevout t)) = Some c" using Cons.IH [OF r(2)] k by blast
  moreover have "\<forall>j c. ch_cacheCoins s j = Some c \<longrightarrow> ch_cacheCoins s' j = Some c"
    using Cons.IH [OF r(2)] Fetch_cases(2) [OF f] by blast
  ultimately show ?case using Cons.IH [OF r(2)] by simp
qed simp

lemma have_outputs_cached:
  "\<forall>t\<in>set vin. ch_cacheCoins s (o_hash (i_prevout t)) \<noteq> None \<Longrightarrow>
     have_outputs W s vin = Some (\<forall>t\<in>set vin. IsAvailable (the (ch_cacheCoins s (o_hash (i_prevout t)))) (o_n (i_prevout t)), s)"
proof (induction vin)
  case (Cons t vin)
  then obtain c where "ch_cacheCoins s (o_hash (i_prevout t)) = Some c" by auto
  then show ?case using Cons by (simp add: GetCoins_ref_def FetchCoins_def)
qed simp

lemma HaveInputs_cached:
  assumes "HaveInputs W s tx = Some (True, s')" "\<not> IsCoinBase tx" "t \<in> set (tx_vin tx)"
  shows "\<exists>c. ch_cacheCoins s' (o_hash (i_prevout t)) = Some c \<and> IsAvailable c (o_n (i_prevout t))"
proof -
  obtain b s1 where h: "have_hashes W s (tx_vin tx) = (b, s1)" by fastforce
  with assms(1,2) have b: "b" "have_outputs W s1 (tx_vin tx) = Some (True, s')"
    by (auto simp: HaveInputs_def split: if_splits bool.splits)
  note c = have_hashes_cached [OF h [unfolded b(1) [THEN eqTrueI]]]
  then show ?thesis using b(2) have_outputs_cached [of "tx_vin tx" s1 W] assms(3) by fastforce
qed

context coins_view
begin

text \<open>What the look-ups leave in the cache comes from the tip or from the pool.\<close>

definition origin :: "CTxMemPool \<Rightarrow> 'b \<Rightarrow> u256 \<Rightarrow> CCoins \<Rightarrow> bool" where
  "origin p b k c \<longleftrightarrow> prune c = coins b k \<or> (\<exists>e. map_of (mp_mapTx p) k = Some e \<and> c = coins_of_tx (me_tx e) MEMPOOL_HEIGHT)"

definition looked_up :: "CTxMemPool \<Rightarrow> 'b \<Rightarrow> 'b coins_cache \<Rightarrow> bool" where
  "looked_up p b s \<longleftrightarrow> inv (ch_base s) \<and> coins (ch_base s) = coins b \<and> best (ch_base s) = best b
     \<and> (\<forall>k c. ch_cacheCoins s k = Some c \<longrightarrow> origin p b k c)"

lemma looked_up_base: "looked_up p b s \<Longrightarrow> inv b1 \<Longrightarrow> coins b1 = coins b \<Longrightarrow> best b1 = best b \<Longrightarrow>
    looked_up p b (s\<lparr>ch_base := b1\<rparr>)"
  by (simp add: looked_up_def)

lemma looked_up_put: "looked_up p b s \<Longrightarrow> origin p b k c \<Longrightarrow> inv b1 \<Longrightarrow> coins b1 = coins b \<Longrightarrow> best b1 = best b \<Longrightarrow>
    looked_up p b (s\<lparr>ch_base := b1, ch_cacheCoins := (ch_cacheCoins s)(k \<mapsto> c)\<rparr>)"
  by (simp add: looked_up_def)

lemma looked_up_new: "inv b \<Longrightarrow> looked_up p b (cache_new b)" by (simp add: looked_up_def cache_new_def)

lemma looked_up_Fetch:
  assumes "looked_up p b s" "FetchCoins (mempool_view V p) s k = (r, s')"
  shows "looked_up p b s' \<and> (r = None \<longrightarrow> coins b k = coins_empty)"
proof (cases "ch_cacheCoins s k")
  case (Some c)
  then show ?thesis using assms by (auto simp: FetchCoins_def)
next
  case None
  obtain r1 b1 where g: "vw_GetCoins V (ch_base s) k = (r1, b1)" by fastforce
  have i: "inv (ch_base s)" "coins (ch_base s) = coins b" "best (ch_base s) = best b" using assms(1) by (simp_all add: looked_up_def)
  have l: "inv b1" "coins b1 = coins b" "live r1 = coins b k" "best b1 = best b" using get_coins [OF i(1) g] i(2,3) by auto
  have "\<And>c. r1 = Some c \<Longrightarrow> origin p b k c" using l(3) by (auto simp: origin_def live_def)
  moreover have "\<And>e. map_of (mp_mapTx p) k = Some e \<Longrightarrow> origin p b k (coins_of_tx (me_tx e) MEMPOOL_HEIGHT)"
    by (auto simp: origin_def)
  ultimately show ?thesis
    using assms(2) None g l(3) looked_up_base [OF assms(1) l(1,2,4)] looked_up_put [OF assms(1) _ l(1,2,4), of k]
    by (auto simp: FetchCoins_def mempool_view_def mempool_GetCoins_def pool_lookup_def live_def split: option.splits)
qed

lemma looked_up_hashes: "looked_up p b s \<Longrightarrow> have_hashes (mempool_view V p) s vin = (x, s') \<Longrightarrow> looked_up p b s'"
proof (induction vin arbitrary: s)
  case (Cons t vin)
  obtain r s1 where f: "FetchCoins (mempool_view V p) s (o_hash (i_prevout t)) = (r, s1)" by fastforce
  then show ?case using Cons looked_up_Fetch [OF Cons.prems(1) f]
    by (cases r) (auto simp: cache_HaveCoins_def)
qed simp

lemma looked_up_outputs: "looked_up p b s \<Longrightarrow> have_outputs (mempool_view V p) s vin = Some (x, s') \<Longrightarrow> looked_up p b s'"
proof (induction vin arbitrary: s)
  case (Cons t vin)
  obtain r s1 where f: "FetchCoins (mempool_view V p) s (o_hash (i_prevout t)) = (r, s1)" by fastforce
  then show ?case using Cons looked_up_Fetch [OF Cons.prems(1) f]
    by (cases r) (auto simp: GetCoins_ref_def split: if_splits)
qed simp

lemma looked_up_HaveInputs:
  "looked_up p b s \<Longrightarrow> HaveInputs (mempool_view V p) s tx = Some (x, s') \<Longrightarrow> looked_up p b s'"
  by (auto simp: HaveInputs_def split: if_splits prod.splits bool.splits dest: looked_up_hashes looked_up_outputs)

lemma looked_up_best: "looked_up p b s \<Longrightarrow> looked_up p b (snd (cache_GetBestBlock (mempool_view V p) s))"
  using get_best [of "ch_base s"]
  by (auto simp: looked_up_def cache_GetBestBlock_def mempool_view_def split: prod.splits)

lemma accept_lookup_base:
  "inv b \<Longrightarrow> accept_lookup (mempool_view V p) tx hash (cache_new b) = (r, s) \<Longrightarrow> looked_up p b s"
  using looked_up_new [of b p]
  by (auto simp: accept_lookup_def cache_HaveCoins_def split: prod.splits option.splits bool.splits)
    (metis looked_up_Fetch looked_up_hashes looked_up_HaveInputs looked_up_best)+

text \<open>An accepted look-up: the inputs are available at the tip or in the pool, the transaction is in neither.\<close>

lemma accept_lookup_inputs:
  assumes b: "inv b" and l: "accept_lookup (mempool_view V p) tx hash (cache_new b) = (Inr u, s)" and nc: "\<not> IsCoinBase tx"
    and fresh: "\<forall>h e. map_of (mp_mapTx p) h = Some e \<longrightarrow> coins b h = coins_empty"
  shows "coins b hash = coins_empty" "\<forall>txin\<in>set (tx_vin tx). input_ok p (coins b) txin"
proof -
  obtain s1 s2 s3 where f: "FetchCoins (mempool_view V p) (cache_new b) hash = (None, s1)"
      "have_hashes (mempool_view V p) s1 (tx_vin tx) = (True, s2)" "HaveInputs (mempool_view V p) s2 tx = Some (True, s3)"
    using l by (auto simp: accept_lookup_def cache_HaveCoins_def split: prod.splits option.splits bool.splits)
  note j1 = looked_up_Fetch [OF looked_up_new [OF b] f(1)]
  show "coins b hash = coins_empty" using j1 by simp
  have j3: "looked_up p b s3" using j1 looked_up_hashes [OF _ f(2)] looked_up_HaveInputs [OF _ f(3)] by blast
  show "\<forall>txin\<in>set (tx_vin tx). input_ok p (coins b) txin"
  proof
    fix txin assume t: "txin \<in> set (tx_vin tx)"
    let ?h = "o_hash (i_prevout txin)" and ?n = "o_n (i_prevout txin)"
    obtain c where c: "ch_cacheCoins s3 ?h = Some c" "IsAvailable c ?n" using HaveInputs_cached [OF f(3) nc t] by blast
    have o: "origin p b ?h c" using j3 c(1) by (simp add: looked_up_def)
    show "input_ok p (coins b) txin"
    proof (cases "prune c = coins b ?h")
      case True
      then have a: "IsAvailable (coins b ?h) ?n" using c(2) IsAvailable_prune [of c ?n] by simp
      then have "coins b ?h \<noteq> coins_empty" using not_avail_empty by metis
      then have "map_of (mp_mapTx p) ?h = None" using fresh by (cases "map_of (mp_mapTx p) ?h") auto
      then show ?thesis using a by (simp add: input_ok_def)
    next
      case False
      then show ?thesis using o c(2) by (auto simp: origin_def input_ok_def)
    qed
  qed
qed

end

text \<open>A transaction whose inputs are there joins a good pool.\<close>

lemma ranked_insert:
  assumes good: "pool_good hs m p" and new: "map_of (mp_mapTx p) h = None" "m h = coins_empty"
    and inputs: "\<forall>txin\<in>set (tx_vin (me_tx e)). input_ok p m txin"
  shows "\<exists>r N. ranked r N (addUnchecked h e p)"
proof -
  obtain r N where r: "ranked r N p" using pool_goodD(4) [OF good] by blast
  let ?r = "\<lambda>k. if k = h then N + 2 else if map_of (mp_mapTx p) k = None then 0 else r k + 1"
  have absent: "o_hash (i_prevout txin) \<noteq> h" if "input_ok p m txin" for txin
    using that new by (auto simp: input_ok_def IsAvailable_def coins_empty_def)
  have tx: "map_of (mp_mapTx (addUnchecked h e p)) = (map_of (mp_mapTx p))(h \<mapsto> e)" by (simp add: addUnchecked_def smap_simps)
  have "ranked ?r (N + 2) (addUnchecked h e p)"
    unfolding ranked_def
  proof (intro allI impI conjI ballI)
    fix k e' assume k: "map_of (mp_mapTx (addUnchecked h e p)) k = Some e'"
    show "?r k \<le> N + 2" using k r by (auto simp: tx ranked_def le_SucI split: if_splits)
    fix txin assume t: "txin \<in> set (tx_vin (me_tx e'))"
    have ok: "input_ok p m txin" using k t inputs pool_goodD(3) [OF good, of k e'] by (auto simp: tx split: if_splits)
    have old: "map_of (mp_mapTx p) j = Some e'' \<Longrightarrow> r j \<le> N" for j e'' using r by (simp add: ranked_def)
    show "?r (o_hash (i_prevout txin)) < ?r k"
    proof (cases "k = h")
      case True
      then show ?thesis using absent [OF ok] old [of "o_hash (i_prevout txin)"]
        by (cases "map_of (mp_mapTx p) (o_hash (i_prevout txin))") force+
    next
      case False
      then have e: "map_of (mp_mapTx p) k = Some e'" using k by (simp add: tx)
      then have "r (o_hash (i_prevout txin)) < r k" using r t by (auto simp: ranked_def)
      then show ?thesis using False absent [OF ok] e by simp
    qed
  qed
  then show ?thesis by blast
qed

lemma addUnchecked_good:
  assumes good: "pool_good hs m p" and new: "map_of (mp_mapTx p) h = None" "m h = coins_empty" "tx_GetHash hs (me_tx e) = h"
      "\<not> tx_vector_format (me_tx e)"
    and vin: "distinct (map i_prevout (tx_vin (me_tx e)))" "length (tx_vin (me_tx e)) < 2 ^ 32"
    and free: "\<forall>txin\<in>set (tx_vin (me_tx e)). map_of (mp_mapNextTx p) (i_prevout txin) = None"
    and inputs: "\<forall>txin\<in>set (tx_vin (me_tx e)). input_ok p m txin"
  shows "pool_good hs m (addUnchecked h e p)"
proof -
  have tx: "map_of (mp_mapTx (addUnchecked h e p)) = (map_of (mp_mapTx p))(h \<mapsto> e)" by (simp add: addUnchecked_def smap_simps)
  have keep: "input_ok (addUnchecked h e p) m txin" if "input_ok p m txin" for txin
  proof -
    have "o_hash (i_prevout txin) \<noteq> h" using that new(1,2) by (auto simp: input_ok_def IsAvailable_def coins_empty_def)
    then show ?thesis using that by (simp add: input_ok_def tx)
  qed
  have "pool_ok hs (addUnchecked h e p)"
    by (rule addUnchecked_ok [OF pool_goodD(1) [OF good] new(1,3) vin free])
  moreover have "\<not> tx_vector_format (me_tx e') \<and> m k = coins_empty \<and> (\<forall>txin\<in>set (tx_vin (me_tx e')). input_ok (addUnchecked h e p) m txin)"
    if "map_of (mp_mapTx (addUnchecked h e p)) k = Some e'" for k e'
    using that pool_goodD(2,3,5) [OF good, of k e'] new(2,4) inputs keep by (auto simp: tx split: if_splits)
  ultimately show ?thesis using ranked_insert [OF good new(1,2) inputs] by (simp add: pool_good_def)
qed

lemma CheckTransaction_vin:
  assumes "CheckTransaction tx = Inr ()" "\<not> tx_vector_format tx"
  shows "length (tx_vin tx) < 2 ^ 32"
proof -
  have "size_tx tx \<le> MAX_BLOCK_SIZE" using assms(1) by (auto simp: CheckTransaction_def split: if_splits)
  moreover have "sum_list (map size_txin (tx_vin tx)) \<le> size_tx tx"
    using assms(2) by (simp add: size_tx_def size_vec_def foldl_add)
  moreover have "length vin \<le> sum_list (map size_txin vin)" for vin by (induction vin) (simp_all add: size_txin_def)
  ultimately have "length (tx_vin tx) \<le> MAX_BLOCK_SIZE" by (meson le_trans)
  then show ?thesis by (simp add: MAX_BLOCK_SIZE_def)
qed

context coins_view
begin

text \<open>What acceptance does: it adds the transaction, whose inputs are there and which is in neither.\<close>

lemma accept_result:
  assumes b: "inv b" and fresh: "\<forall>h e. map_of (mp_mapTx p) h = Some e \<longrightarrow> coins b h = coins_empty"
    and a: "AcceptToMemoryPool e V p b tx fLimitFree fRejectInsaneFee = (r, fMissing, b')"
  shows "inv b'" "coins b' = coins b" "best b' = best b"
    "r = Inr p' \<Longrightarrow> \<exists>en. p' = addUnchecked (tx_GetHash (ae_hashes e) tx) en p \<and> me_tx en = tx \<and> CheckTransaction tx = Inr ()
      \<and> map_of (mp_mapTx p) (tx_GetHash (ae_hashes e) tx) = None \<and> coins b (tx_GetHash (ae_hashes e) tx) = coins_empty
      \<and> distinct (map i_prevout (tx_vin tx)) \<and> (\<forall>txin\<in>set (tx_vin tx). map_of (mp_mapNextTx p) (i_prevout txin) = None)
      \<and> (\<forall>txin\<in>set (tx_vin tx). input_ok p (coins b) txin)"
proof -
  let ?h = "tx_GetHash (ae_hashes e) tx"
  obtain l s where l: "accept_lookup (mempool_view V p) tx ?h (cache_new b) = (l, s)" by fastforce
  have base: "inv (ch_base s)" "coins (ch_base s) = coins b" "best (ch_base s) = best b"
    using accept_lookup_base [OF b l] by (simp_all add: looked_up_def)
  show "inv b'" "coins b' = coins b" "best b' = best b" using a b base l
    by (auto simp: AcceptToMemoryPool_def Let_def split: sum.splits prod.splits if_splits)
  assume r: "r = Inr p'"
  obtain en u where x: "CheckTransaction tx = Inr ()" "\<not> IsCoinBase tx" "\<not> pool_exists p ?h"
      "\<not> list_ex (\<lambda>txin. map_of (mp_mapNextTx p) (i_prevout txin) \<noteq> None) (tx_vin tx)"
      "l = Inr u" "accept_checks e tx fLimitFree fRejectInsaneFee s = Inr en" "p' = addUnchecked ?h en p"
    using a l r by (auto simp: AcceptToMemoryPool_def Let_def split: sum.splits prod.splits if_splits)
  have en: "me_tx en = tx"
    using x(6) by (auto simp: accept_checks_def Let_def entry_new_def split: option.splits prod.splits bool.splits sum.splits if_splits)
  have d: "distinct (map i_prevout (tx_vin tx))"
    using x(1) by (auto simp: CheckTransaction_def check_duplicates_eq split: sum.splits if_splits)
  note i = accept_lookup_inputs [OF b l [unfolded x(5)] x(2) fresh]
  show "\<exists>en. p' = addUnchecked ?h en p \<and> me_tx en = tx \<and> CheckTransaction tx = Inr () \<and> map_of (mp_mapTx p) ?h = None \<and> coins b ?h = coins_empty
      \<and> distinct (map i_prevout (tx_vin tx)) \<and> (\<forall>txin\<in>set (tx_vin tx). map_of (mp_mapNextTx p) (i_prevout txin) = None)
      \<and> (\<forall>txin\<in>set (tx_vin tx). input_ok p (coins b) txin)"
    using x(1,3,4,7) en d i by (intro exI [of _ en]) (auto simp: pool_exists_def list_ex_iff)
qed

lemma accept_keeps:
  assumes b: "inv b" and good: "pool_good (ae_hashes e) (coins b) p" and plain: "\<not> tx_vector_format tx"
    and a: "AcceptToMemoryPool e V p b tx fLimitFree fRejectInsaneFee = (r, fMissing, b')"
  shows "inv b' \<and> coins b' = coins b \<and> (\<forall>p'. r = Inr p' \<longrightarrow> pool_good (ae_hashes e) (coins b) p'
    \<and> pool_lookup p' (tx_GetHash (ae_hashes e) tx) = Some tx)"
proof (intro conjI allI impI)
  let ?h = "tx_GetHash (ae_hashes e) tx"
  have fresh: "\<forall>h en. map_of (mp_mapTx p) h = Some en \<longrightarrow> coins b h = coins_empty" using pool_goodD(2) [OF good] by blast
  note res = accept_result [OF b fresh a]
  show "inv b'" "coins b' = coins b" by (rule res(1,2))+
  fix p' assume "r = Inr p'"
  then obtain en where en: "p' = addUnchecked ?h en p" "me_tx en = tx" "CheckTransaction tx = Inr ()" "map_of (mp_mapTx p) ?h = None" "coins b ?h = coins_empty"
      "distinct (map i_prevout (tx_vin tx))" "\<forall>txin\<in>set (tx_vin tx). map_of (mp_mapNextTx p) (i_prevout txin) = None"
      "\<forall>txin\<in>set (tx_vin tx). input_ok p (coins b) txin"
    using res(4) by blast
  show "pool_good (ae_hashes e) (coins b) p'" unfolding en(1)
    by (rule addUnchecked_good [OF good en(4,5)]) (use plain CheckTransaction_vin [OF en(3) plain] in \<open>simp_all add: en\<close>)
  show "pool_lookup p' ?h = Some tx" unfolding en(1) by (simp add: en(2) pool_lookup_def addUnchecked_def smap_simps)
qed

end

section \<open>A connected block\<close>

lemma strip_spent_nth:
  assumes "k < length w" "\<not> txout_IsNull (w ! k)"
  shows "k < length (strip_spent w) \<and> strip_spent w ! k = w ! k"
proof -
  obtain zs where z: "w = strip_spent w @ zs" "list_all txout_IsNull zs" using strip_spent_prefix [of w] by blast
  define v where "v = strip_spent w"
  have w: "w = v @ zs" using z(1) by (simp add: v_def)
  have "k < length v"
  proof (rule ccontr)
    assume k: "\<not> k < length v"
    then have "w ! k = zs ! (k - length v)" "k - length v < length zs" using assms(1) by (simp_all add: w nth_append)
    then show False using z(2) assms(2) by (simp add: list_all_length)
  qed
  then have "v ! k = w ! k" by (simp add: w nth_append)
  then show ?thesis using \<open>k < length v\<close> unfolding v_def by simp
qed

lemma Spend_avail: "coins_Spend c out = Some (undo, c') \<Longrightarrow> n \<noteq> o_n out \<Longrightarrow> IsAvailable c n \<Longrightarrow> IsAvailable c' n"
proof -
  assume s: "coins_Spend c out = Some (undo, c')" and n: "n \<noteq> o_n out" and a: "IsAvailable c n"
  let ?w = "(co_vout c)[unat (o_n out) := txout_SetNull]"
  have c': "co_vout c' = strip_spent ?w" using s by (auto simp: coins_Spend_def coins_Cleanup_def Let_def split: if_split_asm)
  have "unat n \<noteq> unat (o_n out)" using n word_unat_eq_iff [of n "o_n out"] by auto
  then have w: "unat n < length ?w" "\<not> txout_IsNull (?w ! unat n)" using a by (simp_all add: IsAvailable_def)
  then show ?thesis using strip_spent_nth [OF w] c' by (simp add: IsAvailable_def)
qed

lemma prune_avail: "IsAvailable c n \<Longrightarrow> IsAvailable (prune c) n"
  by (auto simp: prune_def IsAvailable_def coins_IsPruned_def list_all_length)

lemma spend_map_keeps:
  "spend_map m vin = Some (u, m') \<Longrightarrow> IsAvailable (m h) n \<Longrightarrow> \<forall>t\<in>set vin. i_prevout t \<noteq> \<lparr> o_hash = h, o_n = n \<rparr> \<Longrightarrow>
     IsAvailable (m' h) n"
proof (induction vin arbitrary: m u)
  case (Cons t vin)
  let ?k = "o_hash (i_prevout t)"
  obtain undo c u1 where c: "coins_Spend (m ?k) (i_prevout t) = Some (undo, c)" "spend_map (m(?k := prune c)) vin = Some (u1, m')"
    using Cons.prems(1) by (auto split: option.splits prod.splits)
  have "IsAvailable ((m(?k := prune c)) h) n"
  proof (cases "?k = h")
    case True
    then have "o_n (i_prevout t) \<noteq> n" using Cons.prems(3) by (auto intro: COutPoint.equality)
    then show ?thesis using Spend_avail [OF c(1)] Cons.prems(2) True prune_avail by auto
  next
    case False
    then show ?thesis using Cons.prems(2) by simp
  qed
  then show ?case using Cons.IH [OF c(2)] Cons.prems(3) by simp
qed simp

lemma spend_map_empty: "spend_map m vin = Some (u, m') \<Longrightarrow> m h = coins_empty \<Longrightarrow> m' h = coins_empty"
proof (induction vin arbitrary: m u)
  case (Cons t vin)
  then show ?case by (auto split: option.splits prod.splits if_splits) (metis Spend_empty fun_upd_apply option.distinct(1))
qed simp

text \<open>The pool after the transaction of a block itself is removed, without its descendants.\<close>

lemma remove_flat:
  assumes p: "pool_ok hs p" and tx: "\<And>e. map_of (mp_mapTx p) (tx_GetHash hs tx) = Some e \<Longrightarrow> tx_eq (me_tx e) tx"
  obtains n l' where "pool_remove hs fuel tx False (p, l) = Some (drop_txs {tx_GetHash hs tx} n p, l')"
proof (cases "map_of (mp_mapTx p) (tx_GetHash hs tx)")
  case None
  have "\<forall>x\<in>set (mp_mapTx p). fst x \<noteq> tx_GetHash hs tx"
    using None map_of_eq_None_iff [of "mp_mapTx p"] by (auto simp: image_iff)
  moreover have "\<forall>x\<in>set (mp_mapNextTx p). ip_ptx (snd x) \<noteq> tx_GetHash hs tx"
  proof
    fix x assume "x \<in> set (mp_mapNextTx p)"
    then have "next_ok p (fst x) (snd x)" using pool_okD(2,4) [OF p] smap_in [of "mp_mapNextTx p" "fst x" "snd x"] by simp
    then show "ip_ptx (snd x) \<noteq> tx_GetHash hs tx" using None by (auto simp: next_ok_def)
  qed
  ultimately have "drop_txs {tx_GetHash hs tx} 0 p = p"
    by (simp add: drop_txs_def case_prod_unfold filter_id_conv)
  then show ?thesis using that [of 0 l] None by (simp add: remove_self_def Let_def)
next
  case (Some e)
  then show ?thesis using that [of 1 "tx # l"] remove_self_pool [OF p Some, of l] tx [OF Some] by (simp add: tx_eq_def)
qed

lemma tx_eq_hash: "tx_eq a b \<Longrightarrow> \<not> tx_vector_format a \<Longrightarrow> \<not> tx_vector_format b \<Longrightarrow> tx_GetHash hs a = tx_GetHash hs b"
  by (simp add: tx_eq_def tx_GetHash_def ser_tx_def)

lemma tx_eq_avail: "tx_eq a b \<Longrightarrow> IsAvailable (coins_of_tx a h) n \<longleftrightarrow> IsAvailable (coins_of_tx b h') n"
  by (simp add: IsAvailable_def coins_of_tx_def ClearUnspendable_vout tx_eq_def)

lemma child_desc:
  assumes "pool_ok hs p" "map_of (mp_mapTx p) a = Some ea" "map_of (mp_mapTx p) k = Some e" "txin \<in> set (tx_vin (me_tx e))"
    "o_hash (i_prevout txin) = a" "unat (o_n (i_prevout txin)) < length (tx_vout (me_tx ea))"
  shows "k \<in> desc p a"
proof -
  let ?i = "unat (o_n (i_prevout txin))"
  have "i_prevout txin = \<lparr> o_hash = a, o_n = of_nat ?i \<rparr>" using assms(5) by (auto intro: COutPoint.equality)
  then obtain n where "map_of (mp_mapNextTx p) \<lparr> o_hash = a, o_n = of_nat ?i \<rparr> = Some \<lparr> ip_ptx = k, ip_n = n \<rparr>"
    using pool_spender [OF assms(1,3,4)] by auto
  moreover have "?i \<in> outputs p a" using assms(2,6) by (simp add: outputs_def)
  ultimately have "k \<in> children p a (outputs p a)" unfolding children_def
    by (intro CollectI exI [of _ "\<lparr> ip_ptx = k, ip_n = n \<rparr>"] exI [of _ ?i]) simp
  then show ?thesis unfolding desc_def spent_by_def by (auto simp: spent_by_def)
qed

text \<open>One transaction of a block, on the pool and on the ledger.\<close>

lemma pool_tx_good:
  assumes good: "pool_good hs m p" and tx: "\<not> tx_vector_format tx" "m (tx_GetHash hs tx) = coins_empty"
    and same: "\<And>e. map_of (mp_mapTx p) (tx_GetHash hs tx) = Some e \<Longrightarrow> tx_eq (me_tx e) tx"
    and app: "apply_tx nHeight m (tx, tx_GetHash hs tx) = Some (u, m1)" and q: "q = drop_txs {tx_GetHash hs tx} n p"
    and p1: "p1 = drop_txs (\<Union>c\<in>conflicts q tx (set (tx_vin tx)). desc q c) n' q"
  shows "pool_good hs m1 p1"
proof -
  let ?h = "tx_GetHash hs tx" let ?R = "\<Union>c\<in>conflicts q tx (set (tx_vin tx)). desc q c"
  have p: "pool_ok hs p" using pool_goodD(1) [OF good] .
  have okq: "pool_ok hs q" unfolding q by (rule drop_txs_ok [OF p])
  have ok1: "pool_ok hs p1" unfolding p1 by (rule drop_txs_ok [OF okq])
  have tq: "map_of (mp_mapTx q) k = (if k = ?h then None else map_of (mp_mapTx p) k)" for k
    unfolding q by (simp add: drop_txs_get [OF p])
  have t1: "map_of (mp_mapTx p1) k = (if k \<in> ?R then None else map_of (mp_mapTx q) k)" for k
    unfolding p1 by (simp add: drop_txs_get [OF okq])
  obtain ms where ms: "if IsCoinBase tx then ms = m else \<exists>u. spend_map m (tx_vin tx) = Some (u, ms)"
      "m1 = ms(?h := prune (coins_of_tx tx nHeight))"
    using app by (auto simp: apply_tx_def split: option.splits prod.splits if_splits)
  have empty: "m k = coins_empty \<Longrightarrow> ms k = coins_empty" for k
    using ms(1) spend_map_empty by (auto split: if_splits)
  have entry: "\<not> tx_vector_format (me_tx e) \<and> m1 k = coins_empty \<and> (\<forall>txin\<in>set (tx_vin (me_tx e)). input_ok p1 m1 txin)"
    if e1: "map_of (mp_mapTx p1) k = Some e" for k e
  proof (intro conjI ballI)
    have k: "k \<notin> ?R" "k \<noteq> ?h" "map_of (mp_mapTx q) k = Some e" "map_of (mp_mapTx p) k = Some e"
      using e1 by (auto simp: t1 tq split: if_splits)
    show v: "\<not> tx_vector_format (me_tx e)" by (rule pool_goodD(5) [OF good k(4)])
    show "m1 k = coins_empty" using k(2) empty pool_goodD(2) [OF good k(4)] by (simp add: ms(2))
    fix txin assume t: "txin \<in> set (tx_vin (me_tx e))"
    let ?H = "o_hash (i_prevout txin)" and ?n = "o_n (i_prevout txin)"
    have i: "input_ok p m txin" by (rule pool_goodD(3) [OF good k(4) t])
    show "input_ok p1 m1 txin"
    proof (cases "map_of (mp_mapTx p) ?H")
      case (Some eH)
      then have a: "IsAvailable (coins_of_tx (me_tx eH) MEMPOOL_HEIGHT) ?n" using i by (simp add: input_ok_def)
      show ?thesis
      proof (cases "?H = ?h")
        case True
        then have "IsAvailable (m1 ?H) ?n"
          using a tx_eq_avail [OF same, of eH MEMPOOL_HEIGHT ?n nHeight] Some prune_avail by (simp add: ms(2))
        moreover have "map_of (mp_mapTx p1) ?H = None" using True by (simp add: t1 tq)
        ultimately show ?thesis by (simp add: input_ok_def)
      next
        case False
        then have H: "map_of (mp_mapTx q) ?H = Some eH" using Some by (simp add: tq)
        have "?H \<notin> ?R"
        proof
          assume "?H \<in> ?R"
          then obtain c where c: "c \<in> conflicts q tx (set (tx_vin tx))" "?H \<in> desc q c" by blast
          have "k \<in> desc q ?H" using child_desc [OF okq H k(3) t refl] coins_of_tx_avail [OF a] by blast
          then show False using c desc_trans k(1) by blast
        qed
        then show ?thesis using H a by (simp add: input_ok_def t1)
      qed
    next
      case None
      then have a: "IsAvailable (m ?H) ?n" using i by (simp add: input_ok_def)
      then have H: "?H \<noteq> ?h" using tx(2) by (auto simp: IsAvailable_def coins_empty_def)
      have "\<forall>s\<in>set (tx_vin tx). i_prevout s \<noteq> i_prevout txin"
      proof
        fix s assume s: "s \<in> set (tx_vin tx)"
        show "i_prevout s \<noteq> i_prevout txin"
        proof
          assume eq: "i_prevout s = i_prevout txin"
          obtain j where j: "map_of (mp_mapNextTx q) (i_prevout txin) = Some \<lparr> ip_ptx = k, ip_n = j \<rparr>"
            using pool_spender [OF okq k(3) t] by blast
          have "\<not> tx_eq (me_tx e) tx"
          proof
            assume "tx_eq (me_tx e) tx"
            then have "tx_GetHash hs (me_tx e) = ?h" using v tx(1) by (rule tx_eq_hash)
            then show False using pool_okD(3) [OF p k(4)] k(2) by (simp add: entry_ok_def)
          qed
          then have "k \<in> conflicts q tx (set (tx_vin tx))" using s eq j k(3) unfolding conflicts_def
            by (intro CollectI exI [of _ "\<lparr> ip_ptx = k, ip_n = j \<rparr>"] exI [of _ s] exI [of _ e]) simp
          then show False using k(1) desc_refl by blast
        qed
      qed
      moreover have "\<lparr> o_hash = ?H, o_n = ?n \<rparr> = i_prevout txin" by (rule COutPoint.equality) simp_all
      ultimately have "\<forall>s\<in>set (tx_vin tx). i_prevout s \<noteq> \<lparr> o_hash = ?H, o_n = ?n \<rparr>" by metis
      then have "IsAvailable (ms ?H) ?n" using ms(1) a spend_map_keeps [of m "tx_vin tx" _ ms ?H ?n] by (auto split: if_splits)
      then show ?thesis using H None by (auto simp: input_ok_def ms(2) t1 tq)
    qed
  qed
  obtain r N where r: "ranked r N p" using pool_goodD(4) [OF good] by blast
  have "ranked r N p1" unfolding p1 by (rule ranked_drop [OF okq]) (unfold q, rule ranked_drop [OF p r])
  then show ?thesis using ok1 entry by (auto simp: pool_good_def)
qed

text \<open>The block as a whole: no read through a dangling pointer, a good pool for the coins after the block,
  and nothing left in it that the block confirmed.\<close>

lemma pool_block_good:
  assumes "pool_good hs m p" "ranked r N p" "N \<le> fuel" "distinct (map (tx_GetHash hs) vtx)"
    "\<forall>tx\<in>set vtx. \<not> tx_vector_format tx \<and> m (tx_GetHash hs tx) = coins_empty"
    "\<forall>tx\<in>set vtx. \<forall>e. map_of (mp_mapTx p) (tx_GetHash hs tx) = Some e \<longrightarrow> tx_eq (me_tx e) tx"
    "apply_txs nHeight m (map (\<lambda>tx. (tx, tx_GetHash hs tx)) vtx) = Some (us, m')"
  shows "\<exists>p' l'. pool_block hs fuel vtx (p, l) = Some (p', l') \<and> pool_good hs m' p'
    \<and> (\<forall>k e. map_of (mp_mapTx p') k = Some e \<longrightarrow> map_of (mp_mapTx p) k = Some e \<and> k \<notin> tx_GetHash hs ` set vtx)"
  using assms
proof (induction vtx arbitrary: m p l us)
  case Nil
  then show ?case by simp
next
  case (Cons tx vtx)
  let ?h = "tx_GetHash hs tx"
  note p = pool_goodD(1) [OF Cons.prems(1)]
  obtain u m1 us1 where a: "apply_tx nHeight m (tx, ?h) = Some (u, m1)"
      "apply_txs nHeight m1 (map (\<lambda>tx. (tx, tx_GetHash hs tx)) vtx) = Some (us1, m')"
    using Cons.prems(7) by (auto split: option.splits prod.splits)
  have same: "\<And>e. map_of (mp_mapTx p) ?h = Some e \<Longrightarrow> tx_eq (me_tx e) tx" using Cons.prems(6) by simp
  obtain n l0 where rm: "pool_remove hs fuel tx False (p, []) = Some (drop_txs {?h} n p, l0)"
    using remove_flat [OF p same, of fuel "[]"] by blast
  define q where "q = drop_txs {?h} n p"
  let ?R = "\<Union>c\<in>conflicts q tx (set (tx_vin tx)). desc q c"
  have q: "pool_ok hs q" "ranked r N q" unfolding q_def by (rule drop_txs_ok [OF p], rule ranked_drop [OF p Cons.prems(2)])
  obtain n' l1 where rc: "removeConflicts hs fuel tx (tx_vin tx) (q, l) = Some (drop_txs ?R n' q, l1)"
    using removeConflicts_spec [OF q Cons.prems(3), of l tx "tx_vin tx"] by (auto simp: removes_def)
  define p1 where "p1 = drop_txs ?R n' q"
  have tx: "\<not> tx_vector_format tx" "m ?h = coins_empty" using Cons.prems(5) by simp_all
  have good: "pool_good hs m1 p1" by (rule pool_tx_good [OF Cons.prems(1) tx same a(1) q_def p1_def])
  have r1: "ranked r N p1" unfolding p1_def by (rule ranked_drop [OF q])
  have sub: "map_of (mp_mapTx p1) k = Some e \<Longrightarrow> map_of (mp_mapTx p) k = Some e \<and> k \<noteq> ?h" for k e
    unfolding p1_def using drop_txs_get [OF q(1)] unfolding q_def using drop_txs_get [OF p] by (auto split: if_splits)
  have empty: "m1 (tx_GetHash hs t) = coins_empty" if t: "t \<in> set vtx" for t
  proof -
    have "m (tx_GetHash hs t) = coins_empty" "tx_GetHash hs t \<noteq> ?h" using Cons.prems(4,5) imageI [OF t, of "tx_GetHash hs"] by auto
    then show ?thesis using a(1) spend_map_empty
      by (auto simp: apply_tx_def split: option.splits prod.splits if_splits)
  qed
  have "\<exists>p' l'. pool_block hs fuel vtx (p1, l1) = Some (p', l') \<and> pool_good hs m' p'
    \<and> (\<forall>k e. map_of (mp_mapTx p') k = Some e \<longrightarrow> map_of (mp_mapTx p1) k = Some e \<and> k \<notin> tx_GetHash hs ` set vtx)"
    using Cons.prems(4-6) empty sub by (intro Cons.IH [OF good r1 Cons.prems(3) _ _ _ a(2)]) auto
  then show ?case using rm rc sub by (auto simp del: pool_remove.simps simp flip: q_def p1_def)
qed

end
