(* ===== verification/Atomic.thy ===== *)
theory Atomic imports Main Prelude Connect begin

text \<open>
  Atomicity (\<open>src/src/main.cpp\<close>, \<open>src/src/coins.cpp\<close>): blocks are connected and disconnected on a cache in
  front of the cache of the tip, and until that cache is flushed nothing of it reaches the tip,
  whatever the outcome. The tip may fetch records into its own cache, which does not change what
  it shows.
\<close>

named_theorems kept \<open>operations of a cache keep what the view behind it shows\<close>

context coins_view
begin

definition kept :: "'b coins_cache \<Rightarrow> 'b coins_cache \<Rightarrow> bool" where
  "kept s s' \<longleftrightarrow> (inv (ch_base s) \<longrightarrow>
     inv (ch_base s') \<and> coins (ch_base s') = coins (ch_base s) \<and> best (ch_base s') = best (ch_base s))"

lemma base_put [simp]: "ch_base (cache_put s k c) = ch_base s" by (simp add: cache_put_def)

section \<open>The cache\<close>

lemma kept_Fetch [kept]: "FetchCoins V s k = (r, s') \<Longrightarrow> kept s s'"
  using get_coins [of "ch_base s" k]
  by (cases "vw_GetCoins V (ch_base s) k") (auto simp: kept_def FetchCoins_def split: option.splits)

lemma kept_GetCoins [kept]: "cache_GetCoins V s k = (r, s') \<Longrightarrow> kept s s'"
  by (simp add: cache_GetCoins_Fetch kept_Fetch)

lemma kept_best [kept]: "cache_GetBestBlock V s = (h, s') \<Longrightarrow> kept s s'"
  using get_best [of "ch_base s"]
  by (cases "vw_GetBestBlock V (ch_base s)") (auto simp: kept_def cache_GetBestBlock_def split: if_splits)

lemma kept_HaveCoins [kept]: "cache_HaveCoins V s k = (r, s') \<Longrightarrow> kept s s'"
  by (auto simp: kept_def cache_HaveCoins_def split: option.splits prod.splits bool.splits sum.splits if_splits dest!: kept)

lemma kept_ref [kept]: "GetCoins_ref V s k = Some (c, s') \<Longrightarrow> kept s s'"
  by (auto simp: kept_def GetCoins_ref_def split: option.splits prod.splits bool.splits sum.splits if_splits dest!: kept)

lemma kept_output [kept]: "GetOutputFor V s t = Some (out, s') \<Longrightarrow> kept s s'"
  by (auto simp: kept_def GetOutputFor_def split: option.splits prod.splits bool.splits sum.splits if_splits dest!: kept)

lemma kept_value_loop [kept]: "value_in_loop V n s vin = Some (r, s') \<Longrightarrow> kept s s'"
proof (induction vin arbitrary: n s)
  case (Cons x vin)
  from Cons.prems show ?case
    by (cases x) (auto simp: kept_def  split: option.splits prod.splits bool.splits sum.splits if_splits dest!: kept Cons.IH)
qed (simp add: kept_def)

lemma kept_value [kept]: "GetValueIn V s tx = Some (r, s') \<Longrightarrow> kept s s'"
  by (auto simp: kept_def GetValueIn_def split: option.splits prod.splits bool.splits sum.splits if_splits dest!: kept)

lemma kept_hashes [kept]: "have_hashes V s vin = (r, s') \<Longrightarrow> kept s s'"
proof (induction vin arbitrary: s)
  case (Cons x vin)
  from Cons.prems show ?case
    by (cases x) (auto simp: kept_def  split: option.splits prod.splits bool.splits sum.splits if_splits dest!: kept Cons.IH)
qed (simp add: kept_def)

lemma kept_outputs [kept]: "have_outputs V s vin = Some (r, s') \<Longrightarrow> kept s s'"
proof (induction vin arbitrary: s)
  case (Cons x vin)
  from Cons.prems show ?case
    by (cases x) (auto simp: kept_def  split: option.splits prod.splits bool.splits sum.splits if_splits dest!: kept Cons.IH)
qed (simp add: kept_def)

lemma kept_HaveInputs [kept]: "HaveInputs V s tx = Some (r, s') \<Longrightarrow> kept s s'"
  by (auto simp: kept_def HaveInputs_def split: option.splits prod.splits bool.splits sum.splits if_splits dest!: kept)

section \<open>Connecting\<close>

lemma kept_p2sh [kept]: "p2sh_loop V n s vin = Some (r, s') \<Longrightarrow> kept s s'"
proof (induction vin arbitrary: n s)
  case (Cons x vin)
  from Cons.prems show ?case
    by (cases x) (auto simp: kept_def  split: option.splits prod.splits bool.splits sum.splits if_splits dest!: kept Cons.IH)
qed (simp add: kept_def)

lemma kept_sigops [kept]: "GetP2SHSigOpCount V s tx = Some (r, s') \<Longrightarrow> kept s s'"
  by (auto simp: kept_def GetP2SHSigOpCount_def split: option.splits prod.splits bool.splits sum.splits if_splits dest!: kept)

lemma kept_spend [kept]: "spend_inputs V s vin = Some (r, s') \<Longrightarrow> kept s s'"
proof (induction vin arbitrary: s r)
  case (Cons x vin)
  from Cons.prems show ?case
    by (cases x) (auto simp: kept_def  split: option.splits prod.splits bool.splits sum.splits if_splits dest!: kept Cons.IH)
qed (simp add: kept_def)

lemma kept_Update [kept]: "UpdateCoins V s tx u h k = Some (r, s') \<Longrightarrow> kept s s'"
  by (auto simp: kept_def UpdateCoins_def cache_SetCoins_def split: option.splits prod.splits bool.splits sum.splits if_splits dest!: kept)

lemma kept_scripts [kept]: "script_checks c par V tx flags i s vin = (r, s') \<Longrightarrow> kept s s'"
proof (induction vin arbitrary: i s r par)
  case (Cons x vin)
  from Cons.prems show ?case
    by (cases x) (auto simp: kept_def  split: option.splits prod.splits bool.splits sum.splits if_splits dest!: kept Cons.IH)
qed (simp add: kept_def)

lemma kept_input_values [kept]: "input_values V h n s vin = (r, s') \<Longrightarrow> kept s s'"
proof (induction vin arbitrary: n s)
  case (Cons x vin)
  from Cons.prems show ?case
    by (cases x) (auto simp: kept_def Let_def split: option.splits prod.splits bool.splits sum.splits if_splits dest!: kept Cons.IH)
qed (simp add: kept_def)

lemma kept_CheckInputs [kept]: "CheckInputs c m V tx s f flags par = (r, s') \<Longrightarrow> kept s s'"
  by (auto simp: kept_def CheckInputs_def split: option.splits prod.splits bool.splits sum.splits if_splits dest!: kept)

lemma kept_connect_tx [kept]: "connect_tx e V f flags h st s tx k = (r, s') \<Longrightarrow> kept s s'"
  by (auto simp: kept_def connect_tx_def Let_def split: option.splits prod.splits bool.splits sum.splits if_splits dest!: kept)

lemma kept_connect_txs [kept]: "connect_txs e V f flags h st s ts = (r, s') \<Longrightarrow> kept s s'"
proof (induction ts arbitrary: st s)
  case (Cons x ts)
  from Cons.prems show ?case
    by (cases x) (auto simp: kept_def  split: option.splits prod.splits bool.splits sum.splits if_splits dest!: kept Cons.IH)
qed (simp add: kept_def)

lemma kept_overwrites [kept]: "overwrites V s ids = Some (r, s') \<Longrightarrow> kept s s'"
proof (induction ids arbitrary: s)
  case (Cons x ids)
  from Cons.prems show ?case
    by (cases x) (auto simp: kept_def  split: option.splits prod.splits bool.splits sum.splits if_splits dest!: kept Cons.IH)
qed (simp add: kept_def)

lemma kept_finish [kept]: "connect_finish e d h p out vtx st s = (r, s') \<Longrightarrow> kept s s'"
  by (auto simp: kept_def connect_finish_def cache_SetBestBlock_def Let_def split: option.splits prod.splits bool.splits sum.splits if_splits dest!: kept)

lemma kept_checked [kept]: "connect_checked e d V block p just h s = (r, s') \<Longrightarrow> kept s s'"
  by (auto simp: kept_def connect_checked_def Let_def split: option.splits prod.splits bool.splits sum.splits if_splits dest!: kept)

lemma kept_ConnectBlock [kept]: "ConnectBlock e d n adj V block p just ff s = (r, s') \<Longrightarrow> kept s s'"
  by (auto simp: kept_def ConnectBlock_def cache_SetBestBlock_def Let_def split: option.splits prod.splits bool.splits sum.splits if_splits dest!: kept)

section \<open>Disconnecting\<close>

lemma kept_restore [kept]: "restore_inputs V f s l = Some (r, s') \<Longrightarrow> kept s s'"
proof (induction l arbitrary: f s)
  case (Cons x l)
  from Cons.prems show ?case
    by (cases x) (auto simp: kept_def cache_SetCoins_def split: option.splits prod.splits bool.splits sum.splits if_splits dest!: kept Cons.IH)
qed (simp add: kept_def)

lemma kept_remove [kept]: "remove_outputs V h s tx k = Some (r, s') \<Longrightarrow> kept s s'"
  by (auto simp: kept_def remove_outputs_def Let_def split: option.splits prod.splits bool.splits sum.splits if_splits dest!: kept)

lemma kept_disconnect [kept]: "disconnect_txs V h f s l = (r, s') \<Longrightarrow> kept s s'"
proof (induction l arbitrary: f s)
  case (Cons x l)
  from Cons.prems show ?case
    by (cases x) (auto simp: kept_def Let_def split: option.splits prod.splits bool.splits sum.splits if_splits dest!: kept Cons.IH)
qed (simp add: kept_def)

lemma kept_DisconnectBlock [kept]: "DisconnectBlock V hs R block p s = (r, s') \<Longrightarrow> kept s s'"
  by (auto simp: kept_def DisconnectBlock_def cache_SetBestBlock_def Let_def split: option.splits prod.splits bool.splits sum.splits if_splits dest!: kept)

end

end
