(* ===== verification/Reorg.thy ===== *)
theory Reorg imports Main Prelude PoolChain begin

text \<open>
  The memory pool while the tip is taken back (\<open>src/src/main.cpp\<close>, \<open>DisconnectTip\<close>): the
  transactions of the block are offered to the pool one by one, and until one is, transactions of the
  pool may spend its outputs although it is neither in the coins of the tip nor in the pool.
\<close>

section \<open>The depth of the pool\<close>

text \<open>A rank can be chosen below the number of transactions, so the size of the pool is fuel enough.\<close>

lemma ranked_size:
  assumes p: "pool_ok hs p" and r: "ranked r N p"
  shows "\<exists>r. ranked r (pool_size p) p"
proof -
  let ?D = "set (map fst (mp_mapTx p))"
  let ?r = "\<lambda>h. if h \<in> ?D then card {k \<in> ?D. r k \<le> r h} else 0"
  have D: "map_of (mp_mapTx p) h = Some e \<Longrightarrow> h \<in> ?D" for h e by (force dest: map_of_SomeD)
  have "finite ?D" by simp
  have le: "card {k \<in> ?D. r k \<le> n} \<le> pool_size p" for n
  proof -
    have "card {k \<in> ?D. r k \<le> n} \<le> card ?D" by (rule card_mono) auto
    also have "\<dots> \<le> length (map fst (mp_mapTx p))" by (rule card_length)
    finally show ?thesis by (simp add: pool_size_def)
  qed
  have "ranked ?r (pool_size p) p"
    unfolding ranked_def
  proof (intro allI impI conjI ballI)
    fix h e assume h: "map_of (mp_mapTx p) h = Some e"
    show "?r h \<le> pool_size p" using le by simp
    fix txin assume t: "txin \<in> set (tx_vin (me_tx e))"
    have lt: "r (o_hash (i_prevout txin)) < r h" using r h t by (auto simp: ranked_def)
    let ?A = "{k \<in> ?D. r k \<le> r (o_hash (i_prevout txin))}" and ?B = "{k \<in> ?D. r k \<le> r h}"
    have "h \<in> ?B" "h \<notin> ?A" using D [OF h] lt by simp_all
    moreover have "?A \<subseteq> ?B" using lt by auto
    ultimately have "?A \<subset> ?B" by blast
    then have "card ?A < card ?B" by (intro psubset_card_mono) simp_all
    then show "?r (o_hash (i_prevout txin)) < ?r h" using D [OF h] by simp
  qed
  then show ?thesis by blast
qed

lemma outpoint_eta: "\<lparr> o_hash = o_hash x, o_n = o_n x \<rparr> = x"
  by (rule COutPoint.equality) simp_all

section \<open>A pool while a block is taken back\<close>

text \<open>\<open>T\<close> are the transactions of the block that are still to be offered: inputs may spend their outputs, and
  the order of spending covers them.\<close>

definition pending_ok :: "tx_hashes \<Rightarrow> CTransaction list \<Rightarrow> CTxMemPool \<Rightarrow> ledger \<Rightarrow> CTxIn \<Rightarrow> bool" where
  "pending_ok hs T p m txin \<longleftrightarrow> input_ok p m txin \<or>
     (\<exists>tx\<in>set T. tx_GetHash hs tx = o_hash (i_prevout txin) \<and> IsAvailable (coins_of_tx tx MEMPOOL_HEIGHT) (o_n (i_prevout txin)))"

definition rank_tx :: "(u256 \<Rightarrow> nat) \<Rightarrow> u256 \<Rightarrow> CTransaction \<Rightarrow> bool" where
  "rank_tx r h tx \<longleftrightarrow> (\<forall>txin\<in>set (tx_vin tx). r (o_hash (i_prevout txin)) < r h)"

definition pending_rank :: "tx_hashes \<Rightarrow> CTransaction list \<Rightarrow> (u256 \<Rightarrow> nat) \<Rightarrow> nat \<Rightarrow> CTxMemPool \<Rightarrow> bool" where
  "pending_rank hs T r N p \<longleftrightarrow> ranked r N p \<and> (\<forall>tx\<in>set T. r (tx_GetHash hs tx) \<le> N \<and> rank_tx r (tx_GetHash hs tx) tx)"

definition pool_pending :: "tx_hashes \<Rightarrow> ledger \<Rightarrow> CTransaction list \<Rightarrow> CTxMemPool \<Rightarrow> bool" where
  "pool_pending hs m T p \<longleftrightarrow> pool_ok hs p
     \<and> (\<forall>h e. map_of (mp_mapTx p) h = Some e \<longrightarrow> \<not> tx_vector_format (me_tx e) \<and> m h = coins_empty
         \<and> h \<notin> tx_GetHash hs ` set T \<and> (\<forall>txin\<in>set (tx_vin (me_tx e)). pending_ok hs T p m txin))
     \<and> (\<forall>tx\<in>set T. m (tx_GetHash hs tx) = coins_empty) \<and> distinct (map (tx_GetHash hs) T)
     \<and> (\<exists>r N. pending_rank hs T r N p)"

lemma pool_pendingD:
  assumes "pool_pending hs m T p"
  shows "pool_ok hs p" "map_of (mp_mapTx p) h = Some e \<Longrightarrow> \<not> tx_vector_format (me_tx e)"
    "map_of (mp_mapTx p) h = Some e \<Longrightarrow> m h = coins_empty"
    "map_of (mp_mapTx p) h = Some e \<Longrightarrow> h \<notin> tx_GetHash hs ` set T"
    "map_of (mp_mapTx p) h = Some e \<Longrightarrow> txin \<in> set (tx_vin (me_tx e)) \<Longrightarrow> pending_ok hs T p m txin"
    "tx \<in> set T \<Longrightarrow> m (tx_GetHash hs tx) = coins_empty" "distinct (map (tx_GetHash hs) T)" "\<exists>r N. pending_rank hs T r N p"
  using assms by (auto simp: pool_pending_def)

lemma pool_pending_done: "pool_pending hs m [] p \<longleftrightarrow> pool_good hs m p"
  by (simp add: pool_pending_def pool_good_def pending_ok_def pending_rank_def)

text \<open>The transaction is refused: what spends it goes.\<close>

lemma pending_refused:
  assumes pend: "pool_pending hs m (tx # T) p"
  shows "\<exists>p' l'. pool_remove hs (pool_size p) tx True (p, l) = Some (p', l') \<and> pool_pending hs m T p'"
proof -
  let ?h = "tx_GetHash hs tx"
  note d = pool_pendingD [OF pend]
  have new: "map_of (mp_mapTx p) ?h = None" using d(4) by (cases "map_of (mp_mapTx p) ?h") auto
  obtain r N where r: "pending_rank hs (tx # T) r N p" using d(8) by blast
  obtain r' where r': "ranked r' (pool_size p) p" using ranked_size [OF d(1)] r unfolding pending_rank_def by blast
  let ?R = "remove_set p ?h (length (tx_vout tx))"
  obtain n l' where rm: "pool_remove hs (pool_size p) tx True (p, l) = Some (drop_txs ?R n p, l')"
    using pool_remove_any [OF d(1) r' order_refl, of tx l] new by (auto simp: removes_def)
  define q where "q = drop_txs ?R n p"
  have get: "map_of (mp_mapTx q) k = (if k \<in> ?R then None else map_of (mp_mapTx p) k)" for k
    unfolding q_def by (rule drop_txs_get [OF d(1)])
  have R: "?R = (\<Union>c\<in>children p ?h {..<length (tx_vout tx)}. desc p c)" using new by (simp add: remove_set_def)
  have keep: "pending_ok hs T q m txin"
    if k: "map_of (mp_mapTx q) k = Some e" and t: "txin \<in> set (tx_vin (me_tx e))" for k e txin
  proof -
    have kp: "map_of (mp_mapTx p) k = Some e" "k \<notin> ?R" using k get by (auto split: if_splits)
    let ?H = "o_hash (i_prevout txin)" and ?n = "o_n (i_prevout txin)"
    have "pending_ok hs (tx # T) p m txin" by (rule d(5) [OF kp(1) t])
    then consider (old) "input_ok p m txin" | (mine) "?h = ?H" "IsAvailable (coins_of_tx tx MEMPOOL_HEIGHT) ?n"
      | (later) "\<exists>t\<in>set T. tx_GetHash hs t = ?H \<and> IsAvailable (coins_of_tx t MEMPOOL_HEIGHT) ?n"
      by (auto simp: pending_ok_def)
    then show ?thesis
    proof cases
      case old
      show ?thesis
      proof (cases "map_of (mp_mapTx p) ?H")
        case (Some eH)
        then have a: "IsAvailable (coins_of_tx (me_tx eH) MEMPOOL_HEIGHT) ?n" using old by (simp add: input_ok_def)
        have "k \<in> desc p ?H" using child_desc [OF d(1) Some kp(1) t refl] coins_of_tx_avail [OF a] by blast
        then have "?H \<notin> ?R" using kp(2) desc_trans unfolding R by blast
        then show ?thesis using Some a by (simp add: pending_ok_def input_ok_def get)
      qed (use old in \<open>simp add: pending_ok_def input_ok_def get\<close>)
    next
      case mine
      obtain j where j: "map_of (mp_mapNextTx p) (i_prevout txin) = Some \<lparr> ip_ptx = k, ip_n = j \<rparr>"
        using pool_spender [OF d(1) kp(1) t] by blast
      have "unat ?n < length (tx_vout tx)" using coins_of_tx_avail [OF mine(2)] by simp
      then have "k \<in> children p ?h {..<length (tx_vout tx)}"
        using j mine(1) unfolding children_def by (intro CollectI exI [of _ "\<lparr> ip_ptx = k, ip_n = j \<rparr>"] exI [of _ "unat ?n"]) (simp add: outpoint_eta)
      then show ?thesis using kp(2) desc_refl unfolding R by blast
    qed (simp add: pending_ok_def)
  qed
  have "pool_ok hs q" "ranked r N q" unfolding q_def
    using drop_txs_ok [OF d(1)] ranked_drop [OF d(1)] r by (simp_all add: pending_rank_def)
  then have "pool_pending hs m T q" unfolding pool_pending_def
    using d(2,3,4,6,7) keep r by (auto simp: get pending_rank_def split: if_splits)
  then show ?thesis using rm unfolding q_def by blast
qed

text \<open>The transaction is accepted: it stands in the pool for what it stood for in the block.\<close>

lemma pending_accepted:
  assumes pend: "pool_pending hs m (tx # T) p" and vin: "length (tx_vin tx) < 2 ^ 32" "\<not> tx_vector_format tx"
    and acc: "me_tx en = tx" "distinct (map i_prevout (tx_vin tx))"
      "\<forall>txin\<in>set (tx_vin tx). map_of (mp_mapNextTx p) (i_prevout txin) = None" "\<forall>txin\<in>set (tx_vin tx). input_ok p m txin"
  shows "pool_pending hs m T (addUnchecked (tx_GetHash hs tx) en p)"
proof -
  let ?h = "tx_GetHash hs tx" let ?q = "addUnchecked (tx_GetHash hs tx) en p"
  note d = pool_pendingD [OF pend]
  have new: "map_of (mp_mapTx p) ?h = None" using d(4) by (cases "map_of (mp_mapTx p) ?h") auto
  have mh: "m ?h = coins_empty" using d(6) by simp
  have get: "map_of (mp_mapTx ?q) = (map_of (mp_mapTx p))(?h \<mapsto> en)" by (simp add: addUnchecked_def smap_simps)
  have keep: "input_ok ?q m txin" if "input_ok p m txin" for txin
  proof -
    have "o_hash (i_prevout txin) \<noteq> ?h" using that new mh by (auto simp: input_ok_def IsAvailable_def coins_empty_def)
    then show ?thesis using that by (simp add: input_ok_def get)
  qed
  have entry: "\<not> tx_vector_format (me_tx e) \<and> m k = coins_empty \<and> k \<notin> tx_GetHash hs ` set T
      \<and> (\<forall>txin\<in>set (tx_vin (me_tx e)). pending_ok hs T ?q m txin)" if k: "map_of (mp_mapTx ?q) k = Some e" for k e
  proof (cases "k = ?h")
    case True
    then show ?thesis using k vin(2) acc(1,4) mh keep d(7) by (auto simp: get pending_ok_def)
  next
    case False
    then have e: "map_of (mp_mapTx p) k = Some e" using k by (simp add: get)
    have "pending_ok hs T ?q m txin" if t: "txin \<in> set (tx_vin (me_tx e))" for txin
    proof -
      consider (old) "input_ok p m txin" | (mine) "o_hash (i_prevout txin) = ?h" "IsAvailable (coins_of_tx tx MEMPOOL_HEIGHT) (o_n (i_prevout txin))"
        | (later) "\<exists>t\<in>set T. tx_GetHash hs t = o_hash (i_prevout txin) \<and> IsAvailable (coins_of_tx t MEMPOOL_HEIGHT) (o_n (i_prevout txin))"
        using d(5) [OF e t] by (auto simp: pending_ok_def)
      then show ?thesis
      proof cases
        case old
        then show ?thesis using keep by (simp add: pending_ok_def)
      next
        case mine
        then show ?thesis by (simp add: pending_ok_def input_ok_def get acc(1))
      qed (simp add: pending_ok_def)
    qed
    then show ?thesis using d(2-4) [OF e] by simp
  qed
  obtain r N where r: "ranked r N p" "r ?h \<le> N" "rank_tx r ?h tx" "\<forall>tx\<in>set T. r (tx_GetHash hs tx) \<le> N \<and> rank_tx r (tx_GetHash hs tx) tx"
    using d(8) by (auto simp: pending_rank_def)
  have "ranked r N ?q" using r(1-3) acc(1) by (auto simp: ranked_def get rank_tx_def)
  then have "pending_rank hs T r N ?q" using r(4) by (simp add: pending_rank_def)
  moreover have "pool_ok hs ?q"
    by (rule addUnchecked_ok [OF d(1) new]) (use vin(1) acc in simp_all)
  ultimately show ?thesis unfolding pool_pending_def using entry d(6,7) by auto
qed

section \<open>Where available outputs come from\<close>

lemma Spend_from: "coins_Spend c out = Some (undo, c') \<Longrightarrow> IsAvailable c' n \<Longrightarrow> IsAvailable c n"
proof -
  assume s: "coins_Spend c out = Some (undo, c')" and a: "IsAvailable c' n"
  let ?w = "(co_vout c)[unat (o_n out) := txout_SetNull]"
  have c': "co_vout c' = strip_spent ?w" using s by (auto simp: coins_Spend_def coins_Cleanup_def Let_def split: if_split_asm)
  obtain zs where z: "?w = strip_spent ?w @ zs" using strip_spent_prefix [of ?w] by blast
  have n: "unat n < length (strip_spent ?w)" "\<not> txout_IsNull (strip_spent ?w ! unat n)" using a by (simp_all add: IsAvailable_def c')
  then have w: "?w ! unat n = strip_spent ?w ! unat n" "unat n < length ?w" using z
    by (metis nth_append, metis length_append trans_less_add1)
  then have "unat n \<noteq> unat (o_n out)" using n(2) by (auto simp: txout_IsNull_def txout_SetNull_def)
  then show ?thesis using n(2) w by (simp add: IsAvailable_def)
qed

lemma spend_map_from: "spend_map m vin = Some (u, m') \<Longrightarrow> IsAvailable (m' h) n \<Longrightarrow> IsAvailable (m h) n"
proof (induction vin arbitrary: m u)
  case (Cons t vin)
  let ?k = "o_hash (i_prevout t)"
  obtain undo c u1 where c: "coins_Spend (m ?k) (i_prevout t) = Some (undo, c)" "spend_map (m(?k := prune c)) vin = Some (u1, m')"
    using Cons.prems(1) by (auto split: option.splits prod.splits)
  have "IsAvailable ((m(?k := prune c)) h) n" by (rule Cons.IH [OF c(2) Cons.prems(2)])
  then show ?case using Spend_from [OF c(1)] db.IsAvailable_prune [of c] by (auto split: if_splits)
qed simp

lemma spend_map_present: "spend_map m vin = Some (u, m') \<Longrightarrow> t \<in> set vin \<Longrightarrow> m (o_hash (i_prevout t)) \<noteq> coins_empty"
proof (induction vin arbitrary: m u)
  case (Cons s vin)
  let ?k = "o_hash (i_prevout s)"
  obtain undo c u1 where c: "coins_Spend (m ?k) (i_prevout s) = Some (undo, c)" "spend_map (m(?k := prune c)) vin = Some (u1, m')"
    using Cons.prems(1) by (auto split: option.splits prod.splits)
  have k: "m ?k \<noteq> coins_empty" using c(1) Spend_empty by fastforce
  then show ?case using Cons.IH [OF c(2)] Cons.prems(2) by (auto split: if_splits)
qed simp

lemma apply_tx_cases:
  assumes "apply_tx nHeight m t = Some (u, m1)"
  obtains ms where "if IsCoinBase (fst t) then ms = m else \<exists>u. spend_map m (tx_vin (fst t)) = Some (u, ms)"
    "m1 = ms(snd t := prune (coins_of_tx (fst t) nHeight))"
  using assms by (auto simp: apply_tx_def split: option.splits prod.splits if_splits)

lemma apply_txs_from:
  "apply_txs nHeight m ts = Some (us, m') \<Longrightarrow> IsAvailable (m' h) n \<Longrightarrow>
     (\<exists>t\<in>set ts. snd t = h \<and> IsAvailable (coins_of_tx (fst t) nHeight) n) \<or> IsAvailable (m h) n"
proof (induction ts arbitrary: m us)
  case (Cons t ts)
  obtain u m1 us1 where a: "apply_tx nHeight m t = Some (u, m1)" "apply_txs nHeight m1 ts = Some (us1, m')"
    using Cons.prems(1) by (auto split: option.splits prod.splits)
  obtain ms where ms: "if IsCoinBase (fst t) then ms = m else \<exists>u. spend_map m (tx_vin (fst t)) = Some (u, ms)"
      "m1 = ms(snd t := prune (coins_of_tx (fst t) nHeight))" by (rule apply_tx_cases [OF a(1)])
  have "IsAvailable (ms h) n \<Longrightarrow> IsAvailable (m h) n" using ms(1) spend_map_from by (auto split: if_splits)
  then show ?case using Cons.IH [OF a(2) Cons.prems(2)] db.IsAvailable_prune by (auto simp: ms(2) split: if_splits)
qed simp

text \<open>The transaction that an input of the block spends is older, or stands before it in the block.\<close>

lemma apply_txs_order:
  "apply_txs nHeight m ts = Some (us, m') \<Longrightarrow> i < length ts \<Longrightarrow> \<not> IsCoinBase (fst (ts ! i)) \<Longrightarrow>
     txin \<in> set (tx_vin (fst (ts ! i))) \<Longrightarrow> m (o_hash (i_prevout txin)) \<noteq> coins_empty \<or> (\<exists>j<i. snd (ts ! j) = o_hash (i_prevout txin))"
proof (induction ts arbitrary: m us i)
  case (Cons t ts)
  let ?H = "o_hash (i_prevout txin)"
  obtain u m1 us1 where a: "apply_tx nHeight m t = Some (u, m1)" "apply_txs nHeight m1 ts = Some (us1, m')"
    using Cons.prems(1) by (auto split: option.splits prod.splits)
  obtain ms where ms: "if IsCoinBase (fst t) then ms = m else \<exists>u. spend_map m (tx_vin (fst t)) = Some (u, ms)"
      "m1 = ms(snd t := prune (coins_of_tx (fst t) nHeight))" by (rule apply_tx_cases [OF a(1)])
  show ?case
  proof (cases i)
    case 0
    then show ?thesis using ms(1) spend_map_present Cons.prems(3,4) by (auto split: if_splits)
  next
    case (Suc j)
    have "m1 ?H \<noteq> coins_empty \<or> (\<exists>k<j. snd (ts ! k) = ?H)"
      using Cons.IH [OF a(2), of j] Cons.prems Suc by simp
    moreover have "ms ?H \<noteq> coins_empty \<Longrightarrow> m ?H \<noteq> coins_empty" using ms(1) spend_map_empty by (auto split: if_splits)
    ultimately have "m ?H \<noteq> coins_empty \<or> snd ((t # ts) ! 0) = ?H \<or> (\<exists>k<j. snd ((t # ts) ! Suc k) = ?H)"
      by (cases "?H = snd t"; cases "ms ?H = coins_empty") (simp_all add: ms(2))
    then show ?thesis using Suc by (metis Suc_mono zero_less_Suc)
  qed
qed simp


section \<open>Taking a block back\<close>

lemma takeWhile_nth: "distinct xs \<Longrightarrow> i < length xs \<Longrightarrow> length (takeWhile (\<lambda>x. x \<noteq> xs ! i) xs) = i"
  by (induction xs arbitrary: i) (auto simp: nth_Cons' split: if_splits)

text \<open>The pool of the longer chain, while none of the block is offered yet: good but for the outputs of the
  block, if it spends none of the coinbase.\<close>

lemma pending_start:
  assumes good: "pool_good hs m p" and app: "apply_txs nHeight m0 (map (\<lambda>tx. (tx, tx_GetHash hs tx)) vtx) = Some (us, m)"
    and block: "distinct (map (tx_GetHash hs) vtx)" "\<forall>tx\<in>set vtx. m0 (tx_GetHash hs tx) = coins_empty"
    and fresh: "\<forall>h e. map_of (mp_mapTx p) h = Some e \<longrightarrow> m0 h = coins_empty \<and> h \<notin> tx_GetHash hs ` set vtx"
    and coinbase: "\<forall>h e. map_of (mp_mapTx p) h = Some e \<longrightarrow> (\<forall>txin\<in>set (tx_vin (me_tx e)). \<forall>tx\<in>set vtx.
      IsCoinBase tx \<longrightarrow> o_hash (i_prevout txin) \<noteq> tx_GetHash hs tx)"
  shows "pool_pending hs m0 (filter (\<lambda>tx. \<not> IsCoinBase tx) vtx) p"
proof -
  let ?T = "filter (\<lambda>tx. \<not> IsCoinBase tx) vtx" and ?H = "map (tx_GetHash hs) vtx"
  note p = pool_goodD [OF good]
  obtain r0 N where r0: "ranked r0 N p" using p(4) by blast
  define r where "r h = (if map_of (mp_mapTx p) h \<noteq> None then length vtx + 1 + r0 h
    else if h \<in> set ?H then Suc (length (takeWhile (\<lambda>x. x \<noteq> h) ?H)) else 0)" for h
  have pos: "r (tx_GetHash hs (vtx ! i)) = Suc i" if i: "i < length vtx" for i
    using takeWhile_nth [OF block(1), of i] i fresh
    by (cases "map_of (mp_mapTx p) (tx_GetHash hs (vtx ! i))") (auto simp: r_def)
  have low: "map_of (mp_mapTx p) h = None \<Longrightarrow> r h \<le> length vtx" for h
    using takeWhile_nth [OF block(1)] by (auto simp: r_def in_set_conv_nth)
  have "ranked r (length vtx + 1 + N) p"
    unfolding ranked_def
  proof (intro allI impI conjI ballI)
    fix h e assume h: "map_of (mp_mapTx p) h = Some e"
    show "r h \<le> length vtx + 1 + N" using r0 h by (simp add: r_def ranked_def)
    fix txin assume t: "txin \<in> set (tx_vin (me_tx e))"
    have "r0 (o_hash (i_prevout txin)) < r0 h" using r0 h t by (simp add: ranked_def)
    then show "r (o_hash (i_prevout txin)) < r h" using low [of "o_hash (i_prevout txin)"] h
      by (cases "map_of (mp_mapTx p) (o_hash (i_prevout txin))") (auto simp: r_def)
  qed
  moreover have "r (tx_GetHash hs tx) \<le> length vtx + 1 + N \<and> rank_tx r (tx_GetHash hs tx) tx" if tx: "tx \<in> set ?T" for tx
  proof -
    obtain i where i: "i < length vtx" "tx = vtx ! i" using tx by (auto simp: in_set_conv_nth)
    have "r (o_hash (i_prevout txin)) < Suc i" if t: "txin \<in> set (tx_vin tx)" for txin
    proof -
      let ?K = "o_hash (i_prevout txin)"
      have "m0 ?K \<noteq> coins_empty \<or> (\<exists>j<i. tx_GetHash hs (vtx ! j) = ?K)"
        using apply_txs_order [OF app, of i txin] i t tx by auto
      then show ?thesis
      proof
        assume k: "m0 ?K \<noteq> coins_empty"
        have "map_of (mp_mapTx p) ?K = None" using k fresh by (cases "map_of (mp_mapTx p) ?K") auto
        moreover have "?K \<notin> set ?H" using k block(2) by auto
        ultimately show ?thesis by (simp add: r_def)
      next
        assume "\<exists>j<i. tx_GetHash hs (vtx ! j) = ?K"
        then obtain j where j: "j < i" "?K = tx_GetHash hs (vtx ! j)" by force
        then show ?thesis using pos [of j] i(1) by simp
      qed
    qed
    then show ?thesis using pos [OF i(1)] i by (simp add: rank_tx_def)
  qed
  ultimately have rank: "pending_rank hs ?T r (length vtx + 1 + N) p" by (simp add: pending_rank_def)
  have inputs: "pending_ok hs ?T p m0 txin" if e: "map_of (mp_mapTx p) h = Some e" and t: "txin \<in> set (tx_vin (me_tx e))" for h e txin
  proof (cases "map_of (mp_mapTx p) (o_hash (i_prevout txin))")
    case (Some e')
    then show ?thesis using p(3) [OF e t] by (simp add: pending_ok_def input_ok_def)
  next
    case None
    then have "IsAvailable (m (o_hash (i_prevout txin))) (o_n (i_prevout txin))" using p(3) [OF e t] by (simp add: input_ok_def)
    then consider tx where "tx \<in> set vtx" "tx_GetHash hs tx = o_hash (i_prevout txin)" "IsAvailable (coins_of_tx tx nHeight) (o_n (i_prevout txin))"
      | "IsAvailable (m0 (o_hash (i_prevout txin))) (o_n (i_prevout txin))"
      using apply_txs_from [OF app] by fastforce
    then show ?thesis
    proof cases
      case 1
      then have "\<not> IsCoinBase tx" using coinbase e t by metis
      then show ?thesis using 1 coins_of_tx_avail_height [of tx nHeight _ MEMPOOL_HEIGHT] by (auto simp: pending_ok_def)
    qed (use None in \<open>simp add: pending_ok_def input_ok_def\<close>)
  qed
  have "distinct (map (tx_GetHash hs) ?T)" using block(1) by (simp add: distinct_map_filter)
  then show ?thesis unfolding pool_pending_def using p(1,5) inputs rank fresh block(2) by auto
qed

end
