(* ===== verification/Tip.thy ===== *)
theory Tip imports Main Prelude Reorg Atomic Supply begin

text \<open>
  Moving the tip (\<open>src/src/main.cpp\<close>): \<open>ConnectTip\<close> and \<open>DisconnectTip\<close> on the state they
  share, which is the active chain, the memory pool and the cache of coins in front of the database.
  Reading a block from disk and the number of free bytes on the disk are parameters. The assertions of
  the pool's check are part of the model: an aborted process is a result of its own.
\<close>

section \<open>The state\<close>

record tip_env =
  te_connect :: connect_env
  te_disk :: disk_env
  te_flags :: future_flags
  te_accept :: accept_env
  te_now :: int
  te_adjusted :: int
  te_ReadBlock :: "CBlockIndex \<Rightarrow> CBlock option"
  te_ReadUndo :: "CDiskBlockPos \<Rightarrow> u256 \<Rightarrow> CTxUndo list option"
  te_nFreeBytesAvailable :: u64
  te_fInitialDownload :: bool
  te_fStale :: bool
  te_nCoinCacheSize :: nat

record 'b tip_state =
  ts_chainActive :: CChain
  ts_mempool :: CTxMemPool
  ts_pcoinsTip :: "'b coins_cache"

abbreviation te_hashes :: "tip_env \<Rightarrow> tx_hashes" where "te_hashes e \<equiv> pe_hs (ce_pow (te_connect e))"

section \<open>Operations\<close>

definition GetCacheSize :: "'b coins_cache \<Rightarrow> nat" where "GetCacheSize s = card (dom (ch_cacheCoins s))"

text \<open>The space is asked of the file system; when it does not suffice the node is told to stop, and the
  answer is False. The bytes a cache may take are computed in 32 bits.\<close>

definition nMinDiskSpace :: u64 where "nMinDiskSpace = 52428800"

definition CheckDiskSpace :: "tip_env \<Rightarrow> u64 \<Rightarrow> bool" where
  "CheckDiskSpace e nAdditionalBytes \<longleftrightarrow> \<not> te_nFreeBytesAvailable e < nMinDiskSpace + nAdditionalBytes"

definition cache_bytes :: "'b coins_cache \<Rightarrow> u64" where
  "cache_bytes s = ucast (100 * 2 * 2 * of_nat (GetCacheSize s) :: u32)"

definition WriteChainState :: "tip_env \<Rightarrow> 'b view_ops \<Rightarrow> 'b coins_cache \<Rightarrow> (verdict + unit) \<times> 'b coins_cache" where
  "WriteChainState e W s =
     (if \<not> te_fInitialDownload e \<or> GetCacheSize s > te_nCoinCacheSize e \<or> te_fStale e then
        if \<not> CheckDiskSpace e (cache_bytes s) then (Inl Failed, s)
        else (case cache_Flush W s of (False, s) \<Rightarrow> (Inl Failed, s) | (True, s) \<Rightarrow> (Inr (), s))
      else (Inr (), s))"

definition UpdateTip :: "block_ptr \<Rightarrow> 'b tip_state \<Rightarrow> 'b tip_state" where
  "UpdateTip p st = st\<lparr>ts_chainActive := fst (SetTip (ts_chainActive st) p),
     ts_mempool := AddTransactionsUpdated 1 (ts_mempool st)\<rparr>"

text \<open>\<open>view.Flush\<close> into the cache of the tip, then \<open>WriteChainState\<close>.\<close>

definition write_view :: "tip_env \<Rightarrow> 'b view_ops \<Rightarrow> 'b coins_cache coins_cache \<Rightarrow> (verdict + unit) \<times> 'b coins_cache" where
  "write_view e W view =
     (case cache_Flush (cache_ops W) view of
        (False, view) \<Rightarrow> (Inl Aborted, ch_base view) | (True, view) \<Rightarrow> WriteChainState e W (ch_base view))"

text \<open>The transactions that left the pool in conflict with the block, for the wallets.\<close>

definition ConnectTip ::
    "tip_env \<Rightarrow> 'b view_ops \<Rightarrow> block_ptr \<Rightarrow> 'b tip_state \<Rightarrow> (verdict + CTransaction list) \<times> 'b tip_state" where
  "ConnectTip e W pindexNew st =
     (let hs = te_hashes e; pool = ts_mempool st in
      if tl pindexNew \<noteq> chain_Tip (ts_chainActive st) then (Inl Aborted, st)
      else case pool_check hs W pool (ts_pcoinsTip st) of None \<Rightarrow> (Inl Aborted, st)
      | Some tip \<Rightarrow>
        (case te_ReadBlock e (hd pindexNew) of None \<Rightarrow> (Inl Failed, st\<lparr>ts_pcoinsTip := tip\<rparr>)
         | Some block \<Rightarrow>
           (case ConnectBlock (te_connect e) (te_disk e) (te_now e) (te_adjusted e) (cache_ops W) block pindexNew False
               (te_flags e) (cache_new tip) of
              (Inl v, view) \<Rightarrow> (Inl v, st\<lparr>ts_pcoinsTip := ch_base view\<rparr>)
            | (Inr (pindexNew, vtxundo), view) \<Rightarrow>
              (case write_view e W view of (Inl v, tip) \<Rightarrow> (Inl v, st\<lparr>ts_pcoinsTip := tip\<rparr>)
               | (Inr _, tip) \<Rightarrow>
                 (case pool_block hs (pool_size pool) (bk_vtx block) (pool, []) of
                    None \<Rightarrow> (Inl Aborted, st\<lparr>ts_pcoinsTip := tip\<rparr>)
                  | Some (pool, txConflicted) \<Rightarrow>
                    (case pool_check hs W pool tip of
                       None \<Rightarrow> (Inl Aborted, st\<lparr>ts_pcoinsTip := tip, ts_mempool := pool\<rparr>)
                     | Some tip \<Rightarrow> (Inr txConflicted, UpdateTip pindexNew (st\<lparr>ts_pcoinsTip := tip, ts_mempool := pool\<rparr>))))))))"

text \<open>The transactions of a disconnected block go back to the pool, or what depends on them goes.\<close>

fun resurrect ::
    "accept_env \<Rightarrow> 'b view_ops \<Rightarrow> CTransaction list \<Rightarrow> CTxMemPool \<Rightarrow> 'b \<Rightarrow> (verdict + CTxMemPool) \<times> 'b" where
  "resurrect ae V [] pool b = (Inr pool, b)"
| "resurrect ae V (tx # vtx) pool b =
     (if IsCoinBase tx then resurrect ae V vtx pool b
      else case AcceptToMemoryPool ae V pool b tx False False of
        (Inr pool, fMissing, b) \<Rightarrow> resurrect ae V vtx pool b
      | (Inl v, fMissing, b) \<Rightarrow>
        if v = Aborted \<or> v = Threw then (Inl v, b)
        else case pool_remove (ae_hashes ae) (pool_size pool) tx True (pool, []) of
          None \<Rightarrow> (Inl Aborted, b)
        | Some (pool, removed) \<Rightarrow> resurrect ae V vtx pool b)"

definition tip_accept :: "tip_env \<Rightarrow> CChain \<Rightarrow> accept_env" where
  "tip_accept e v = (te_accept e)\<lparr>ae_height := chain_Height v, ae_hashes := te_hashes e,
     ae_crypto := ce_crypto (te_connect e), ae_mapBlockIndex := ce_mapBlockIndex (te_connect e)\<rparr>"

definition DisconnectTip :: "tip_env \<Rightarrow> 'b view_ops \<Rightarrow> 'b tip_state \<Rightarrow> (verdict + unit) \<times> 'b tip_state" where
  "DisconnectTip e W st =
     (let hs = te_hashes e; pool = ts_mempool st; pindexDelete = chain_Tip (ts_chainActive st) in
      if pindexDelete = [] then (Inl Aborted, st)
      else case pool_check hs W pool (ts_pcoinsTip st) of None \<Rightarrow> (Inl Aborted, st)
      | Some tip \<Rightarrow>
        (case te_ReadBlock e (hd pindexDelete) of None \<Rightarrow> (Inl Failed, st\<lparr>ts_pcoinsTip := tip\<rparr>)
         | Some block \<Rightarrow>
           (case DisconnectBlock (cache_ops W) hs (te_ReadUndo e) block pindexDelete (cache_new tip) of
              (Inl v, view) \<Rightarrow> (Inl v, st\<lparr>ts_pcoinsTip := ch_base view\<rparr>)
            | (Inr False, view) \<Rightarrow> (Inl Failed, st\<lparr>ts_pcoinsTip := ch_base view\<rparr>)
            | (Inr True, view) \<Rightarrow>
              (case write_view e W view of (Inl v, tip) \<Rightarrow> (Inl v, st\<lparr>ts_pcoinsTip := tip\<rparr>)
               | (Inr _, tip) \<Rightarrow>
                 (case resurrect (tip_accept e (ts_chainActive st)) (cache_ops W) (bk_vtx block) pool tip of
                    (Inl v, tip) \<Rightarrow> (Inl v, st\<lparr>ts_pcoinsTip := tip\<rparr>)
                  | (Inr pool, tip) \<Rightarrow>
                    (case pool_check hs W pool tip of
                       None \<Rightarrow> (Inl Aborted, st\<lparr>ts_pcoinsTip := tip, ts_mempool := pool\<rparr>)
                     | Some tip \<Rightarrow> (Inr (), UpdateTip (tl pindexDelete) (st\<lparr>ts_pcoinsTip := tip, ts_mempool := pool\<rparr>))))))))"

section \<open>Acceptance always answers\<close>

text \<open>Inputs whose coins are in the cache: what every look-up at the cache gives, whatever is behind it.\<close>

definition cached :: "'b coins_cache \<Rightarrow> CTxIn \<Rightarrow> bool" where
  "cached s t \<longleftrightarrow> (\<exists>c. ch_cacheCoins s (o_hash (i_prevout t)) = Some c \<and> IsAvailable c (o_n (i_prevout t)))"

lemma cached_GetCoins: "ch_cacheCoins s k = Some c \<Longrightarrow> GetCoins_ref W s k = Some (c, s)"
  by (simp add: GetCoins_ref_def FetchCoins_def)

lemma cached_output: "cached s t \<Longrightarrow> \<exists>out. GetOutputFor W s t = Some (out, s)"
  by (auto simp: cached_def GetOutputFor_def cached_GetCoins)

lemma input_standard_answers: "input_standard c tx i prev \<noteq> None"
  using EvalScript_Abort by (auto simp: input_standard_def Let_def split: prod.split exec.split)

lemma inputs_standard_answers:
  "list_all (cached s) vin \<Longrightarrow> \<exists>b. inputs_standard c W tx i s vin = Some (b, s)"
proof (induction vin arbitrary: i)
  case Nil
  show ?case by (intro exI [of _ True]) simp
next
  case (Cons t vin)
  obtain out where o: "GetOutputFor W s t = Some (out, s)" using cached_output [of s t W] Cons.prems by auto
  obtain b where b: "input_standard c tx i (t_scriptPubKey out) = Some b" using input_standard_answers by blast
  show ?case
  proof (cases b)
    case True
    obtain b' where "inputs_standard c W tx (Suc i) s vin = Some (b', s)" using Cons by fastforce
    then show ?thesis using True o b by (intro exI [of _ b']) simp
  next
    case False
    then show ?thesis using o b by (intro exI [of _ False]) simp
  qed
qed

lemma value_in_answers: "list_all (cached s) vin \<Longrightarrow> \<exists>v. value_in_loop W n s vin = Some (v, s)"
proof (induction vin arbitrary: n)
  case (Cons t vin)
  obtain out where "GetOutputFor W s t = Some (out, s)" using cached_output [of s t W] Cons.prems by auto
  then show ?case using Cons by auto
qed simp

lemma HaveInputs_answers: "HaveInputs W s tx \<noteq> None"
proof -
  obtain b s1 where h: "have_hashes W s (tx_vin tx) = (b, s1)" by fastforce
  then show ?thesis using have_hashes_cached [of W s "tx_vin tx" s1] have_outputs_cached [of "tx_vin tx" s1 W]
    by (cases b) (auto simp: HaveInputs_def)
qed

lemma HaveInputs_again: "list_all (cached s) (tx_vin tx) \<Longrightarrow> HaveInputs W s tx = Some (True, s)"
proof -
  assume c: "list_all (cached s) (tx_vin tx)"
  have "list_all (cached s) vin \<Longrightarrow> have_hashes W s vin = (True, s)" for vin
    by (induction vin) (auto simp: cached_def cache_HaveCoins_def FetchCoins_def)
  moreover have "list_all (cached s) vin \<Longrightarrow> have_outputs W s vin = Some (True, s)" for vin
    by (induction vin) (auto simp: cached_def cached_GetCoins)
  ultimately show ?thesis using c by (simp add: HaveInputs_def)
qed

definition answers :: "verdict + 'a \<Rightarrow> bool" where "answers r \<longleftrightarrow> r \<noteq> Inl Aborted \<and> r \<noteq> Inl Threw"

lemma answers_simps [simp]: "answers (Inr x)" "answers (Inl Failed)" "answers (Inl (DoS n b r f))"
  by (simp_all add: answers_def)

lemma input_values_answers: "list_all (cached s) vin \<Longrightarrow> \<exists>r. input_values W h n s vin = (r, s) \<and> answers r"
proof (induction vin arbitrary: n)
  case (Cons t vin)
  then obtain c where "ch_cacheCoins s (o_hash (i_prevout t)) = Some c" by (auto simp: cached_def)
  then show ?case using Cons by (simp add: cached_GetCoins Let_def)
qed simp

lemma run_check_answers: "\<exists>b. run_check c k = Some b"
  unfolding run_check_def by (rule VerifyScript_not_None [unfolded not_None_eq])

lemma inline_check_answers: "answers (inline_check c coins tx i flags)"
proof -
  obtain a where a: "run_check c (script_check_new coins tx i flags 0) = Some a" using run_check_answers by blast
  obtain b where b: "run_check c (script_check_new coins tx i (flags AND NOT SCRIPT_VERIFY_STRICTENC) 0) = Some b"
    using run_check_answers by blast
  show ?thesis by (cases a; cases b) (simp_all add: inline_check_def a b)
qed

lemma script_checks_answers:
  "list_all (cached s) vin \<Longrightarrow> \<exists>r. script_checks c False W tx flags i s vin = (r, s) \<and> answers r"
proof (induction vin arbitrary: i)
  case (Cons t vin)
  then obtain x where x: "ch_cacheCoins s (o_hash (i_prevout t)) = Some x" by (auto simp: cached_def)
  show ?case
  proof (cases "inline_check c x tx i flags")
    case (Inl v)
    then show ?thesis using inline_check_answers [of c x tx i flags] x by (simp add: cached_GetCoins answers_def)
  next
    case (Inr u)
    then show ?thesis using Cons x by (simp add: cached_GetCoins)
  qed
qed simp

lemma CheckInputs_answers:
  assumes "list_all (cached s) (tx_vin tx)" "\<not> IsCoinBase tx" "GetValueOut tx \<noteq> None"
    "mapBlockIndex (ch_hashBlock s) = Some q" "q \<noteq> []"
  shows "answers (fst (CheckInputs c mapBlockIndex null_view tx s fs flags False))"
proof -
  obtain h s1 where g: "cache_GetBestBlock null_view s = (h, s1)" by fastforce
  then have s1: "h = ch_hashBlock s" "ch_cacheCoins s1 = ch_cacheCoins s"
    by (auto simp: cache_GetBestBlock_def null_view_def split: if_splits)
  have c1: "list_all (cached s1) (tx_vin tx)" using assms(1) s1(2) by (simp add: cached_def list_all_iff)
  obtain r where r: "input_values null_view (height (hd q) + 1) 0 s1 (tx_vin tx) = (r, s1)" "answers r"
    using input_values_answers [OF c1] by blast
  obtain x where x: "script_checks c False null_view tx flags 0 s1 (tx_vin tx) = (x, s1)" "answers x"
    using script_checks_answers [OF c1] by blast
  have f: "answers (fee_checks tx n)" for n using assms(3) by (auto simp: fee_checks_def Let_def)
  show ?thesis
  proof (cases r)
    case (Inl v)
    then show ?thesis using r assms(2,4,5) HaveInputs_again [OF assms(1)] g s1(1) by (simp add: CheckInputs_def answers_def)
  next
    case (Inr n)
    then show ?thesis using r(1) x f [of n] assms(2,4,5) HaveInputs_again [OF assms(1)] g s1(1)
      by (cases "fee_checks tx n") (simp_all add: CheckInputs_def answers_def)
  qed
qed

lemma CheckTransaction_value:
  assumes "CheckTransaction tx = Inr ()"
  shows "GetValueOut tx \<noteq> None"
proof -
  have z: "MoneyRange 0" by (simp add: MoneyRange_def MAX_MONEY_def COIN_def)
  have "check_values 0 (tx_vout tx) = Inr ()" using assms by (auto simp: CheckTransaction_def split: if_splits sum.splits)
  then have "map_option sint (GetValueOut tx) \<noteq> None"
    using check_values_eq [OF z] value_out_loop_eq [OF z] by (simp add: GetValueOut_def)
  then show ?thesis by auto
qed

lemma accept_checks_answers:
  assumes "list_all (cached s) (tx_vin tx)" "\<not> IsCoinBase tx" "GetValueOut tx \<noteq> None"
    "ae_mapBlockIndex e (ch_hashBlock s) = Some q" "q \<noteq> []"
  shows "answers (accept_checks e tx limit insane s)"
proof -
  obtain b where b: "AreInputsStandard (ae_crypto e) null_view tx s = Some (b, s)"
    using inputs_standard_answers [OF assms(1)] assms(2) unfolding AreInputsStandard_def by fastforce
  obtain v where v: "GetValueIn null_view s tx = Some (v, s)"
    using value_in_answers [OF assms(1)] assms(2) unfolding GetValueIn_def by fastforce
  obtain w where w: "GetValueOut tx = Some w" using assms(3) by blast
  have fee: "answers (accept_fee e tx limit insane n)" for n by (simp add: accept_fee_def)
  have ci: "answers (fst (CheckInputs (ae_crypto e) (ae_mapBlockIndex e) null_view tx s True accept_flags False))"
    by (rule CheckInputs_answers [OF assms(1-3) _ assms(5)]) (rule assms(4))
  show ?thesis using b v w fee [of "v - w"] ci
    by (cases b; cases "accept_fee e tx limit insane (v - w)";
        cases "fst (CheckInputs (ae_crypto e) (ae_mapBlockIndex e) null_view tx s True accept_flags False)")
      (simp_all add: accept_checks_def Let_def answers_def)
qed

section \<open>Offering the transactions of a block again\<close>

lemma HaveInputs_hash: "HaveInputs W s tx = Some (b, s') \<Longrightarrow> ch_hashBlock s' = ch_hashBlock s"
proof -
  have f: "FetchCoins W s k = (r, s') \<Longrightarrow> ch_hashBlock s' = ch_hashBlock s" for s k r s'
    by (auto simp: FetchCoins_def split: option.splits prod.splits)
  have h: "have_hashes W s vin = (x, s') \<Longrightarrow> ch_hashBlock s' = ch_hashBlock s" for s vin x s'
    by (induction vin arbitrary: s) (auto simp: cache_HaveCoins_def split: prod.splits bool.splits dest!: f)
  have o: "have_outputs W s vin = Some (x, s') \<Longrightarrow> ch_hashBlock s' = ch_hashBlock s" for s vin x s'
    by (induction vin arbitrary: s) (auto simp: GetCoins_ref_def split: prod.splits option.splits if_splits dest!: f)
  show "HaveInputs W s tx = Some (b, s') \<Longrightarrow> ch_hashBlock s' = ch_hashBlock s"
    by (auto simp: HaveInputs_def split: if_splits prod.splits bool.splits dest!: h o)
qed

context coins_view
begin

lemma accept_lookup_hash:
  assumes b: "inv b" and l: "accept_lookup (mempool_view V p) tx hash (cache_new b) = (Inr u, s)" and nc: "\<not> IsCoinBase tx"
  shows "ch_hashBlock s = best b" "list_all (cached s) (tx_vin tx)"
proof -
  let ?W = "mempool_view V p"
  obtain s1 s2 s3 where f: "FetchCoins ?W (cache_new b) hash = (None, s1)" "have_hashes ?W s1 (tx_vin tx) = (True, s2)"
      "HaveInputs ?W s2 tx = Some (True, s3)" "s = snd (cache_GetBestBlock ?W s3)"
    using l by (auto simp: accept_lookup_def cache_HaveCoins_def split: prod.splits option.splits bool.splits)
  have "looked_up p b s1" using looked_up_Fetch [OF looked_up_new [OF b] f(1)] by simp
  then have j: "looked_up p b s3" using looked_up_hashes [OF _ f(2)] looked_up_HaveInputs [OF _ f(3)] by blast
  have "ch_hashBlock s1 = 0" using f(1) by (auto simp: FetchCoins_def cache_new_def split: option.splits prod.splits)
  moreover have "have_hashes ?W s vin = (x, s') \<Longrightarrow> ch_hashBlock s' = ch_hashBlock s" for s vin x s'
    by (induction vin arbitrary: s)
      (auto simp: cache_HaveCoins_def FetchCoins_def split: prod.splits bool.splits option.splits)
  ultimately have z: "ch_hashBlock s3 = 0" using f(2) HaveInputs_hash [OF f(3)] by metis
  obtain h b1 where g: "vw_GetBestBlock V (ch_base s3) = (h, b1)" by fastforce
  have "h = best b" using get_best [OF _ g] j by (simp add: looked_up_def)
  then show "ch_hashBlock s = best b" using f(4) z g by (simp add: cache_GetBestBlock_def mempool_view_def)
  have "ch_cacheCoins s = ch_cacheCoins s3" by (auto simp: f(4) cache_GetBestBlock_def split: prod.split)
  then show "list_all (cached s) (tx_vin tx)" using HaveInputs_cached [OF f(3) nc] by (simp add: list_all_iff cached_def)
qed

text \<open>When the index knows the best block, \<open>AcceptToMemoryPool\<close> neither aborts nor throws.\<close>

lemma accept_answers:
  assumes b: "inv b" and q: "ae_mapBlockIndex e (best b) = Some q" "q \<noteq> []"
  shows "answers (fst (AcceptToMemoryPool e V p b tx limit insane))"
proof -
  let ?W = "mempool_view V p" and ?h = "tx_GetHash (ae_hashes e) tx"
  obtain l s where l: "accept_lookup ?W tx ?h (cache_new b) = (l, s)" by fastforce
  have h: "(HaveInputs ?W t tx = None) = False" for t using HaveInputs_answers [of ?W t tx] by blast
  have lk: "l = Inl (v, f) \<Longrightarrow> v \<noteq> Aborted \<and> v \<noteq> Threw" for v f
    using l by (auto simp: accept_lookup_def h split: prod.splits bool.splits option.splits)
  have ck: "answers (accept_checks e tx limit insane s)" if x: "l = Inr u" "\<not> IsCoinBase tx" "CheckTransaction tx = Inr ()" for u
    by (rule accept_checks_answers [OF _ x(2) CheckTransaction_value [OF x(3)] _ q(2)])
      (use accept_lookup_hash [OF b l [unfolded x(1)] x(2)] q(1) in simp_all)
  show ?thesis
    using l lk ck by (auto simp: AcceptToMemoryPool_def Let_def answers_def split: sum.splits prod.splits)
qed

lemma resurrect_good:
  assumes "inv b" "pool_pending (ae_hashes ae) (coins b) (filter (\<lambda>tx. \<not> IsCoinBase tx) vtx) p"
    "\<forall>tx\<in>set vtx. \<not> tx_vector_format tx" "ae_mapBlockIndex ae (best b) = Some q" "q \<noteq> []" "resurrect ae V vtx p b = (r, b')"
  shows "inv b' \<and> coins b' = coins b \<and> best b' = best b \<and> (\<exists>p'. r = Inr p' \<and> pool_good (ae_hashes ae) (coins b) p')"
  using assms
proof (induction vtx arbitrary: p b)
  case Nil
  then show ?case by (auto simp: pool_pending_done)
next
  case (Cons tx vtx)
  let ?hs = "ae_hashes ae" and ?T = "filter (\<lambda>tx. \<not> IsCoinBase tx) vtx"
  have plain: "\<forall>tx\<in>set vtx. \<not> tx_vector_format tx" using Cons.prems(3) by simp
  show ?case
  proof (cases "IsCoinBase tx")
    case True
    then show ?thesis using Cons.IH [OF Cons.prems(1) _ plain Cons.prems(4,5)] Cons.prems(2,6) by simp
  next
    case False
    then have pend: "pool_pending ?hs (coins b) (tx # ?T) p" using Cons.prems(2) by simp
    have fresh: "\<forall>h e. map_of (mp_mapTx p) h = Some e \<longrightarrow> coins b h = coins_empty" using pool_pendingD(3) [OF pend] by blast
    obtain a f b1 where a: "AcceptToMemoryPool ae V p b tx False False = (a, f, b1)" by (metis prod_cases3)
    note res = accept_result [OF Cons.prems(1) fresh a]
    have ans: "answers a" using accept_answers [OF Cons.prems(1,4,5), of p tx False False] a by simp
    have step: ?thesis if x: "pool_pending ?hs (coins b1) ?T x" "resurrect ae V vtx x b1 = (r, b')" for x
      using Cons.IH [OF res(1) x(1) plain _ Cons.prems(5) x(2)] Cons.prems(4) res(2,3) by simp
    show ?thesis
    proof (cases a)
      case (Inr p1)
      then obtain en where en: "p1 = addUnchecked (tx_GetHash ?hs tx) en p" "me_tx en = tx" "CheckTransaction tx = Inr ()"
          "distinct (map i_prevout (tx_vin tx))" "\<forall>txin\<in>set (tx_vin tx). map_of (mp_mapNextTx p) (i_prevout txin) = None"
          "\<forall>txin\<in>set (tx_vin tx). input_ok p (coins b) txin"
        using res(4) by blast
      have "pool_pending ?hs (coins b1) ?T p1" unfolding en(1) res(2) using Cons.prems(3) CheckTransaction_vin [OF en(3)]
        by (intro pending_accepted [OF pend _ _ en(2,4-6)]) simp_all
      then show ?thesis using step [of p1] Cons.prems(6) False a Inr by simp
    next
      case (Inl v)
      obtain x l' where x: "pool_remove ?hs (pool_size p) tx True (p, []) = Some (x, l')" "pool_pending ?hs (coins b) ?T x"
        using pending_refused [OF pend, of "[]"] by blast
      have "resurrect ae V (tx # vtx) p b = resurrect ae V vtx x b1"
        using False ans a Inl x(1) by (simp add: answers_def del: pool_remove.simps)
      then show ?thesis using step [of x] x(2) Cons.prems(6) res(2) by simp
    qed
  qed
qed

end


section \<open>Writing the chain state\<close>

lemma WriteChainState_spec:
  assumes "db.cache_inv c s" "ch_hashBlock s \<noteq> 0" "WriteChainState e (db_ops c) s = (r, t)"
  shows "db.cache_inv c t \<and> db.cache_coins c t = db.cache_coins c s \<and> db.cache_best t = db.cache_best s
    \<and> (r = Inr () \<or> r = Inl Failed \<and> \<not> CheckDiskSpace e (cache_bytes t))"
proof -
  obtain f s1 where f: "cache_Flush (db_ops c) s = (f, s1)" by fastforce
  show ?thesis using db.Flush_spec [OF assms(1,2) f] assms f
    by (auto simp: WriteChainState_def split: if_splits bool.splits)
qed

lemma write_view_spec:
  assumes "tip.cache_inv c view" "ch_hashBlock view \<noteq> 0" "write_view e (db_ops c) view = (r, t)"
  shows "db.cache_inv c t" "db.cache_coins c t = tip.cache_coins c view" "db.cache_best t = tip.cache_best view"
    "r = Inr () \<or> r = Inl Failed \<and> \<not> CheckDiskSpace e (cache_bytes t)"
proof -
  obtain f v where f: "cache_Flush (cache_ops (db_ops c)) view = (f, v)" by fastforce
  note fl = tip.Flush_spec [OF assms(1,2) f]
  have "ch_hashBlock (ch_base v) = ch_hashBlock view"
    using f by (cases view; cases "ch_base view") (auto simp: cache_Flush_def cache_ops_def cache_BatchWrite_def)
  then have "db.cache_inv c t \<and> db.cache_coins c t = db.cache_coins c (ch_base v) \<and> db.cache_best t = db.cache_best (ch_base v)
      \<and> (r = Inr () \<or> r = Inl Failed \<and> \<not> CheckDiskSpace e (cache_bytes t))"
    using fl f assms(2,3) by (intro WriteChainState_spec) (auto simp: write_view_def tip.cache_inv_def)
  then show "db.cache_inv c t" "db.cache_coins c t = tip.cache_coins c view" "db.cache_best t = tip.cache_best view"
      "r = Inr () \<or> r = Inl Failed \<and> \<not> CheckDiskSpace e (cache_bytes t)"
    using fl by auto
qed

section \<open>The best block after a block\<close>

lemma ConnectBlock_hash:
  "ConnectBlock e d n adj V block p False ff s = (Inr (p', us), s') \<Longrightarrow> ch_hashBlock s' = b_hashBlock (hd p')"
  by (auto simp: ConnectBlock_def connect_checked_def connect_finish_def cache_SetBestBlock_def Let_def
      split: sum.splits prod.splits if_splits option.splits bool.splits)

lemma DisconnectBlock_hash:
  "DisconnectBlock V hs R block p s = (Inr f, s') \<Longrightarrow> ch_hashBlock s' = b_hashBlock (hd (tl p))"
  by (auto simp: DisconnectBlock_def cache_SetBestBlock_def Let_def
      split: sum.splits prod.splits if_splits option.splits)

lemma cache_new_spec:
  "tip.cache_inv c (cache_new t) \<longleftrightarrow> db.cache_inv c t" "tip.cache_coins c (cache_new t) = db.cache_coins c t"
  "tip.cache_best (cache_new t) = db.cache_best t"
  by (simp_all add: tip.cache_defs cache_new_def fun_eq_iff)

lemma kept_new: "tip.kept c (cache_new t) view \<Longrightarrow> db.cache_inv c t \<Longrightarrow>
    db.cache_inv c (ch_base view) \<and> db.cache_coins c (ch_base view) = db.cache_coins c t \<and> db.cache_best (ch_base view) = db.cache_best t"
  by (simp add: tip.kept_def cache_new_def)

section \<open>The tip moves as a whole\<close>

definition tip_ok :: "crypto \<Rightarrow> tx_hashes \<Rightarrow> block_ptr \<Rightarrow> coins_db tip_state \<Rightarrow> bool" where
  "tip_ok c hs p st \<longleftrightarrow> wf_ptr p \<and> p \<noteq> [] \<and> ts_chainActive st = path p \<and> db.cache_inv c (ts_pcoinsTip st)
     \<and> db.cache_best (ts_pcoinsTip st) = b_hashBlock (hd p) \<and> b_hashBlock (hd p) \<noteq> 0
     \<and> pool_good hs (db.cache_coins c (ts_pcoinsTip st)) (ts_mempool st)"

abbreviation tip_coins :: "crypto \<Rightarrow> coins_db tip_state \<Rightarrow> ledger" where
  "tip_coins c st \<equiv> db.cache_coins c (ts_pcoinsTip st)"

definition unmoved :: "crypto \<Rightarrow> coins_db tip_state \<Rightarrow> coins_db tip_state \<Rightarrow> bool" where
  "unmoved c st st' \<longleftrightarrow> ts_chainActive st' = ts_chainActive st \<and> ts_mempool st' = ts_mempool st \<and> tip_coins c st' = tip_coins c st
     \<and> db.cache_inv c (ts_pcoinsTip st') \<and> db.cache_best (ts_pcoinsTip st') = db.cache_best (ts_pcoinsTip st)"

text \<open>The coins have moved to \<open>m\<close> with the best block \<open>h\<close>, but the chain and the pool have not: the free space
  of the disk does not suffice to write the cache.\<close>

definition stranded :: "tip_env \<Rightarrow> crypto \<Rightarrow> ledger \<Rightarrow> u256 \<Rightarrow> coins_db tip_state \<Rightarrow> coins_db tip_state \<Rightarrow> bool" where
  "stranded e c m h st st' \<longleftrightarrow> \<not> CheckDiskSpace e (cache_bytes (ts_pcoinsTip st'))
     \<and> ts_chainActive st' = ts_chainActive st \<and> ts_mempool st' = ts_mempool st
     \<and> tip_coins c st' = m \<and> db.cache_inv c (ts_pcoinsTip st') \<and> db.cache_best (ts_pcoinsTip st') = h"

lemma chain_Tip_path: "p \<noteq> [] \<Longrightarrow> chain_Tip (path p) = p" by (simp add: chain_Tip_def)

lemma pool_good_updated: "pool_good hs m (AddTransactionsUpdated n p) \<longleftrightarrow> pool_good hs m p"
  by (simp add: pool_good_def pool_ok_def entry_ok_def next_ok_def input_ok_def ranked_def AddTransactionsUpdated_def)

abbreviation tip_block :: "tip_env \<Rightarrow> crypto \<Rightarrow> CBlock \<Rightarrow> block_ptr \<Rightarrow> coins_db coins_cache \<Rightarrow>
    (verdict + block_ptr \<times> CTxUndo list) \<times> coins_db coins_cache coins_cache" where
  "tip_block e c block p tip \<equiv> ConnectBlock (te_connect e) (te_disk e) (te_now e) (te_adjusted e) (cache_ops (db_ops c)) block p False
     (te_flags e) (cache_new tip)"

text \<open>The block and the pool, with the size of the pool as the fuel.\<close>

lemma tip_pool_block:
  assumes good: "pool_good hs m p" and ids: "distinct (map (tx_GetHash hs) vtx)"
    and new: "\<forall>tx\<in>set vtx. \<not> tx_vector_format tx \<and> m (tx_GetHash hs tx) = coins_empty"
    and same: "\<forall>tx\<in>set vtx. \<forall>e. map_of (mp_mapTx p) (tx_GetHash hs tx) = Some e \<longrightarrow> tx_eq (me_tx e) tx"
    and app: "apply_txs nHeight m (map (\<lambda>tx. (tx, tx_GetHash hs tx)) vtx) = Some (us, m')"
  obtains p' l' where "pool_block hs (pool_size p) vtx (p, []) = Some (p', l')" "pool_good hs m' p'"
    "\<forall>k en. map_of (mp_mapTx p') k = Some en \<longrightarrow> k \<notin> tx_GetHash hs ` set vtx"
proof -
  obtain rk where rk: "ranked rk (pool_size p) p" using ranked_size [OF pool_goodD(1) [OF good]] pool_goodD(4) [OF good] by blast
  obtain p' l' where p': "pool_block hs (pool_size p) vtx (p, []) = Some (p', l')" "pool_good hs m' p'"
      "\<forall>k en. map_of (mp_mapTx p') k = Some en \<longrightarrow> map_of (mp_mapTx p) k = Some en \<and> k \<notin> tx_GetHash hs ` set vtx"
    using pool_block_good [OF good rk order_refl ids new same app, of "[]"] by metis
  show ?thesis by (rule that [OF p'(1,2)]) (use p'(3) in simp)
qed

lemma ConnectTip_spec:
  assumes ok: "tip_ok c (te_hashes e) q st"
    and index: "wf_ptr (b # q)" "b_hashBlock b \<noteq> 0" "b_nFile b \<noteq> - 1" "0 < sint (b_nHeight b)"
    and block: "te_ReadBlock e b = Some block" "block_plain block"
      "header_GetHash (pe_hf (ce_pow (te_connect e))) (bh_pure (bk_header block)) \<noteq> ce_hashGenesis (te_connect e)"
    and same: "\<forall>tx\<in>set (bk_vtx block). \<forall>en. map_of (mp_mapTx (ts_mempool st)) (tx_GetHash (te_hashes e) tx) = Some en \<longrightarrow> tx_eq (me_tx en) tx"
    and run: "ConnectTip e (db_ops c) (b # q) st = (r, st')"
  shows "\<exists>tip. pool_check (te_hashes e) (db_ops c) (ts_mempool st) (ts_pcoinsTip st) = Some tip \<and> (case r of
      Inr txs \<Rightarrow> (\<exists>b' us view. tip_block e c block (b # q) tip = (Inr (b' # q, us), view) \<and> tip_coins c st' = tip.cache_coins c view
          \<and> b_hashBlock b' = b_hashBlock b \<and> tip_ok c (te_hashes e) (b' # q) st')
        \<and> (\<forall>tx\<in>set (bk_vtx block). \<not> pool_exists (ts_mempool st') (tx_GetHash (te_hashes e) tx))
    | Inl v \<Rightarrow> unmoved c st st' \<and> fst (tip_block e c block (b # q) tip) = Inl v
        \<or> v = Failed \<and> (\<exists>b' us view. tip_block e c block (b # q) tip = (Inr (b' # q, us), view)
            \<and> stranded e c (tip.cache_coins c view) (b_hashBlock b) st st'))"
proof -
  let ?hs = "te_hashes e" and ?p = "ts_mempool st"
  note o = ok [unfolded tip_ok_def]
  have tl: "chain_Tip (ts_chainActive st) = q" using o chain_Tip_path by simp
  obtain tip where tip: "pool_check ?hs (db_ops c) ?p (ts_pcoinsTip st) = Some tip" "db.same c (ts_pcoinsTip st) tip"
    using db.pool_check_passes [of c "ts_pcoinsTip st" ?hs ?p] o by blast
  have t: "db.cache_inv c tip" "db.cache_coins c tip = tip_coins c st" "db.cache_best tip = db.cache_best (ts_pcoinsTip st)"
    using tip(2) by (simp_all add: db.same_def)
  obtain a view where cb: "tip_block e c block (b # q) tip = (a, view)" by fastforce
  show ?thesis
  proof (cases a)
    case (Inl v)
    have "unmoved c st (st\<lparr>ts_pcoinsTip := ch_base view\<rparr>)"
      using kept_new [OF tip.kept_ConnectBlock [OF cb] t(1)] t by (simp add: unmoved_def)
    moreover have "r = Inl v" "st' = st\<lparr>ts_pcoinsTip := ch_base view\<rparr>"
      using run tl tip(1) block(1) cb Inl by (simp_all add: ConnectTip_def Let_def)
    moreover have "fst (tip_block e c block (b # q) tip) = Inl v" using cb Inl by simp
    ultimately show ?thesis using tip(1) by auto
  next
    case (Inr x)
    obtain p' us where x: "x = (p', us)" by (cases x)
    note cb = cb [unfolded Inr x]
    define ts where "ts = map (\<lambda>tx. (tx, tx_GetHash ?hs tx)) (bk_vtx block)"
    have dbok: "\<forall>tx\<in>set (bk_vtx block). db_ok (coins_of_tx tx (b_nHeight b))"
      using ConnectBlock_db_ok [OF cb block(2)] index(4) by simp
    obtain vs b' where ef: "apply_txs (b_nHeight b) (tip.cache_coins c (cache_new tip)) ts = Some (vs, tip.cache_coins c view)"
        "tip.cache_inv c view" "tip.cache_best view = b_hashBlock b" "p' = b' # q" "b_hashBlock b' = b_hashBlock b" "b_nHeight b' = b_nHeight b"
        "distinct (map snd ts)" "\<forall>t\<in>set ts. tip.cache_coins c (cache_new tip) (snd t) = coins_empty"
      by (rule tip.ConnectBlock_effect [OF _ cb block(3) dbok index(2,3) ts_def]) (use t(1) cache_new_spec(1) in auto)
    have vh: "ch_hashBlock view \<noteq> 0" using ConnectBlock_hash [OF cb] ef(4,5) index(2) by simp
    have good: "pool_good ?hs (tip_coins c st) ?p" using o by simp
    have ids: "distinct (map (tx_GetHash ?hs) (bk_vtx block))" using ef(7) by (simp add: ts_def comp_def)
    have fresh: "\<forall>tx\<in>set (bk_vtx block). \<not> tx_vector_format tx \<and> tip_coins c st (tx_GetHash ?hs tx) = coins_empty"
      using ef(8) block(2) t(2) by (simp add: ts_def block_plain_def cache_new_spec)
    have app: "apply_txs (b_nHeight b) (tip_coins c st) (map (\<lambda>tx. (tx, tx_GetHash ?hs tx)) (bk_vtx block)) = Some (vs, tip.cache_coins c view)"
      using ef(1) t(2) by (simp add: ts_def cache_new_spec)
    obtain rw tip2 where w: "write_view e (db_ops c) view = (rw, tip2)" by fastforce
    note ws = write_view_spec [OF ef(2) vh w]
    show ?thesis
    proof (cases rw)
      case (Inl v)
      then have v: "v = Failed" "\<not> CheckDiskSpace e (cache_bytes tip2)" using ws(4) by auto
      have res: "r = Inl Failed" "st' = st\<lparr>ts_pcoinsTip := tip2\<rparr>"
        using run tl tip(1) block(1) cb w Inl v(1) by (simp_all add: ConnectTip_def Let_def)
      have "stranded e c (tip.cache_coins c view) (b_hashBlock b) st st'"
        using ws(1-3) ef(3) v(2) by (simp add: stranded_def res)
      then show ?thesis using tip(1) cb ef(4) res(1) by auto
    next
      case (Inr rw1)
      obtain q' l' where pb: "pool_block ?hs (pool_size ?p) (bk_vtx block) (?p, []) = Some (q', l')"
          "pool_good ?hs (tip.cache_coins c view) q'"
          "\<forall>k en. map_of (mp_mapTx q') k = Some en \<longrightarrow> k \<notin> tx_GetHash ?hs ` set (bk_vtx block)"
        by (rule tip_pool_block [OF good ids fresh same app])
      obtain tip3 where pc: "pool_check ?hs (db_ops c) q' tip2 = Some tip3" "db.same c tip2 tip3"
        using db.pool_check_passes [OF ws(1)] pb(2) ws(2) by metis
      have res: "r = Inr l'" "st' = UpdateTip (b' # q) (st\<lparr>ts_pcoinsTip := tip3, ts_mempool := q'\<rparr>)"
        using run tl tip(1) block(1) cb w Inr pb(1) pc(1) ef(4) by (simp_all add: ConnectTip_def Let_def)
      have wf: "wf_ptr (b' # q)" using index(1) ef(6) by (simp add: height_def)
      have "fst (SetTip (path q) (b' # q)) = path (b' # q)" using SetTip_path [OF wf] by blast
      then have "tip_ok c ?hs (b' # q) st'"
        using wf o pc(2) ws pb(2) ef(3,5) index(2) by (simp add: tip_ok_def res UpdateTip_def pool_good_updated db.same_def)
      moreover have "\<forall>tx\<in>set (bk_vtx block). \<not> pool_exists (ts_mempool st') (tx_GetHash ?hs tx)"
        using pb(3) by (fastforce simp: res UpdateTip_def pool_exists_def AddTransactionsUpdated_def)
      moreover have "tip_coins c st' = tip.cache_coins c view" using pc(2) ws(2) by (simp add: res UpdateTip_def db.same_def)
      ultimately show ?thesis using res(1) ef(4,5) tip(1) cb by auto
    qed
  qed
qed

lemma DisconnectTip_spec:
  assumes ok: "tip_ok c (te_hashes e) (b' # q) st"
    and connected: "tip.cache_inv c s0" "ConnectBlock (te_connect e) d n adj (cache_ops (db_ops c)) block (b # q) False ff s0 = (Inr (b' # q, us), s1)"
      "tip.cache_coins c s1 = tip_coins c st" "heights_ok (tip.cache_coins c s0)" "te_ReadUndo e (GetUndoPos b') (b_hashBlock (hd q)) = Some us"
    and index: "q \<noteq> []" "b_hashBlock (hd q) \<noteq> 0" "b_hashBlock b \<noteq> 0" "b_nFile b \<noteq> - 1" "0 < sint (b_nHeight b)"
      "ce_mapBlockIndex (te_connect e) (b_hashBlock (hd q)) = Some q"
    and block: "te_ReadBlock e b' = Some block" "block_plain block"
      "header_GetHash (pe_hf (ce_pow (te_connect e))) (bh_pure (bk_header block)) \<noteq> ce_hashGenesis (te_connect e)"
    and fresh: "\<forall>h en. map_of (mp_mapTx (ts_mempool st)) h = Some en \<longrightarrow>
      tip.cache_coins c s0 h = coins_empty \<and> h \<notin> tx_GetHash (te_hashes e) ` set (bk_vtx block)"
    and coinbase: "\<forall>h en. map_of (mp_mapTx (ts_mempool st)) h = Some en \<longrightarrow> (\<forall>txin\<in>set (tx_vin (me_tx en)). \<forall>tx\<in>set (bk_vtx block).
      IsCoinBase tx \<longrightarrow> o_hash (i_prevout txin) \<noteq> tx_GetHash (te_hashes e) tx)"
    and run: "DisconnectTip e (db_ops c) st = (r, st')"
  shows "case r of
      Inr _ \<Rightarrow> tip_ok c (te_hashes e) q st' \<and> tip_coins c st' = tip.cache_coins c s0
    | Inl v \<Rightarrow> v = Failed \<and> stranded e c (tip.cache_coins c s0) (b_hashBlock (hd q)) st st'"
proof -
  let ?hs = "te_hashes e" and ?p = "ts_mempool st" and ?ae = "tip_accept e (ts_chainActive st)"
  note o = ok [unfolded tip_ok_def]
  have tl: "chain_Tip (ts_chainActive st) = b' # q" using o chain_Tip_path by simp
  obtain tip where tip: "pool_check ?hs (db_ops c) ?p (ts_pcoinsTip st) = Some tip" "db.same c (ts_pcoinsTip st) tip"
    using db.pool_check_passes [of c "ts_pcoinsTip st" ?hs ?p] o by blast
  have t: "db.cache_inv c tip" "db.cache_coins c tip = tip_coins c st" "db.cache_best tip = b_hashBlock b'"
    using tip(2) o by (simp_all add: db.same_def)
  define ts where "ts = map (\<lambda>tx. (tx, tx_GetHash ?hs tx)) (bk_vtx block)"
  have dbok: "\<forall>tx\<in>set (bk_vtx block). db_ok (coins_of_tx tx (b_nHeight b))" "b_nHeight b \<noteq> 0"
    using ConnectBlock_db_ok [OF connected(2) block(2)] index(5) by auto
  obtain vs where ef: "apply_txs (b_nHeight b) (tip.cache_coins c s0) ts = Some (vs, tip.cache_coins c s1)"
      "tip.cache_best s1 = b_hashBlock b" "tip.cache_best s0 = b_hashBlock (hd q)" "b_hashBlock b' = b_hashBlock b"
      "distinct (map snd ts)" "\<forall>t\<in>set ts. tip.cache_coins c s0 (snd t) = coins_empty"
    by (rule tip.ConnectBlock_effect [OF connected(1,2) block(3) dbok(1) index(3,4) ts_def]) (use index(1) in auto)
  obtain view where db: "DisconnectBlock (cache_ops (db_ops c)) ?hs (te_ReadUndo e) block (b' # q) (cache_new tip) = (Inr True, view)"
      "tip.cache_inv c view" "tip.cache_coins c view = tip.cache_coins c s0" "tip.cache_best view = tip.cache_best s0"
    using tip.Disconnect_Connect_at [OF connected(1,2) block(3) dbok(1) index(3,4,1,2) dbok(2) connected(4),
        of "te_ReadUndo e" "cache_new tip"] connected(3,5) t ef(2,4) by (auto simp: cache_new_spec)
  have vh: "ch_hashBlock view \<noteq> 0" using DisconnectBlock_hash [OF db(1)] index(2) by simp
  obtain rw tip2 where w: "write_view e (db_ops c) view = (rw, tip2)" by fastforce
  note ws = write_view_spec [OF db(2) vh w]
  have c2: "db.cache_coins c tip2 = tip.cache_coins c s0" "db.cache_best tip2 = b_hashBlock (hd q)"
    using ws(2,3) db(3,4) ef(3) by simp_all
  have hs: "ae_hashes ?ae = ?hs" "ae_mapBlockIndex ?ae (db.cache_best tip2) = Some q"
    using index(6) c2(2) by (simp_all add: tip_accept_def)
  have "pool_pending ?hs (db.cache_coins c tip2) (filter (\<lambda>tx. \<not> IsCoinBase tx) (bk_vtx block)) ?p"
    unfolding c2(1)
  proof (rule pending_start [OF _ _ _ _ fresh coinbase])
    show "pool_good ?hs (tip_coins c st) ?p" using o by simp
    show "apply_txs (b_nHeight b) (tip.cache_coins c s0) (map (\<lambda>tx. (tx, tx_GetHash ?hs tx)) (bk_vtx block)) = Some (vs, tip_coins c st)"
      using ef(1) connected(3) by (simp add: ts_def)
    show "distinct (map (tx_GetHash ?hs) (bk_vtx block))" using ef(5) by (simp add: ts_def comp_def)
    show "\<forall>tx\<in>set (bk_vtx block). tip.cache_coins c s0 (tx_GetHash ?hs tx) = coins_empty" using ef(6) by (simp add: ts_def)
  qed
  then have pend: "pool_pending (ae_hashes ?ae) (db.cache_coins c tip2) (filter (\<lambda>tx. \<not> IsCoinBase tx) (bk_vtx block)) ?p"
    unfolding hs(1) .
  obtain rr tip3 where rs: "resurrect ?ae (cache_ops (db_ops c)) (bk_vtx block) ?p tip2 = (rr, tip3)" by fastforce
  have plain: "\<forall>tx\<in>set (bk_vtx block). \<not> tx_vector_format tx" using block(2) by (simp add: block_plain_def)
  obtain p2 where g: "db.cache_inv c tip3" "db.cache_coins c tip3 = tip.cache_coins c s0" "db.cache_best tip3 = b_hashBlock (hd q)"
      "rr = Inr p2" "pool_good ?hs (db.cache_coins c tip3) p2"
    using tip.resurrect_good [OF ws(1) pend plain hs(2) index(1) rs] c2 hs(1) by auto
  show ?thesis
  proof (cases rw)
    case (Inl v)
    then have v: "v = Failed" "\<not> CheckDiskSpace e (cache_bytes tip2)" using ws(4) by auto
    have "r = Inl Failed" "st' = st\<lparr>ts_pcoinsTip := tip2\<rparr>"
      using run tl tip(1) block(1) db(1) w Inl v(1) by (simp_all add: DisconnectTip_def Let_def)
    then show ?thesis using ws(1) c2 v(2) by (simp add: stranded_def)
  next
    case (Inr u)
    obtain tip4 where pc: "pool_check ?hs (db_ops c) p2 tip3 = Some tip4" "db.same c tip3 tip4"
      using db.pool_check_passes [OF g(1,5)] by blast
    have res: "r = Inr ()" "st' = UpdateTip q (st\<lparr>ts_pcoinsTip := tip4, ts_mempool := p2\<rparr>)"
      using run tl tip(1) block(1) db(1) w Inr rs g(4) pc(1) by (simp_all add: DisconnectTip_def Let_def)
    have wf: "wf_ptr q" using o by simp
    have "fst (SetTip (path (b' # q)) q) = path q" using SetTip_path [OF wf] by blast
    then have "tip_ok c ?hs q st'"
      using wf o pc(2) g(1-3,5) index(1,2) by (simp add: tip_ok_def res UpdateTip_def pool_good_updated db.same_def)
    then show ?thesis using res pc(2) g(2) by (simp add: UpdateTip_def db.same_def)
  qed
qed

text \<open>Removing with all that depends on it keeps a good pool good.\<close>

lemma remove_good:
  assumes good: "pool_good hs m p" and e: "map_of (mp_mapTx p) h = Some e"
  obtains rem where "pool_remove hs (pool_size p) (me_tx e) True (p, l) = Some (drop_txs (desc p h) (length rem) p, rem @ l)"
    "distinct (map (tx_GetHash hs) rem)" "tx_GetHash hs ` set rem = desc p h" "pool_good hs m (drop_txs (desc p h) (length rem) p)"
proof -
  note p = pool_goodD [OF good]
  obtain r N where r: "ranked r N p" using p(4) by blast
  obtain r' where r': "ranked r' (pool_size p) p" using ranked_size [OF p(1) r] by blast
  obtain rem where rem: "pool_remove hs (pool_size p) (me_tx e) True (p, l) = Some (drop_txs (desc p h) (length rem) p, rem @ l)"
      "distinct (map (tx_GetHash hs) rem)" "tx_GetHash hs ` set rem = desc p h"
    using pool_remove_spec [OF p(1) r' e, of "pool_size p" l] by (auto simp: removes_def)
  let ?q = "drop_txs (desc p h) (length rem) p"
  have "input_ok ?q m txin" if k: "map_of (mp_mapTx p) k = Some ek" "k \<notin> desc p h" and t: "txin \<in> set (tx_vin (me_tx ek))" for k ek txin
  proof (cases "map_of (mp_mapTx p) (o_hash (i_prevout txin))")
    case (Some eH)
    have a: "IsAvailable (coins_of_tx (me_tx eH) MEMPOOL_HEIGHT) (o_n (i_prevout txin))" using p(3) [OF k(1) t] Some by (simp add: input_ok_def)
    then have "k \<in> desc p (o_hash (i_prevout txin))" using child_desc [OF p(1) Some k(1) t refl] coins_of_tx_avail by blast
    then have "o_hash (i_prevout txin) \<notin> desc p h" using k(2) desc_trans by blast
    then show ?thesis using Some a by (simp add: input_ok_def drop_txs_get [OF p(1)])
  qed (use p(3) [OF k(1) t] in \<open>simp add: input_ok_def drop_txs_get [OF p(1)]\<close>)
  moreover have "\<exists>r N. ranked r N ?q" using ranked_drop [OF p(1) r] by blast
  ultimately have "pool_good hs m ?q" unfolding pool_good_def
    using p(2,5) drop_txs_ok [OF p(1)] by (auto simp: drop_txs_get [OF p(1)] split: if_splits)
  with that rem show ?thesis by blast
qed

end
