(* ===== verification/TipProperties.thy ===== *)
theory TipProperties imports Main Prelude Tip begin

text \<open>
  What holds of the memory pool and of the moving tip (\<open>src/src/txmempool.cpp\<close>, \<open>src/src/main.cpp\<close>), with
  a sample state: a chain of a genesis block, three coins, and a pool with a transaction that the
  sample block conflicts with, one that spends it, and an independent one.
\<close>

section \<open>A sample state\<close>

definition demo_tip :: "coins_db coins_cache" where
  "demo_tip = \<lparr> ch_base = \<lparr> db_c = (\<lambda>_. None), db_B = None \<rparr>, ch_hashBlock = 8,
     ch_cacheCoins = (\<lambda>h. if h = 10 \<or> h = 11 \<or> h = 12 then Some demo_coins else None) \<rparr>"

definition demo_spend :: "u256 \<Rightarrow> u64 \<Rightarrow> CTransaction" where
  "demo_spend h v = (block_spend h)\<lparr>tx_vout := [\<lparr> t_nValue = v, t_scriptPubKey = [OP_1] \<rparr>]\<rparr>"

text \<open>A pool with a transaction that the sample block conflicts with, one that spends it, and one that is
  independent.\<close>

definition demo_entry :: "CTransaction \<Rightarrow> CTxMemPoolEntry" where "demo_entry tx = entry_new tx 0 0 1"

definition demo_pool1 :: CTxMemPool where
  "demo_pool1 = addUnchecked 1118 (demo_entry (demo_spend 10 3)) (setSanityCheck True pool_new)"
definition demo_pool2 :: CTxMemPool where "demo_pool2 = addUnchecked 1205 (demo_entry (demo_spend 1118 2)) demo_pool1"
definition demo_pool :: CTxMemPool where "demo_pool = addUnchecked 1124 (demo_entry (demo_spend 12 7)) demo_pool2"

abbreviation demo_ledger3 :: ledger where "demo_ledger3 \<equiv> (\<lambda>_. coins_empty)(10 := demo_coins, 11 := demo_coins, 12 := demo_coins)"

abbreviation demo_hs :: tx_hashes where "demo_hs \<equiv> pe_hs block_env"

lemma demo_tip_ok: "db.cache_inv toy_crypto demo_tip" "db.cache_best demo_tip = 8" "db.cache_coins toy_crypto demo_tip = demo_ledger3"
  using toy_key_compression demo_coins_ok(1,3)
  by (auto simp: db.cache_defs db_inv_def demo_tip_def db_coins_eq live_def fun_eq_iff)

lemma demo_steps:
  "map_of (mp_mapTx (setSanityCheck True pool_new)) 1118 = None" "map_of (mp_mapTx demo_pool1) 1205 = None" "map_of (mp_mapTx demo_pool2) 1124 = None"
  "tx_GetHash demo_hs (me_tx (demo_entry (demo_spend 10 3))) = 1118" "tx_GetHash demo_hs (me_tx (demo_entry (demo_spend 1118 2))) = 1205"
  "tx_GetHash demo_hs (me_tx (demo_entry (demo_spend 12 7))) = 1124"
  "list_all (\<lambda>txin. map_of (mp_mapNextTx (setSanityCheck True pool_new)) (i_prevout txin) = None \<and> input_ok (setSanityCheck True pool_new) demo_ledger3 txin)
    (tx_vin (me_tx (demo_entry (demo_spend 10 3))))"
  "list_all (\<lambda>txin. map_of (mp_mapNextTx demo_pool1) (i_prevout txin) = None \<and> input_ok demo_pool1 demo_ledger3 txin)
    (tx_vin (me_tx (demo_entry (demo_spend 1118 2))))"
  "list_all (\<lambda>txin. map_of (mp_mapNextTx demo_pool2) (i_prevout txin) = None \<and> input_ok demo_pool2 demo_ledger3 txin)
    (tx_vin (me_tx (demo_entry (demo_spend 12 7))))"
  by code_simp+

lemma demo_entry_plain: "\<not> tx_vector_format (me_tx (demo_entry (demo_spend h v)))"
  "distinct (map i_prevout (tx_vin (me_tx (demo_entry (demo_spend h v)))))" "length (tx_vin (me_tx (demo_entry (demo_spend h v)))) < 2 ^ 32"
  by (simp_all add: demo_entry_def entry_new_def demo_spend_def block_spend_def tx_SetNull_def)

lemma demo_pool_good: "pool_good demo_hs demo_ledger3 demo_pool"
proof -
  have new: "pool_good demo_hs demo_ledger3 (setSanityCheck True pool_new)"
    by (simp add: pool_good_def pool_ok_def setSanityCheck_def pool_new_def ranked_def)
  have 1: "pool_good demo_hs demo_ledger3 demo_pool1" unfolding demo_pool1_def
    by (rule addUnchecked_good [OF new demo_steps(1) _ demo_steps(4)]) (use demo_entry_plain demo_steps(7) in \<open>simp_all add: list_all_iff\<close>)
  have 2: "pool_good demo_hs demo_ledger3 demo_pool2" unfolding demo_pool2_def
    by (rule addUnchecked_good [OF 1 demo_steps(2) _ demo_steps(5)]) (use demo_entry_plain demo_steps(8) in \<open>simp_all add: list_all_iff\<close>)
  show ?thesis unfolding demo_pool_def
    by (rule addUnchecked_good [OF 2 demo_steps(3) _ demo_steps(6)]) (use demo_entry_plain demo_steps(9) in \<open>simp_all add: list_all_iff\<close>)
qed

definition demo_accept :: accept_env where
  "demo_accept = \<lparr> ae_crypto = toy_crypto, ae_hashes = demo_hs, ae_mapBlockIndex = ce_mapBlockIndex demo_env, ae_main = False,
     ae_height = 0, ae_adjusted_time = 1000, ae_now = 1000, ae_nMinTxFee = 0, ae_nMinRelayTxFee = 0, ae_rate_limited = (\<lambda>_. False) \<rparr>"

definition demo_tip_env :: "CTxUndo list \<Rightarrow> tip_env" where
  "demo_tip_env us = \<lparr> te_connect = demo_env, te_disk = demo_disk, te_flags = sample_flags, te_accept = demo_accept, te_now = 1000,
     te_adjusted = 1000, te_ReadBlock = (\<lambda>b. Some (sample_block 5)), te_ReadUndo = (\<lambda>pos hash. Some us),
     te_nFreeBytesAvailable = 2 ^ 40, te_fInitialDownload = False, te_fStale = False, te_nCoinCacheSize = 5000 \<rparr>"

definition demo_state :: "coins_db tip_state" where
  "demo_state = \<lparr> ts_chainActive = path [sample_index 0 100 8], ts_mempool = demo_pool, ts_pcoinsTip = demo_tip \<rparr>"

lemma demo_state_ok: "tip_ok toy_crypto demo_hs [sample_index 0 100 8] demo_state"
  using demo_tip_ok demo_pool_good by (simp add: tip_ok_def demo_state_def sample_index_def height_def)

lemma demo_tip_checked:
  "\<not> isl (fst (connect_checked demo_env demo_disk demo_ops demo_block demo_chain False 8 ((cache_new demo_tip)\<lparr>ch_hashBlock := 8\<rparr>)))"
  "pool_check demo_hs (db_ops toy_crypto) demo_pool demo_tip = Some demo_tip"
proof -
  have "pool_check demo_hs (db_ops toy_crypto) demo_pool (demo_tip\<lparr>ch_base := b\<rparr>) = Some (demo_tip\<lparr>ch_base := b\<rparr>)" for b
    by code_simp
  from this [of "ch_base demo_tip"] show "pool_check demo_hs (db_ops toy_crypto) demo_pool demo_tip = Some demo_tip" by (simp add: demo_tip_def)
  show "\<not> isl (fst (connect_checked demo_env demo_disk demo_ops demo_block demo_chain False 8 ((cache_new demo_tip)\<lparr>ch_hashBlock := 8\<rparr>)))"
    by code_simp
qed

definition demo_undo :: "CTxUndo list" where
  "demo_undo = (let u = \<lparr> un_txout = \<lparr> t_nValue = 50, t_scriptPubKey = [OP_1] \<rparr>, un_fCoinBase = False, un_nHeight = 3, un_nVersion = 1 \<rparr> in [[u], [u]])"

lemma demo_tip_connects: "\<exists>p' s'. ConnectBlock demo_env demo_disk 1000 1000 demo_ops (sample_block 5) demo_chain False sample_flags (cache_new demo_tip)
    = (Inr (p', demo_undo), s')"
proof -
  let ?c = "connect_checked demo_env demo_disk demo_ops demo_block demo_chain False 8 ((cache_new demo_tip)\<lparr>ch_hashBlock := 8\<rparr>)"
  have best: "cache_GetBestBlock demo_ops (cache_new demo_tip) = (8, (cache_new demo_tip)\<lparr>ch_hashBlock := 8\<rparr>)"
    by (simp add: cache_GetBestBlock_def demo_tip_def cache_new_def cache_ops_def)
  have "case fst ?c of Inr (p', us) \<Rightarrow> us = demo_undo | Inl _ \<Rightarrow> False" by code_simp
  then obtain p' where "fst ?c = Inr (p', demo_undo)" by (auto split: sum.splits)
  then show ?thesis unfolding demo_connects_on(1) [OF best demo_tip_checked(1)] by (cases ?c) simp
qed

lemma demo_apart: "\<forall>tx\<in>set (bk_vtx (sample_block 5)). \<forall>en. map_of (mp_mapTx demo_pool) (tx_GetHash demo_hs tx) = Some en \<longrightarrow> tx_eq (me_tx en) tx"
proof -
  have "list_all (\<lambda>h. map_of (mp_mapTx demo_pool) h = None) (map (tx_GetHash demo_hs) block_vtx)" by code_simp
  then show ?thesis by (simp add: sample_block_def list_all_iff)
qed

section \<open>Properties\<close>

text \<open>C9: Removing a transaction of a consistent pool together with what depends on it ends, and takes out
  exactly the transaction and those that spend its outputs, directly or through others, each
  once; nothing is left that spends an output which is not there.\<close>

theorem pool_remove_exact:
  assumes "pool_good hs m p" "map_of (mp_mapTx p) h = Some e"
  shows "\<exists>rem p'. pool_remove hs (pool_size p) (me_tx e) True (p, l) = Some (p', rem @ l) \<and> distinct (map (tx_GetHash hs) rem)
    \<and> tx_GetHash hs ` set rem = {k. (spent_by p)\<^sup>*\<^sup>* h k}
    \<and> (\<forall>k. map_of (mp_mapTx p') k = (if (spent_by p)\<^sup>*\<^sup>* h k then None else map_of (mp_mapTx p) k)) \<and> pool_good hs m p'"
proof -
  obtain rem where rem: "pool_remove hs (pool_size p) (me_tx e) True (p, l) = Some (drop_txs (desc p h) (length rem) p, rem @ l)"
      "distinct (map (tx_GetHash hs) rem)" "tx_GetHash hs ` set rem = desc p h" "pool_good hs m (drop_txs (desc p h) (length rem) p)"
    by (rule remove_good [OF assms])
  show ?thesis
    by (rule exI [of _ rem], rule exI [of _ "drop_txs (desc p h) (length rem) p"])
      (use rem in \<open>simp add: drop_txs_get [OF pool_goodD(1) [OF assms(1)]] desc_def del: pool_remove.simps\<close>)
qed

theorem pool_remove_exact_witness:
  "\<exists>rem p'. pool_remove demo_hs 3 (demo_spend 10 3) True (demo_pool, []) = Some (p', rem) \<and> distinct (map (tx_GetHash demo_hs) rem)
    \<and> tx_GetHash demo_hs ` set rem = {k. (spent_by demo_pool)\<^sup>*\<^sup>* 1118 k} \<and> pool_good demo_hs demo_ledger3 p'"
proof -
  have "map_of (mp_mapTx demo_pool) 1118 = Some (demo_entry (demo_spend 10 3))" "pool_size demo_pool = 3"
    "me_tx (demo_entry (demo_spend 10 3)) = demo_spend 10 3" by code_simp+
  then show ?thesis using pool_remove_exact [OF demo_pool_good, of 1118 "demo_entry (demo_spend 10 3)" "[]"] by auto
qed

text \<open>C8: A transaction that \<open>AcceptToMemoryPool\<close> accepts is in the pool afterwards, the pool is consistent
  with the coins of the tip again, and all assertions of the pool's check hold; the coins of the
  tip do not change, whether it is accepted or not.\<close>

theorem AcceptToMemoryPool_consistent:
  assumes "db.cache_inv c tip" "pool_good (ae_hashes e) (db.cache_coins c tip) p" "\<not> tx_vector_format tx"
    "AcceptToMemoryPool e (cache_ops (db_ops c)) p tip tx fLimitFree fRejectInsaneFee = (r, fMissing, tip')"
  shows "db.cache_inv c tip' \<and> db.cache_coins c tip' = db.cache_coins c tip \<and> (case r of Inl v \<Rightarrow> True
    | Inr p' \<Rightarrow> pool_good (ae_hashes e) (db.cache_coins c tip') p' \<and> pool_lookup p' (tx_GetHash (ae_hashes e) tx) = Some tx
        \<and> pool_check (ae_hashes e) (db_ops c) p' tip' \<noteq> None)"
proof -
  note k = tip.accept_keeps [OF assms]
  show ?thesis
  proof (cases r)
    case (Inr p')
    then have "pool_good (ae_hashes e) (db.cache_coins c tip') p'" using k by simp
    then obtain s where "pool_check (ae_hashes e) (db_ops c) p' tip' = Some s" using db.pool_check_passes k by blast
    then show ?thesis using k Inr by simp
  qed (use k in simp)
qed

theorem AcceptToMemoryPool_consistent_witness:
  "\<exists>p' f tip'. AcceptToMemoryPool demo_accept demo_ops demo_pool demo_tip (demo_spend 11 7) True False = (Inr p', f, tip')
    \<and> pool_good demo_hs (db.cache_coins toy_crypto tip') p' \<and> pool_lookup p' 1123 = Some (demo_spend 11 7)
    \<and> pool_check demo_hs (db_ops toy_crypto) p' tip' \<noteq> None"
proof -
  have "\<not> isl (fst (AcceptToMemoryPool demo_accept demo_ops demo_pool demo_tip (demo_spend 11 7) True False))" by code_simp
  then obtain p' f tip' where a: "AcceptToMemoryPool demo_accept demo_ops demo_pool demo_tip (demo_spend 11 7) True False = (Inr p', f, tip')"
    by (cases "AcceptToMemoryPool demo_accept demo_ops demo_pool demo_tip (demo_spend 11 7) True False"; cases "fst (AcceptToMemoryPool demo_accept demo_ops demo_pool demo_tip (demo_spend 11 7) True False)") auto
  have h: "ae_hashes demo_accept = demo_hs" "tx_GetHash demo_hs (demo_spend 11 7) = 1123" "\<not> tx_vector_format (demo_spend 11 7)"
    by (simp add: demo_accept_def, code_simp, code_simp)
  have good: "pool_good (ae_hashes demo_accept) (db.cache_coins toy_crypto demo_tip) demo_pool"
    using demo_pool_good h(1) demo_tip_ok(3) by simp
  have "pool_good demo_hs (db.cache_coins toy_crypto tip') p'" "pool_lookup p' 1123 = Some (demo_spend 11 7)"
      "pool_check demo_hs (db_ops toy_crypto) p' tip' \<noteq> None"
    using AcceptToMemoryPool_consistent [OF demo_tip_ok(1) good h(3) a] unfolding h(1,2) sum.case by blast+
  with a show ?thesis by blast
qed

text \<open>C2: What connecting a block at the tip leaves behind. When \<open>ConnectTip\<close> succeeds, \<open>ConnectBlock\<close>
  accepted the block, both checks of the pool passed, and coins, chain and pool have moved together: the
  coins are those after the block, the chain has the block on top, and the pool is consistent with
  these coins and holds none of the block's transactions. When \<open>ConnectBlock\<close> refuses the block, its verdict is
  returned and coins, chain and pool are as they were. There is one more outcome, which the code does not
  undo: the block is accepted and its coins are written through to the cache of the tip, but the disk
  has too little room to write the cache, and \<open>ConnectTip\<close> fails with the coins after the block and
  the chain and the pool from before it. The block is not the genesis block, and a transaction of
  the pool with the hash of one of the block's is that transaction.\<close>

theorem ConnectTip_outcomes:
  assumes "tip_ok c (te_hashes e) q st"
    "wf_ptr (b # q)" "b_hashBlock b \<noteq> 0" "b_nFile b \<noteq> - 1" "0 < sint (b_nHeight b)"
    "te_ReadBlock e b = Some block" "block_plain block"
    "header_GetHash (pe_hf (ce_pow (te_connect e))) (bh_pure (bk_header block)) \<noteq> ce_hashGenesis (te_connect e)"
    "\<forall>tx\<in>set (bk_vtx block). \<forall>en. map_of (mp_mapTx (ts_mempool st)) (tx_GetHash (te_hashes e) tx) = Some en \<longrightarrow> tx_eq (me_tx en) tx"
    "ConnectTip e (db_ops c) (b # q) st = (r, st')"
  shows "\<exists>tip. pool_check (te_hashes e) (db_ops c) (ts_mempool st) (ts_pcoinsTip st) = Some tip \<and> (case r of
      Inr txs \<Rightarrow> (\<exists>b' us view. tip_block e c block (b # q) tip = (Inr (b' # q, us), view) \<and> tip_coins c st' = tip.cache_coins c view
          \<and> b_hashBlock b' = b_hashBlock b \<and> tip_ok c (te_hashes e) (b' # q) st')
        \<and> (\<forall>tx\<in>set (bk_vtx block). \<not> pool_exists (ts_mempool st') (tx_GetHash (te_hashes e) tx))
    | Inl v \<Rightarrow> unmoved c st st' \<and> fst (tip_block e c block (b # q) tip) = Inl v
        \<or> v = Failed \<and> (\<exists>b' us view. tip_block e c block (b # q) tip = (Inr (b' # q, us), view)
            \<and> stranded e c (tip.cache_coins c view) (b_hashBlock b) st st'))"
  by (rule ConnectTip_spec [OF assms])

lemma demo_te_hashes: "te_hashes (demo_tip_env us) = demo_hs"
  by (simp add: demo_tip_env_def demo_env_def)

lemma demo_connect_hyps:
  "wf_ptr demo_chain" "b_hashBlock (sample_index 1 200 7) \<noteq> 0" "b_nFile (sample_index 1 200 7) \<noteq> - 1"
  "0 < sint (b_nHeight (sample_index 1 200 7))" "te_ReadBlock (demo_tip_env us) b = Some (sample_block 5)"
  "tip_block (demo_tip_env us) toy_crypto (sample_block 5) demo_chain demo_tip
    = ConnectBlock demo_env demo_disk 1000 1000 demo_ops (sample_block 5) demo_chain False sample_flags (cache_new demo_tip)"
  "header_GetHash (pe_hf (ce_pow (te_connect (demo_tip_env us)))) (bh_pure (bk_header (sample_block 5))) \<noteq> ce_hashGenesis (te_connect (demo_tip_env us))"
  using demo_rules(3) by (simp_all add: demo_tip_env_def sample_index_def height_def)

text \<open>The same node with a full disk. The cache never needs more than its 32 bits.\<close>

definition full_disk :: "tip_env \<Rightarrow> tip_env" where "full_disk e = e\<lparr>te_nFreeBytesAvailable := 0\<rparr>"

lemma full_disk_fields [simp]: "te_connect (full_disk e) = te_connect e" "te_ReadBlock (full_disk e) = te_ReadBlock e"
  "te_disk (full_disk e) = te_disk e" "te_now (full_disk e) = te_now e" "te_adjusted (full_disk e) = te_adjusted e"
  "te_flags (full_disk e) = te_flags e" "te_fInitialDownload (full_disk e) = te_fInitialDownload e"
  by (simp_all add: full_disk_def)

lemma need_bound: "unat (cache_bytes s) < 2 ^ 32" "unat (nMinDiskSpace + cache_bytes s) = 52428800 + unat (cache_bytes s)"
proof -
  let ?x = "100 * 2 * 2 * of_nat (GetCacheSize s) :: u32"
  have x: "unat ?x < 4294967296" using unsigned_less [of ?x] by simp
  then have "unat (ucast ?x :: u64) = unat ?x" by (simp add: unsigned_ucast_eq take_bit_nat_eq_self del: of_nat_mult)
  then show u: "unat (cache_bytes s) < 2 ^ 32" using x by (simp add: cache_bytes_def)
  show "unat (nMinDiskSpace + cache_bytes s) = 52428800 + unat (cache_bytes s)"
    using u by (simp add: nMinDiskSpace_def unat_word_ariths)
qed

lemma demo_room: "CheckDiskSpace (demo_tip_env us) (cache_bytes s)" "\<not> CheckDiskSpace (full_disk (demo_tip_env us)) (cache_bytes s)"
  using need_bound [of s] by (simp_all add: CheckDiskSpace_def word_less_nat_alt demo_tip_env_def full_disk_def)

lemma demo_full: "isl (fst (ConnectTip (full_disk (demo_tip_env us)) W p st))"
proof -
  have "\<not> te_fInitialDownload (full_disk (demo_tip_env us))" by (simp add: demo_tip_env_def)
  then have "WriteChainState (full_disk (demo_tip_env us)) W s = (Inl Failed, s)" for s
    using demo_room(2) [of us s] by (simp add: WriteChainState_def)
  then have "isl (fst (write_view (full_disk (demo_tip_env us)) W view))" for view
    by (auto simp: write_view_def split: prod.split bool.split)
  then have "fst (write_view (full_disk (demo_tip_env us)) W view) \<noteq> Inr x" for view x by (metis sum.disc(2))
  then show ?thesis by (auto simp: ConnectTip_def Let_def split: option.splits sum.splits prod.splits) (metis fst_conv)+
qed

theorem ConnectTip_outcomes_witness:
  "(\<exists>txs st' b'. ConnectTip (demo_tip_env demo_undo) (db_ops toy_crypto) demo_chain demo_state = (Inr txs, st')
      \<and> tip_ok toy_crypto demo_hs (b' # [sample_index 0 100 8]) st' \<and> \<not> pool_exists (ts_mempool st') 1119)
    \<and> (\<exists>st'. ConnectTip (full_disk (demo_tip_env demo_undo)) (db_ops toy_crypto) demo_chain demo_state = (Inl Failed, st')
      \<and> ts_chainActive st' = path [sample_index 0 100 8] \<and> db.cache_best (ts_pcoinsTip st') = 7)"
proof -
  have key: "case r of Inr txs \<Rightarrow> (\<exists>b'. tip_ok toy_crypto demo_hs (b' # [sample_index 0 100 8]) st') \<and> \<not> pool_exists (ts_mempool st') 1119
      | Inl v \<Rightarrow> v = Failed \<and> (\<exists>m. stranded e toy_crypto m 7 demo_state st')"
    if e: "e = demo_tip_env demo_undo \<or> e = full_disk (demo_tip_env demo_undo)"
      and run: "ConnectTip e (db_ops toy_crypto) demo_chain demo_state = (r, st')" for e r st'
  proof -
    obtain p' s' where cb: "ConnectBlock demo_env demo_disk 1000 1000 demo_ops (sample_block 5) demo_chain False sample_flags (cache_new demo_tip)
        = (Inr (p', demo_undo), s')" using demo_tip_connects by blast
    have h: "te_hashes e = demo_hs" "te_ReadBlock e (sample_index 1 200 7) = Some (sample_block 5)"
      "header_GetHash (pe_hf (ce_pow (te_connect e))) (bh_pure (bk_header (sample_block 5))) \<noteq> ce_hashGenesis (te_connect e)"
      "fst (tip_block e toy_crypto (sample_block 5) demo_chain demo_tip) = Inr (p', demo_undo)"
      using e demo_te_hashes demo_connect_hyps(5-7) cb by auto
    have same: "\<forall>tx\<in>set (bk_vtx (sample_block 5)). \<forall>en. map_of (mp_mapTx (ts_mempool demo_state)) (tx_GetHash (te_hashes e) tx) = Some en \<longrightarrow> tx_eq (me_tx en) tx"
      using demo_apart by (simp add: h(1) demo_state_def)
    have tip: "pool_check (te_hashes e) (db_ops toy_crypto) (ts_mempool demo_state) (ts_pcoinsTip demo_state) = Some demo_tip"
      using demo_tip_checked(2) by (simp add: h(1) demo_state_def)
    have tx: "block_spend 10 \<in> set (bk_vtx (sample_block 5))" "tx_GetHash demo_hs (block_spend 10) = 1119"
      using sample_ids by (simp_all add: sample_block_def block_vtx_def)
    have "tip_ok toy_crypto (te_hashes e) [sample_index 0 100 8] demo_state" using demo_state_ok by (simp add: h(1))
    from ConnectTip_outcomes [OF this demo_connect_hyps(1-4) h(2) demo_hyps(1) h(3) same run] show ?thesis
      using tip h(1,4) tx by (auto simp: sample_index_def split: sum.splits)
  qed
  obtain r st' where run: "ConnectTip (demo_tip_env demo_undo) (db_ops toy_crypto) demo_chain demo_state = (r, st')" by fastforce
  obtain r2 st2 where run2: "ConnectTip (full_disk (demo_tip_env demo_undo)) (db_ops toy_crypto) demo_chain demo_state = (r2, st2)" by fastforce
  have "isl r2" using demo_full [of demo_undo "db_ops toy_crypto" demo_chain demo_state] run2 by simp
  then have 2: "r2 = Inl Failed" "ts_chainActive st2 = path [sample_index 0 100 8]" "db.cache_best (ts_pcoinsTip st2) = 7"
    using key [OF _ run2] by (auto simp: stranded_def demo_state_def split: sum.splits)
  have "\<not> isl r" using key [OF _ run] demo_room(1) by (auto simp: stranded_def split: sum.splits)
  then show ?thesis using key [OF _ run] run run2 2 by (auto split: sum.splits)
qed

text \<open>C3: Disconnecting the tip is the inverse of connecting it, provided no transaction of the pool spends
  the coinbase of the block. With the block and the undo data as they were written, \<open>DisconnectTip\<close> gives
  back the coins and the chain from before the block and leaves a consistent pool, although its
  transactions may have spent other outputs of the block: whatever becomes of the transactions of the
  block that are offered to the pool again, none of them makes the process abort and both checks of the
  pool hold. The one other outcome is the full disk: the coins are those from before the block, but
  the chain and the pool have not moved. The index knows the block before, and no transaction of the
  pool is in the block or among the coins from before it.\<close>

theorem DisconnectTip_inverse:
  assumes "tip_ok c (te_hashes e) (b' # q) st"
    "tip.cache_inv c s0" "ConnectBlock (te_connect e) d n adj (cache_ops (db_ops c)) block (b # q) False ff s0 = (Inr (b' # q, us), s1)"
    "tip.cache_coins c s1 = tip_coins c st" "heights_ok (tip.cache_coins c s0)" "te_ReadUndo e (GetUndoPos b') (b_hashBlock (hd q)) = Some us"
    "q \<noteq> []" "b_hashBlock (hd q) \<noteq> 0" "b_hashBlock b \<noteq> 0" "b_nFile b \<noteq> - 1" "0 < sint (b_nHeight b)"
    "ce_mapBlockIndex (te_connect e) (b_hashBlock (hd q)) = Some q"
    "te_ReadBlock e b' = Some block" "block_plain block"
    "header_GetHash (pe_hf (ce_pow (te_connect e))) (bh_pure (bk_header block)) \<noteq> ce_hashGenesis (te_connect e)"
    "\<forall>h en. map_of (mp_mapTx (ts_mempool st)) h = Some en \<longrightarrow>
      tip.cache_coins c s0 h = coins_empty \<and> h \<notin> tx_GetHash (te_hashes e) ` set (bk_vtx block)"
    "\<forall>h en. map_of (mp_mapTx (ts_mempool st)) h = Some en \<longrightarrow> (\<forall>txin\<in>set (tx_vin (me_tx en)). \<forall>tx\<in>set (bk_vtx block).
      IsCoinBase tx \<longrightarrow> o_hash (i_prevout txin) \<noteq> tx_GetHash (te_hashes e) tx)"
    "DisconnectTip e (db_ops c) st = (r, st')"
  shows "case r of
      Inr _ \<Rightarrow> tip_ok c (te_hashes e) q st' \<and> tip_coins c st' = tip.cache_coins c s0
    | Inl v \<Rightarrow> v = Failed \<and> stranded e c (tip.cache_coins c s0) (b_hashBlock (hd q)) st st'"
  by (rule DisconnectTip_spec [OF assms])

text \<open>The witness: a pool with a transaction that spends an output of the sample block.\<close>

definition demo_child :: CTxMemPool where
  "demo_child = addUnchecked 1206 (demo_entry (demo_spend 1119 2)) (setSanityCheck True pool_new)"

lemma demo_after_block:
  "case apply_txs 1 demo_ledger3 (map (\<lambda>tx. (tx, tx_GetHash demo_hs tx)) block_vtx) of None \<Rightarrow> False
   | Some (us, m) \<Rightarrow> IsAvailable (m 1119) 0 \<and> m 1206 = coins_empty"
  "tx_GetHash demo_hs (me_tx (demo_entry (demo_spend 1119 2))) = 1206"
  by code_simp+

lemma demo_child_good:
  assumes "IsAvailable (m 1119) 0" "m 1206 = coins_empty"
  shows "pool_good demo_hs m demo_child"
proof -
  have new: "pool_good demo_hs m (setSanityCheck True pool_new)"
    by (simp add: pool_good_def pool_ok_def setSanityCheck_def pool_new_def ranked_def)
  have e: "map_of (mp_mapTx (setSanityCheck True pool_new)) k = None" "map_of (mp_mapNextTx (setSanityCheck True pool_new)) out = None" for k out
    by (simp_all add: setSanityCheck_def pool_new_def)
  show ?thesis unfolding demo_child_def
    by (rule addUnchecked_good [OF new e(1) assms(2) demo_after_block(2)])
      (use demo_entry_plain assms e in \<open>simp_all add: input_ok_def demo_entry_def entry_new_def demo_spend_def block_spend_def tx_SetNull_def\<close>)
qed

lemma demo_child_entry: "map_of (mp_mapTx demo_child) h = Some en \<Longrightarrow> h = 1206 \<and> me_tx en = demo_spend 1119 2"
  by (auto simp: demo_child_def addUnchecked_def setSanityCheck_def pool_new_def demo_entry_def entry_new_def split: if_splits)

theorem DisconnectTip_inverse_witness:
  "\<exists>b' st st'. tip_ok toy_crypto demo_hs (b' # [sample_index 0 100 8]) st \<and> ts_mempool st = demo_child
    \<and> DisconnectTip (demo_tip_env demo_undo) (db_ops toy_crypto) st = (Inr (), st')
    \<and> tip_ok toy_crypto demo_hs [sample_index 0 100 8] st' \<and> tip_coins toy_crypto st' = demo_ledger3"
proof -
  let ?q = "[sample_index 0 100 8]" and ?b = "sample_index 1 200 7" and ?s0 = "cache_new demo_tip"
  obtain p' s1 where cb: "ConnectBlock demo_env demo_disk 1000 1000 demo_ops (sample_block 5) (?b # ?q) False sample_flags ?s0
      = (Inr (p', demo_undo), s1)" using demo_tip_connects by blast
  have s0: "tip.cache_inv toy_crypto ?s0" "tip.cache_coins toy_crypto ?s0 = demo_ledger3"
    using demo_tip_ok by (simp_all add: cache_new_spec)
  have dbok: "\<forall>tx\<in>set (bk_vtx (sample_block 5)). db_ok (coins_of_tx tx (b_nHeight ?b))"
    using ConnectBlock_db_ok [OF cb demo_hyps(1)] by (simp add: sample_index_def)
  have hs: "pe_hs (ce_pow demo_env) = demo_hs" by (simp add: demo_env_def)
  obtain vs b' where ef: "apply_txs (b_nHeight ?b) demo_ledger3 (map (\<lambda>tx. (tx, tx_GetHash demo_hs tx)) block_vtx) = Some (vs, tip.cache_coins toy_crypto s1)"
      "tip.cache_inv toy_crypto s1" "tip.cache_best s1 = 7" "p' = b' # ?q" "b_hashBlock b' = 7" "b_nHeight b' = 1"
    by (rule tip.ConnectBlock_effect [OF s0(1) cb demo_rules(3) dbok _ _ refl]) (auto simp: sample_index_def s0(2) hs sample_block_def)
  have vh: "ch_hashBlock s1 \<noteq> 0" using ConnectBlock_hash [OF cb] ef(4,5) by simp
  have e: "te_hashes (demo_tip_env demo_undo) = demo_hs" "te_connect (demo_tip_env demo_undo) = demo_env"
    "te_ReadUndo (demo_tip_env demo_undo) = (\<lambda>pos hash. Some demo_undo)" "te_ReadBlock (demo_tip_env demo_undo) = (\<lambda>b. Some (sample_block 5))"
    by (simp_all add: demo_tip_env_def demo_env_def)
  obtain rw t where w: "write_view (demo_tip_env demo_undo) (db_ops toy_crypto) s1 = (rw, t)" by fastforce
  note t = write_view_spec [OF ef(2) vh w]
  define st where "st = \<lparr> ts_chainActive = path (b' # ?q), ts_mempool = demo_child, ts_pcoinsTip = t \<rparr>"
  have "pool_good demo_hs (tip.cache_coins toy_crypto s1) demo_child"
    using demo_after_block(1) ef(1) by (intro demo_child_good) (simp_all add: sample_index_def)
  then have ok: "tip_ok toy_crypto (te_hashes (demo_tip_env demo_undo)) (b' # ?q) st"
    using t ef(3,5,6) by (simp add: tip_ok_def st_def e(1) height_def sample_index_def)
  obtain r st' where run: "DisconnectTip (demo_tip_env demo_undo) (db_ops toy_crypto) st = (r, st')" by fastforce
  have "case r of Inr _ \<Rightarrow> tip_ok toy_crypto (te_hashes (demo_tip_env demo_undo)) ?q st' \<and> tip_coins toy_crypto st' = tip.cache_coins toy_crypto ?s0
    | Inl v \<Rightarrow> v = Failed \<and> stranded (demo_tip_env demo_undo) toy_crypto (tip.cache_coins toy_crypto ?s0) (b_hashBlock (hd ?q)) st st'"
  proof (rule DisconnectTip_inverse [OF ok s0(1) _ _ _ _ _ _ _ _ _ _ _ demo_hyps(1) _ _ _ run])
    show "ConnectBlock (te_connect (demo_tip_env demo_undo)) demo_disk 1000 1000 demo_ops (sample_block 5) (?b # ?q) False sample_flags ?s0
        = (Inr (b' # ?q, demo_undo), s1)" using cb ef(4) e(2) by simp
    show "heights_ok (tip.cache_coins toy_crypto ?s0)" by (simp add: heights_ok_def s0(2) demo_coins_def)
    have "tx_GetHash demo_hs ` set (bk_vtx (sample_block 5)) = {2135, 1119, 1120}"
      using sample_ids by (auto simp: sample_block_def simp flip: set_map)
    then show "\<forall>h en. map_of (mp_mapTx (ts_mempool st)) h = Some en \<longrightarrow>
      tip.cache_coins toy_crypto ?s0 h = coins_empty \<and> h \<notin> tx_GetHash (te_hashes (demo_tip_env demo_undo)) ` set (bk_vtx (sample_block 5))"
      by (auto simp: st_def s0(2) e(1) dest!: demo_child_entry)
    have "h \<noteq> 0 \<Longrightarrow> \<not> IsCoinBase (block_spend h)" for h
      by (simp add: IsCoinBase_def block_spend_def outpoint_IsNull_def)
    then have "tx \<in> set (bk_vtx (sample_block 5)) \<Longrightarrow> IsCoinBase tx \<Longrightarrow> tx_GetHash demo_hs tx = 2135" for tx
      using sample_ids by (auto simp: sample_block_def block_vtx_def)
    then show "\<forall>h en. map_of (mp_mapTx (ts_mempool st)) h = Some en \<longrightarrow> (\<forall>txin\<in>set (tx_vin (me_tx en)). \<forall>tx\<in>set (bk_vtx (sample_block 5)).
        IsCoinBase tx \<longrightarrow> o_hash (i_prevout txin) \<noteq> tx_GetHash (te_hashes (demo_tip_env demo_undo)) tx)"
      by (auto simp: st_def e(1) demo_spend_def block_spend_def dest!: demo_child_entry)
  qed (use t demo_rules(3) in \<open>simp_all add: st_def e sample_index_def demo_env_def\<close>)
  then have "r = Inr ()" "tip_ok toy_crypto demo_hs ?q st'" "tip_coins toy_crypto st' = demo_ledger3"
    using demo_room(1) by (auto simp: s0(2) e(1) stranded_def split: sum.splits)
  moreover have "ts_mempool st = demo_child" by (simp add: st_def)
  ultimately show ?thesis using run ok unfolding e(1) by blast
qed

end
