(* ===== verification/Spec2Isabelle.thy ===== *)
theory Spec2Isabelle
  imports Main Prelude Uint256 Compact Serialize Stream Header Tx Merkle Pow AuxPow Chain Difficulty Subsidy Opcodes Script Solver Sighash Interp Block Coins View Connect Ledger Supply CheckQueue Threads Assoc Mempool Policy PoolChain Atomic Reorg Tip TipProperties
begin

text \<open>
  Verification library for the consensus and validation code of Bitmark, the C++ files under
  \<open>src/src\<close>. The program is a node of a block chain with eight proof-of-work algorithms and merge mining:
  it parses blocks and transactions from bytes, checks them on their own, checks the proof of work
  against a target that it computes from the chain, runs the scripts that guard the outputs they
  spend, and moves the set of unspent outputs, the active chain and the pool of unconfirmed
  transactions forward and back as the tip changes.

  How the parts fit. \<open>ConnectTip\<close> and \<open>DisconnectTip\<close> (Tip) act on three things: the active chain (Chain), the
  memory pool (Mempool) and the cache of coins in front of the database (View). They put a second cache
  in front of that one and call \<open>ConnectBlock\<close> or \<open>DisconnectBlock\<close> (Connect) on it. \<open>ConnectBlock\<close> calls \<open>CheckBlock\<close>
  (Block, with Merkle, Tx and AuxPow), the rules of the forks and of the emission (Chain, Subsidy), and
  for every transaction \<open>CheckInputs\<close> and \<open>UpdateCoins\<close>; script checks (Interp, Sighash, Solver, Script,
  Opcodes) run in line or on the queue (CheckQueue). \<open>AcceptToMemoryPool\<close> (Policy) runs the same checks on a
  view with the pool behind the tip.

  Theories, with the files they translate:
  Prelude: names of machine integers, byte strings, readers, generic lemmas.
  Uint256: \<open>uint256.h\<close>, \<open>base_uint\<close> limb by limb. Compact: \<open>SetCompact\<close> and \<open>GetCompact\<close> of \<open>bignum.h\<close> and \<open>core.cpp\<close>.
  Serialize, Stream: \<open>serialize.h\<close>; every encoding is an interpretation of the locales \<open>codec\<close> and
  \<open>canonical_codec\<close>, both streams of \<open>byte_source\<close>.
  Header: \<open>pureheader.h\<close>, \<open>pureheader.cpp\<close>. Tx, Merkle: \<open>core.h\<close>, \<open>core.cpp\<close>, and \<open>CheckTransaction\<close> and the
  partial Merkle tree of \<open>main.cpp\<close>. Pow: \<open>chainparams.h\<close>, \<open>pow.cpp\<close>. AuxPow: merge mining and the block
  in \<open>core.h\<close>, \<open>core.cpp\<close>.
  Chain: the block index, the fork and majority rules and \<open>CChain\<close>. Difficulty, Subsidy: retargeting and emission
  of \<open>main.cpp\<close>; a pointer to an index entry is the list of the entry and its predecessors.
  Opcodes, Script, Solver, Sighash, Interp: \<open>script.h\<close>, \<open>script.cpp\<close>, \<open>keystore.h\<close>.
  Coins, View: \<open>coins.h\<close>, \<open>coins.cpp\<close>, \<open>txdb.cpp\<close>; the contract of a view of the coins is the locale \<open>coins_view\<close>,
  interpreted on the database (\<open>db\<close>), the cache of the tip in front of it (\<open>tip\<close>) and the cache of a block
  in front of that (\<open>tmp\<close>).
  Block, Connect: \<open>main.h\<close>, \<open>main.cpp\<close>, \<open>checkpoints.cpp\<close>. CheckQueue: \<open>checkqueue.h\<close>.
  Assoc: \<open>std::map\<close> as a sorted list. Mempool: \<open>txmempool.h\<close>, \<open>txmempool.cpp\<close>. Policy, Tip: \<open>main.cpp\<close>.
  The others hold no code of the program: Ledger is the abstract map of coins that blocks act on, with
  the refinement of \<open>UpdateCoins\<close>, \<open>ConnectBlock\<close> and \<open>DisconnectBlock\<close> to it; Supply sums the ledger; Threads compares
  the two ways to run script checks; PoolChain and Reorg say when a pool is consistent with a ledger and
  how blocks and acceptance keep it so; Atomic shows that a block leaves the tip alone until it is
  flushed; TipProperties holds a sample state and the properties of pool and tip.

  What the lemmas show. For the encodings: each is read back exactly, and only from what is written. For
  the arithmetic: the limb loops compute the operations on words, amounts and targets stay in range, the
  emission is bounded. For scripts: no assertion fails, limits hold, the standard templates verify exactly
  the right signatures, signatures commit to the transaction. For the coins: caches refine a map, blocks
  neither create value nor lose what undoing them needs. For the tip: success moves coins, chain and pool
  together. For the queue: results and termination over all interleavings. Where the code leaves
  a state behind that is not the one before or after, the property says so: C2 and C3 on a full disk.

  Bounds and fuel. \<open>pool_remove\<close> follows pointers from parents to children and takes fuel; the size of the
  pool is enough in a consistent pool (\<open>ranked_size\<close> of Reorg, C9). The steps of the check queue decrease a measure
  (\<open>cq_work\<close>, C5). The reads of \<open>CBufferedFile\<close> take fuel, one more than the bytes asked for is enough (the
  interpretation \<open>bf\<close> of \<open>byte_source\<close>). \<open>locator_loop\<close> of Chain and \<open>IsMine\<close> of Solver are \<open>partial_function\<close>s: C30 shows
  that the first returns, the second follows scripts that the key store names. All other loops are
  structural or have a termination proof. Words keep the width of the source wherever an operation can wrap;
  amounts of Subsidy are integers, and the conversions that can wrap are stated in C10 and C38.

  Parameters, code that is not under the source or is numeric: the hash functions and elliptic curve (\<open>crypto\<close>,
  \<open>hash_functions\<close>, \<open>tx_hashes\<close>), the Equihash check, the answers of the block files and the block tree database
  (\<open>disk_env\<close>), reading a block, the free bytes of the disk, clocks, the random choice of evicted signatures, the
  rate limiter of free transactions. Hash functions are never assumed injective: a property that needs it names
  the two inputs that collide.

  Deviations of the model. When \<open>ConnectBlock\<close> refuses a block, the scaling factor it wrote to the index entry
  and the clock flags of \<open>CheckBlock\<close> are not returned, and system errors and aborts of the validation state are
  the one verdict \<open>Failed\<close>; a failed assertion is \<open>Aborted\<close>, an exception \<open>Threw\<close>. Writing a batch to the database
  always succeeds, where LevelDB can throw; flushing a cache that does not know its best block leaves the
  best block of the database as it was, in the code as in the model. An input index out of range is unspecified
  in \<open>checklocktime\<close>, as it is undefined in the code; callers pass a valid one. Sums of 64-bit positions in
  \<open>bf_read\<close> and \<open>bf_SetPos\<close> do not wrap, sizes of transactions are not cut to 32 bits, and the counters of the check
  queue do not wrap. The critical sections of the check queue are atomic; the constructor of
  \<open>CCheckQueueControl\<close>, which reads the counters without the mutex, is not modelled. Signals to wallets, warnings,
  benchmarks, floating point priorities, and the flags that \<open>InvalidBlockFound\<close> sets are left out.

  Not modelled: the choice of the best chain and the block files, messages, peers, the wallet, mining, filters,
  the remote interface, start-up and the graphical interface, which are input, output or policy around
  the code above; and vendored code (LevelDB, the hash functions, libsecp256k1, the JSON library).
\<close>

end
